(* ===== verification/Prelude.thy ===== *)
theory Prelude
  imports Main "HOL-Library.Monad_Syntax" "HOL-Library.Word"
begin

text \<open>
  Shared vocabulary of the development.

  A Rust computation that may panic is a value of \<open>'a option\<close>: \<open>None\<close> is the panic (an index
  out of range, a slice with its end before its start, an unsigned subtraction below zero, a failed
  \<open>debug_assert!\<close>) and \<open>Some x\<close> a normal return. The model follows the debug build, where all of
  these are checked; a run that does not panic there computes the same value in a release build.
  \<open>usize\<close> values that index or count elements of a live allocation are \<open>nat\<close>: they are bounded by
  the size of the address space, so their sums cannot overflow. Counters and line numbers with a
  smaller width keep their bound explicitly (\<open>u32_add\<close>, \<open>u64_add\<close>, \<open>as_u32\<close>).

  \<open>runs m Q\<close> says that \<open>m\<close> returns normally and its value satisfies \<open>Q\<close>, so every theorem of this
  form is a total-correctness statement: it excludes panics as well as wrong results.
\<close>

named_theorems wp \<open>rewriting \<open>runs\<close> over the monadic operators\<close>

definition runs :: "'a option \<Rightarrow> ('a \<Rightarrow> bool) \<Rightarrow> bool" where
  "runs m Q = (case m of None \<Rightarrow> False | Some x \<Rightarrow> Q x)"

definition nth_or_panic :: "'a list \<Rightarrow> nat \<Rightarrow> 'a option" where
  "nth_or_panic xs i = (if i < length xs then Some (xs ! i) else None)"

definition slice_or_panic :: "'a list \<Rightarrow> nat \<Rightarrow> nat \<Rightarrow> 'a list option" where
  "slice_or_panic xs a b = (if a \<le> b \<and> b \<le> length xs then Some (take (b - a) (drop a xs)) else None)"

definition usub :: "nat \<Rightarrow> nat \<Rightarrow> nat option" where
  "usub a b = (if b \<le> a then Some (a - b) else None)"

definition dassert :: "bool \<Rightarrow> unit option" where
  "dassert b = (if b then Some () else None)"

definition u32_add :: "nat \<Rightarrow> nat \<Rightarrow> nat option" where
  "u32_add a b = (if a + b < 2 ^ 32 then Some (a + b) else None)"

definition u64_add :: "nat \<Rightarrow> nat \<Rightarrow> nat option" where
  "u64_add a b = (if a + b < 2 ^ 64 then Some (a + b) else None)"

definition as_u32 :: "nat \<Rightarrow> nat" where
  "as_u32 n = n mod 2 ^ 32"

primrec for_each :: "('s \<Rightarrow> 'a \<Rightarrow> 's option) \<Rightarrow> 's \<Rightarrow> 'a list \<Rightarrow> 's option" where
  "for_each f s [] = Some s"
| "for_each f s (x # xs) = f s x \<bind> (\<lambda>s'. for_each f s' xs)"

primrec map_or_panic :: "('a \<Rightarrow> 'b option) \<Rightarrow> 'a list \<Rightarrow> 'b list option" where
  "map_or_panic f [] = Some []"
| "map_or_panic f (x # xs) = f x \<bind> (\<lambda>y. map_or_panic f xs \<bind> (\<lambda>ys. Some (y # ys)))"

primrec find_or_panic :: "('a \<Rightarrow> bool option) \<Rightarrow> 'a list \<Rightarrow> 'a option option" where
  "find_or_panic p [] = Some None"
| "find_or_panic p (x # xs) = p x \<bind> (\<lambda>b. if b then Some (Some x) else find_or_panic p xs)"

subsection \<open>The calculus of \<open>runs\<close>\<close>

lemma runs_Some [simp, wp]: "runs (Some x) Q = Q x"
  by (simp add: runs_def)

lemma runs_None [simp, wp]: "runs None Q = False"
  by (simp add: runs_def)

lemma runs_bind [wp]: "runs (m \<bind> f) Q = runs m (\<lambda>x. runs (f x) Q)"
  by (cases m) simp_all

lemma runs_if [wp]: "runs (if b then m else m') Q = (if b then runs m Q else runs m' Q)"
  by simp

lemma runs_let [wp]: "runs (let x = t in f x) Q = runs (f t) Q"
  by simp

lemma runs_nth [wp]: "runs (nth_or_panic xs i) Q \<longleftrightarrow> i < length xs \<and> Q (xs ! i)"
  by (simp add: nth_or_panic_def)

lemma runs_slice [wp]:
  "runs (slice_or_panic xs a b) Q \<longleftrightarrow> a \<le> b \<and> b \<le> length xs \<and> Q (take (b - a) (drop a xs))"
  by (auto simp: slice_or_panic_def)

lemma runs_usub [wp]: "runs (usub a b) Q \<longleftrightarrow> b \<le> a \<and> Q (a - b)"
  by (simp add: usub_def)

lemma runs_dassert [wp]: "runs (dassert b) Q \<longleftrightarrow> b \<and> Q ()"
  by (simp add: dassert_def)

lemma runs_u32_add [wp]: "runs (u32_add a b) Q \<longleftrightarrow> a + b < 2 ^ 32 \<and> Q (a + b)"
  by (simp add: u32_add_def)

lemma runs_u64_add [wp]: "runs (u64_add a b) Q \<longleftrightarrow> a + b < 2 ^ 64 \<and> Q (a + b)"
  by (simp add: u64_add_def)

lemma runs_mono: "runs m P \<Longrightarrow> (\<And>x. P x \<Longrightarrow> Q x) \<Longrightarrow> runs m Q"
  by (cases m) simp_all

lemma runs_conj: "runs m P \<Longrightarrow> runs m Q \<Longrightarrow> runs m (\<lambda>x. P x \<and> Q x)"
  by (cases m) simp_all

lemma runs_iff: "runs m Q \<longleftrightarrow> (\<exists>x. m = Some x \<and> Q x)"
  by (cases m) simp_all

lemma runs_returns: "runs m Q \<Longrightarrow> \<exists>x. m = Some x"
  by (auto simp: runs_iff)

lemma runs_bindI: "runs m P \<Longrightarrow> (\<And>x. P x \<Longrightarrow> runs (f x) Q) \<Longrightarrow> runs (m \<bind> f) Q"
  by (auto simp: runs_bind intro: runs_mono)

text \<open>A loop keeps an invariant that may speak about the elements still to come.\<close>

lemma runs_for_each:
  assumes "I s xs"
    and "\<And>s x xs. I s (x # xs) \<Longrightarrow> runs (f s x) (\<lambda>s'. I s' xs)"
  shows "runs (for_each f s xs) (\<lambda>s'. I s' [])"
  using assms(1)
proof (induction xs arbitrary: s)
  case Nil
  then show ?case by simp
next
  case (Cons x xs)
  show ?case
    using assms(2) [OF Cons.prems] Cons.IH by (auto intro: runs_bindI)
qed

lemma runs_map_or_panic:
  assumes "\<And>x. x \<in> set xs \<Longrightarrow> runs (f x) (P x)"
  shows "runs (map_or_panic f xs) (\<lambda>ys. list_all2 P xs ys)"
  using assms by (induction xs) (fastforce simp: runs_iff)+

lemma for_each_append:
  "for_each f s (xs @ ys) = for_each f s xs \<bind> (\<lambda>s'. for_each f s' ys)"
  by (induction xs arbitrary: s) auto

lemma as_u32_small [simp]: "n < 2 ^ 32 \<Longrightarrow> as_u32 n = n"
  by (simp add: as_u32_def)

lemma for_each_cong [fundef_cong]:
  "s = s' \<Longrightarrow> xs = xs' \<Longrightarrow> (\<And>s x. x \<in> set xs' \<Longrightarrow> f s x = g s x) \<Longrightarrow> for_each f s xs = for_each g s' xs'"
proof (induction xs arbitrary: s s' xs')
  case Nil
  then show ?case by simp
next
  case (Cons x xs)
  have "for_each f t xs = for_each g t xs" for t
    using Cons.prems by (intro Cons.IH) auto
  with Cons.prems show ?case by auto
qed

lemma runs_find_or_panic:
  "(\<And>x. x \<in> set xs \<Longrightarrow> runs (p x) (\<lambda>_. True)) \<Longrightarrow>
   runs (find_or_panic p xs) (\<lambda>r. \<forall>x. r = Some x \<longrightarrow> x \<in> set xs)"
proof (induction xs)
  case Nil
  then show ?case by simp
next
  case (Cons x xs)
  then have "runs (find_or_panic p xs) (\<lambda>r. \<forall>y. r = Some y \<longrightarrow> y \<in> set xs)" "runs (p x) (\<lambda>_. True)"
    by auto
  then show ?case by (auto simp: runs_iff)
qed

lemma map_or_panic_Some: "(\<And>x. x \<in> set xs \<Longrightarrow> f x = Some (g x)) \<Longrightarrow> map_or_panic f xs = Some (map g xs)"
  by (induction xs) auto

lemma find_or_panic_total: "(\<And>x. x \<in> set xs \<Longrightarrow> p x = Some (f x)) \<Longrightarrow> find_or_panic p xs = Some (find f xs)"
  by (induction xs) auto

text \<open>A loop that appends to its accumulator.\<close>

lemma runs_for_each_collect:
  assumes "\<And>acc x. x \<in> set xs \<Longrightarrow> runs (f acc x) (\<lambda>acc'. \<exists>new. acc' = acc @ new \<and> Q x new)"
  shows "runs (for_each f acc xs) (\<lambda>out. \<exists>news. out = acc @ concat news \<and> list_all2 Q xs news)"
  using assms
proof (induction xs arbitrary: acc)
  case (Cons x xs)
  from Cons.prems [of x acc] obtain new where new: "f acc x = Some (acc @ new)" "Q x new" by (auto simp: runs_iff)
  moreover have "runs (for_each f (acc @ new) xs) (\<lambda>out. \<exists>news. out = (acc @ new) @ concat news \<and> list_all2 Q xs news)"
    using Cons.prems by (intro Cons.IH) auto
  ultimately show ?case by (auto simp: runs_iff intro: exI [of _ "new # _"]) (metis concat.simps(2) append_assoc list_all2_Cons)
qed simp

end
