(* ===== verification/Diff_Range.thy ===== *)
theory Diff_Range
  imports Prelude
begin

text \<open>
  The half-open range pair of \<open>crates/paneflow-textdiff/src/iterable.rs\<close> and the specification of a
  valid diff that every pass of the crate is proved against.

  A diff of two sequences is its list of changed ranges. \<open>diff_path eq xs ys strict i j cs m n\<close> holds
  when \<open>cs\<close> leads from position \<open>(i, j)\<close> to position \<open>(m, n)\<close>: the stretch before each change, between
  two changes and after the last one advances both sides by the same amount over pairwise equal
  elements, each change is a non-empty range pair, and two consecutive changes are separated by at
  least one equal pair (\<open>strict\<close> asks for such a pair before the first change too).
\<close>

section \<open>Ranges\<close>

record range =
  r_start1 :: nat
  r_end1 :: nat
  r_start2 :: nat
  r_end2 :: nat

definition mk_range :: "nat \<Rightarrow> nat \<Rightarrow> nat \<Rightarrow> nat \<Rightarrow> range" where
  "mk_range s1 e1 s2 e2 = \<lparr>r_start1 = s1, r_end1 = e1, r_start2 = s2, r_end2 = e2\<rparr>"

definition range_new :: "nat \<Rightarrow> nat \<Rightarrow> nat \<Rightarrow> nat \<Rightarrow> range option" where
  "range_new s1 e1 s2 e2 = do {
     dassert (s1 \<le> e1 \<and> s2 \<le> e2);
     Some (mk_range s1 e1 s2 e2)
   }"

definition range_is_empty :: "range \<Rightarrow> bool" where
  "range_is_empty r \<longleftrightarrow> r_start1 r = r_end1 r \<and> r_start2 r = r_end2 r"

section \<open>The specification of a valid diff\<close>

definition same_run :: "('a \<Rightarrow> 'b \<Rightarrow> bool) \<Rightarrow> 'a list \<Rightarrow> 'b list \<Rightarrow> nat \<Rightarrow> nat \<Rightarrow> nat \<Rightarrow> bool" where
  "same_run eq xs ys i j n \<longleftrightarrow>
     i + n \<le> length xs \<and> j + n \<le> length ys \<and> (\<forall>k<n. eq (xs ! (i + k)) (ys ! (j + k)))"

definition range_wf :: "range \<Rightarrow> bool" where
  "range_wf r \<longleftrightarrow> r_start1 r \<le> r_end1 r \<and> r_start2 r \<le> r_end2 r \<and> \<not> range_is_empty r"

fun diff_path :: "('a \<Rightarrow> 'b \<Rightarrow> bool) \<Rightarrow> 'a list \<Rightarrow> 'b list \<Rightarrow> bool \<Rightarrow> nat \<Rightarrow> nat \<Rightarrow>
    range list \<Rightarrow> nat \<Rightarrow> nat \<Rightarrow> bool" where
  "diff_path eq xs ys strict i j [] m n \<longleftrightarrow>
     i \<le> m \<and> j \<le> n \<and> m - i = n - j \<and> same_run eq xs ys i j (m - i)"
| "diff_path eq xs ys strict i j (c # cs) m n \<longleftrightarrow>
     i \<le> r_start1 c \<and> j \<le> r_start2 c \<and> r_start1 c - i = r_start2 c - j \<and>
     same_run eq xs ys i j (r_start1 c - i) \<and> (strict \<longrightarrow> i < r_start1 c) \<and> range_wf c \<and>
     diff_path eq xs ys True (r_end1 c) (r_end2 c) cs m n"

definition valid_diff :: "('a \<Rightarrow> 'b \<Rightarrow> bool) \<Rightarrow> 'a list \<Rightarrow> 'b list \<Rightarrow> range list \<Rightarrow> bool" where
  "valid_diff eq xs ys cs \<longleftrightarrow> diff_path eq xs ys False 0 0 cs (length xs) (length ys)"

text \<open>A change is tight when it neither starts nor ends with a pair of equal elements.\<close>

definition tight :: "('a \<Rightarrow> 'b \<Rightarrow> bool) \<Rightarrow> 'a list \<Rightarrow> 'b list \<Rightarrow> range \<Rightarrow> bool" where
  "tight eq xs ys c \<longleftrightarrow> (r_start1 c < r_end1 c \<and> r_start2 c < r_end2 c \<longrightarrow>
     \<not> eq (xs ! r_start1 c) (ys ! r_start2 c) \<and> \<not> eq (xs ! (r_end1 c - 1)) (ys ! (r_end2 c - 1)))"

text \<open>
  The unchanged side of a diff: matched blocks in order. Two neighbouring blocks may touch on both
  sides, since the passes only rely on the blocks being ordered.
\<close>

definition match_block :: "('a \<Rightarrow> 'b \<Rightarrow> bool) \<Rightarrow> 'a list \<Rightarrow> 'b list \<Rightarrow> range \<Rightarrow> bool" where
  "match_block eq xs ys u \<longleftrightarrow>
     r_start1 u < r_end1 u \<and> r_start2 u < r_end2 u \<and>
     r_end1 u - r_start1 u = r_end2 u - r_start2 u \<and>
     same_run eq xs ys (r_start1 u) (r_start2 u) (r_end1 u - r_start1 u)"

definition range_before :: "range \<Rightarrow> range \<Rightarrow> bool" where
  "range_before u v \<longleftrightarrow> r_end1 u \<le> r_start1 v \<and> r_end2 u \<le> r_start2 v"

definition valid_matching :: "('a \<Rightarrow> 'b \<Rightarrow> bool) \<Rightarrow> 'a list \<Rightarrow> 'b list \<Rightarrow> range list \<Rightarrow> bool" where
  "valid_matching eq xs ys us \<longleftrightarrow>
     (\<forall>u\<in>set us. match_block eq xs ys u) \<and> sorted_wrt range_before us"

section \<open>Basic facts\<close>

lemma mk_range_sel [simp]:
  "r_start1 (mk_range a b c d) = a" "r_end1 (mk_range a b c d) = b"
  "r_start2 (mk_range a b c d) = c" "r_end2 (mk_range a b c d) = d"
  by (simp_all add: mk_range_def)

lemma mk_range_eq [simp]: "mk_range (r_start1 r) (r_end1 r) (r_start2 r) (r_end2 r) = r"
  by (simp add: mk_range_def)

lemma runs_range_new [wp]:
  "runs (range_new a b c d) Q \<longleftrightarrow> a \<le> b \<and> c \<le> d \<and> Q (mk_range a b c d)"
  by (simp add: range_new_def runs_bind runs_dassert)

lemma range_is_empty_mk [simp]: "range_is_empty (mk_range a b c d) \<longleftrightarrow> a = b \<and> c = d"
  by (simp add: range_is_empty_def)

lemma range_wf_mk [simp]: "range_wf (mk_range a b c d) \<longleftrightarrow> a \<le> b \<and> c \<le> d \<and> (a < b \<or> c < d)"
  by (auto simp: range_wf_def)

lemma same_run_0 [simp]: "same_run eq xs ys i j 0 \<longleftrightarrow> i \<le> length xs \<and> j \<le> length ys"
  by (simp add: same_run_def)

lemma same_run_add:
  "same_run eq xs ys i j (m + n) \<longleftrightarrow> same_run eq xs ys i j m \<and> same_run eq xs ys (i + m) (j + m) n"
proof
  assume *: "same_run eq xs ys i j (m + n)"
  have "eq (xs ! (i + m + k)) (ys ! (j + m + k))" if "k < n" for k
    using * that by (auto simp: same_run_def add.assoc dest!: spec [of _ "m + k"])
  with * show "same_run eq xs ys i j m \<and> same_run eq xs ys (i + m) (j + m) n"
    by (auto simp: same_run_def)
next
  assume *: "same_run eq xs ys i j m \<and> same_run eq xs ys (i + m) (j + m) n"
  have "eq (xs ! (i + k)) (ys ! (j + k))" if "k < m + n" for k
  proof (cases "k < m")
    case True
    with * show ?thesis by (simp add: same_run_def)
  next
    case False
    then obtain l where "k = m + l" by (metis le_Suc_ex not_less)
    with * that show ?thesis by (simp add: same_run_def add.assoc)
  qed
  with * show "same_run eq xs ys i j (m + n)"
    by (auto simp: same_run_def)
qed

lemma same_run_Suc:
  "same_run eq xs ys i j (Suc n) \<longleftrightarrow> same_run eq xs ys i j n \<and> i + n < length xs \<and>
     j + n < length ys \<and> eq (xs ! (i + n)) (ys ! (j + n))"
  by (auto simp: same_run_def less_Suc_eq)

lemma same_run_sub:
  "same_run eq xs ys i j n \<Longrightarrow> k + l \<le> n \<Longrightarrow> same_run eq xs ys (i + k) (j + k) l"
  by (metis same_run_add le_Suc_ex)

lemma same_run_1: "same_run eq xs ys i j (Suc 0) \<longleftrightarrow>
    i < length xs \<and> j < length ys \<and> eq (xs ! i) (ys ! j)"
  by (auto simp: same_run_def)

lemma same_run_mono:
  "same_run eq xs ys i j n \<Longrightarrow> (\<And>x y. eq x y \<Longrightarrow> eq' x y) \<Longrightarrow> same_run eq' xs ys i j n"
  by (simp add: same_run_def)

lemma same_run_joinI:
  "same_run eq xs ys i j (a - i) \<Longrightarrow> same_run eq xs ys a b (c - a) \<Longrightarrow> i \<le> a \<Longrightarrow> j \<le> b \<Longrightarrow>
   a - i = b - j \<Longrightarrow> a \<le> c \<Longrightarrow> same_run eq xs ys i j (c - i)"
proof -
  assume r: "same_run eq xs ys i j (a - i)" "same_run eq xs ys a b (c - a)"
    and le: "i \<le> a" "j \<le> b" "a - i = b - j" "a \<le> c"
  then obtain k l where "a = i + k" "b = j + k" "c = i + k + l"
    by (metis le_add_diff_inverse)
  with r show ?thesis by (simp add: same_run_add add.assoc)
qed

lemma same_run_map:
  "same_run eq (map f xs) (map g ys) i j n \<longleftrightarrow> same_run (\<lambda>a b. eq (f a) (g b)) xs ys i j n"
  by (auto simp: same_run_def)

lemma same_run_slice:
  "same_run eq (take a (drop i xs)) (take b (drop j ys)) k l n \<Longrightarrow> i \<le> length xs \<Longrightarrow> j \<le> length ys \<Longrightarrow>
   same_run eq xs ys (i + k) (j + l) n"
  by (auto simp: same_run_def add.assoc)

section \<open>Moving along a diff\<close>

lemma diff_path_weaken: "diff_path eq xs ys s i j cs m n \<Longrightarrow> (s' \<Longrightarrow> s) \<Longrightarrow> diff_path eq xs ys s' i j cs m n"
  by (cases cs) auto

lemma diff_path_map:
  "diff_path eq (map f xs) (map g ys) s i j cs m n \<longleftrightarrow> diff_path (\<lambda>a b. eq (f a) (g b)) xs ys s i j cs m n"
  by (induction cs arbitrary: s i j) (auto simp: same_run_map)

lemma valid_diff_map:
  "valid_diff eq (map f xs) (map g ys) cs \<longleftrightarrow> valid_diff (\<lambda>a b. eq (f a) (g b)) xs ys cs"
  by (simp add: valid_diff_def diff_path_map)

lemma diff_path_mono:
  "diff_path eq xs ys s i j cs m n \<Longrightarrow> (\<And>x y. eq x y \<Longrightarrow> eq' x y) \<Longrightarrow> diff_path eq' xs ys s i j cs m n"
  by (induction cs arbitrary: s i j) (auto intro: same_run_mono)

lemma valid_diff_mono:
  "valid_diff eq xs ys cs \<Longrightarrow> (\<And>x y. eq x y \<Longrightarrow> eq' x y) \<Longrightarrow> valid_diff eq' xs ys cs"
  by (auto simp: valid_diff_def intro: diff_path_mono)

lemma valid_diff_members:
  "valid_diff eq xs ys cs \<Longrightarrow> valid_diff (\<lambda>a b. eq a b \<and> a \<in> set xs \<and> b \<in> set ys) xs ys cs"
proof -
  have "diff_path eq xs ys s i j cs m n \<Longrightarrow> diff_path (\<lambda>a b. eq a b \<and> a \<in> set xs \<and> b \<in> set ys) xs ys s i j cs m n" for s i j m n
    by (induction cs arbitrary: s i j) (auto simp: same_run_def)
  then show "valid_diff eq xs ys cs \<Longrightarrow> valid_diff (\<lambda>a b. eq a b \<and> a \<in> set xs \<and> b \<in> set ys) xs ys cs"
    by (simp add: valid_diff_def)
qed

lemma diff_path_Nil_iff:
  "diff_path eq xs ys s i j [] m n \<longleftrightarrow> (\<exists>k. m = i + k \<and> n = j + k \<and> same_run eq xs ys i j k)"
  by (auto simp: le_iff_add)

lemma diff_path_bounds:
  "diff_path eq xs ys s i j cs m n \<Longrightarrow> i \<le> m \<and> j \<le> n \<and> m \<le> length xs \<and> n \<le> length ys"
proof (induction cs arbitrary: s i j)
  case Nil
  then show ?case by (auto simp: same_run_def)
next
  case (Cons c cs)
  from Cons.prems have "range_wf c" and "i \<le> r_start1 c" and "j \<le> r_start2 c"
    and "diff_path eq xs ys True (r_end1 c) (r_end2 c) cs m n" by auto
  with Cons.IH [of True "r_end1 c" "r_end2 c"] show ?case by (auto simp: range_wf_def)
qed

text \<open>Equal elements in front of a diff.\<close>

lemma diff_path_prepend:
  assumes "diff_path eq xs ys s (i + k) (j + k) cs m n" and "same_run eq xs ys i j k"
    and "s' \<Longrightarrow> 0 < k \<or> s"
  shows "diff_path eq xs ys s' i j cs m n"
proof (cases cs)
  case Nil
  with assms show ?thesis
    by (auto simp: diff_path_Nil_iff same_run_add simp del: diff_path.simps)
next
  case (Cons c ds)
  with assms(1) have le: "i + k \<le> r_start1 c" "j + k \<le> r_start2 c"
    and d: "r_start1 c - (i + k) = r_start2 c - (j + k)"
    and r: "same_run eq xs ys (i + k) (j + k) (r_start1 c - (i + k))"
    by auto
  have "same_run eq xs ys i j (r_start1 c - i)"
    using same_run_add [of eq xs ys i j k "r_start1 c - (i + k)"] assms(2) r le by simp
  with Cons assms le d show ?thesis by auto
qed

text \<open>Equal elements after a diff.\<close>

lemma diff_path_extend:
  "diff_path eq xs ys s i j cs m n \<Longrightarrow> same_run eq xs ys m n k \<Longrightarrow>
   diff_path eq xs ys s i j cs (m + k) (n + k)"
proof (induction cs arbitrary: s i j)
  case Nil
  then show ?case
    by (force simp: diff_path_Nil_iff same_run_add add.assoc simp del: diff_path.simps)
next
  case (Cons c cs)
  then show ?case by auto
qed

text \<open>
  \<open>diff_tail_ok\<close>: the diff ends with at least one equal pair, so that a new change may follow.
\<close>

definition diff_tail_ok :: "bool \<Rightarrow> nat \<Rightarrow> range list \<Rightarrow> nat \<Rightarrow> bool" where
  "diff_tail_ok s i cs m \<longleftrightarrow> (if cs = [] then (s \<longrightarrow> i < m) else r_end1 (last cs) < m)"

lemma diff_path_push:
  "diff_path eq xs ys s i j cs m n \<Longrightarrow> diff_tail_ok s i cs m \<Longrightarrow> m \<le> m' \<Longrightarrow> n \<le> n' \<Longrightarrow>
   m < m' \<or> n < n' \<Longrightarrow> m' \<le> length xs \<Longrightarrow> n' \<le> length ys \<Longrightarrow>
   diff_path eq xs ys s i j (cs @ [mk_range m m' n n']) m' n'"
proof (induction cs arbitrary: s i j)
  case Nil
  then show ?case by (auto simp: diff_tail_ok_def)
next
  case (Cons c cs)
  then have "diff_tail_ok True (r_end1 c) cs m"
    by (auto simp: diff_tail_ok_def split: if_splits)
  with Cons show ?case by auto
qed

text \<open>
  A new change of which the first \<open>f\<close> and the last \<open>b\<close> pairs are equal is recorded without them; when
  nothing is left of it, only the equal pairs remain.
\<close>

lemma diff_path_push_tight:
  assumes p: "diff_path eq xs ys s i j cs m n" and t: "diff_tail_ok s i cs m"
    and f: "same_run eq xs ys m n f" and b: "same_run eq xs ys e1 e2 b"
    and le: "m + f \<le> e1" "n + f \<le> e2"
  shows "diff_path eq xs ys s i j
    (if m + f = e1 \<and> n + f = e2 then cs else cs @ [mk_range (m + f) e1 (n + f) e2]) (e1 + b) (e2 + b)"
proof -
  have p': "diff_path eq xs ys s i j cs (m + f) (n + f)"
    using p f by (rule diff_path_extend)
  show ?thesis
  proof (cases "m + f = e1 \<and> n + f = e2")
    case True
    then show ?thesis using diff_path_extend [OF p' , of b] b by simp
  next
    case False
    have t': "diff_tail_ok s i cs (m + f)"
      using t by (auto simp: diff_tail_ok_def split: if_splits)
    have "e1 \<le> length xs" "e2 \<le> length ys"
      using b by (auto simp: same_run_def)
    then have "diff_path eq xs ys s i j (cs @ [mk_range (m + f) e1 (n + f) e2]) e1 e2"
      using False le by (intro diff_path_push [OF p' t']) auto
    then have "diff_path eq xs ys s i j (cs @ [mk_range (m + f) e1 (n + f) e2]) (e1 + b) (e2 + b)"
      using b by (rule diff_path_extend)
    with False show ?thesis by auto
  qed
qed

lemma diff_path_wf: "diff_path eq xs ys s i j cs m n \<Longrightarrow> c \<in> set cs \<Longrightarrow> range_wf c"
  by (induction cs arbitrary: s i j) auto

lemma diff_path_in_bounds:
  "diff_path eq xs ys s i j cs m n \<Longrightarrow> c \<in> set cs \<Longrightarrow>
   i \<le> r_start1 c \<and> j \<le> r_start2 c \<and> r_end1 c \<le> m \<and> r_end2 c \<le> n"
proof (induction cs arbitrary: s i j)
  case Nil
  then show ?case by simp
next
  case (Cons d cs)
  then have "diff_path eq xs ys True (r_end1 d) (r_end2 d) cs m n" "range_wf d"
    "i \<le> r_start1 d" "j \<le> r_start2 d" by auto
  with Cons.IH [of True "r_end1 d" "r_end2 d"] Cons.prems(2) show ?case
    by (auto simp: range_wf_def dest: diff_path_bounds)
qed

lemma tight_map:
  "r_end1 c \<le> length xs \<Longrightarrow> r_end2 c \<le> length ys \<Longrightarrow>
   tight eq (map f xs) (map g ys) c \<longleftrightarrow> tight (\<lambda>a b. eq (f a) (g b)) xs ys c"
  by (auto simp: tight_def)

section \<open>Applying a diff\<close>

text \<open>
  The second text is recovered from the first one by replacing every changed range by its other side:
  what it means for a diff to describe the difference between the two.
\<close>

fun patch :: "'a list \<Rightarrow> 'a list \<Rightarrow> nat \<Rightarrow> range list \<Rightarrow> 'a list" where
  "patch xs ys i [] = drop i xs"
| "patch xs ys i (c # cs) = take (r_start1 c - i) (drop i xs) @
     take (r_end2 c - r_start2 c) (drop (r_start2 c) ys) @ patch xs ys (r_end1 c) cs"

lemma same_run_eq_take: "same_run (=) xs ys i j n \<Longrightarrow> take n (drop i xs) = take n (drop j ys)"
  by (rule nth_equalityI) (auto simp: same_run_def)

lemma take_drop_append: "a \<le> b \<Longrightarrow> take (b - a) (drop a xs) @ drop b xs = drop a xs"
  by (metis append_take_drop_id drop_drop le_add_diff_inverse2)

lemma patch_diff_path:
  "diff_path (=) xs ys s i j cs (length xs) (length ys) \<Longrightarrow> patch xs ys i cs = drop j ys"
proof (induction cs arbitrary: s i j)
  case Nil
  then have "take (length xs - i) (drop i xs) = take (length ys - j) (drop j ys)"
    using same_run_eq_take [of xs ys i j "length xs - i"] by auto
  then show ?case by simp
next
  case (Cons c cs)
  then have c: "range_wf c" "j \<le> r_start2 c" "r_start1 c - i = r_start2 c - j"
    "same_run (=) xs ys i j (r_start1 c - i)"
    and tl: "diff_path (=) xs ys True (r_end1 c) (r_end2 c) cs (length xs) (length ys)" by auto
  have "patch xs ys i (c # cs) = take (r_start2 c - j) (drop j ys) @
      take (r_end2 c - r_start2 c) (drop (r_start2 c) ys) @ drop (r_end2 c) ys"
    using same_run_eq_take [OF c(4)] c(3) Cons.IH [OF tl] by simp
  then show ?case
    using c(1,2) by (simp add: range_wf_def take_drop_append)
qed

lemma patch_valid_diff: "valid_diff (=) xs ys cs \<Longrightarrow> patch xs ys 0 cs = ys"
  using patch_diff_path [of xs ys False 0 0 cs] by (simp add: valid_diff_def)

lemma same_run_cong:
  "same_run eq xs ys i j n \<Longrightarrow> j' + n \<le> length ys' \<Longrightarrow> (\<And>k. k < n \<Longrightarrow> ys' ! (j' + k) = ys ! (j + k)) \<Longrightarrow>
   same_run eq xs ys' i j' n"
  by (auto simp: same_run_def)

lemma diff_path_append:
  "diff_path eq xs ys s i j cs m n \<Longrightarrow> diff_tail_ok s i cs m \<Longrightarrow> diff_path eq xs ys False m n ds p q \<Longrightarrow>
   diff_path eq xs ys s i j (cs @ ds) p q"
proof (induction cs arbitrary: s i j)
  case Nil
  then obtain k where k: "m = i + k" "n = j + k" "same_run eq xs ys i j k"
    by (auto simp: diff_path_Nil_iff simp del: diff_path.simps)
  with Nil show ?case
    using diff_path_prepend [of eq xs ys False i k j ds p q s] by (auto simp: diff_tail_ok_def)
next
  case (Cons c cs)
  then have "diff_tail_ok True (r_end1 c) cs m"
    by (auto simp: diff_tail_ok_def split: if_splits)
  with Cons show ?case by auto
qed

definition move_range :: "nat \<Rightarrow> nat \<Rightarrow> range \<Rightarrow> range" where
  "move_range a c r = mk_range (a + r_start1 r) (a + r_end1 r) (c + r_start2 r) (c + r_end2 r)"

lemma move_range_sel [simp]:
  "r_start1 (move_range a c r) = a + r_start1 r" "r_end1 (move_range a c r) = a + r_end1 r"
  "r_start2 (move_range a c r) = c + r_start2 r" "r_end2 (move_range a c r) = c + r_end2 r"
  by (simp_all add: move_range_def)

lemma diff_path_slice:
  assumes "diff_path eq (take k (drop a xs)) (take l (drop c ys)) s i j cs m n" "a \<le> length xs" "c \<le> length ys"
  shows "diff_path eq xs ys s (a + i) (c + j) (map (move_range a c) cs) (a + m) (c + n)"
  using assms(1)
proof (induction cs arbitrary: s i j)
  case Nil
  then show ?case using assms(2,3) by (auto intro!: same_run_slice)
next
  case (Cons d cs)
  then have "diff_path eq xs ys True (a + r_end1 d) (c + r_end2 d) (map (move_range a c) cs) (a + m) (c + n)"
    by (intro Cons.IH) auto
  with Cons.prems assms(2,3) show ?case
    by (auto simp: range_wf_def range_is_empty_def intro!: same_run_slice)
qed

lemma same_run_at:
  "same_run eq xs ys i j n \<Longrightarrow> j \<le> k \<Longrightarrow> k < j + n \<Longrightarrow> \<exists>l<length xs. eq (xs ! l) (ys ! k)"
proof -
  assume run: "same_run eq xs ys i j n" and k: "j \<le> k" "k < j + n"
  then obtain d where "k = j + d" "d < n" by (metis le_Suc_ex nat_add_left_cancel_less)
  with run show ?thesis by (auto simp: same_run_def intro!: exI [of _ "i + d"])
qed

lemma same_run_append:
  "same_run eq xs (ys @ zs) i j n \<Longrightarrow> j + n \<le> length ys \<Longrightarrow> same_run eq xs ys i j n"
  "same_run eq xs (ys @ zs) i j n \<Longrightarrow> length ys \<le> j \<Longrightarrow> same_run eq xs zs i (j - length ys) n"
  by (auto simp: same_run_def nth_append)

lemma sorted_range_before_map:
  "sorted_wrt range_before us \<Longrightarrow> (\<And>u v. range_before u v \<Longrightarrow> range_before (f u) (f v)) \<Longrightarrow> sorted_wrt range_before (map f us)"
  by (auto simp: sorted_wrt_map elim!: sorted_wrt_mono_rel [rotated])

section \<open>Narrowing the changes\<close>

text \<open>
  A change from which equal pairs are cut off at both ends. Narrowing every change of a diff, and dropping those of which
  nothing is left, gives a diff again: the pairs cut off become part of the matching.
\<close>

definition narrowed :: "('a \<Rightarrow> 'b \<Rightarrow> bool) \<Rightarrow> 'a list \<Rightarrow> 'b list \<Rightarrow> range \<Rightarrow> range \<Rightarrow> bool" where
  "narrowed eq xs ys c r \<longleftrightarrow> (\<exists>f b. r_start1 c + f + b \<le> r_end1 c \<and> r_start2 c + f + b \<le> r_end2 c \<and>
     r = mk_range (r_start1 c + f) (r_end1 c - b) (r_start2 c + f) (r_end2 c - b) \<and>
     same_run eq xs ys (r_start1 c) (r_start2 c) f \<and> same_run eq xs ys (r_end1 c - b) (r_end2 c - b) b)"

lemma diff_path_narrow:
  assumes "diff_path eq xs ys s i j cs m n" "list_all2 (narrowed eq xs ys) cs es"
  shows "diff_path eq xs ys s i j (filter (\<lambda>r. \<not> range_is_empty r) es) m n"
  using assms(2,1)
proof (induction arbitrary: s i j rule: list_all2_induct)
  case Nil
  then show ?case by (simp del: diff_path.simps)
next
  case (Cons c cs r es)
  have tl: "diff_path eq xs ys True (r_end1 c) (r_end2 c) cs m n"
    and pre: "i \<le> r_start1 c" "j \<le> r_start2 c" "r_start1 c - i = r_start2 c - j"
      "same_run eq xs ys i j (r_start1 c - i)" "s \<longrightarrow> i < r_start1 c"
    using Cons.prems by (auto simp: range_wf_def)
  obtain f b where fb: "r_start1 c + f + b \<le> r_end1 c" "r_start2 c + f + b \<le> r_end2 c"
    and r: "r = mk_range (r_start1 c + f) (r_end1 c - b) (r_start2 c + f) (r_end2 c - b)"
    and run: "same_run eq xs ys (r_start1 c) (r_start2 c) f" "same_run eq xs ys (r_end1 c - b) (r_end2 c - b) b"
    using Cons.hyps(1) unfolding narrowed_def by blast
  have behind: "diff_path eq xs ys True (r_end1 c - b) (r_end2 c - b) (filter (\<lambda>r. \<not> range_is_empty r) es) m n"
  proof (rule diff_path_prepend [OF _ run(2)])
    have "r_end1 c - b + b = r_end1 c" "r_end2 c - b + b = r_end2 c" using fb by auto
    with Cons.IH [OF tl] show "diff_path eq xs ys True (r_end1 c - b + b) (r_end2 c - b + b)
        (filter (\<lambda>r. \<not> range_is_empty r) es) m n" by (simp only:)
  qed simp
  define k where "k = r_start1 c - i"
  have k: "r_start1 c = i + k" "r_start2 c = j + k" using pre by (auto simp: k_def)
  have front: "same_run eq xs ys i j (k + f)" using pre run(1) by (simp add: same_run_add k)
  show ?case
  proof (cases "range_is_empty r")
    case True
    then have "r_end1 c - b = i + (k + f)" "r_end2 c - b = j + (k + f)" using r k by auto
    with behind have "diff_path eq xs ys True (i + (k + f)) (j + (k + f)) (filter (\<lambda>r. \<not> range_is_empty r) es) m n" by (simp only:)
    then show ?thesis using True diff_path_prepend [OF _ front] by simp
  next
    case False
    with behind front pre fb k show ?thesis by (auto simp: r add.assoc)
  qed
qed

end
