(* ===== verification/Text.thy ===== *)
theory Text
  imports Diff_Range
begin

unbundle bit_operations_syntax

text \<open>
  \<open>crates/paneflow-textdiff/src/text.rs\<close>: character classes, whitespace-aware equality and hashing of
  lines, and the loops that widen or trim a range over equal elements.

  A \<open>&str\<close> is the list of its Unicode scalar values (\<open>uchar\<close>, a code point as a number); \<open>str_bytes\<close>
  is its UTF-8 encoding, and \<open>str_len\<close>, the length in bytes, is what \<open>str::len\<close> and every offset of
  the crate count. \<open>char::is_alphabetic\<close> is a table of the standard library's Unicode data and is an
  argument of the one function that asks for it.
\<close>

type_synonym uchar = nat
type_synonym ustr = "uchar list"
type_synonym u8 = "8 word"
type_synonym u64 = "64 word"

datatype ComparisonPolicy = Default | TrimWhitespaces | IgnoreWhitespaces

section \<open>Strings\<close>

definition utf8_encode :: "uchar \<Rightarrow> u8 list" where
  "utf8_encode c =
     (if c < 0x80 then [of_nat c]
      else if c < 0x800 then [of_nat (0xC0 + c div 64), of_nat (0x80 + c mod 64)]
      else if c < 0x10000 then
        [of_nat (0xE0 + c div 4096), of_nat (0x80 + c div 64 mod 64), of_nat (0x80 + c mod 64)]
      else
        [of_nat (0xF0 + c div 262144), of_nat (0x80 + c div 4096 mod 64),
         of_nat (0x80 + c div 64 mod 64), of_nat (0x80 + c mod 64)])"

definition str_bytes :: "ustr \<Rightarrow> u8 list" where
  "str_bytes s = concat (map utf8_encode s)"

definition str_len :: "ustr \<Rightarrow> nat" where
  "str_len s = length (str_bytes s)"

text \<open>
  Slicing a \<open>&str\<close> by byte offsets panics when an offset is out of range or inside the encoding of a character.
\<close>

fun str_split_at :: "ustr \<Rightarrow> nat \<Rightarrow> (ustr \<times> ustr) option" where
  "str_split_at s 0 = Some ([], s)"
| "str_split_at [] (Suc n) = None"
| "str_split_at (c # s) (Suc n) =
     (let k = length (utf8_encode c)
      in if Suc n < k then None else do { (p, q) \<leftarrow> str_split_at s (Suc n - k); Some (c # p, q) })"

definition str_slice :: "ustr \<Rightarrow> nat \<Rightarrow> nat \<Rightarrow> ustr option" where
  "str_slice s a b =
     (if a \<le> b then do { (p, _) \<leftarrow> str_split_at s b; (_, v) \<leftarrow> str_split_at p a; Some v } else None)"

fun str_split :: "uchar \<Rightarrow> ustr \<Rightarrow> ustr list" where
  "str_split d [] = [[]]"
| "str_split d (c # cs) =
     (if c = d then [] # str_split d cs
      else case str_split d cs of [] \<Rightarrow> [[c]] | p # ps \<Rightarrow> (c # p) # ps)"

definition trim_matches :: "(uchar \<Rightarrow> bool) \<Rightarrow> ustr \<Rightarrow> ustr" where
  "trim_matches p s = rev (dropWhile p (rev (dropWhile p s)))"

definition chars :: "string \<Rightarrow> ustr" where
  "chars s = map of_char s"

definition is_white_space :: "nat \<Rightarrow> bool" where
  "is_white_space c \<longleftrightarrow> 9 \<le> c \<and> c \<le> 13 \<or> c = 32 \<or> c = 0x85 \<or> c = 0xA0 \<or> c = 0x1680 \<or>
     0x2000 \<le> c \<and> c \<le> 0x200A \<or> c = 0x2028 \<or> c = 0x2029 \<or> c = 0x202F \<or> c = 0x205F \<or> c = 0x3000"

definition str_trim :: "ustr \<Rightarrow> ustr" where
  "str_trim s = trim_matches is_white_space s"

definition to_ascii_lowercase :: "ustr \<Rightarrow> ustr" where
  "to_ascii_lowercase s = map (\<lambda>c. if 65 \<le> c \<and> c \<le> 90 then c + 32 else c) s"

section \<open>Character classes\<close>

definition UNIMPORTANT_LINE_CHAR_COUNT :: nat where
  "UNIMPORTANT_LINE_CHAR_COUNT = 3"

definition is_whitespace_byte :: "u8 \<Rightarrow> bool" where
  "is_whitespace_byte b \<longleftrightarrow> b = 32 \<or> b = 9 \<or> b = 10 \<or> b = 13"

definition is_whitespace :: "uchar \<Rightarrow> bool" where
  "is_whitespace c \<longleftrightarrow> c = 32 \<or> c = 9 \<or> c = 10 \<or> c = 13"

definition is_punctuation_byte :: "u8 \<Rightarrow> bool" where
  "is_punctuation_byte b \<longleftrightarrow> b \<noteq> 95 \<and>
     ((33 \<le> b \<and> b \<le> 47) \<or> (58 \<le> b \<and> b \<le> 64) \<or> (91 \<le> b \<and> b \<le> 96) \<or> (123 \<le> b \<and> b \<le> 126))"

definition is_punctuation :: "uchar \<Rightarrow> bool" where
  "is_punctuation c \<longleftrightarrow> c < 128 \<and> is_punctuation_byte (of_nat c)"

definition is_alpha :: "uchar \<Rightarrow> bool" where
  "is_alpha c \<longleftrightarrow> \<not> is_whitespace c \<and> \<not> is_punctuation c"

text \<open>
  \<open>slice::binary_search\<close> on an ascending table without duplicates: \<open>Inr\<close> the index of the code,
  \<open>Inl\<close> the index where it would be inserted.
\<close>

definition binary_search :: "nat list \<Rightarrow> nat \<Rightarrow> nat + nat" where
  "binary_search xs x =
     (let i = length (takeWhile (\<lambda>y. y < x) xs)
      in if i < length xs \<and> xs ! i = x then Inr i else Inl i)"

definition in_ranges :: "nat \<Rightarrow> nat list \<Rightarrow> nat list \<Rightarrow> bool option" where
  "in_ranges code starts ends =
     (case binary_search starts code of
        Inr _ \<Rightarrow> Some True
      | Inl insertion \<Rightarrow>
          if insertion = 0 then Some False
          else do { e \<leftarrow> nth_or_panic ends (insertion - 1); Some (code \<le> e) })"

definition IDEOGRAPHIC_STARTS :: "nat list" where
  "IDEOGRAPHIC_STARTS = [
    0x3006, 0x3007, 0x3021, 0x3038, 0x3400, 0x4e00, 0xf900, 0xfa70, 0x16fe4, 0x17000, 0x18800,
    0x18cff, 0x1b170, 0x20000, 0x2a700, 0x2b740, 0x2b820, 0x2ceb0, 0x2ebf0, 0x2f800, 0x30000,
    0x31350]"

definition IDEOGRAPHIC_ENDS :: "nat list" where
  "IDEOGRAPHIC_ENDS = [
    0x3006, 0x3007, 0x3029, 0x303a, 0x4dbf, 0x9fff, 0xfa6d, 0xfad9, 0x16fe4, 0x187f7, 0x18cd5,
    0x18d08, 0x1b2fb, 0x2a6df, 0x2b739, 0x2b81d, 0x2cea1, 0x2ebe0, 0x2ee5d, 0x2fa1d, 0x3134a,
    0x323af]"

definition HIRAGANA_STARTS :: "nat list" where
  "HIRAGANA_STARTS = [0x3041, 0x309d, 0x309f, 0x1b001, 0x1b132, 0x1b150, 0x1f200]"

definition HIRAGANA_ENDS :: "nat list" where
  "HIRAGANA_ENDS = [0x3096, 0x309e, 0x309f, 0x1b11f, 0x1b132, 0x1b152, 0x1f200]"

definition KATAKANA_STARTS :: "nat list" where
  "KATAKANA_STARTS = [
    0x30a1, 0x30fd, 0x30ff, 0x31f0, 0x32d0, 0x3300, 0xff66, 0xff71, 0x1aff0, 0x1aff5, 0x1affd,
    0x1b000, 0x1b120, 0x1b155, 0x1b164]"

definition KATAKANA_ENDS :: "nat list" where
  "KATAKANA_ENDS = [
    0x30fa, 0x30fe, 0x30ff, 0x31ff, 0x32fe, 0x3357, 0xff6f, 0xff9d, 0x1aff3, 0x1affb, 0x1affe,
    0x1b000, 0x1b122, 0x1b155, 0x1b167]"

definition THAI_STARTS :: "nat list" where
  "THAI_STARTS = [
    0x0e01, 0x0e31, 0x0e32, 0x0e34, 0x0e40, 0x0e46, 0x0e47, 0x0e4f, 0x0e50, 0x0e5a]"

definition THAI_ENDS :: "nat list" where
  "THAI_ENDS = [
    0x0e30, 0x0e31, 0x0e33, 0x0e3a, 0x0e45, 0x0e46, 0x0e4e, 0x0e4f, 0x0e59, 0x0e5b]"

definition JAVANESE_STARTS :: "nat list" where
  "JAVANESE_STARTS = [
    0xa980, 0xa983, 0xa984, 0xa9b3, 0xa9b4, 0xa9b6, 0xa9ba, 0xa9bc, 0xa9be, 0xa9c1, 0xa9d0, 0xa9de]"

definition JAVANESE_ENDS :: "nat list" where
  "JAVANESE_ENDS = [
    0xa982, 0xa983, 0xa9b2, 0xa9b3, 0xa9b5, 0xa9b9, 0xa9bb, 0xa9bd, 0xa9c0, 0xa9cd, 0xa9d9, 0xa9df]"

definition DECIMAL_DIGIT_STARTS :: "nat list" where
  "DECIMAL_DIGIT_STARTS = [
    0x0030, 0x0660, 0x06F0, 0x07C0, 0x0966, 0x09E6, 0x0A66, 0x0AE6, 0x0B66, 0x0BE6, 0x0C66, 0x0CE6,
    0x0D66, 0x0DE6, 0x0E50, 0x0ED0, 0x0F20, 0x1040, 0x1090, 0x17E0, 0x1810, 0x1946, 0x19D0, 0x1A80,
    0x1A90, 0x1B50, 0x1BB0, 0x1C40, 0x1C50, 0xA620, 0xA8D0, 0xA900, 0xA9D0, 0xA9F0, 0xAA50, 0xABF0,
    0xFF10, 0x104A0, 0x10D30, 0x10D40, 0x11066, 0x110F0, 0x11136, 0x111D0, 0x112F0, 0x11450,
    0x114D0, 0x11650, 0x116C0, 0x116D0, 0x11730, 0x118E0, 0x11950, 0x11BF0, 0x11C50, 0x11D50,
    0x11DA0, 0x11F50, 0x16130, 0x16A60, 0x16AC0, 0x16B50, 0x16D70, 0x1CCF0, 0x1D7CE, 0x1E140,
    0x1E2F0, 0x1E4F0, 0x1E5F1, 0x1E950]"

definition DECIMAL_DIGIT_ENDS :: "nat list" where
  "DECIMAL_DIGIT_ENDS = [
    0x0039, 0x0669, 0x06F9, 0x07C9, 0x096F, 0x09EF, 0x0A6F, 0x0AEF, 0x0B6F, 0x0BEF, 0x0C6F, 0x0CEF,
    0x0D6F, 0x0DEF, 0x0E59, 0x0ED9, 0x0F29, 0x1049, 0x1099, 0x17E9, 0x1819, 0x194F, 0x19D9, 0x1A89,
    0x1A99, 0x1B59, 0x1BB9, 0x1C49, 0x1C59, 0xA629, 0xA8D9, 0xA909, 0xA9D9, 0xA9F9, 0xAA59, 0xABF9,
    0xFF19, 0x104A9, 0x10D39, 0x10D49, 0x1106F, 0x110F9, 0x1113F, 0x111D9, 0x112F9, 0x11459,
    0x114D9, 0x11659, 0x116C9, 0x116E3, 0x11739, 0x118E9, 0x11959, 0x11BF9, 0x11C59, 0x11D59,
    0x11DA9, 0x11F59, 0x16139, 0x16A69, 0x16AC9, 0x16B59, 0x16D79, 0x1CCF9, 0x1D7FF, 0x1E149,
    0x1E2F9, 0x1E4F9, 0x1E5FA, 0x1E959]"

definition is_continuous_script :: "(uchar \<Rightarrow> bool) \<Rightarrow> uchar \<Rightarrow> bool option" where
  "is_continuous_script is_alphabetic c =
     (if c < 128 then Some False
      else do {
        digit \<leftarrow> in_ranges c DECIMAL_DIGIT_STARTS DECIMAL_DIGIT_ENDS;
        if digit then Some False
        else if c > 0xFFFF then Some True
        else do {
          ideographic \<leftarrow> in_ranges c IDEOGRAPHIC_STARTS IDEOGRAPHIC_ENDS;
          if ideographic then Some True
          else if \<not> is_alphabetic c then Some True
          else do {
            hiragana \<leftarrow> in_ranges c HIRAGANA_STARTS HIRAGANA_ENDS;
            if hiragana then Some True
            else do {
              katakana \<leftarrow> in_ranges c KATAKANA_STARTS KATAKANA_ENDS;
              if katakana then Some True
              else do {
                thai \<leftarrow> in_ranges c THAI_STARTS THAI_ENDS;
                if thai then Some True else in_ranges c JAVANESE_STARTS JAVANESE_ENDS
              }
            }
          }
        }
      })"

section \<open>Equality and hashing of text\<close>

definition trim_line :: "ustr \<Rightarrow> ustr" where
  "trim_line line = trim_matches is_whitespace line"

fun all_lines_trim_equal :: "ustr list \<Rightarrow> ustr list \<Rightarrow> bool" where
  "all_lines_trim_equal (line1 # lines1) (line2 # lines2) =
     (if trim_line line1 \<noteq> trim_line line2 then False else all_lines_trim_equal lines1 lines2)"
| "all_lines_trim_equal [] [] = True"
| "all_lines_trim_equal _ _ = False"

definition equals_trim_whitespaces :: "ustr \<Rightarrow> ustr \<Rightarrow> bool" where
  "equals_trim_whitespaces text1 text2 =
     all_lines_trim_equal (str_split 10 text1) (str_split 10 text2)"

fun all_bytes_equal :: "u8 list \<Rightarrow> u8 list \<Rightarrow> bool" where
  "all_bytes_equal (a # as) (b # bs) = (if a \<noteq> b then False else all_bytes_equal as bs)"
| "all_bytes_equal [] [] = True"
| "all_bytes_equal _ _ = False"

definition non_whitespace_bytes :: "ustr \<Rightarrow> u8 list" where
  "non_whitespace_bytes text = filter (\<lambda>b. \<not> is_whitespace_byte b) (str_bytes text)"

definition equals_ignore_whitespaces :: "ustr \<Rightarrow> ustr \<Rightarrow> bool" where
  "equals_ignore_whitespaces text1 text2 =
     all_bytes_equal (non_whitespace_bytes text1) (non_whitespace_bytes text2)"

fun is_equals :: "ustr \<Rightarrow> ustr \<Rightarrow> ComparisonPolicy \<Rightarrow> bool" where
  "is_equals text1 text2 Default = (text1 = text2)"
| "is_equals text1 text2 TrimWhitespaces = equals_trim_whitespaces text1 text2"
| "is_equals text1 text2 IgnoreWhitespaces = equals_ignore_whitespaces text1 text2"

definition is_equals_range :: "ustr \<Rightarrow> ustr \<Rightarrow> range \<Rightarrow> ComparisonPolicy \<Rightarrow> bool option" where
  "is_equals_range text1 text2 r policy = do {
     a \<leftarrow> str_slice text1 (r_start1 r) (r_end1 r);
     b \<leftarrow> str_slice text2 (r_start2 r) (r_end2 r);
     Some (is_equals a b policy)
   }"

definition hash_feed :: "u64 \<Rightarrow> u8 \<Rightarrow> u64" where
  "hash_feed state byte = (state XOR ucast byte) * 0x100000001b3"

fun text_hash :: "ustr \<Rightarrow> ComparisonPolicy \<Rightarrow> u64" where
  "text_hash text Default = foldl hash_feed 0xcbf29ce484222325 (str_bytes text)"
| "text_hash text TrimWhitespaces = foldl hash_feed 0xcbf29ce484222325 (str_bytes (trim_line text))"
| "text_hash text IgnoreWhitespaces = foldl hash_feed 0xcbf29ce484222325 (non_whitespace_bytes text)"

definition count_non_space_chars :: "ustr \<Rightarrow> nat" where
  "count_non_space_chars text = length (filter (\<lambda>c. \<not> is_whitespace c) text)"

section \<open>Trimming and widening ranges\<close>

function trim_start :: "ustr \<Rightarrow> nat \<Rightarrow> nat \<Rightarrow> nat option" where
  "trim_start text start end' =
     (if start < end' then do {
        b \<leftarrow> nth_or_panic (str_bytes text) start;
        if is_whitespace_byte b then trim_start text (start + 1) end' else Some start
      } else Some start)"
  by pat_completeness auto
termination
  by (relation "measure (\<lambda>(text, start, end'). end' - start)") auto

fun trim_end :: "ustr \<Rightarrow> nat \<Rightarrow> nat \<Rightarrow> nat option" where
  "trim_end text start end' =
     (if start < end' then do {
        b \<leftarrow> nth_or_panic (str_bytes text) (end' - 1);
        if is_whitespace_byte b then trim_end text start (end' - 1) else Some end'
      } else Some end')"

definition trim_range :: "ustr \<Rightarrow> ustr \<Rightarrow> range \<Rightarrow> range option" where
  "trim_range text1 text2 r = do {
     start1 \<leftarrow> trim_start text1 (r_start1 r) (r_end1 r);
     end1 \<leftarrow> trim_end text1 start1 (r_end1 r);
     start2 \<leftarrow> trim_start text2 (r_start2 r) (r_end2 r);
     end2 \<leftarrow> trim_end text2 start2 (r_end2 r);
     range_new start1 end1 start2 end2
   }"

text \<open>
  The forward and backward loops count equal pairs from \<open>count\<close> on; \<open>PartialEq\<close> of the element type
  is the argument \<open>eq\<close>.
\<close>

function expand_forward_from :: "('a \<Rightarrow> 'b \<Rightarrow> bool) \<Rightarrow> 'a list \<Rightarrow> 'b list \<Rightarrow> nat \<Rightarrow> nat \<Rightarrow> nat \<Rightarrow> nat \<Rightarrow>
    nat \<Rightarrow> nat option" where
  "expand_forward_from eq items1 items2 start1 start2 end1 end2 count =
     (if start1 + count < end1 \<and> start2 + count < end2 then do {
        a \<leftarrow> nth_or_panic items1 (start1 + count);
        b \<leftarrow> nth_or_panic items2 (start2 + count);
        if eq a b then expand_forward_from eq items1 items2 start1 start2 end1 end2 (count + 1)
        else Some count
      } else Some count)"
  by pat_completeness auto
termination
  by (relation "measure (\<lambda>(eq, xs, ys, s1, s2, e1, e2, count). e1 - (s1 + count))") auto

definition expand_forward :: "('a \<Rightarrow> 'b \<Rightarrow> bool) \<Rightarrow> 'a list \<Rightarrow> 'b list \<Rightarrow> nat \<Rightarrow> nat \<Rightarrow> nat \<Rightarrow> nat \<Rightarrow>
    nat option" where
  "expand_forward eq items1 items2 start1 start2 end1 end2 =
     expand_forward_from eq items1 items2 start1 start2 end1 end2 0"

function expand_backward_from :: "('a \<Rightarrow> 'b \<Rightarrow> bool) \<Rightarrow> 'a list \<Rightarrow> 'b list \<Rightarrow> nat \<Rightarrow> nat \<Rightarrow> nat \<Rightarrow> nat \<Rightarrow>
    nat \<Rightarrow> nat option" where
  "expand_backward_from eq items1 items2 start1 start2 end1 end2 count =
     (if start1 + count < end1 \<and> start2 + count < end2 then do {
        a \<leftarrow> nth_or_panic items1 (end1 - count - 1);
        b \<leftarrow> nth_or_panic items2 (end2 - count - 1);
        if eq a b then expand_backward_from eq items1 items2 start1 start2 end1 end2 (count + 1)
        else Some count
      } else Some count)"
  by pat_completeness auto
termination
  by (relation "measure (\<lambda>(eq, xs, ys, s1, s2, e1, e2, count). e1 - (s1 + count))") auto

definition expand_backward :: "('a \<Rightarrow> 'b \<Rightarrow> bool) \<Rightarrow> 'a list \<Rightarrow> 'b list \<Rightarrow> nat \<Rightarrow> nat \<Rightarrow> nat \<Rightarrow> nat \<Rightarrow>
    nat option" where
  "expand_backward eq items1 items2 start1 start2 end1 end2 =
     expand_backward_from eq items1 items2 start1 start2 end1 end2 0"

definition expand :: "('a \<Rightarrow> 'b \<Rightarrow> bool) \<Rightarrow> 'a list \<Rightarrow> 'b list \<Rightarrow> nat \<Rightarrow> nat \<Rightarrow> nat \<Rightarrow> nat \<Rightarrow>
    range option" where
  "expand eq items1 items2 start1 start2 end1 end2 = do {
     forward \<leftarrow> expand_forward eq items1 items2 start1 start2 end1 end2;
     let start1 = start1 + forward;
     let start2 = start2 + forward;
     backward \<leftarrow> expand_backward eq items1 items2 start1 start2 end1 end2;
     end1 \<leftarrow> usub end1 backward;
     end2 \<leftarrow> usub end2 backward;
     range_new start1 end1 start2 end2
   }"

text \<open>
  The whitespace variants compare bytes and also stop at the first byte that is not whitespace: the
  same loops with the test \<open>bytes1[i] == bytes2[j] && is_whitespace_byte(bytes1[i])\<close>.
\<close>

definition same_whitespace_byte :: "u8 \<Rightarrow> u8 \<Rightarrow> bool" where
  "same_whitespace_byte a b \<longleftrightarrow> a = b \<and> is_whitespace_byte a"

definition expand_whitespaces_forward :: "ustr \<Rightarrow> ustr \<Rightarrow> nat \<Rightarrow> nat \<Rightarrow> nat \<Rightarrow> nat \<Rightarrow> nat option" where
  "expand_whitespaces_forward text1 text2 start1 start2 end1 end2 =
     expand_forward same_whitespace_byte (str_bytes text1) (str_bytes text2) start1 start2 end1 end2"

definition expand_whitespaces_backward :: "ustr \<Rightarrow> ustr \<Rightarrow> nat \<Rightarrow> nat \<Rightarrow> nat \<Rightarrow> nat \<Rightarrow> nat option" where
  "expand_whitespaces_backward text1 text2 start1 start2 end1 end2 =
     expand_backward same_whitespace_byte (str_bytes text1) (str_bytes text2) start1 start2 end1 end2"

definition expand_whitespaces :: "ustr \<Rightarrow> ustr \<Rightarrow> range \<Rightarrow> range option" where
  "expand_whitespaces text1 text2 r = do {
     forward \<leftarrow> expand_whitespaces_forward text1 text2 (r_start1 r) (r_start2 r) (r_end1 r) (r_end2 r);
     let start1 = r_start1 r + forward;
     let start2 = r_start2 r + forward;
     backward \<leftarrow> expand_whitespaces_backward text1 text2 start1 start2 (r_end1 r) (r_end2 r);
     end1 \<leftarrow> usub (r_end1 r) backward;
     end2 \<leftarrow> usub (r_end2 r) backward;
     range_new start1 end1 start2 end2
   }"

declare trim_start.simps [simp del] trim_end.simps [simp del]
  expand_forward_from.simps [simp del] expand_backward_from.simps [simp del]


section \<open>Equality is an equivalence, coarser from policy to policy\<close>

lemma all_lines_trim_equal_iff: "all_lines_trim_equal ls ms \<longleftrightarrow> map trim_line ls = map trim_line ms"
  by (induction ls ms rule: all_lines_trim_equal.induct) auto

lemma all_bytes_equal_iff: "all_bytes_equal as bs \<longleftrightarrow> as = bs"
  by (induction as bs rule: all_bytes_equal.induct) auto

lemmas equals_iff = equals_trim_whitespaces_def equals_ignore_whitespaces_def
  all_lines_trim_equal_iff all_bytes_equal_iff

lemma is_equals_refl [simp]: "is_equals a a p"
  by (cases p) (auto simp: equals_iff)

lemma is_equals_sym: "is_equals a b p \<Longrightarrow> is_equals b a p"
  by (cases p) (auto simp: equals_iff)

lemma is_equals_trans: "is_equals a b p \<Longrightarrow> is_equals b c p \<Longrightarrow> is_equals a c p"
  by (cases p) (auto simp: equals_iff)

lemma non_whitespace_bytes_Nil [simp]: "non_whitespace_bytes [] = []"
  by (simp add: non_whitespace_bytes_def str_bytes_def)

lemma non_whitespace_bytes_append [simp]:
  "non_whitespace_bytes (s @ t) = non_whitespace_bytes s @ non_whitespace_bytes t"
  by (simp add: non_whitespace_bytes_def str_bytes_def)

lemma non_whitespace_bytes_ws: "is_whitespace c \<Longrightarrow> non_whitespace_bytes [c] = []"
  unfolding is_whitespace_def
  by (elim disjE)
    (simp_all add: non_whitespace_bytes_def str_bytes_def is_whitespace_byte_def utf8_encode_def)

lemma non_whitespace_bytes_all_ws: "\<forall>c\<in>set s. is_whitespace c \<Longrightarrow> non_whitespace_bytes s = []"
proof (induction s)
  case Nil
  then show ?case by simp
next
  case (Cons c s)
  then show ?case
    using non_whitespace_bytes_append [of "[c]" s] non_whitespace_bytes_ws [of c] by simp
qed

lemma non_whitespace_bytes_dropWhile: "non_whitespace_bytes (dropWhile is_whitespace s) = non_whitespace_bytes s"
proof -
  have "non_whitespace_bytes s =
      non_whitespace_bytes (takeWhile is_whitespace s @ dropWhile is_whitespace s)" by simp
  also have "\<dots> = non_whitespace_bytes (takeWhile is_whitespace s) @
      non_whitespace_bytes (dropWhile is_whitespace s)"
    by (rule non_whitespace_bytes_append)
  also have "non_whitespace_bytes (takeWhile is_whitespace s) = []"
    by (rule non_whitespace_bytes_all_ws) (auto dest: set_takeWhileD)
  finally show ?thesis by simp
qed

lemma rev_dropWhile_rev_decomp: "\<exists>t. s = rev (dropWhile p (rev s)) @ t \<and> (\<forall>c\<in>set t. p c)"
proof
  show "s = rev (dropWhile p (rev s)) @ rev (takeWhile p (rev s)) \<and>
      (\<forall>c\<in>set (rev (takeWhile p (rev s))). p c)"
    by (metis rev_append rev_rev_ident set_rev set_takeWhileD takeWhile_dropWhile_id)
qed

lemma non_whitespace_bytes_trim_line [simp]: "non_whitespace_bytes (trim_line s) = non_whitespace_bytes s"
proof -
  obtain t where "dropWhile is_whitespace s = trim_line s @ t" "\<forall>c\<in>set t. is_whitespace c"
    using rev_dropWhile_rev_decomp [of "dropWhile is_whitespace s" is_whitespace]
    by (auto simp: trim_line_def trim_matches_def)
  then have "non_whitespace_bytes (dropWhile is_whitespace s) = non_whitespace_bytes (trim_line s)"
    by (simp add: non_whitespace_bytes_all_ws)
  then show ?thesis by (simp add: non_whitespace_bytes_dropWhile)
qed

lemma str_split_not_Nil [simp]: "str_split d s \<noteq> []"
  by (induction s) (auto split: list.splits)

lemma str_split_no_sep: "d \<notin> set s \<Longrightarrow> str_split d s = [s]"
  by (induction s) auto

lemma non_whitespace_bytes_lines:
  "non_whitespace_bytes s = concat (map non_whitespace_bytes (str_split 10 s))"
proof (induction s)
  case Nil
  then show ?case by simp
next
  case (Cons c s)
  have c: "non_whitespace_bytes (c # s) = non_whitespace_bytes [c] @ non_whitespace_bytes s" for s
    using non_whitespace_bytes_append [of "[c]" s] by simp
  show ?case
  proof (cases "c = 10")
    case True
    then have "non_whitespace_bytes [c] = []"
      by (simp add: non_whitespace_bytes_ws is_whitespace_def)
    with True Cons show ?thesis using c [of s] by simp
  next
    case False
    obtain p ps where "str_split 10 s = p # ps" by (cases "str_split 10 s") auto
    with False Cons show ?thesis by (simp add: c [of s] c [of p])
  qed
qed

lemma is_equals_Trim_imp_Ignore:
  "is_equals a b TrimWhitespaces \<Longrightarrow> is_equals a b IgnoreWhitespaces"
proof -
  assume "is_equals a b TrimWhitespaces"
  then have "map trim_line (str_split 10 a) = map trim_line (str_split 10 b)"
    by (simp add: equals_iff)
  then have "map (non_whitespace_bytes \<circ> trim_line) (str_split 10 a) =
      map (non_whitespace_bytes \<circ> trim_line) (str_split 10 b)"
    by (simp flip: map_map)
  then have "map non_whitespace_bytes (str_split 10 a) = map non_whitespace_bytes (str_split 10 b)"
    by (simp add: comp_def)
  then have "concat (map non_whitespace_bytes (str_split 10 a)) =
      concat (map non_whitespace_bytes (str_split 10 b))" by simp
  then show ?thesis
    using non_whitespace_bytes_lines [of a] non_whitespace_bytes_lines [of b] by (simp add: equals_iff)
qed

lemma is_equals_imp_Ignore: "is_equals a b p \<Longrightarrow> is_equals a b IgnoreWhitespaces"
  using is_equals_Trim_imp_Ignore by (cases p) auto

text \<open>
  The hash of a line agrees with its equality as long as the line holds no line feed (the trimming
  hash trims the whole text, the trimming equality each of its lines).
\<close>

lemma is_equals_imp_text_hash:
  "is_equals a b p \<Longrightarrow> 10 \<notin> set a \<Longrightarrow> 10 \<notin> set b \<Longrightarrow> text_hash a p = text_hash b p"
  by (cases p) (auto simp: equals_iff str_split_no_sep)

section \<open>The range loops\<close>

lemma runs_expand_forward_from:
  assumes "end1 \<le> length xs" "end2 \<le> length ys" "start1 + c \<le> end1" "start2 + c \<le> end2"
    and "same_run eq xs ys start1 start2 c"
  shows "runs (expand_forward_from eq xs ys start1 start2 end1 end2 c) (\<lambda>f.
    c \<le> f \<and> start1 + f \<le> end1 \<and> start2 + f \<le> end2 \<and> same_run eq xs ys start1 start2 f \<and>
    (start1 + f < end1 \<and> start2 + f < end2 \<longrightarrow> \<not> eq (xs ! (start1 + f)) (ys ! (start2 + f))))"
  using assms
proof (induction eq xs ys start1 start2 end1 end2 c rule: expand_forward_from.induct)
  case (1 eq xs ys start1 start2 end1 end2 c)
  show ?case
  proof (cases "start1 + c < end1 \<and> start2 + c < end2 \<and> eq (xs ! (start1 + c)) (ys ! (start2 + c))")
    case True
    then have "same_run eq xs ys start1 start2 (c + 1)"
      using "1.prems" by (simp add: same_run_Suc)
    then have step: "runs (expand_forward_from eq xs ys start1 start2 end1 end2 (c + 1)) (\<lambda>f.
      c + 1 \<le> f \<and> start1 + f \<le> end1 \<and> start2 + f \<le> end2 \<and> same_run eq xs ys start1 start2 f \<and>
      (start1 + f < end1 \<and> start2 + f < end2 \<longrightarrow> \<not> eq (xs ! (start1 + f)) (ys ! (start2 + f))))"
      using True "1.prems" by (intro "1.IH") (auto simp: nth_or_panic_def)
    have "expand_forward_from eq xs ys start1 start2 end1 end2 c =
        expand_forward_from eq xs ys start1 start2 end1 end2 (c + 1)"
      using True "1.prems" by (subst expand_forward_from.simps) (simp add: nth_or_panic_def)
    with step show ?thesis by (auto elim: runs_mono)
  next
    case False
    with "1.prems" show ?thesis
      by (subst expand_forward_from.simps) (auto simp: wp)
  qed
qed

lemma runs_expand_forward:
  assumes "start1 \<le> end1" "end1 \<le> length xs" "start2 \<le> end2" "end2 \<le> length ys"
  shows "runs (expand_forward eq xs ys start1 start2 end1 end2) (\<lambda>f.
    start1 + f \<le> end1 \<and> start2 + f \<le> end2 \<and> same_run eq xs ys start1 start2 f \<and>
    (start1 + f < end1 \<and> start2 + f < end2 \<longrightarrow> \<not> eq (xs ! (start1 + f)) (ys ! (start2 + f))))"
  unfolding expand_forward_def
  by (rule runs_mono [OF runs_expand_forward_from]) (use assms in auto)

lemma same_run_back_Suc:
  "Suc c \<le> e1 \<Longrightarrow> Suc c \<le> e2 \<Longrightarrow> same_run eq xs ys (e1 - Suc c) (e2 - Suc c) (Suc c) \<longleftrightarrow>
    e1 \<le> length xs \<and> e2 \<le> length ys \<and> eq (xs ! (e1 - c - 1)) (ys ! (e2 - c - 1)) \<and>
    same_run eq xs ys (e1 - c) (e2 - c) c"
  using same_run_add [of eq xs ys "e1 - Suc c" "e2 - Suc c" 1 c]
  by (auto simp: same_run_1 Suc_diff_Suc same_run_def [of eq xs ys "e1 - c"])

lemma runs_expand_backward_from:
  assumes "end1 \<le> length xs" "end2 \<le> length ys" "start1 + c \<le> end1" "start2 + c \<le> end2"
    and "same_run eq xs ys (end1 - c) (end2 - c) c"
  shows "runs (expand_backward_from eq xs ys start1 start2 end1 end2 c) (\<lambda>f.
    c \<le> f \<and> start1 + f \<le> end1 \<and> start2 + f \<le> end2 \<and> same_run eq xs ys (end1 - f) (end2 - f) f \<and>
    (start1 + f < end1 \<and> start2 + f < end2 \<longrightarrow> \<not> eq (xs ! (end1 - f - 1)) (ys ! (end2 - f - 1))))"
  using assms
proof (induction eq xs ys start1 start2 end1 end2 c rule: expand_backward_from.induct)
  case (1 eq xs ys start1 start2 end1 end2 c)
  show ?case
  proof (cases "start1 + c < end1 \<and> start2 + c < end2 \<and> eq (xs ! (end1 - c - 1)) (ys ! (end2 - c - 1))")
    case True
    then have "same_run eq xs ys (end1 - (c + 1)) (end2 - (c + 1)) (c + 1)"
      using "1.prems" same_run_back_Suc [of c end1 end2 eq xs ys] by simp
    then have step: "runs (expand_backward_from eq xs ys start1 start2 end1 end2 (c + 1)) (\<lambda>f.
      c + 1 \<le> f \<and> start1 + f \<le> end1 \<and> start2 + f \<le> end2 \<and> same_run eq xs ys (end1 - f) (end2 - f) f \<and>
      (start1 + f < end1 \<and> start2 + f < end2 \<longrightarrow> \<not> eq (xs ! (end1 - f - 1)) (ys ! (end2 - f - 1))))"
      using True "1.prems" by (intro "1.IH") (auto simp: nth_or_panic_def)
    have "expand_backward_from eq xs ys start1 start2 end1 end2 c =
        expand_backward_from eq xs ys start1 start2 end1 end2 (c + 1)"
      using True "1.prems" by (subst expand_backward_from.simps) (auto simp: nth_or_panic_def)
    with step show ?thesis by (auto elim: runs_mono)
  next
    case False
    with "1.prems" show ?thesis
      by (subst expand_backward_from.simps) (auto simp: wp)
  qed
qed

lemma runs_expand_backward:
  assumes "start1 \<le> end1" "end1 \<le> length xs" "start2 \<le> end2" "end2 \<le> length ys"
  shows "runs (expand_backward eq xs ys start1 start2 end1 end2) (\<lambda>f.
    start1 + f \<le> end1 \<and> start2 + f \<le> end2 \<and> same_run eq xs ys (end1 - f) (end2 - f) f \<and>
    (start1 + f < end1 \<and> start2 + f < end2 \<longrightarrow> \<not> eq (xs ! (end1 - f - 1)) (ys ! (end2 - f - 1))))"
  unfolding expand_backward_def
  by (rule runs_mono [OF runs_expand_backward_from]) (use assms in auto)

text \<open>
  \<open>expand\<close> cuts the equal pairs off both ends of a range and nothing more: what is left is tight.
\<close>

lemma runs_expand:
  assumes "start1 \<le> end1" "end1 \<le> length xs" "start2 \<le> end2" "end2 \<le> length ys"
  shows "runs (expand eq xs ys start1 start2 end1 end2) (\<lambda>r. \<exists>f b.
    start1 + f + b \<le> end1 \<and> start2 + f + b \<le> end2 \<and>
    r = mk_range (start1 + f) (end1 - b) (start2 + f) (end2 - b) \<and>
    same_run eq xs ys start1 start2 f \<and> same_run eq xs ys (end1 - b) (end2 - b) b \<and> tight eq xs ys r)"
  unfolding expand_def Let_def
proof (rule runs_bindI [OF runs_expand_forward [OF assms, of eq]])
  fix f
  assume f: "start1 + f \<le> end1 \<and> start2 + f \<le> end2 \<and> same_run eq xs ys start1 start2 f \<and>
    (start1 + f < end1 \<and> start2 + f < end2 \<longrightarrow> \<not> eq (xs ! (start1 + f)) (ys ! (start2 + f)))"
  show "runs (expand_backward eq xs ys (start1 + f) (start2 + f) end1 end2 \<bind> (\<lambda>backward.
      usub end1 backward \<bind> (\<lambda>end1. usub end2 backward \<bind> (\<lambda>end2.
        range_new (start1 + f) end1 (start2 + f) end2)))) (\<lambda>r. \<exists>f b.
    start1 + f + b \<le> end1 \<and> start2 + f + b \<le> end2 \<and>
    r = mk_range (start1 + f) (end1 - b) (start2 + f) (end2 - b) \<and>
    same_run eq xs ys start1 start2 f \<and> same_run eq xs ys (end1 - b) (end2 - b) b \<and> tight eq xs ys r)"
  proof (rule runs_bindI [OF runs_expand_backward])
    fix b
    assume b: "start1 + f + b \<le> end1 \<and> start2 + f + b \<le> end2 \<and>
      same_run eq xs ys (end1 - b) (end2 - b) b \<and> (start1 + f + b < end1 \<and> start2 + f + b < end2 \<longrightarrow>
        \<not> eq (xs ! (end1 - b - 1)) (ys ! (end2 - b - 1)))"
    have "tight eq xs ys (mk_range (start1 + f) (end1 - b) (start2 + f) (end2 - b))"
      using f b by (auto simp: tight_def)
    with f b have "\<exists>f' b'. start1 + f' + b' \<le> end1 \<and> start2 + f' + b' \<le> end2 \<and>
        mk_range (start1 + f) (end1 - b) (start2 + f) (end2 - b) =
          mk_range (start1 + f') (end1 - b') (start2 + f') (end2 - b') \<and>
        same_run eq xs ys start1 start2 f' \<and> same_run eq xs ys (end1 - b') (end2 - b') b' \<and>
        tight eq xs ys (mk_range (start1 + f) (end1 - b) (start2 + f) (end2 - b))"
      by blast
    moreover have "start1 + f \<le> end1 - b" "start2 + f \<le> end2 - b" "b \<le> end1" "b \<le> end2"
      using b by auto
    ultimately show "runs (usub end1 b \<bind> (\<lambda>end1. usub end2 b \<bind> (\<lambda>end2.
        range_new (start1 + f) end1 (start2 + f) end2))) (\<lambda>r. \<exists>f b.
      start1 + f + b \<le> end1 \<and> start2 + f + b \<le> end2 \<and>
      r = mk_range (start1 + f) (end1 - b) (start2 + f) (end2 - b) \<and>
      same_run eq xs ys start1 start2 f \<and> same_run eq xs ys (end1 - b) (end2 - b) b \<and> tight eq xs ys r)"
      by (simp add: wp)
  qed (use f assms in auto)
qed

section \<open>Character boundaries\<close>

lemma utf8_encode_nonempty [simp]: "utf8_encode c \<noteq> []"
  by (simp add: utf8_encode_def)

lemma str_bytes_simps [simp]:
  "str_bytes [] = []" "str_bytes (c # s) = utf8_encode c @ str_bytes s" "str_bytes (s @ t) = str_bytes s @ str_bytes t"
  by (simp_all add: str_bytes_def)

lemma str_len_simps [simp]:
  "str_len [] = 0" "str_len (c # s) = length (utf8_encode c) + str_len s" "str_len (s @ t) = str_len s + str_len t"
  by (simp_all add: str_len_def)

lemma str_len_0 [simp]: "str_len s = 0 \<longleftrightarrow> s = []"
  by (cases s) simp_all

lemma length_str_bytes [simp]: "length (str_bytes s) = str_len s"
  by (simp add: str_len_def)

lemma str_split_at_append [simp]: "str_split_at (p @ q) (str_len p) = Some (p, q)"
proof (induction p)
  case (Cons c p)
  moreover obtain n where "length (utf8_encode c) + str_len p = Suc n"
    by (cases "length (utf8_encode c) + str_len p") auto
  moreover from this have "Suc n - length (utf8_encode c) = str_len p" by simp
  ultimately show ?case by simp
qed simp

lemma str_split_at_Some: "str_split_at s n = Some (p, q) \<Longrightarrow> s = p @ q \<and> str_len p = n"
  by (induction s n arbitrary: p rule: str_split_at.induct) (auto simp: Let_def bind_eq_Some_conv split: if_splits)

definition boundary :: "ustr \<Rightarrow> nat \<Rightarrow> bool" where
  "boundary s n \<longleftrightarrow> (\<exists>p q. s = p @ q \<and> str_len p = n)"

lemma boundary_0 [simp]: "boundary s 0" and boundary_len [simp]: "boundary s (str_len s)"
  by (auto simp: boundary_def)

lemma boundary_append [simp]: "boundary (p @ q) (str_len p)"
  by (auto simp: boundary_def)

lemma boundary_le: "boundary s n \<Longrightarrow> n \<le> str_len s"
  by (auto simp: boundary_def)

lemma str_slice_append [simp]: "str_slice (p @ v @ q) (str_len p) (str_len p + str_len v) = Some v"
  using str_split_at_append [of "p @ v" q] by (simp add: str_slice_def)

lemma str_slice_Some:
  assumes "str_slice s a b = Some v"
  obtains p q where "s = p @ v @ q" "str_len p = a" "a + str_len v = b"
  using assms by (auto simp: str_slice_def bind_eq_Some_conv split: if_splits dest!: str_split_at_Some)

text \<open>Two prefixes of a text are prefixes of one another.\<close>

lemma str_prefix_le:
  assumes "p @ q = p' @ q'" "str_len p \<le> str_len p'"
  shows "\<exists>v. p' = p @ v \<and> q = v @ q'"
proof -
  from assms(1) obtain us where "p = p' @ us \<and> us @ q = q' \<or> p @ us = p' \<and> q = us @ q'"
    by (auto simp: append_eq_append_conv2)
  with assms(2) show ?thesis by auto
qed

lemma str_slice_boundary:
  assumes "boundary s a" "boundary s b" "a \<le> b"
  obtains p v q where "s = p @ v @ q" "str_len p = a" "a + str_len v = b" "str_slice s a b = Some v"
proof -
  obtain p q p' q' where s: "s = p @ q" "str_len p = a" "s = p' @ q'" "str_len p' = b"
    using assms(1,2) unfolding boundary_def by blast
  with str_prefix_le [of p q p' q'] assms(3) obtain v where "p' = p @ v" "q = v @ q'" by auto
  with s str_slice_append [of p v q'] show thesis by (intro that [of p v q']) auto
qed

lemma str_slice_bytes: "str_slice s a b = Some v \<Longrightarrow> str_bytes v = take (b - a) (drop a (str_bytes s))"
  by (elim str_slice_Some) auto

lemma boundary_slice:
  assumes "str_slice s a b = Some v" "a \<le> n" "n \<le> b"
  shows "boundary v (n - a) \<longleftrightarrow> boundary s n"
proof -
  obtain p q where s: "s = p @ v @ q" "str_len p = a" "a + str_len v = b" using assms(1) by (rule str_slice_Some)
  show ?thesis
  proof
    assume "boundary v (n - a)"
    then obtain x y where "v = x @ y" "str_len x = n - a" by (auto simp: boundary_def)
    with s assms(2) show "boundary s n" unfolding boundary_def by (intro exI [of _ "p @ x"] exI [of _ "y @ q"]) auto
  next
    assume "boundary s n"
    then obtain x y where x: "s = x @ y" "str_len x = n" by (auto simp: boundary_def)
    with s assms(2) str_prefix_le [of p "v @ q" x y] obtain u where u: "x = p @ u" "v @ q = u @ y" by auto
    with x s assms(3) str_prefix_le [of u y v q] obtain w where "v = u @ w" by auto
    with u x s show "boundary v (n - a)" by (auto simp: boundary_def)
  qed
qed

text \<open>An ASCII byte is a whole character, so that it starts and ends at boundaries.\<close>

definition scalar :: "uchar \<Rightarrow> bool" where
  "scalar c \<longleftrightarrow> c < 0x110000"

lemma byte_of_nat_ge: "0x80 \<le> n \<Longrightarrow> n < 256 \<Longrightarrow> \<not> (of_nat n :: u8) < 0x80"
  by (simp add: word_less_nat_alt unat_of_nat)

lemma utf8_encode_ascii: "scalar c \<Longrightarrow> b \<in> set (utf8_encode c) \<Longrightarrow> b < 0x80 \<Longrightarrow> c < 0x80"
proof (rule ccontr)
  assume c: "scalar c" "b \<in> set (utf8_encode c)" "b < 0x80" "\<not> c < 0x80"
  have "c div 64 mod 64 < 64" "c mod 64 < 64" "c div 4096 mod 64 < 64" by simp_all
  moreover have "c < 0x800 \<Longrightarrow> c div 64 < 32" "c < 0x10000 \<Longrightarrow> c div 4096 < 16" "c div 262144 < 5" using c(1) by (auto simp: scalar_def)
  ultimately have "\<exists>n. b = of_nat n \<and> 0x80 \<le> n \<and> n < 256"
    using c(2,4) unfolding utf8_encode_def
    by (auto split: if_splits simp del: of_nat_add of_nat_numeral)
  with c(3) byte_of_nat_ge show False by blast
qed

lemma boundary_ascii:
  assumes "list_all scalar s" "i < str_len s" "str_bytes s ! i < 0x80"
  shows "boundary s i \<and> boundary s (Suc i)"
  using assms
proof (induction s arbitrary: i)
  case (Cons c s)
  show ?case
  proof (cases "i < length (utf8_encode c)")
    case True
    then have "utf8_encode c ! i < 0x80" using Cons.prems by (simp add: nth_append)
    with True utf8_encode_ascii [of c] Cons.prems(1) have c: "c < 0x80"
      by (auto dest: nth_mem)
    with True have i: "i = 0" by (simp add: utf8_encode_def)
    have "c # s = [c] @ s" "str_len [c] = Suc 0" using c by (simp_all add: utf8_encode_def)
    with i show ?thesis by (metis boundary_0 boundary_append)
  next
    case False
    then obtain j where j: "i = length (utf8_encode c) + j" by (metis le_Suc_ex not_less)
    with Cons.prems Cons.IH [of j] have "boundary s j" "boundary s (Suc j)" by (simp_all add: nth_append)
    then obtain p q p' q' where "s = p @ q" "str_len p = j" "s = p' @ q'" "str_len p' = Suc j" unfolding boundary_def by blast
    then show ?thesis unfolding j boundary_def
      by (intro conjI exI [of _ "c # p"] exI [of _ q] exI [of _ "c # p'"] exI [of _ q']) auto
  qed
qed simp

end
