(* ===== verification/Iterable.thy ===== *)
theory Iterable
  imports Text
begin

text \<open>
  \<open>crates/paneflow-textdiff/src/iterable.rs\<close>: the changed ranges of a comparison (\<open>Changes\<close>), their
  complement, the two builders that turn equal pairs into changed ranges, and \<open>lcs\<close>, which asks the
  diff engine.

  The engine is the third-party crate \<open>imara-diff\<close>. It is the argument \<open>engine\<close> of every definition
  that calls it: the hunks that \<open>Interner::intern\<close>, \<open>Diff::compute_with(Algorithm::Myers, ..)\<close> and
  \<open>Diff::hunks\<close> give for two sequences, each as its range before and its range after. The proofs rely
  on \<open>engine_ok\<close>, its documented behaviour for inputs under its token limit: the hunks are in order
  and separated, and the tokens outside them are equal pairwise. \<open>items\<close> names the elements it is ever
  given, those on which the \<open>Eq\<close> of the element type is an equivalence.
\<close>

section \<open>Changes\<close>

record changes =
  ch_changed :: "range list"
  ch_len1 :: nat
  ch_len2 :: nat

definition changes_new :: "range list \<Rightarrow> nat \<Rightarrow> nat \<Rightarrow> changes" where
  "changes_new changed len1 len2 = \<lparr>ch_changed = changed, ch_len1 = len1, ch_len2 = len2\<rparr>"

fun complement_loop :: "nat \<Rightarrow> nat \<Rightarrow> range list \<Rightarrow> nat \<Rightarrow> nat \<Rightarrow> range list option" where
  "complement_loop last1 last2 [] len1 len2 = do {
     tail \<leftarrow> range_new last1 len1 last2 len2;
     Some (if range_is_empty tail then [] else [tail])
   }"
| "complement_loop last1 last2 (r # rs) len1 len2 = do {
     gap \<leftarrow> range_new last1 (r_start1 r) last2 (r_start2 r);
     rest \<leftarrow> complement_loop (r_end1 r) (r_end2 r) rs len1 len2;
     Some (if range_is_empty gap then rest else gap # rest)
   }"

definition complement :: "range list \<Rightarrow> nat \<Rightarrow> nat \<Rightarrow> range list option" where
  "complement ranges len1 len2 = complement_loop 0 0 ranges len1 len2"

definition from_unchanged :: "range list \<Rightarrow> nat \<Rightarrow> nat \<Rightarrow> changes option" where
  "from_unchanged us len1 len2 = do {
     changed \<leftarrow> complement us len1 len2;
     Some (changes_new changed len1 len2)
   }"

definition unchanged :: "changes \<Rightarrow> range list option" where
  "unchanged ch = complement (ch_changed ch) (ch_len1 ch) (ch_len2 ch)"

section \<open>The builders\<close>

record change_builder =
  cb_len1 :: nat
  cb_len2 :: nat
  cb_index1 :: nat
  cb_index2 :: nat
  cb_changes :: "range list"

definition cb_new :: "nat \<Rightarrow> nat \<Rightarrow> change_builder" where
  "cb_new len1 len2 =
     \<lparr>cb_len1 = len1, cb_len2 = len2, cb_index1 = 0, cb_index2 = 0, cb_changes = []\<rparr>"

definition cb_mark_equal :: "change_builder \<Rightarrow> nat \<Rightarrow> nat \<Rightarrow> nat \<Rightarrow> nat \<Rightarrow> change_builder option" where
  "cb_mark_equal b index1 index2 end1 end2 =
     (if index1 = end1 \<and> index2 = end2 then Some b
      else do {
        dassert (cb_index1 b \<le> index1 \<and> cb_index2 b \<le> index2);
        dassert (index1 \<le> end1 \<and> index2 \<le> end2);
        pushed \<leftarrow> (if cb_index1 b \<noteq> index1 \<or> cb_index2 b \<noteq> index2 then do {
            r \<leftarrow> range_new (cb_index1 b) index1 (cb_index2 b) index2;
            Some (cb_changes b @ [r])
          } else Some (cb_changes b));
        Some (b\<lparr>cb_changes := pushed, cb_index1 := end1, cb_index2 := end2\<rparr>)
      })"

definition cb_mark_equal_count :: "change_builder \<Rightarrow> nat \<Rightarrow> nat \<Rightarrow> nat \<Rightarrow> change_builder option" where
  "cb_mark_equal_count b index1 index2 count =
     cb_mark_equal b index1 index2 (index1 + count) (index2 + count)"

definition cb_mark_equal_one :: "change_builder \<Rightarrow> nat \<Rightarrow> nat \<Rightarrow> change_builder option" where
  "cb_mark_equal_one b index1 index2 = cb_mark_equal_count b index1 index2 1"

definition cb_finish :: "change_builder \<Rightarrow> changes option" where
  "cb_finish b = do {
     dassert (cb_index1 b \<le> cb_len1 b \<and> cb_index2 b \<le> cb_len2 b);
     pushed \<leftarrow> (if cb_len1 b \<noteq> cb_index1 b \<or> cb_len2 b \<noteq> cb_index2 b then do {
         r \<leftarrow> range_new (cb_index1 b) (cb_len1 b) (cb_index2 b) (cb_len2 b);
         Some (cb_changes b @ [r])
       } else Some (cb_changes b));
     Some (changes_new pushed (cb_len1 b) (cb_len2 b))
   }"

record 'a expand_builder =
  eb_items1 :: "'a list"
  eb_items2 :: "'a list"
  eb_index1 :: nat
  eb_index2 :: nat
  eb_changes :: "range list"

definition eb_new :: "'a list \<Rightarrow> 'a list \<Rightarrow> 'a expand_builder" where
  "eb_new items1 items2 =
     \<lparr>eb_items1 = items1, eb_items2 = items2, eb_index1 = 0, eb_index2 = 0, eb_changes = []\<rparr>"

definition eb_add_change :: "('a \<Rightarrow> 'a \<Rightarrow> bool) \<Rightarrow> 'a expand_builder \<Rightarrow> nat \<Rightarrow> nat \<Rightarrow> nat \<Rightarrow> nat \<Rightarrow>
    'a expand_builder option" where
  "eb_add_change eq b start1 start2 end1 end2 = do {
     r \<leftarrow> expand eq (eb_items1 b) (eb_items2 b) start1 start2 end1 end2;
     Some (if range_is_empty r then b else b\<lparr>eb_changes := eb_changes b @ [r]\<rparr>)
   }"

definition eb_mark_equal_one :: "('a \<Rightarrow> 'a \<Rightarrow> bool) \<Rightarrow> 'a expand_builder \<Rightarrow> nat \<Rightarrow> nat \<Rightarrow>
    'a expand_builder option" where
  "eb_mark_equal_one eq b index1 index2 = do {
     dassert (eb_index1 b \<le> index1 \<and> eb_index2 b \<le> index2);
     b \<leftarrow> (if eb_index1 b \<noteq> index1 \<or> eb_index2 b \<noteq> index2
            then eb_add_change eq b (eb_index1 b) (eb_index2 b) index1 index2 else Some b);
     Some (b\<lparr>eb_index1 := index1 + 1, eb_index2 := index2 + 1\<rparr>)
   }"

definition eb_finish :: "('a \<Rightarrow> 'a \<Rightarrow> bool) \<Rightarrow> 'a expand_builder \<Rightarrow> changes option" where
  "eb_finish eq b = do {
     let len1 = length (eb_items1 b);
     let len2 = length (eb_items2 b);
     b \<leftarrow> (if len1 \<noteq> eb_index1 b \<or> len2 \<noteq> eb_index2 b
            then eb_add_change eq b (eb_index1 b) (eb_index2 b) len1 len2 else Some b);
     Some (changes_new (eb_changes b) len1 len2)
   }"

text \<open>
  The loop over the equal pairs of a comparison, \<open>for range in changes.unchanged() { for i in 0..count\<close>
  with the pair \<open>(range.start1 + i, range.start2 + i)\<close>, which the line, word and character passes all run.
\<close>

definition for_each_pair :: "('s \<Rightarrow> nat \<Rightarrow> nat \<Rightarrow> 's option) \<Rightarrow> 's \<Rightarrow> range list \<Rightarrow> 's option" where
  "for_each_pair f s us = for_each (\<lambda>s r. do {
       count \<leftarrow> usub (r_end1 r) (r_start1 r);
       for_each (\<lambda>s i. f s (r_start1 r + i) (r_start2 r + i)) s [0..<count]
     }) s us"

section \<open>The diff engine\<close>

type_synonym hunk = "(nat \<times> nat) \<times> (nat \<times> nat)"
type_synonym 'a diff_engine = "'a list \<Rightarrow> 'a list \<Rightarrow> hunk list"

datatype DiffTooBig = DiffTooBig

definition DELTA_THRESHOLD_SIZE :: nat where
  "DELTA_THRESHOLD_SIZE = 20000"

definition lcs :: "'a diff_engine \<Rightarrow> 'a list \<Rightarrow> 'a list \<Rightarrow> changes option" where
  "lcs engine items1 items2 = do {
     let len1 = length items1;
     let len2 = length items2;
     if len1 = 0 \<or> len2 = 0 then do {
       whole \<leftarrow> range_new 0 len1 0 len2;
       Some (changes_new (if range_is_empty whole then [] else [whole]) len1 len2)
     } else do {
       changed \<leftarrow> map_or_panic (\<lambda>((bs, be), (as, ae)). range_new bs be as ae) (engine items1 items2);
       Some (changes_new changed len1 len2)
     }
   }"

definition lcs_bounded :: "'a diff_engine \<Rightarrow> 'a list \<Rightarrow> 'a list \<Rightarrow> (DiffTooBig + changes) option" where
  "lcs_bounded engine items1 items2 =
     (if length items1 > DELTA_THRESHOLD_SIZE \<or> length items2 > DELTA_THRESHOLD_SIZE
      then Some (Inl DiffTooBig)
      else do { ch \<leftarrow> lcs engine items1 items2; Some (Inr ch) })"

definition hunk_range :: "hunk \<Rightarrow> range" where
  "hunk_range h = (case h of ((bs, be), (as, ae)) \<Rightarrow> mk_range bs be as ae)"

definition ENGINE_TOKEN_LIMIT :: nat where
  "ENGINE_TOKEN_LIMIT = 2147483647"

definition engine_ok :: "('a \<Rightarrow> bool) \<Rightarrow> ('a \<Rightarrow> 'a \<Rightarrow> bool) \<Rightarrow> 'a diff_engine \<Rightarrow> bool" where
  "engine_ok items eq engine \<longleftrightarrow> (\<forall>xs ys. xs \<noteq> [] \<longrightarrow> ys \<noteq> [] \<longrightarrow>
     list_all items xs \<longrightarrow> list_all items ys \<longrightarrow> length xs < ENGINE_TOKEN_LIMIT \<longrightarrow> length ys < ENGINE_TOKEN_LIMIT \<longrightarrow>
     valid_diff eq xs ys (map hunk_range (engine xs ys)))"

text \<open>
  An instance of the engine for evaluation on concrete inputs: the longest common prefix
  is kept and the rest is one hunk. It meets \<open>engine_ok\<close>, so the hypothesis is
  satisfiable; no theorem is stated about this instance alone.
\<close>

fun common_prefix :: "('a \<Rightarrow> 'a \<Rightarrow> bool) \<Rightarrow> 'a list \<Rightarrow> 'a list \<Rightarrow> nat" where
  "common_prefix eq (x # xs) (y # ys) = (if eq x y then Suc (common_prefix eq xs ys) else 0)"
| "common_prefix eq _ _ = 0"

definition prefix_engine :: "('a \<Rightarrow> 'a \<Rightarrow> bool) \<Rightarrow> 'a diff_engine" where
  "prefix_engine eq xs ys =
     (let p = common_prefix eq xs ys
      in if p = length xs \<and> p = length ys then [] else [((p, length xs), (p, length ys))])"

section \<open>The complement\<close>

lemma changes_new_sel [simp]:
  "ch_changed (changes_new cs a b) = cs" "ch_len1 (changes_new cs a b) = a"
  "ch_len2 (changes_new cs a b) = b"
  by (simp_all add: changes_new_def)

lemma valid_matching_Cons:
  "valid_matching eq xs ys (u # us) \<longleftrightarrow> match_block eq xs ys u \<and> valid_matching eq xs ys us \<and>
    (\<forall>v\<in>set us. range_before u v)"
  by (auto simp: valid_matching_def)

text \<open>From changed to unchanged: the gaps of a valid diff are matched blocks in order.\<close>

lemma runs_complement_loop_changed:
  assumes "diff_path eq xs ys s i j cs m n"
  shows "runs (complement_loop i j cs m n) (\<lambda>us. valid_matching eq xs ys us \<and>
    (\<forall>u\<in>set us. i \<le> r_start1 u \<and> j \<le> r_start2 u))"
  using assms
proof (induction cs arbitrary: s i j)
  case Nil
  then show ?case
    by (auto simp: wp valid_matching_def match_block_def)
next
  case (Cons c cs)
  from Cons.prems have c: "range_wf c" "i \<le> r_start1 c" "j \<le> r_start2 c"
    "r_start1 c - i = r_start2 c - j" "same_run eq xs ys i j (r_start1 c - i)"
    and p: "diff_path eq xs ys True (r_end1 c) (r_end2 c) cs m n" by auto
  let ?g = "mk_range i (r_start1 c) j (r_start2 c)"
  have gap: "range_is_empty ?g \<or> match_block eq xs ys ?g"
    using c by (auto simp: match_block_def)
  have "runs (complement_loop (r_end1 c) (r_end2 c) cs m n) (\<lambda>us. valid_matching eq xs ys
      (if range_is_empty ?g then us else ?g # us) \<and>
      (\<forall>u\<in>set (if range_is_empty ?g then us else ?g # us). i \<le> r_start1 u \<and> j \<le> r_start2 u))"
  proof (rule runs_mono [OF Cons.IH [OF p]], elim conjE)
    fix us
    assume us: "valid_matching eq xs ys us" "\<forall>u\<in>set us. r_end1 c \<le> r_start1 u \<and> r_end2 c \<le> r_start2 u"
    have le: "\<forall>u\<in>set us. r_start1 c \<le> r_start1 u \<and> r_start2 c \<le> r_start2 u"
      using us(2) c(1) by (force simp: range_wf_def)
    then have "\<forall>u\<in>set us. i \<le> r_start1 u \<and> j \<le> r_start2 u"
      using c(2,3) by force
    with us(1) le gap c(2,3) show "valid_matching eq xs ys (if range_is_empty ?g then us else ?g # us) \<and>
      (\<forall>u\<in>set (if range_is_empty ?g then us else ?g # us). i \<le> r_start1 u \<and> j \<le> r_start2 u)"
      by (auto simp: valid_matching_Cons range_before_def)
  qed
  with c show ?case by (simp add: wp)
qed

lemma runs_unchanged:
  assumes "valid_diff eq xs ys (ch_changed ch)" "ch_len1 ch = length xs" "ch_len2 ch = length ys"
  shows "runs (unchanged ch) (valid_matching eq xs ys)"
  unfolding unchanged_def complement_def
  by (rule runs_mono [OF runs_complement_loop_changed]) (use assms in \<open>auto simp: valid_diff_def\<close>)

text \<open>From unchanged to changed: the gaps between matched blocks are the changes of a valid diff.\<close>

lemma runs_complement_loop_unchanged:
  assumes "valid_matching eq xs ys us"
    and "\<forall>u\<in>set us. i + k \<le> r_start1 u \<and> j + k \<le> r_start2 u"
    and "same_run eq xs ys i j k" and "s \<Longrightarrow> 0 < k"
  shows "runs (complement_loop (i + k) (j + k) us (length xs) (length ys))
    (\<lambda>cs. diff_path eq xs ys s i j cs (length xs) (length ys))"
  using assms
proof (induction us arbitrary: s i j k)
  case Nil
  then show ?case
    by (auto simp: wp same_run_def)
next
  case (Cons u us)
  let ?n = "r_end1 u - r_start1 u"
  from Cons.prems have u: "match_block eq xs ys u" "i + k \<le> r_start1 u" "j + k \<le> r_start2 u"
    and us: "valid_matching eq xs ys us" "\<forall>v\<in>set us. range_before u v"
    by (auto simp: valid_matching_def)
  from u(1) have e: "r_end1 u = r_start1 u + ?n" "r_end2 u = r_start2 u + ?n" "0 < ?n"
    and run: "same_run eq xs ys (r_start1 u) (r_start2 u) ?n"
    by (auto simp: match_block_def)
  show ?case
  proof (cases "i + k = r_start1 u \<and> j + k = r_start2 u")
    case True
    with Cons.prems(3) run have run': "same_run eq xs ys i j (k + ?n)"
      by (simp add: same_run_add)
    have "runs (complement_loop (i + (k + ?n)) (j + (k + ?n)) us (length xs) (length ys))
      (\<lambda>cs. diff_path eq xs ys s i j cs (length xs) (length ys))"
      by (rule Cons.IH [OF us(1) _ run']) (use us True e in \<open>auto simp: range_before_def\<close>)
    moreover have ends: "i + (k + ?n) = r_end1 u" "j + (k + ?n) = r_end2 u" using True e by auto
    ultimately have "runs (complement_loop (r_end1 u) (r_end2 u) us (length xs) (length ys))
      (\<lambda>cs. diff_path eq xs ys s i j cs (length xs) (length ys))" by (simp only: ends)
    then show ?thesis using True by (simp add: wp)
  next
    case False
    have "runs (complement_loop (r_start1 u + ?n) (r_start2 u + ?n) us (length xs) (length ys))
      (\<lambda>cs. diff_path eq xs ys True (r_start1 u) (r_start2 u) cs (length xs) (length ys))"
      by (rule Cons.IH [OF us(1) _ run]) (use us e in \<open>auto simp: range_before_def\<close>)
    with e have "runs (complement_loop (r_end1 u) (r_end2 u) us (length xs) (length ys))
      (\<lambda>cs. diff_path eq xs ys True (r_start1 u) (r_start2 u) cs (length xs) (length ys))"
      by simp
    then show ?thesis
      using False u Cons.prems(3,4) by (auto simp: wp elim: runs_mono)
  qed
qed

lemma runs_from_unchanged:
  assumes "valid_matching eq xs ys us"
  shows "runs (from_unchanged us (length xs) (length ys)) (\<lambda>ch. valid_diff eq xs ys (ch_changed ch) \<and>
    ch_len1 ch = length xs \<and> ch_len2 ch = length ys)"
  using runs_complement_loop_unchanged [OF assms, of 0 0 0 False]
  by (auto simp: from_unchanged_def complement_def valid_diff_def wp elim: runs_mono)

section \<open>Visiting the equal pairs\<close>

definition match_pairs :: "range list \<Rightarrow> (nat \<times> nat) list" where
  "match_pairs us = concat (map (\<lambda>u. map (\<lambda>i. (r_start1 u + i, r_start2 u + i))
     [0..<r_end1 u - r_start1 u]) us)"

definition pair_less :: "nat \<times> nat \<Rightarrow> nat \<times> nat \<Rightarrow> bool" where
  "pair_less p q \<longleftrightarrow> fst p < fst q \<and> snd p < snd q"

lemma match_pairs_simps [simp]:
  "match_pairs [] = []"
  "match_pairs (u # us) = map (\<lambda>i. (r_start1 u + i, r_start2 u + i)) [0..<r_end1 u - r_start1 u] @ match_pairs us"
  by (simp_all add: match_pairs_def)

lemma for_each_map: "for_each f s (map g xs) = for_each (\<lambda>s x. f s (g x)) s xs"
  by (induction xs arbitrary: s) auto

lemma for_each_pair_flat:
  assumes "valid_matching eq xs ys us"
  shows "for_each_pair f s us = for_each (\<lambda>s p. f s (fst p) (snd p)) s (match_pairs us)"
  using assms
proof (induction us arbitrary: s)
  case Nil
  then show ?case by (simp add: for_each_pair_def)
next
  case (Cons u us)
  then have "valid_matching eq xs ys us" "r_start1 u \<le> r_end1 u"
    by (auto simp: valid_matching_def match_block_def)
  with Cons.IH show ?case
    by (simp add: for_each_pair_def usub_def for_each_append for_each_map)
qed

lemma match_pairs_valid:
  assumes "valid_matching eq xs ys us" "p \<in> set (match_pairs us)"
  shows "fst p < length xs \<and> snd p < length ys \<and> eq (xs ! fst p) (ys ! snd p)"
  using assms by (fastforce simp: match_pairs_def valid_matching_def match_block_def same_run_def)

lemma match_pairs_within:
  assumes "valid_matching eq xs ys us" "p \<in> set (match_pairs us)"
  shows "\<exists>u\<in>set us. r_start1 u \<le> fst p \<and> fst p < r_end1 u \<and> r_start2 u \<le> snd p \<and> snd p < r_end2 u"
proof -
  from assms(2) obtain u i where "u \<in> set us" "i < r_end1 u - r_start1 u"
    and "p = (r_start1 u + i, r_start2 u + i)" by (auto simp: match_pairs_def)
  with assms(1) show ?thesis
    by (intro bexI [of _ u]) (auto simp: valid_matching_def match_block_def)
qed

lemma match_pairs_sorted:
  assumes "valid_matching eq xs ys us"
  shows "sorted_wrt pair_less (match_pairs us)"
  using assms
proof (induction us)
  case Nil
  then show ?case by simp
next
  case (Cons u us)
  have us: "valid_matching eq xs ys us" and u: "match_block eq xs ys u" "\<forall>v\<in>set us. range_before u v"
    using Cons.prems by (auto simp: valid_matching_Cons)
  have "pair_less (r_start1 u + i, r_start2 u + i) q"
    if "i < r_end1 u - r_start1 u" "q \<in> set (match_pairs us)" for i q
    using match_pairs_within [OF us that(2)] u that(1)
    by (force simp: range_before_def match_block_def pair_less_def)
  moreover have "sorted_wrt pair_less (map (\<lambda>i. (r_start1 u + i, r_start2 u + i)) [0..<n])" for n
    by (simp add: sorted_wrt_map pair_less_def)
  ultimately show ?case
    using Cons.IH [OF us] by (auto simp: sorted_wrt_append)
qed

lemma runs_for_each_pair:
  assumes "valid_matching eq xs ys us"
    and "I s (match_pairs us)"
    and "\<And>s p ps. I s (p # ps) \<Longrightarrow> runs (f s (fst p) (snd p)) (\<lambda>s'. I s' ps)"
  shows "runs (for_each_pair f s us) (\<lambda>s'. I s' [])"
  unfolding for_each_pair_flat [OF assms(1)] using assms(2,3) by (rule runs_for_each)

section \<open>The engine's result\<close>

text \<open>
  What a pass promises about its result: the changed ranges are a valid diff of the two sequences
  and the recorded lengths are theirs.
\<close>

definition changes_ok :: "('a \<Rightarrow> 'b \<Rightarrow> bool) \<Rightarrow> 'a list \<Rightarrow> 'b list \<Rightarrow> changes \<Rightarrow> bool" where
  "changes_ok eq xs ys ch \<longleftrightarrow>
     valid_diff eq xs ys (ch_changed ch) \<and> ch_len1 ch = length xs \<and> ch_len2 ch = length ys"

lemma changes_ok_map:
  "changes_ok eq (map f xs) (map g ys) ch \<longleftrightarrow> changes_ok (\<lambda>a b. eq (f a) (g b)) xs ys ch"
  by (simp add: changes_ok_def valid_diff_map)

lemma changes_ok_mono:
  "changes_ok eq xs ys ch \<Longrightarrow> (\<And>x y. eq x y \<Longrightarrow> eq' x y) \<Longrightarrow> changes_ok eq' xs ys ch"
  by (auto simp: changes_ok_def intro: valid_diff_mono)

lemma runs_unchanged_ok: "changes_ok eq xs ys ch \<Longrightarrow> runs (unchanged ch) (valid_matching eq xs ys)"
  by (auto simp: changes_ok_def intro: runs_unchanged)

lemma runs_from_unchanged_ok:
  "valid_matching eq xs ys us \<Longrightarrow>
   runs (from_unchanged us (length xs) (length ys)) (changes_ok eq xs ys)"
  unfolding changes_ok_def by (rule runs_from_unchanged)

lemma map_or_panic_hunks:
  "\<forall>h\<in>set hs. range_wf (hunk_range h) \<Longrightarrow>
   map_or_panic (\<lambda>((bs, be), (as, ae)). range_new bs be as ae) hs = Some (map hunk_range hs)"
  by (induction hs) (auto simp: hunk_range_def range_new_def dassert_def split: prod.splits)

lemma runs_lcs:
  assumes "engine_ok items eq engine" "list_all items xs" "list_all items ys"
    and "length xs < ENGINE_TOKEN_LIMIT" "length ys < ENGINE_TOKEN_LIMIT"
  shows "runs (lcs engine xs ys) (changes_ok eq xs ys)"
proof (cases "xs = [] \<or> ys = []")
  case True
  then show ?thesis
    by (auto simp: lcs_def Let_def wp changes_ok_def valid_diff_def)
next
  case False
  with assms have v: "valid_diff eq xs ys (map hunk_range (engine xs ys))"
    by (simp add: engine_ok_def)
  then have "\<forall>c\<in>set (map hunk_range (engine xs ys)). range_wf c"
    using diff_path_wf unfolding valid_diff_def by blast
  then have "\<forall>h\<in>set (engine xs ys). range_wf (hunk_range h)" by simp
  with False v show ?thesis
    by (simp add: lcs_def Let_def changes_ok_def map_or_panic_hunks)
qed

lemma same_run_common_prefix: "same_run eq xs ys 0 0 (common_prefix eq xs ys)"
proof (induction eq xs ys rule: common_prefix.induct)
  case (1 eq x xs y ys)
  then show ?case
    by (auto simp: same_run_def less_Suc_eq_0_disj)
qed simp_all

lemma engine_ok_prefix_engine: "engine_ok items eq (prefix_engine eq)"
proof -
  have "valid_diff eq xs ys (map hunk_range (prefix_engine eq xs ys))" for xs ys
  proof -
    let ?p = "common_prefix eq xs ys"
    have "same_run eq xs ys 0 0 ?p" by (rule same_run_common_prefix)
    moreover from this have "?p \<le> length xs" "?p \<le> length ys" by (auto simp: same_run_def)
    ultimately show ?thesis
      by (auto simp: prefix_engine_def Let_def valid_diff_def hunk_range_def)
  qed
  then show ?thesis by (simp add: engine_ok_def)
qed

section \<open>The builders\<close>

definition cb_inv :: "('a \<Rightarrow> 'b \<Rightarrow> bool) \<Rightarrow> 'a list \<Rightarrow> 'b list \<Rightarrow> change_builder \<Rightarrow> bool" where
  "cb_inv eq xs ys b \<longleftrightarrow> cb_len1 b = length xs \<and> cb_len2 b = length ys \<and>
     diff_path eq xs ys False 0 0 (cb_changes b) (cb_index1 b) (cb_index2 b) \<and>
     diff_tail_ok False 0 (cb_changes b) (cb_index1 b)"

definition eb_inv :: "('a \<Rightarrow> 'a \<Rightarrow> bool) \<Rightarrow> 'a list \<Rightarrow> 'a list \<Rightarrow> 'a expand_builder \<Rightarrow> bool" where
  "eb_inv eq xs ys b \<longleftrightarrow> eb_items1 b = xs \<and> eb_items2 b = ys \<and>
     diff_path eq xs ys False 0 0 (eb_changes b) (eb_index1 b) (eb_index2 b) \<and>
     diff_tail_ok False 0 (eb_changes b) (eb_index1 b) \<and> (\<forall>c\<in>set (eb_changes b). tight eq xs ys c)"

lemma cb_inv_new: "cb_inv eq xs ys (cb_new (length xs) (length ys))"
  by (simp add: cb_inv_def cb_new_def diff_tail_ok_def)

lemma eb_inv_new: "eb_inv eq xs ys (eb_new xs ys)"
  by (simp add: eb_inv_def eb_new_def diff_tail_ok_def)

lemma diff_tail_ok_mono: "diff_tail_ok s i cs m \<Longrightarrow> m \<le> m' \<Longrightarrow> diff_tail_ok s i cs m'"
  by (auto simp: diff_tail_ok_def split: if_splits)

lemma diff_tail_ok_snoc [simp]: "diff_tail_ok s i (cs @ [c]) m \<longleftrightarrow> r_end1 c < m"
  by (simp add: diff_tail_ok_def)

lemma runs_cb_mark_equal:
  assumes inv: "cb_inv eq xs ys b" and le: "cb_index1 b \<le> i" "cb_index2 b \<le> j"
    and run: "same_run eq xs ys i j k"
  shows "runs (cb_mark_equal b i j (i + k) (j + k)) (\<lambda>b'. cb_inv eq xs ys b' \<and>
    (if k = 0 then b' = b else cb_index1 b' = i + k \<and> cb_index2 b' = j + k))"
proof (cases "k = 0")
  case True
  with inv show ?thesis by (simp add: cb_mark_equal_def)
next
  case False
  have bounds: "i \<le> length xs" "j \<le> length ys" using run by (auto simp: same_run_def)
  show ?thesis
  proof (cases "cb_index1 b = i \<and> cb_index2 b = j")
    case True
    with inv run False show ?thesis
      by (auto simp: cb_mark_equal_def wp cb_inv_def intro: diff_path_extend diff_tail_ok_mono)
  next
    case gap: False
    then have "diff_path eq xs ys False 0 0
        (cb_changes b @ [mk_range (cb_index1 b) i (cb_index2 b) j]) i j"
      using inv le bounds by (intro diff_path_push) (auto simp: cb_inv_def)
    then have "diff_path eq xs ys False 0 0
        (cb_changes b @ [mk_range (cb_index1 b) i (cb_index2 b) j]) (i + k) (j + k)"
      using run by (rule diff_path_extend)
    with gap inv le False show ?thesis
      by (simp add: cb_mark_equal_def wp cb_inv_def)
  qed
qed

lemma runs_cb_finish:
  assumes inv: "cb_inv eq xs ys b"
  shows "runs (cb_finish b) (changes_ok eq xs ys)"
proof -
  have le: "cb_index1 b \<le> length xs" "cb_index2 b \<le> length ys"
    using inv by (auto simp: cb_inv_def dest: diff_path_bounds)
  show ?thesis
  proof (cases "length xs = cb_index1 b \<and> length ys = cb_index2 b")
    case True
    with inv show ?thesis
      by (simp add: cb_finish_def wp cb_inv_def changes_ok_def valid_diff_def)
  next
    case False
    with inv le have "diff_path eq xs ys False 0 0
        (cb_changes b @ [mk_range (cb_index1 b) (length xs) (cb_index2 b) (length ys)])
        (length xs) (length ys)"
      by (intro diff_path_push) (auto simp: cb_inv_def)
    with False inv le show ?thesis
      by (auto simp: cb_finish_def wp cb_inv_def changes_ok_def valid_diff_def)
  qed
qed

lemma runs_eb_add_change:
  assumes inv: "eb_inv eq xs ys b" and le: "eb_index1 b \<le> i" "eb_index2 b \<le> j"
    and bounds: "i \<le> length xs" "j \<le> length ys"
  shows "runs (eb_add_change eq b (eb_index1 b) (eb_index2 b) i j) (\<lambda>b'.
    eb_items1 b' = xs \<and> eb_items2 b' = ys \<and> eb_index1 b' = eb_index1 b \<and> eb_index2 b' = eb_index2 b \<and>
    diff_path eq xs ys False 0 0 (eb_changes b') i j \<and>
    (\<forall>c\<in>set (eb_changes b'). tight eq xs ys c) \<and>
    diff_tail_ok False 0 (eb_changes b') (Suc i))"
  unfolding eb_add_change_def
proof (rule runs_bindI)
  show "runs (expand eq (eb_items1 b) (eb_items2 b) (eb_index1 b) (eb_index2 b) i j) (\<lambda>r. \<exists>f c.
    eb_index1 b + f + c \<le> i \<and> eb_index2 b + f + c \<le> j \<and>
    r = mk_range (eb_index1 b + f) (i - c) (eb_index2 b + f) (j - c) \<and>
    same_run eq xs ys (eb_index1 b) (eb_index2 b) f \<and> same_run eq xs ys (i - c) (j - c) c \<and>
    tight eq xs ys r)"
    using inv le bounds runs_expand [of "eb_index1 b" i xs "eb_index2 b" j ys eq]
    by (simp add: eb_inv_def)
next
  fix r
  assume "\<exists>f c. eb_index1 b + f + c \<le> i \<and> eb_index2 b + f + c \<le> j \<and>
    r = mk_range (eb_index1 b + f) (i - c) (eb_index2 b + f) (j - c) \<and>
    same_run eq xs ys (eb_index1 b) (eb_index2 b) f \<and> same_run eq xs ys (i - c) (j - c) c \<and>
    tight eq xs ys r"
  then obtain f c where fc: "eb_index1 b + f + c \<le> i" "eb_index2 b + f + c \<le> j"
    and r: "r = mk_range (eb_index1 b + f) (i - c) (eb_index2 b + f) (j - c)"
    and run: "same_run eq xs ys (eb_index1 b) (eb_index2 b) f" "same_run eq xs ys (i - c) (j - c) c"
    and t: "tight eq xs ys r" by blast
  have "diff_path eq xs ys False 0 0
    (if eb_index1 b + f = i - c \<and> eb_index2 b + f = j - c then eb_changes b
     else eb_changes b @ [mk_range (eb_index1 b + f) (i - c) (eb_index2 b + f) (j - c)])
    (i - c + c) (j - c + c)"
    by (rule diff_path_push_tight [OF _ _ run]) (use inv fc in \<open>auto simp: eb_inv_def\<close>)
  moreover have "i - c + c = i" "j - c + c = j" using fc by auto
  ultimately show "runs (Some (if range_is_empty r then b else b\<lparr>eb_changes := eb_changes b @ [r]\<rparr>)) (\<lambda>b'.
    eb_items1 b' = xs \<and> eb_items2 b' = ys \<and> eb_index1 b' = eb_index1 b \<and> eb_index2 b' = eb_index2 b \<and>
    diff_path eq xs ys False 0 0 (eb_changes b') i j \<and>
    (\<forall>c\<in>set (eb_changes b'). tight eq xs ys c) \<and>
    diff_tail_ok False 0 (eb_changes b') (Suc i))"
    using inv le r t by (auto simp: eb_inv_def elim: diff_tail_ok_mono)
qed

lemma runs_eb_mark_equal_one:
  assumes inv: "eb_inv eq xs ys b" and le: "eb_index1 b \<le> i" "eb_index2 b \<le> j"
    and ij: "i < length xs" "j < length ys" "eq (xs ! i) (ys ! j)"
  shows "runs (eb_mark_equal_one eq b i j) (\<lambda>b'. eb_inv eq xs ys b' \<and>
    eb_index1 b' = i + 1 \<and> eb_index2 b' = j + 1)"
proof -
  have run: "same_run eq xs ys i j 1" using ij by (simp add: same_run_1)
  have gap: "runs (if eb_index1 b \<noteq> i \<or> eb_index2 b \<noteq> j
      then eb_add_change eq b (eb_index1 b) (eb_index2 b) i j else Some b) (\<lambda>b'.
    eb_items1 b' = xs \<and> eb_items2 b' = ys \<and> diff_path eq xs ys False 0 0 (eb_changes b') i j \<and>
    (\<forall>c\<in>set (eb_changes b'). tight eq xs ys c) \<and> diff_tail_ok False 0 (eb_changes b') (Suc i))"
    using inv le ij runs_eb_add_change [OF inv le]
    by (auto simp: eb_inv_def elim: runs_mono diff_tail_ok_mono)
  show ?thesis
    unfolding eb_mark_equal_one_def runs_bind runs_dassert
  proof (intro conjI le)
    show "runs (if eb_index1 b \<noteq> i \<or> eb_index2 b \<noteq> j
        then eb_add_change eq b (eb_index1 b) (eb_index2 b) i j else Some b) (\<lambda>b.
      runs (Some (b\<lparr>eb_index1 := i + 1, eb_index2 := j + 1\<rparr>)) (\<lambda>b'. eb_inv eq xs ys b' \<and>
        eb_index1 b' = i + 1 \<and> eb_index2 b' = j + 1))"
      by (rule runs_mono [OF gap]) (use diff_path_extend [OF _ run] in \<open>auto simp: eb_inv_def\<close>)
  qed
qed

lemma runs_eb_finish:
  assumes inv: "eb_inv eq xs ys b"
  shows "runs (eb_finish eq b) (\<lambda>ch. changes_ok eq xs ys ch \<and> (\<forall>c\<in>set (ch_changed ch). tight eq xs ys c))"
proof -
  have le: "eb_index1 b \<le> length xs" "eb_index2 b \<le> length ys"
    using inv by (auto simp: eb_inv_def dest: diff_path_bounds)
  have "runs (if length xs \<noteq> eb_index1 b \<or> length ys \<noteq> eb_index2 b
      then eb_add_change eq b (eb_index1 b) (eb_index2 b) (length xs) (length ys) else Some b) (\<lambda>b'.
    diff_path eq xs ys False 0 0 (eb_changes b') (length xs) (length ys) \<and>
    (\<forall>c\<in>set (eb_changes b'). tight eq xs ys c))"
    using inv runs_eb_add_change [OF inv le]
    by (auto simp: eb_inv_def elim: runs_mono)
  then show ?thesis
    using inv unfolding eb_finish_def Let_def
    by (auto simp: wp eb_inv_def changes_ok_def valid_diff_def elim: runs_mono)
qed

section \<open>The interface of a builder\<close>

text \<open>
  What the callers of the two builders rely on: marking one equal pair at or after the current
  position keeps the builder valid and moves it just past the pair.
\<close>

locale pair_builder =
  fixes eq :: "'a \<Rightarrow> 'a \<Rightarrow> bool"
    and xs ys :: "'a list"
    and mark :: "'b \<Rightarrow> nat \<Rightarrow> nat \<Rightarrow> 'b option"
    and index1 index2 :: "'b \<Rightarrow> nat"
    and inv :: "'b \<Rightarrow> bool"
  assumes mark_one: "inv b \<Longrightarrow> index1 b \<le> i \<Longrightarrow> index2 b \<le> j \<Longrightarrow> i < length xs \<Longrightarrow> j < length ys \<Longrightarrow>
    eq (xs ! i) (ys ! j) \<Longrightarrow> runs (mark b i j) (\<lambda>b'. inv b' \<and> index1 b' = i + 1 \<and> index2 b' = j + 1)"
begin

lemma mark_pairs:
  assumes "inv b"
    and "sorted_wrt pair_less ps"
    and "\<forall>p\<in>set ps. index1 b \<le> fst p \<and> index2 b \<le> snd p \<and> fst p < length xs \<and> snd p < length ys \<and>
      fst p < lim1 \<and> snd p < lim2"
    and "index1 b \<le> lim1" "index2 b \<le> lim2"
  shows "runs (for_each (\<lambda>b p. if eq (xs ! fst p) (ys ! snd p) then mark b (fst p) (snd p) else Some b) b ps)
    (\<lambda>b'. inv b' \<and> index1 b' \<le> lim1 \<and> index2 b' \<le> lim2)"
  using assms
proof (induction ps arbitrary: b)
  case Nil
  then show ?case by simp
next
  case (Cons p ps)
  have "runs (if eq (xs ! fst p) (ys ! snd p) then mark b (fst p) (snd p) else Some b) (\<lambda>b'.
    inv b' \<and> index1 b' \<le> lim1 \<and> index2 b' \<le> lim2 \<and>
    (\<forall>q\<in>set ps. index1 b' \<le> fst q \<and> index2 b' \<le> snd q))"
    using Cons.prems mark_one [of b "fst p" "snd p"]
    by (force simp: Suc_le_eq pair_less_def elim!: runs_mono)
  then show ?case
    using Cons.IH Cons.prems by (auto intro: runs_bindI)
qed

end

interpretation cb: pair_builder eq xs ys cb_mark_equal_one cb_index1 cb_index2 "cb_inv eq xs ys"
  for eq :: "'a \<Rightarrow> 'a \<Rightarrow> bool" and xs ys
proof
  fix b i j
  assume "cb_inv eq xs ys b" "cb_index1 b \<le> i" "cb_index2 b \<le> j"
    and "i < length xs" "j < length ys" "eq (xs ! i) (ys ! j)"
  then show "runs (cb_mark_equal_one b i j) (\<lambda>b'. cb_inv eq xs ys b' \<and>
      cb_index1 b' = i + 1 \<and> cb_index2 b' = j + 1)"
    using runs_cb_mark_equal [of eq xs ys b i j 1]
    by (simp add: cb_mark_equal_one_def cb_mark_equal_count_def same_run_1)
qed

interpretation eb: pair_builder eq xs ys "eb_mark_equal_one eq" eb_index1 eb_index2 "eb_inv eq xs ys"
  for eq :: "'a \<Rightarrow> 'a \<Rightarrow> bool" and xs ys
  by unfold_locales (rule runs_eb_mark_equal_one)

section \<open>Changed and unchanged determine each other\<close>

lemma complement_loop_back:
  assumes "diff_path eq xs ys True i j cs m n" and "a \<le> i" "b \<le> j" "a < i \<or> b < j"
  shows "runs (complement_loop i j cs m n) (\<lambda>us. complement_loop a b us m n = Some (mk_range a i b j # cs))"
  using assms
proof (induction cs arbitrary: i j a b)
  case Nil
  then show ?case
    by (auto simp: wp range_new_def dassert_def)
next
  case (Cons c cs)
  then have "runs (complement_loop (r_end1 c) (r_end2 c) cs m n)
      (\<lambda>us. complement_loop (r_start1 c) (r_start2 c) us m n =
        Some (mk_range (r_start1 c) (r_end1 c) (r_start2 c) (r_end2 c) # cs))"
    by (intro Cons.IH) (auto simp: range_wf_def range_is_empty_def)
  with Cons.prems show ?case
    by (auto simp: wp range_new_def dassert_def elim!: runs_mono)
qed

text \<open>
  The unchanged blocks of a valid diff lead back to exactly its changed ranges.
\<close>

theorem unchanged_roundtrip:
  assumes "changes_ok eq xs ys ch"
  shows "runs (unchanged ch) (\<lambda>us. from_unchanged us (ch_len1 ch) (ch_len2 ch) = Some ch)"
proof -
  have path: "diff_path eq xs ys False 0 0 (ch_changed ch) (ch_len1 ch) (ch_len2 ch)"
    using assms by (simp add: changes_ok_def valid_diff_def)
  have "runs (complement_loop 0 0 (ch_changed ch) (ch_len1 ch) (ch_len2 ch))
      (\<lambda>us. complement_loop 0 0 us (ch_len1 ch) (ch_len2 ch) = Some (ch_changed ch))"
  proof (cases "ch_changed ch")
    case Nil
    then show ?thesis by (auto simp: wp range_new_def dassert_def)
  next
    case (Cons c cs)
    with path have "runs (complement_loop (r_end1 c) (r_end2 c) cs (ch_len1 ch) (ch_len2 ch))
      (\<lambda>us. complement_loop (r_start1 c) (r_start2 c) us (ch_len1 ch) (ch_len2 ch) =
        Some (mk_range (r_start1 c) (r_end1 c) (r_start2 c) (r_end2 c) # cs))"
      by (intro complement_loop_back) (auto simp: range_wf_def range_is_empty_def)
    with Cons show ?thesis
      by (auto simp: wp range_new_def dassert_def elim!: runs_mono)
  qed
  then show ?thesis
    by (auto simp: unchanged_def from_unchanged_def complement_def changes_new_def elim!: runs_mono)
qed

theorem unchanged_roundtrip_witness:
  "runs (unchanged (changes_new [mk_range 1 2 1 1] 3 2))
     (\<lambda>us. from_unchanged us (ch_len1 (changes_new [mk_range 1 2 1 1] 3 2)) (ch_len2 (changes_new [mk_range 1 2 1 1] 3 2)) =
       Some (changes_new [mk_range 1 2 1 1] 3 2))"
proof (rule unchanged_roundtrip)
  show "changes_ok (=) [1, 2, 3 :: nat] [1, 3] (changes_new [mk_range 1 2 1 1] 3 2)"
    by (simp add: changes_ok_def valid_diff_def same_run_def)
qed

end
