(* ===== verification/Chunk_Optimizer.thy ===== *)
theory Chunk_Optimizer
  imports Iterable
begin

text \<open>
  \<open>crates/paneflow-textdiff/src/chunk_optimizer.rs\<close>: two matched blocks that touch on one side are
  merged or their common boundary is moved, as far as the elements allow it. The \<open>ranges\<close> vector is
  kept with its last element first, so that \<open>push\<close> and \<open>pop\<close> act on the head of the list.

  The trait \<open>BoundaryShift\<close>, which decides how far a boundary moves, is the locale
  \<open>boundary_shift\<close>: its one law is that the answer stays within the number of equal elements found
  after and before the boundary. \<open>By_Line\<close> interprets it for lines.
\<close>

type_synonym shift_fun = "bool \<Rightarrow> nat \<Rightarrow> nat \<Rightarrow> range \<Rightarrow> range \<Rightarrow> int option"

definition offset :: "nat \<Rightarrow> int \<Rightarrow> nat option" where
  "offset index delta = (if delta \<ge> 0 then Some (index + nat delta) else usub index (nat (- delta)))"

definition select :: "bool \<Rightarrow> 'a \<Rightarrow> 'a \<Rightarrow> 'a" where
  "select left a b = (if left then a else b)"

fun process_last_ranges :: "('a \<Rightarrow> 'a \<Rightarrow> bool) \<Rightarrow> 'a list \<Rightarrow> 'a list \<Rightarrow> shift_fun \<Rightarrow> range list \<Rightarrow>
    range list option" where
  "process_last_ranges eq data1 data2 shift (range2 # range1 # rest) =
     (if r_end1 range1 \<noteq> r_start1 range2 \<and> r_end2 range1 \<noteq> r_start2 range2
      then Some (range2 # range1 # rest)
      else do {
        count1 \<leftarrow> usub (r_end1 range1) (r_start1 range1);
        count2 \<leftarrow> usub (r_end1 range2) (r_start1 range2);
        equal_forward \<leftarrow> expand_forward eq data1 data2 (r_end1 range1) (r_end2 range1)
          (r_end1 range1 + count2) (r_end2 range1 + count2);
        back1 \<leftarrow> usub (r_start1 range2) count1;
        back2 \<leftarrow> usub (r_start2 range2) count1;
        equal_backward \<leftarrow> expand_backward eq data1 data2 back1 back2
          (r_start1 range2) (r_start2 range2);
        if equal_forward = 0 \<and> equal_backward = 0 then Some (range2 # range1 # rest)
        else if equal_forward = count2 then do {
          merged \<leftarrow> range_new (r_start1 range1) (r_end1 range1 + count2)
            (r_start2 range1) (r_end2 range1 + count2);
          process_last_ranges eq data1 data2 shift (merged # rest)
        }
        else if equal_backward = count1 then do {
          merged \<leftarrow> range_new back1 (r_end1 range2) back2 (r_end2 range2);
          process_last_ranges eq data1 data2 shift (merged # rest)
        }
        else do {
          let touch_left = (r_end1 range1 = r_start1 range2);
          delta \<leftarrow> shift touch_left equal_forward equal_backward range1 range2;
          if delta \<noteq> 0 then do {
            end1 \<leftarrow> offset (r_end1 range1) delta;
            end2 \<leftarrow> offset (r_end2 range1) delta;
            first \<leftarrow> range_new (r_start1 range1) end1 (r_start2 range1) end2;
            start1 \<leftarrow> offset (r_start1 range2) delta;
            start2 \<leftarrow> offset (r_start2 range2) delta;
            second \<leftarrow> range_new start1 (r_end1 range2) start2 (r_end2 range2);
            Some (second # first # rest)
          } else Some (range2 # range1 # rest)
        }
      })"
| "process_last_ranges eq data1 data2 shift ranges = Some ranges"

definition optimize_chunks :: "('a \<Rightarrow> 'a \<Rightarrow> bool) \<Rightarrow> 'a list \<Rightarrow> 'a list \<Rightarrow> changes \<Rightarrow> shift_fun \<Rightarrow>
    changes option" where
  "optimize_chunks eq data1 data2 iterable shift = do {
     us \<leftarrow> unchanged iterable;
     ranges \<leftarrow> for_each (\<lambda>ranges r. process_last_ranges eq data1 data2 shift (r # ranges)) [] us;
     from_unchanged (rev ranges) (length data1) (length data2)
   }"

section \<open>The contract of a boundary shift\<close>

text \<open>
  When the optimizer asks for a shift, the two blocks are ordered, in bounds and of equal size on both
  sides, they touch on the side named by \<open>touch_left\<close>, and fewer elements than either block holds are
  equal after and before the boundary.
\<close>

definition shift_pre :: "'a list \<Rightarrow> 'a list \<Rightarrow> bool \<Rightarrow> nat \<Rightarrow> nat \<Rightarrow> range \<Rightarrow> range \<Rightarrow> bool" where
  "shift_pre data1 data2 touch_left equal_forward equal_backward range1 range2 \<longleftrightarrow>
     r_start1 range1 < r_end1 range1 \<and> r_end1 range1 - r_start1 range1 = r_end2 range1 - r_start2 range1 \<and>
     r_start1 range2 < r_end1 range2 \<and> r_end1 range2 - r_start1 range2 = r_end2 range2 - r_start2 range2 \<and>
     range_before range1 range2 \<and> r_end1 range2 \<le> length data1 \<and> r_end2 range2 \<le> length data2 \<and>
     (if touch_left then r_end1 range1 = r_start1 range2 else r_end2 range1 = r_start2 range2) \<and>
     equal_forward < r_end1 range2 - r_start1 range2 \<and> equal_backward < r_end1 range1 - r_start1 range1"

lemma valid_matching_stack1:
  "valid_matching eq xs ys (rev (r # rest)) \<longleftrightarrow> valid_matching eq xs ys (rev rest) \<and>
     match_block eq xs ys r \<and> (\<forall>u\<in>set rest. range_before u r)"
  by (auto simp: valid_matching_def sorted_wrt_append)

lemma match_blockE:
  assumes "match_block eq xs ys u"
  obtains n where "0 < n" "r_end1 u = r_start1 u + n" "r_end2 u = r_start2 u + n"
    "same_run eq xs ys (r_start1 u) (r_start2 u) n"
proof -
  let ?n = "r_end1 u - r_start1 u"
  have "0 < ?n" "r_end1 u = r_start1 u + ?n" "r_end2 u = r_start2 u + ?n"
    "same_run eq xs ys (r_start1 u) (r_start2 u) ?n"
    using assms by (auto simp: match_block_def)
  then show thesis by (rule that)
qed

lemma match_block_mk:
  "match_block eq xs ys (mk_range a (a + n) b (b + n)) \<longleftrightarrow> 0 < n \<and> same_run eq xs ys a b n"
  by (auto simp: match_block_def)

locale boundary_shift =
  fixes data1 data2 :: "'a list"
    and shift :: shift_fun
  assumes shift_bounded: "shift_pre data1 data2 touch_left equal_forward equal_backward range1 range2 \<Longrightarrow>
    runs (shift touch_left equal_forward equal_backward range1 range2)
      (\<lambda>delta. - int equal_backward \<le> delta \<and> delta \<le> int equal_forward)"
begin

text \<open>
  \<open>keeps\<close>: the new stack is again a valid matching and ends no later than the old one, so that the
  blocks still to come fit behind it.
\<close>

definition keeps :: "('a \<Rightarrow> 'a \<Rightarrow> bool) \<Rightarrow> range list \<Rightarrow> range list \<Rightarrow> bool" where
  "keeps eqm old new \<longleftrightarrow> valid_matching eqm data1 data2 (rev new) \<and>
     (\<forall>v. (\<forall>u\<in>set old. range_before u v) \<longrightarrow> (\<forall>u\<in>set new. range_before u v))"

lemma keeps_trans: "keeps eqm a b \<Longrightarrow> keeps eqm b c \<Longrightarrow> keeps eqm a c"
  by (simp add: keeps_def)

lemma keeps_merge_forward:
  assumes v: "valid_matching eqm data1 data2 (rev (r2 # r1 # rest))"
    and n1: "r_end1 r1 = r_start1 r1 + n1" "r_end2 r1 = r_start2 r1 + n1"
    and n2: "r_end1 r2 = r_start1 r2 + n2" "r_end2 r2 = r_start2 r2 + n2"
    and run: "same_run eqm data1 data2 (r_end1 r1) (r_end2 r1) n2"
  shows "keeps eqm (r2 # r1 # rest)
    (mk_range (r_start1 r1) (r_end1 r1 + n2) (r_start2 r1) (r_end2 r1 + n2) # rest)"
proof -
  have r1: "match_block eqm data1 data2 r1" "\<forall>u\<in>set rest. range_before u r1" "range_before r1 r2"
    "valid_matching eqm data1 data2 (rev rest)"
    using v by (auto simp: valid_matching_stack1 simp del: rev.simps)
  then have "0 < n1" "same_run eqm data1 data2 (r_start1 r1) (r_start2 r1) n1"
    using n1 by (auto elim!: match_blockE)
  with run n1 have "match_block eqm data1 data2
      (mk_range (r_start1 r1) (r_start1 r1 + (n1 + n2)) (r_start2 r1) (r_start2 r1 + (n1 + n2)))"
    unfolding match_block_mk by (simp add: same_run_add)
  with r1 n1 n2 show ?thesis
    by (auto simp: keeps_def valid_matching_stack1 range_before_def add.assoc simp del: rev.simps)
qed

lemma keeps_merge_backward:
  assumes v: "valid_matching eqm data1 data2 (rev (r2 # r1 # rest))"
    and n1: "r_end1 r1 = r_start1 r1 + n1" "r_end2 r1 = r_start2 r1 + n1"
    and run: "same_run eqm data1 data2 (r_start1 r2 - n1) (r_start2 r2 - n1) n1"
  shows "keeps eqm (r2 # r1 # rest)
    (mk_range (r_start1 r2 - n1) (r_end1 r2) (r_start2 r2 - n1) (r_end2 r2) # rest)"
proof -
  have r: "match_block eqm data1 data2 r1" "match_block eqm data1 data2 r2"
    "\<forall>u\<in>set rest. range_before u r1" "range_before r1 r2" "valid_matching eqm data1 data2 (rev rest)"
    using v by (auto simp: valid_matching_stack1 simp del: rev.simps)
  from r(2) obtain n2 where n2: "0 < n2" "r_end1 r2 = r_start1 r2 + n2" "r_end2 r2 = r_start2 r2 + n2"
    "same_run eqm data1 data2 (r_start1 r2) (r_start2 r2) n2"
    by (rule match_blockE)
  have le: "r_start1 r1 \<le> r_start1 r2 - n1" "r_start2 r1 \<le> r_start2 r2 - n1"
    "n1 \<le> r_start1 r2" "n1 \<le> r_start2 r2"
    using r(4) n1 by (auto simp: range_before_def)
  then have "match_block eqm data1 data2
      (mk_range (r_start1 r2 - n1) (r_start1 r2 - n1 + (n1 + n2))
        (r_start2 r2 - n1) (r_start2 r2 - n1 + (n1 + n2)))"
    using run n2 unfolding match_block_mk by (simp add: same_run_add)
  moreover have "r_start1 r2 - n1 + (n1 + n2) = r_end1 r2" "r_start2 r2 - n1 + (n1 + n2) = r_end2 r2"
    using le n2 by auto
  ultimately have "match_block eqm data1 data2
      (mk_range (r_start1 r2 - n1) (r_end1 r2) (r_start2 r2 - n1) (r_end2 r2))" by simp
  moreover have "\<forall>u\<in>set rest. range_before u
      (mk_range (r_start1 r2 - n1) (r_end1 r2) (r_start2 r2 - n1) (r_end2 r2))"
    using r(3) le by (force simp: range_before_def)
  ultimately show ?thesis
    using r by (auto simp: keeps_def valid_matching_stack1 range_before_def simp del: rev.simps)
qed

lemma keeps_shift:
  assumes v: "valid_matching eqm data1 data2 (rev (r2 # r1 # rest))"
    and n1: "r_end1 r1 = r_start1 r1 + n1" "r_end2 r1 = r_start2 r1 + n1"
    and n2: "r_end1 r2 = r_start1 r2 + n2" "r_end2 r2 = r_start2 r2 + n2"
    and f: "same_run eqm data1 data2 (r_end1 r1) (r_end2 r1) f" "f < n2"
    and b: "same_run eqm data1 data2 (r_start1 r2 - b) (r_start2 r2 - b) b" "b < n1"
    and d: "- int b \<le> d" "d \<le> int f"
  shows "runs (do {
            end1 \<leftarrow> offset (r_end1 r1) d;
            end2 \<leftarrow> offset (r_end2 r1) d;
            first \<leftarrow> range_new (r_start1 r1) end1 (r_start2 r1) end2;
            start1 \<leftarrow> offset (r_start1 r2) d;
            start2 \<leftarrow> offset (r_start2 r2) d;
            second \<leftarrow> range_new start1 (r_end1 r2) start2 (r_end2 r2);
            Some (second # first # rest)
          }) (keeps eqm (r2 # r1 # rest))"
proof -
  have r: "match_block eqm data1 data2 r1" "match_block eqm data1 data2 r2"
    "\<forall>u\<in>set rest. range_before u r1" "range_before r1 r2" "valid_matching eqm data1 data2 (rev rest)"
    using v by (auto simp: valid_matching_stack1 simp del: rev.simps)
  have run1: "same_run eqm data1 data2 (r_start1 r1) (r_start2 r1) n1"
    and run2: "same_run eqm data1 data2 (r_start1 r2) (r_start2 r2) n2"
    using r(1,2) n1 n2 by (auto elim!: match_blockE)
  show ?thesis
  proof (cases "0 \<le> d")
    case True
    define k where "k = nat d"
    have k: "k \<le> f" "k < n2" using d True f by (auto simp: k_def)
    have "match_block eqm data1 data2
        (mk_range (r_start1 r1) (r_start1 r1 + (n1 + k)) (r_start2 r1) (r_start2 r1 + (n1 + k)))"
      using run1 same_run_sub [OF f(1), of 0 k] k n1 b(2) unfolding match_block_mk
      by (simp add: same_run_add)
    moreover have "match_block eqm data1 data2
        (mk_range (r_start1 r2 + k) (r_start1 r2 + k + (n2 - k)) (r_start2 r2 + k) (r_start2 r2 + k + (n2 - k)))"
      using same_run_sub [OF run2, of k "n2 - k"] k unfolding match_block_mk by simp
    ultimately show ?thesis
      using r n1 n2 k True
      by (auto simp: offset_def wp keeps_def valid_matching_stack1 range_before_def add.assoc
          simp flip: k_def simp del: rev.simps)
  next
    case False
    define k where "k = nat (- d)"
    have k: "0 < k" "k \<le> b" "k < n1" using d False b by (auto simp: k_def)
    have le: "n1 \<le> r_start1 r2" "n1 \<le> r_start2 r2" using r(4) n1 by (auto simp: range_before_def)
    have "match_block eqm data1 data2
        (mk_range (r_start1 r1) (r_start1 r1 + (n1 - k)) (r_start2 r1) (r_start2 r1 + (n1 - k)))"
      using same_run_sub [OF run1, of 0 "n1 - k"] k unfolding match_block_mk by simp
    moreover have "same_run eqm data1 data2 (r_start1 r2 - k) (r_start2 r2 - k) k"
      using same_run_sub [OF b(1), of "b - k" k] k le b(2) by simp
    then have "match_block eqm data1 data2
        (mk_range (r_start1 r2 - k) (r_start1 r2 - k + (k + n2)) (r_start2 r2 - k) (r_start2 r2 - k + (k + n2)))"
      using run2 k le unfolding match_block_mk by (simp add: same_run_add)
    moreover have "r_start1 r1 + (n1 - k) = r_end1 r1 - k" "r_start2 r1 + (n1 - k) = r_end2 r1 - k"
      "r_start1 r2 - k + (k + n2) = r_end1 r2" "r_start2 r2 - k + (k + n2) = r_end2 r2"
      using k le n1 n2 by auto
    moreover have "\<forall>u\<in>set rest. r_end1 u \<le> r_start1 r2 - k \<and> r_end2 u \<le> r_start2 r2 - k"
      using r(3,4) k n1 by (force simp: range_before_def)
    moreover have "r_end1 r1 - k \<le> r_start1 r2 - k" "r_end2 r1 - k \<le> r_start2 r2 - k"
      using r(4) by (auto simp: range_before_def)
    ultimately show ?thesis
      using r n1 n2 k le False
      by (auto simp: offset_def wp keeps_def valid_matching_stack1 range_before_def
          simp flip: k_def simp del: rev.simps)
  qed
qed

lemma process_last_ranges_keeps:
  assumes eqm: "\<And>x y. eq x y \<Longrightarrow> eqm x y"
    and "valid_matching eqm data1 data2 (rev ranges)"
  shows "runs (process_last_ranges eq data1 data2 shift ranges) (keeps eqm ranges)"
  using assms(2)
proof (induction "length ranges" arbitrary: ranges rule: less_induct)
  case less
  have self: "keeps eqm ranges ranges" using less.prems by (simp add: keeps_def)
  show ?case
  proof (cases "\<exists>r2 r1 rest. ranges = r2 # r1 # rest")
    case False
    then have "process_last_ranges eq data1 data2 shift ranges = Some ranges"
      by (cases "(eq, data1, data2, shift, ranges)" rule: process_last_ranges.cases) auto
    with self show ?thesis by simp
  next
    case True
    then obtain r2 r1 rest where ranges: "ranges = r2 # r1 # rest" by blast
    have v: "valid_matching eqm data1 data2 (rev (r2 # r1 # rest))"
      using less.prems by (simp only: ranges)
    then have r: "match_block eqm data1 data2 r1" "match_block eqm data1 data2 r2" "range_before r1 r2"
      by (auto simp: valid_matching_stack1 simp del: rev.simps)
    from r(1) obtain n1 where n1: "0 < n1" "r_end1 r1 = r_start1 r1 + n1" "r_end2 r1 = r_start2 r1 + n1"
      "same_run eqm data1 data2 (r_start1 r1) (r_start2 r1) n1" by (rule match_blockE)
    from r(2) obtain n2 where n2: "0 < n2" "r_end1 r2 = r_start1 r2 + n2" "r_end2 r2 = r_start2 r2 + n2"
      "same_run eqm data1 data2 (r_start1 r2) (r_start2 r2) n2" by (rule match_blockE)
    have bounds: "r_end1 r2 \<le> length data1" "r_end2 r2 \<le> length data2"
      using n2 by (auto simp: same_run_def)
    have before: "r_end1 r1 \<le> r_start1 r2" "r_end2 r1 \<le> r_start2 r2" "n1 \<le> r_start1 r2" "n1 \<le> r_start2 r2"
      using r(3) n1 by (auto simp: range_before_def)
    have rec: "runs (process_last_ranges eq data1 data2 shift (m # rest)) (keeps eqm ranges)"
      if "keeps eqm ranges (m # rest)" for m
    proof -
      have "runs (process_last_ranges eq data1 data2 shift (m # rest)) (keeps eqm (m # rest))"
        using that by (intro less.hyps) (simp_all add: ranges keeps_def)
      then show ?thesis using that by (rule runs_mono [OF _ keeps_trans])
    qed
    show ?thesis
    proof (cases "r_end1 r1 \<noteq> r_start1 r2 \<and> r_end2 r1 \<noteq> r_start2 r2")
      case True
      with self show ?thesis by (simp add: ranges)
    next
      case touch: False
      have "runs (expand_forward eq data1 data2 (r_end1 r1) (r_end2 r1) (r_end1 r1 + n2) (r_end2 r1 + n2))
        (\<lambda>f. f \<le> n2 \<and> same_run eqm data1 data2 (r_end1 r1) (r_end2 r1) f)"
        by (rule runs_mono [OF runs_expand_forward])
          (use bounds before n2 in \<open>auto intro: same_run_mono eqm\<close>)
      then obtain f where f: "expand_forward eq data1 data2 (r_end1 r1) (r_end2 r1) (r_end1 r1 + n2)
          (r_end2 r1 + n2) = Some f" "f \<le> n2" "same_run eqm data1 data2 (r_end1 r1) (r_end2 r1) f"
        by (auto simp: runs_iff)
      have "runs (expand_backward eq data1 data2 (r_start1 r2 - n1) (r_start2 r2 - n1) (r_start1 r2) (r_start2 r2))
        (\<lambda>b. b \<le> n1 \<and> same_run eqm data1 data2 (r_start1 r2 - b) (r_start2 r2 - b) b)"
        by (rule runs_mono [OF runs_expand_backward])
          (use bounds before n2 in \<open>auto intro: same_run_mono eqm\<close>)
      then obtain b where b: "expand_backward eq data1 data2 (r_start1 r2 - n1) (r_start2 r2 - n1)
          (r_start1 r2) (r_start2 r2) = Some b" "b \<le> n1"
          "same_run eqm data1 data2 (r_start1 r2 - b) (r_start2 r2 - b) b"
        by (auto simp: runs_iff)
      have pre: "shift_pre data1 data2 (r_end1 r1 = r_start1 r2) f b r1 r2" if "f \<noteq> n2" "b \<noteq> n1"
        using that f(2) b(2) n1 n2 r(3) bounds touch by (auto simp: shift_pre_def)
      have shifted: "runs (shift (r_end1 r1 = r_start1 r2) f b r1 r2) (\<lambda>d. if d \<noteq> 0 then runs (do {
            end1 \<leftarrow> offset (r_end1 r1) d;
            end2 \<leftarrow> offset (r_end2 r1) d;
            first \<leftarrow> range_new (r_start1 r1) end1 (r_start2 r1) end2;
            start1 \<leftarrow> offset (r_start1 r2) d;
            start2 \<leftarrow> offset (r_start2 r2) d;
            second \<leftarrow> range_new start1 (r_end1 r2) start2 (r_end2 r2);
            Some (second # first # rest)
          }) (keeps eqm ranges) else keeps eqm ranges ranges)" if "f \<noteq> n2" "b \<noteq> n1"
        by (rule runs_mono [OF shift_bounded [OF pre [OF that]]])
          (use keeps_shift [OF v n1(2,3) n2(2,3) f(3) _ b(3)] that f(2) b(2) self ranges in auto)
      have counts: "usub (r_end1 r1) (r_start1 r1) = Some n1" "usub (r_end1 r2) (r_start1 r2) = Some n2"
        "usub (r_start1 r2) n1 = Some (r_start1 r2 - n1)" "usub (r_start2 r2) n1 = Some (r_start2 r2 - n1)"
        using n1 n2 before by (simp_all add: usub_def)
      have ordered: "r_start1 r1 \<le> r_end1 r1 + n2" "r_start2 r1 \<le> r_end2 r1 + n2"
        "r_start1 r2 - n1 \<le> r_end1 r2" "r_start2 r2 - n1 \<le> r_end2 r2"
        using n1 n2 by auto
      have step: "process_last_ranges eq data1 data2 shift ranges =
        (if f = 0 \<and> b = 0 then Some ranges
         else if f = n2 then process_last_ranges eq data1 data2 shift
           (mk_range (r_start1 r1) (r_end1 r1 + n2) (r_start2 r1) (r_end2 r1 + n2) # rest)
         else if b = n1 then process_last_ranges eq data1 data2 shift
           (mk_range (r_start1 r2 - n1) (r_end1 r2) (r_start2 r2 - n1) (r_end2 r2) # rest)
         else shift (r_end1 r1 = r_start1 r2) f b r1 r2 \<bind> (\<lambda>d. if d \<noteq> 0 then do {
            end1 \<leftarrow> offset (r_end1 r1) d;
            end2 \<leftarrow> offset (r_end2 r1) d;
            first \<leftarrow> range_new (r_start1 r1) end1 (r_start2 r1) end2;
            start1 \<leftarrow> offset (r_start1 r2) d;
            start2 \<leftarrow> offset (r_start2 r2) d;
            second \<leftarrow> range_new start1 (r_end1 r2) start2 (r_end2 r2);
            Some (second # first # rest)
          } else Some ranges))"
        unfolding ranges process_last_ranges.simps(1) if_not_P [OF touch] using ordered
        by (simp add: counts f(1) b(1) range_new_def dassert_def Let_def)
      consider (settled) "f = 0 \<and> b = 0" | (forward) "\<not> (f = 0 \<and> b = 0)" "f = n2"
        | (backward) "\<not> (f = 0 \<and> b = 0)" "f \<noteq> n2" "b = n1"
        | (boundary) "\<not> (f = 0 \<and> b = 0)" "f \<noteq> n2" "b \<noteq> n1" by blast
      then show ?thesis
      proof cases
        case settled
        with self show ?thesis unfolding step by simp
      next
        case forward
        with f(3) have "runs (process_last_ranges eq data1 data2 shift
            (mk_range (r_start1 r1) (r_end1 r1 + n2) (r_start2 r1) (r_end2 r1 + n2) # rest)) (keeps eqm ranges)"
          unfolding ranges by (intro rec [unfolded ranges] keeps_merge_forward [OF v n1(2,3) n2(2,3)]) simp
        with forward show ?thesis unfolding step if_not_P [OF forward(1)] by simp
      next
        case backward
        with b(3) have "runs (process_last_ranges eq data1 data2 shift
            (mk_range (r_start1 r2 - n1) (r_end1 r2) (r_start2 r2 - n1) (r_end2 r2) # rest)) (keeps eqm ranges)"
          unfolding ranges by (intro rec [unfolded ranges] keeps_merge_backward [OF v n1(2,3)]) simp
        with backward show ?thesis unfolding step if_not_P [OF backward(1)] by simp
      next
        case boundary
        then show ?thesis
          unfolding step if_not_P [OF boundary(1)] if_not_P [OF boundary(2)] if_not_P [OF boundary(3)]
            runs_bind [of "shift _ _ _ _ _"] runs_if runs_Some
          by (intro shifted)
      qed
    qed
  qed
qed

lemma optimize_chunks_ok:
  assumes eqm: "\<And>x y. eq x y \<Longrightarrow> eqm x y"
    and ch: "changes_ok eqm data1 data2 ch"
  shows "runs (optimize_chunks eq data1 data2 ch shift) (changes_ok eqm data1 data2)"
  unfolding optimize_chunks_def
proof (rule runs_bindI [OF runs_unchanged_ok [OF ch]])
  fix us
  assume us: "valid_matching eqm data1 data2 us"
  let ?I = "\<lambda>ranges us. valid_matching eqm data1 data2 (rev ranges @ us)"
  have "runs (for_each (\<lambda>ranges r. process_last_ranges eq data1 data2 shift (r # ranges)) [] us)
    (\<lambda>ranges. ?I ranges [])"
  proof (rule runs_for_each [where I = ?I])
    show "?I [] us" using us by simp
  next
    fix ranges r us
    assume I: "?I ranges (r # us)"
    then have "valid_matching eqm data1 data2 (rev (r # ranges))"
      by (simp add: valid_matching_def sorted_wrt_append)
    from process_last_ranges_keeps [OF eqm this]
    show "runs (process_last_ranges eq data1 data2 shift (r # ranges)) (\<lambda>ranges. ?I ranges us)"
    proof (rule runs_mono)
      fix new
      assume "keeps eqm (r # ranges) new"
      moreover have "\<forall>v\<in>set us. \<forall>u\<in>set (r # ranges). range_before u v"
        using I by (auto simp: valid_matching_def sorted_wrt_append)
      ultimately have "valid_matching eqm data1 data2 (rev new)"
        and "\<forall>u\<in>set new. \<forall>v\<in>set us. range_before u v"
        unfolding keeps_def by blast+
      with I show "?I new us"
        by (simp add: valid_matching_def sorted_wrt_append ball_Un)
    qed
  qed
  then show "runs (for_each (\<lambda>ranges r. process_last_ranges eq data1 data2 shift (r # ranges)) [] us \<bind>
      (\<lambda>ranges. from_unchanged (rev ranges) (length data1) (length data2))) (changes_ok eqm data1 data2)"
    by (rule runs_bindI) (simp add: runs_from_unchanged_ok)
qed

end

end
