(* ===== verification/By_Line.thy ===== *)
theory By_Line
  imports Chunk_Optimizer
begin

text \<open>
  \<open>crates/paneflow-textdiff/src/by_line.rs\<close> and \<open>compare_lines\<close> of \<open>lib.rs\<close>: the line comparison. Lines
  are first matched ignoring whitespace, important lines before unimportant ones; block boundaries
  are then moved to readable places; under the stricter policies a second step keeps only the pairs
  that are equal under the policy, aligning runs of lines that differ in whitespace only.
\<close>

section \<open>Lines\<close>

record line =
  l_content :: ustr
  l_policy :: ComparisonPolicy
  l_hash :: u64
  l_non_space_chars :: nat

definition line_new :: "ustr \<Rightarrow> ComparisonPolicy \<Rightarrow> line" where
  "line_new content policy =
     \<lparr>l_content = content, l_policy = policy, l_hash = text_hash content policy,
      l_non_space_chars = count_non_space_chars content\<rparr>"

definition with_policy :: "line \<Rightarrow> ComparisonPolicy \<Rightarrow> line" where
  "with_policy l policy = (if l_policy l = policy then l else line_new (l_content l) policy)"

definition line_eq :: "line \<Rightarrow> line \<Rightarrow> bool" where
  "line_eq l other \<longleftrightarrow> l_hash l = l_hash other \<and> is_equals (l_content l) (l_content other) (l_policy l)"

section \<open>First step: match ignoring whitespace\<close>

definition big_lines :: "line list \<Rightarrow> nat \<Rightarrow> line list \<times> nat list" where
  "big_lines lines threshold =
     (let big = filter (\<lambda>(index, l). l_non_space_chars l > threshold) (enumerate 0 lines)
      in (map snd big, map fst big))"

definition match_line_gap :: "line diff_engine \<Rightarrow> change_builder \<Rightarrow> line list \<Rightarrow> line list \<Rightarrow>
    nat \<Rightarrow> nat \<Rightarrow> nat \<Rightarrow> nat \<Rightarrow> change_builder option" where
  "match_line_gap engine builder lines1 lines2 start1 end1 start2 end2 = do {
     expanded \<leftarrow> expand line_eq lines1 lines2 start1 start2 end1 end2;
     inner1 \<leftarrow> slice_or_panic lines1 (r_start1 expanded) (r_end1 expanded);
     inner2 \<leftarrow> slice_or_panic lines2 (r_start2 expanded) (r_end2 expanded);
     inner_changes \<leftarrow> lcs engine inner1 inner2;
     builder \<leftarrow> cb_mark_equal builder start1 start2 (r_start1 expanded) (r_start2 expanded);
     chunks \<leftarrow> unchanged inner_changes;
     builder \<leftarrow> for_each (\<lambda>builder chunk. do {
         count \<leftarrow> usub (r_end1 chunk) (r_start1 chunk);
         cb_mark_equal_count builder (r_start1 expanded + r_start1 chunk)
           (r_start2 expanded + r_start2 chunk) count
       }) builder chunks;
     cb_mark_equal builder (r_end1 expanded) (r_end2 expanded) end1 end2
   }"

definition match_big_pair :: "line diff_engine \<Rightarrow> nat list \<Rightarrow> nat list \<Rightarrow> line list \<Rightarrow> line list \<Rightarrow>
    change_builder \<times> nat \<times> nat \<Rightarrow> nat \<Rightarrow> nat \<Rightarrow> (change_builder \<times> nat \<times> nat) option" where
  "match_big_pair engine indexes1 indexes2 lines1 lines2 s i j = (case s of (builder, last1, last2) \<Rightarrow> do {
     start1 \<leftarrow> nth_or_panic indexes1 i;
     start2 \<leftarrow> nth_or_panic indexes2 j;
     let end1 = start1 + 1;
     let end2 = start2 + 1;
     builder \<leftarrow> match_line_gap engine builder lines1 lines2 last1 start1 last2 start2;
     builder \<leftarrow> cb_mark_equal builder start1 start2 end1 end2;
     Some (builder, end1, end2)
   })"

definition smart_line_change_correction :: "line diff_engine \<Rightarrow> nat list \<Rightarrow> nat list \<Rightarrow> line list \<Rightarrow>
    line list \<Rightarrow> changes \<Rightarrow> changes option" where
  "smart_line_change_correction engine indexes1 indexes2 lines1 lines2 ch = do {
     us \<leftarrow> unchanged ch;
     (builder, last1, last2) \<leftarrow> for_each_pair (match_big_pair engine indexes1 indexes2 lines1 lines2)
       (cb_new (length lines1) (length lines2), 0, 0) us;
     builder \<leftarrow> match_line_gap engine builder lines1 lines2 last1 (length lines1) last2 (length lines2);
     cb_finish builder
   }"

definition compare_smart :: "line diff_engine \<Rightarrow> line list \<Rightarrow> line list \<Rightarrow> changes option" where
  "compare_smart engine lines1 lines2 = do {
     let (big_lines1, indexes1) = big_lines lines1 UNIMPORTANT_LINE_CHAR_COUNT;
     let (big_lines2, indexes2) = big_lines lines2 UNIMPORTANT_LINE_CHAR_COUNT;
     ch \<leftarrow> lcs engine big_lines1 big_lines2;
     smart_line_change_correction engine indexes1 indexes2 lines1 lines2 ch
   }"

section \<open>Boundary shifts\<close>

definition next_unimportant_line :: "line list \<Rightarrow> nat \<Rightarrow> nat \<Rightarrow> nat \<Rightarrow> nat option option" where
  "next_unimportant_line lines from_line count threshold = find_or_panic (\<lambda>i. do {
     l \<leftarrow> nth_or_panic lines (from_line + i);
     Some (l_non_space_chars l \<le> threshold)
   }) [0..<count]"

definition prev_unimportant_line :: "line list \<Rightarrow> nat \<Rightarrow> nat \<Rightarrow> nat \<Rightarrow> nat option option" where
  "prev_unimportant_line lines from_line count threshold = find_or_panic (\<lambda>i. do {
     k \<leftarrow> usub from_line i;
     l \<leftarrow> nth_or_panic lines k;
     Some (l_non_space_chars l \<le> threshold)
   }) [0..<count]"

fun combine_shift :: "nat option \<Rightarrow> nat option \<Rightarrow> int option" where
  "combine_shift None None = None"
| "combine_shift forward backward =
     (if forward = Some 0 \<or> backward = Some 0 then Some 0
      else case forward of
        Some f \<Rightarrow> Some (int f)
      | None \<Rightarrow> map_option (\<lambda>b. - int b) backward)"

definition unchanged_boundary_shift :: "line list \<Rightarrow> line list \<Rightarrow> bool \<Rightarrow> nat \<Rightarrow> nat \<Rightarrow> range \<Rightarrow> nat \<Rightarrow>
    int option option" where
  "unchanged_boundary_shift lines1 lines2 touch_left equal_forward equal_backward range2 threshold = do {
     let touch_lines = select touch_left lines1 lines2;
     let touch_start = select touch_left (r_start1 range2) (r_start2 range2);
     forward \<leftarrow> next_unimportant_line touch_lines touch_start (equal_forward + 1) threshold;
     prior \<leftarrow> usub touch_start 1;
     backward \<leftarrow> prev_unimportant_line touch_lines prior (equal_backward + 1) threshold;
     Some (combine_shift forward backward)
   }"

definition changed_boundary_shift :: "line list \<Rightarrow> line list \<Rightarrow> bool \<Rightarrow> nat \<Rightarrow> nat \<Rightarrow> range \<Rightarrow> range \<Rightarrow>
    nat \<Rightarrow> int option option" where
  "changed_boundary_shift lines1 lines2 touch_left equal_forward equal_backward range1 range2 threshold = do {
     let non_touch_lines = select touch_left lines2 lines1;
     let change_start = select touch_left (r_end2 range1) (r_end1 range1);
     let change_end = select touch_left (r_start2 range2) (r_start1 range2);
     forward \<leftarrow> next_unimportant_line non_touch_lines change_start (equal_forward + 1) threshold;
     prior \<leftarrow> usub change_end 1;
     backward \<leftarrow> prev_unimportant_line non_touch_lines prior (equal_backward + 1) threshold;
     Some (combine_shift forward backward)
   }"

fun line_shift_loop :: "line list \<Rightarrow> line list \<Rightarrow> nat list \<Rightarrow> shift_fun" where
  "line_shift_loop lines1 lines2 [] touch_left equal_forward equal_backward range1 range2 = Some 0"
| "line_shift_loop lines1 lines2 (threshold # thresholds) touch_left equal_forward equal_backward range1 range2 = do {
     u \<leftarrow> unchanged_boundary_shift lines1 lines2 touch_left equal_forward equal_backward range2 threshold;
     case u of Some shift \<Rightarrow> Some shift
     | None \<Rightarrow> do {
         c \<leftarrow> changed_boundary_shift lines1 lines2 touch_left equal_forward equal_backward range1 range2 threshold;
         case c of Some shift \<Rightarrow> Some shift
         | None \<Rightarrow> line_shift_loop lines1 lines2 thresholds touch_left equal_forward equal_backward range1 range2
       }
   }"

definition line_shift :: "line list \<Rightarrow> line list \<Rightarrow> shift_fun" where
  "line_shift lines1 lines2 = line_shift_loop lines1 lines2 [0, UNIMPORTANT_LINE_CHAR_COUNT]"

definition optimize_line_chunks :: "line list \<Rightarrow> line list \<Rightarrow> changes \<Rightarrow> changes option" where
  "optimize_line_chunks lines1 lines2 ch =
     optimize_chunks line_eq lines1 lines2 ch (line_shift lines1 lines2)"

definition expand_ranges :: "line list \<Rightarrow> line list \<Rightarrow> changes \<Rightarrow> changes option" where
  "expand_ranges lines1 lines2 ch = do {
     expanded \<leftarrow> map_or_panic (\<lambda>r. expand line_eq lines1 lines2 (r_start1 r) (r_start2 r) (r_end1 r) (r_end2 r))
       (ch_changed ch);
     Some (changes_new (filter (\<lambda>r. \<not> range_is_empty r) expanded) (length lines1) (length lines2))
   }"

section \<open>Second step: the pairs equal under the policy\<close>

record second_step =
  ss_builder :: "line expand_builder"
  ss_sample :: "ustr option"
  ss_last1 :: nat
  ss_last2 :: nat

text \<open>
  \<open>combinations\<close> enumerates the strictly increasing index tuples of length \<open>comb.len()\<close>; the buffer
  \<open>comb\<close> keeps its length, which is the argument \<open>comb_len\<close>. The closure is \<open>process\<close>, with the state it
  captures threaded through.
\<close>

function combinations :: "nat \<Rightarrow> nat \<Rightarrow> nat \<Rightarrow> nat \<Rightarrow> nat list \<Rightarrow> (nat list \<Rightarrow> 's \<Rightarrow> 's option) \<Rightarrow> 's \<Rightarrow>
    (nat list \<times> 's) option" where
  "combinations comb_len start n k comb process s =
     (if k = comb_len then do { s \<leftarrow> process comb s; Some (comb, s) }
      else if comb_len < k then (if start \<le> n then None else Some (comb, s))
      else for_each (\<lambda>(comb, s) i. do {
          dassert (k < length comb);
          combinations comb_len (i + 1) n (k + 1) (comb[k := i]) process s
        }) (comb, s) [start..<n + 1])"
  by pat_completeness auto
termination
  by (relation "measure (\<lambda>(comb_len, start, n, k, comb, process, s). comb_len - k)") auto

declare combinations.simps [simp del]

definition match_weight :: "nat list \<Rightarrow> nat list \<Rightarrow> line list \<Rightarrow> line list \<Rightarrow> nat list \<Rightarrow> nat option" where
  "match_weight sub_lines1 sub_lines2 lines1 lines2 comb = do {
     hits \<leftarrow> map_or_panic (\<lambda>i. do {
         i1 \<leftarrow> nth_or_panic sub_lines1 i;
         line1 \<leftarrow> nth_or_panic lines1 i1;
         c \<leftarrow> nth_or_panic comb i;
         i2 \<leftarrow> nth_or_panic sub_lines2 c;
         line2 \<leftarrow> nth_or_panic lines2 i2;
         Some (line_eq line1 line2)
       }) [0..<length sub_lines1];
     Some (length (filter id hits))
   }"

definition best_matching_alignment :: "nat list \<Rightarrow> nat list \<Rightarrow> line list \<Rightarrow> line list \<Rightarrow> nat list option" where
  "best_matching_alignment sub_lines1 sub_lines2 lines1 lines2 = do {
     dassert (length sub_lines1 < length sub_lines2);
     let len = length sub_lines1;
     n \<leftarrow> usub (length sub_lines2) 1;
     (comb, best, best_weight) \<leftarrow> combinations len 0 n 0 (replicate len 0) (\<lambda>comb (best, best_weight). do {
         weight \<leftarrow> match_weight sub_lines1 sub_lines2 lines1 lines2 comb;
         Some (if weight > best_weight then (comb, weight) else (best, best_weight))
       }) ([0..<len], 0);
     Some best
   }"

definition mark_if_equal :: "line list \<Rightarrow> line list \<Rightarrow> line expand_builder \<Rightarrow> nat \<Rightarrow> nat \<Rightarrow>
    line expand_builder option" where
  "mark_if_equal lines1 lines2 builder index1 index2 = do {
     line1 \<leftarrow> nth_or_panic lines1 index1;
     line2 \<leftarrow> nth_or_panic lines2 index2;
     if line_eq line1 line2 then eb_mark_equal_one line_eq builder index1 index2 else Some builder
   }"

definition align_exact_matching :: "line list \<Rightarrow> line list \<Rightarrow> line expand_builder \<Rightarrow> nat list \<Rightarrow> nat list \<Rightarrow>
    line expand_builder option" where
  "align_exact_matching lines1 lines2 builder sub_lines1 sub_lines2 =
     (if max (length sub_lines1) (length sub_lines2) > 10 \<or> length sub_lines1 = length sub_lines2 then
        for_each (\<lambda>builder i. do {
          index1 \<leftarrow> nth_or_panic sub_lines1 i;
          index2 \<leftarrow> nth_or_panic sub_lines2 i;
          mark_if_equal lines1 lines2 builder index1 index2
        }) builder [0..<min (length sub_lines1) (length sub_lines2)]
      else if length sub_lines1 < length sub_lines2 then do {
        matching \<leftarrow> best_matching_alignment sub_lines1 sub_lines2 lines1 lines2;
        for_each (\<lambda>builder i. do {
          index1 \<leftarrow> nth_or_panic sub_lines1 i;
          m \<leftarrow> nth_or_panic matching i;
          index2 \<leftarrow> nth_or_panic sub_lines2 m;
          mark_if_equal lines1 lines2 builder index1 index2
        }) builder [0..<length sub_lines1]
      } else do {
        matching \<leftarrow> best_matching_alignment sub_lines2 sub_lines1 lines2 lines1;
        for_each (\<lambda>builder i. do {
          m \<leftarrow> nth_or_panic matching i;
          index1 \<leftarrow> nth_or_panic sub_lines1 m;
          index2 \<leftarrow> nth_or_panic sub_lines2 i;
          mark_if_equal lines1 lines2 builder index1 index2
        }) builder [0..<length sub_lines2]
      })"

definition collect_same :: "line list \<Rightarrow> ustr \<Rightarrow> nat \<Rightarrow> nat \<Rightarrow> nat \<Rightarrow> (nat list \<times> nat) option" where
  "collect_same lines sample start limit last0 = for_each (\<lambda>(sub_lines, latest) i. do {
     l \<leftarrow> nth_or_panic lines i;
     Some (if is_equals sample (l_content l) IgnoreWhitespaces then (sub_lines @ [i], i + 1)
           else (sub_lines, latest))
   }) ([], last0) [start..<limit]"

definition ss_flush :: "line list \<Rightarrow> line list \<Rightarrow> second_step \<Rightarrow> nat \<Rightarrow> nat \<Rightarrow> second_step option" where
  "ss_flush lines1 lines2 step line1 line2 =
     (case ss_sample step of
        None \<Rightarrow> Some step
      | Some sample \<Rightarrow> do {
          let start1 = max (ss_last1 step) (eb_index1 (ss_builder step));
          let start2 = max (ss_last2 step) (eb_index2 (ss_builder step));
          (sub_lines1, last1) \<leftarrow> collect_same lines1 sample start1 line1 (ss_last1 step);
          (sub_lines2, last2) \<leftarrow> collect_same lines2 sample start2 line2 (ss_last2 step);
          dassert (sub_lines1 \<noteq> [] \<and> sub_lines2 \<noteq> []);
          builder \<leftarrow> align_exact_matching lines1 lines2 (ss_builder step) sub_lines1 sub_lines2;
          Some (step\<lparr>ss_builder := builder, ss_last1 := last1, ss_last2 := last2, ss_sample := None\<rparr>)
        })"

definition second_step_visit :: "line list \<Rightarrow> line list \<Rightarrow> second_step \<Rightarrow> nat \<Rightarrow> nat \<Rightarrow> second_step option" where
  "second_step_visit lines1 lines2 step index1 index2 = do {
     line1 \<leftarrow> nth_or_panic lines1 index1;
     line2 \<leftarrow> nth_or_panic lines2 index2;
     let same_as_sample = (case ss_sample step of None \<Rightarrow> False
       | Some sample \<Rightarrow> is_equals sample (l_content line1) IgnoreWhitespaces);
     if same_as_sample then Some step
     else if line_eq line1 line2 then do {
       step \<leftarrow> ss_flush lines1 lines2 step index1 index2;
       builder \<leftarrow> eb_mark_equal_one line_eq (ss_builder step) index1 index2;
       Some (step\<lparr>ss_builder := builder\<rparr>)
     } else do {
       step \<leftarrow> ss_flush lines1 lines2 step index1 index2;
       Some (step\<lparr>ss_sample := Some (l_content line1)\<rparr>)
     }
   }"

definition correct_changes_second_step :: "line list \<Rightarrow> line list \<Rightarrow> changes \<Rightarrow> changes option" where
  "correct_changes_second_step lines1 lines2 ch = do {
     us \<leftarrow> unchanged ch;
     step \<leftarrow> for_each_pair (second_step_visit lines1 lines2)
       \<lparr>ss_builder = eb_new lines1 lines2, ss_sample = None, ss_last1 = 0, ss_last2 = 0\<rparr> us;
     step \<leftarrow> ss_flush lines1 lines2 step (ch_len1 ch) (ch_len2 ch);
     eb_finish line_eq (ss_builder step)
   }"

section \<open>The comparison\<close>

definition do_compare :: "line diff_engine \<Rightarrow> line list \<Rightarrow> line list \<Rightarrow> ComparisonPolicy \<Rightarrow> changes option" where
  "do_compare engine lines1 lines2 policy =
     (if policy = IgnoreWhitespaces then do {
        ch \<leftarrow> compare_smart engine lines1 lines2;
        ch \<leftarrow> optimize_line_chunks lines1 lines2 ch;
        expand_ranges lines1 lines2 ch
      } else do {
        let iw_lines1 = map (\<lambda>l. with_policy l IgnoreWhitespaces) lines1;
        let iw_lines2 = map (\<lambda>l. with_policy l IgnoreWhitespaces) lines2;
        iw_changes \<leftarrow> compare_smart engine iw_lines1 iw_lines2;
        iw_changes \<leftarrow> optimize_line_chunks lines1 lines2 iw_changes;
        correct_changes_second_step lines1 lines2 iw_changes
      })"

definition by_line_compare :: "line diff_engine \<Rightarrow> ustr list \<Rightarrow> ustr list \<Rightarrow> ComparisonPolicy \<Rightarrow>
    changes option" where
  "by_line_compare engine lines1 lines2 policy =
     do_compare engine (map (\<lambda>l. line_new l policy) lines1) (map (\<lambda>l. line_new l policy) lines2) policy"

definition compare_lines :: "line diff_engine \<Rightarrow> ustr list \<Rightarrow> ustr list \<Rightarrow> ComparisonPolicy \<Rightarrow>
    range list option" where
  "compare_lines engine lines1 lines2 policy =
     (if lines1 = lines2 then Some []
      else do { ch \<leftarrow> by_line_compare engine lines1 lines2 policy; Some (ch_changed ch) })"

section \<open>Boundary shifts stay within bounds\<close>

lemma runs_next_unimportant_line:
  "start + count \<le> length lines \<Longrightarrow>
   runs (next_unimportant_line lines start count threshold) (\<lambda>r. \<forall>i. r = Some i \<longrightarrow> i < count)"
  unfolding next_unimportant_line_def
  by (rule runs_mono [OF runs_find_or_panic]) (auto simp: wp)

lemma runs_prev_unimportant_line:
  "count \<le> Suc start \<Longrightarrow> start < length lines \<Longrightarrow>
   runs (prev_unimportant_line lines start count threshold) (\<lambda>r. \<forall>i. r = Some i \<longrightarrow> i < count)"
  unfolding prev_unimportant_line_def
  by (rule runs_mono [OF runs_find_or_panic]) (auto simp: wp)

definition shift_in :: "nat \<Rightarrow> nat \<Rightarrow> int option \<Rightarrow> bool" where
  "shift_in f b r \<longleftrightarrow> (\<forall>d. r = Some d \<longrightarrow> - int b \<le> d \<and> d \<le> int f)"

lemma combine_shift_bounds:
  "\<forall>i. forward = Some i \<longrightarrow> i < Suc f \<Longrightarrow> \<forall>i. backward = Some i \<longrightarrow> i < Suc b \<Longrightarrow>
   shift_in f b (combine_shift forward backward)"
  by (cases forward; cases backward) (auto simp: shift_in_def)

lemma runs_unchanged_boundary_shift:
  assumes "shift_pre lines1 lines2 touch_left f b range1 range2"
  shows "runs (unchanged_boundary_shift lines1 lines2 touch_left f b range2 threshold) (shift_in f b)"
proof -
  let ?lines = "select touch_left lines1 lines2"
  let ?start = "select touch_left (r_start1 range2) (r_start2 range2)"
  have "?start + (f + 1) \<le> length ?lines" "b + 1 \<le> ?start"
    using assms by (auto simp: shift_pre_def select_def range_before_def)
  then show ?thesis
    unfolding unchanged_boundary_shift_def Let_def
    by (intro runs_bindI [OF runs_next_unimportant_line])
      (auto simp: runs_bind runs_usub
        intro!: combine_shift_bounds runs_mono [OF runs_prev_unimportant_line])
qed

lemma runs_changed_boundary_shift:
  assumes "shift_pre lines1 lines2 touch_left f b range1 range2"
  shows "runs (changed_boundary_shift lines1 lines2 touch_left f b range1 range2 threshold) (shift_in f b)"
proof -
  let ?lines = "select touch_left lines2 lines1"
  let ?start = "select touch_left (r_end2 range1) (r_end1 range1)"
  let ?stop = "select touch_left (r_start2 range2) (r_start1 range2)"
  have "?start + (f + 1) \<le> length ?lines" "b + 1 \<le> ?stop" "?stop < length ?lines"
    using assms by (auto simp: shift_pre_def select_def range_before_def)
  then show ?thesis
    unfolding changed_boundary_shift_def Let_def
    by (intro runs_bindI [OF runs_next_unimportant_line])
      (auto simp: runs_bind runs_usub
        intro!: combine_shift_bounds runs_mono [OF runs_prev_unimportant_line])
qed

lemma runs_line_shift_loop:
  assumes "shift_pre lines1 lines2 touch_left f b range1 range2"
  shows "runs (line_shift_loop lines1 lines2 thresholds touch_left f b range1 range2)
    (\<lambda>d. - int b \<le> d \<and> d \<le> int f)"
proof (induction thresholds)
  case Nil
  then show ?case by simp
next
  case (Cons threshold thresholds)
  show ?case
    using runs_unchanged_boundary_shift [OF assms, of threshold]
      runs_changed_boundary_shift [OF assms, of threshold] Cons.IH
    by (auto simp: runs_iff shift_in_def split: option.splits)
qed

interpretation ls: boundary_shift lines1 lines2 "line_shift lines1 lines2" for lines1 lines2
  by unfold_locales (unfold line_shift_def, rule runs_line_shift_loop)

section \<open>The first step\<close>

lemma runs_mark_chunks:
  assumes inv: "cb_inv eq xs ys b" and S: "s1 \<le> e1" "e1 \<le> length xs" "s2 \<le> e2" "e2 \<le> length ys"
    and idx: "cb_index1 b \<le> s1" "cb_index2 b \<le> s2"
    and us: "valid_matching eq (take (e1 - s1) (drop s1 xs)) (take (e2 - s2) (drop s2 ys)) us"
  shows "runs (for_each (\<lambda>builder chunk. do {
         count \<leftarrow> usub (r_end1 chunk) (r_start1 chunk);
         cb_mark_equal_count builder (s1 + r_start1 chunk) (s2 + r_start2 chunk) count
       }) b us) (\<lambda>b'. cb_inv eq xs ys b' \<and> cb_index1 b' \<le> e1 \<and> cb_index2 b' \<le> e2)"
proof -
  let ?xs = "take (e1 - s1) (drop s1 xs)" and ?ys = "take (e2 - s2) (drop s2 ys)"
  define I where "I b us \<longleftrightarrow> cb_inv eq xs ys b \<and> valid_matching eq ?xs ?ys us \<and>
    (\<forall>u\<in>set us. cb_index1 b \<le> s1 + r_start1 u \<and> cb_index2 b \<le> s2 + r_start2 u) \<and>
    cb_index1 b \<le> e1 \<and> cb_index2 b \<le> e2" for b us
  have "runs (for_each (\<lambda>builder chunk. do {
         count \<leftarrow> usub (r_end1 chunk) (r_start1 chunk);
         cb_mark_equal_count builder (s1 + r_start1 chunk) (s2 + r_start2 chunk) count
       }) b us) (\<lambda>b'. I b' [])"
  proof (rule runs_for_each)
    show "I b us" using inv idx us S by (force simp: I_def)
  next
    fix b u us
    assume I: "I b (u # us)"
    then have u: "match_block eq ?xs ?ys u" "\<forall>v\<in>set us. range_before u v" "valid_matching eq ?xs ?ys us"
      by (auto simp: I_def valid_matching_def)
    from u(1) obtain n where n: "0 < n" "r_end1 u = r_start1 u + n" "r_end2 u = r_start2 u + n"
      "same_run eq ?xs ?ys (r_start1 u) (r_start2 u) n" by (rule match_blockE)
    then have run: "same_run eq xs ys (s1 + r_start1 u) (s2 + r_start2 u) n"
      and le: "r_start1 u + n \<le> e1 - s1" "r_start2 u + n \<le> e2 - s2"
      using S by (auto intro: same_run_slice) (auto simp: same_run_def)
    have "runs (cb_mark_equal b (s1 + r_start1 u) (s2 + r_start2 u) (s1 + r_start1 u + n) (s2 + r_start2 u + n))
      (\<lambda>b'. cb_inv eq xs ys b' \<and> cb_index1 b' = s1 + r_start1 u + n \<and> cb_index2 b' = s2 + r_start2 u + n)"
      using runs_cb_mark_equal [OF _ _ _ run, of b] I n(1) by (auto simp: I_def)
    then show "runs (do {
         count \<leftarrow> usub (r_end1 u) (r_start1 u);
         cb_mark_equal_count b (s1 + r_start1 u) (s2 + r_start2 u) count
       }) (\<lambda>b'. I b' us)"
      using n u(2,3) le S
      by (auto simp: wp cb_mark_equal_count_def I_def range_before_def elim!: runs_mono)
  qed
  then show ?thesis by (auto simp: I_def elim: runs_mono)
qed

lemma runs_match_line_gap:
  assumes engine: "engine_ok items line_eq engine" "list_all items xs" "list_all items ys"
    and size: "length xs < ENGINE_TOKEN_LIMIT" "length ys < ENGINE_TOKEN_LIMIT"
    and inv: "cb_inv line_eq xs ys b" "cb_index1 b \<le> s1" "cb_index2 b \<le> s2"
    and le: "s1 \<le> e1" "e1 \<le> length xs" "s2 \<le> e2" "e2 \<le> length ys"
  shows "runs (match_line_gap engine b xs ys s1 e1 s2 e2)
    (\<lambda>b'. cb_inv line_eq xs ys b' \<and> cb_index1 b' \<le> e1 \<and> cb_index2 b' \<le> e2)"
  unfolding match_line_gap_def
proof (rule runs_bindI [OF runs_expand [OF le]], goal_cases)
  case (1 r)
  then obtain f c where fc: "s1 + f + c \<le> e1" "s2 + f + c \<le> e2"
    and r: "r = mk_range (s1 + f) (e1 - c) (s2 + f) (e2 - c)"
    and run: "same_run line_eq xs ys s1 s2 f" "same_run line_eq xs ys (e1 - c) (e2 - c) c" by blast
  let ?xs = "take (e1 - c - (s1 + f)) (drop (s1 + f) xs)"
  let ?ys = "take (e2 - c - (s2 + f)) (drop (s2 + f) ys)"
  have lcs: "runs (lcs engine ?xs ?ys) (changes_ok line_eq ?xs ?ys)"
    using engine size by (intro runs_lcs [OF engine(1)]) (auto simp: list_all_iff dest!: in_set_takeD in_set_dropD)
  have first: "runs (cb_mark_equal b s1 s2 (s1 + f) (s2 + f)) (\<lambda>b'. cb_inv line_eq xs ys b' \<and>
      cb_index1 b' \<le> s1 + f \<and> cb_index2 b' \<le> s2 + f)"
    by (rule runs_mono [OF runs_cb_mark_equal [OF inv run(1)]]) (use inv in \<open>auto split: if_splits\<close>)
  have final: "runs (cb_mark_equal b' (e1 - c) (e2 - c) e1 e2) (\<lambda>b'. cb_inv line_eq xs ys b' \<and>
      cb_index1 b' \<le> e1 \<and> cb_index2 b' \<le> e2)"
    if "cb_inv line_eq xs ys b'" "cb_index1 b' \<le> e1 - c" "cb_index2 b' \<le> e2 - c" for b'
    using runs_cb_mark_equal [OF that run(2)] fc that by (auto elim!: runs_mono split: if_splits)
  show ?case
    unfolding r mk_range_sel runs_bind [of "slice_or_panic _ _ _"] runs_slice
  proof (intro conjI)
    show "runs (lcs engine ?xs ?ys \<bind> (\<lambda>inner_changes.
        cb_mark_equal b s1 s2 (s1 + f) (s2 + f) \<bind> (\<lambda>builder.
        unchanged inner_changes \<bind> (\<lambda>chunks.
        for_each (\<lambda>builder chunk. usub (r_end1 chunk) (r_start1 chunk) \<bind> (\<lambda>count.
          cb_mark_equal_count builder (s1 + f + r_start1 chunk) (s2 + f + r_start2 chunk) count)) builder chunks \<bind>
        (\<lambda>builder. cb_mark_equal builder (e1 - c) (e2 - c) e1 e2)))))
      (\<lambda>b'. cb_inv line_eq xs ys b' \<and> cb_index1 b' \<le> e1 \<and> cb_index2 b' \<le> e2)"
      using fc le
      by (intro runs_bindI [OF lcs] runs_bindI [OF first] runs_bindI [OF runs_unchanged_ok]
          runs_bindI [OF runs_mark_chunks [of line_eq xs ys _ "s1 + f" "e1 - c" "s2 + f" "e2 - c"]])
        (auto intro: final)
  qed (use fc le in auto)
qed

definition big_indexes :: "line list \<Rightarrow> line list \<Rightarrow> nat list \<Rightarrow> bool" where
  "big_indexes lines big indexes \<longleftrightarrow> length indexes = length big \<and> sorted_wrt (<) indexes \<and>
     (\<forall>k<length big. indexes ! k < length lines \<and> lines ! (indexes ! k) = big ! k)"

lemma big_indexes_big_lines: "big_lines lines threshold = (big, indexes) \<Longrightarrow> big_indexes lines big indexes"
proof -
  let ?es = "filter (\<lambda>(index, l). l_non_space_chars l > threshold) (enumerate 0 lines)"
  assume "big_lines lines threshold = (big, indexes)"
  then have big: "big = map snd ?es" and ix: "indexes = map fst ?es"
    by (auto simp: big_lines_def Let_def)
  have "sorted_wrt (<) (map fst ?es)"
    by (simp add: sorted_wrt_map) (rule sorted_wrt_filter, simp add: enumerate_eq_zip sorted_wrt_iff_nth_less)
  moreover have "fst e < length lines \<and> lines ! fst e = snd e" if "e \<in> set ?es" for e
    using that by (auto simp: in_set_enumerate_eq)
  then have "fst (?es ! k) < length lines \<and> lines ! fst (?es ! k) = snd (?es ! k)" if "k < length ?es" for k
    using that nth_mem by blast
  ultimately show ?thesis by (simp add: big_indexes_def big ix)
qed

lemma list_all_big_lines:
  "big_lines lines threshold = (big, indexes) \<Longrightarrow> list_all P lines \<Longrightarrow> list_all P big \<and> length big \<le> length lines"
  by (auto simp: big_lines_def Let_def list_all_iff in_set_enumerate_eq
      intro: order.trans [OF length_filter_le, of "enumerate 0 lines", simplified])

definition big_pair_inv :: "line list \<Rightarrow> line list \<Rightarrow> line list \<Rightarrow> line list \<Rightarrow> nat list \<Rightarrow> nat list \<Rightarrow>
    change_builder \<times> nat \<times> nat \<Rightarrow> (nat \<times> nat) list \<Rightarrow> bool" where
  "big_pair_inv xs ys big1 big2 ix1 ix2 s ps \<longleftrightarrow> (case s of (b, last1, last2) \<Rightarrow>
    cb_inv line_eq xs ys b \<and> cb_index1 b \<le> last1 \<and> cb_index2 b \<le> last2 \<and>
    last1 \<le> length xs \<and> last2 \<le> length ys \<and> sorted_wrt pair_less ps \<and>
    (\<forall>p\<in>set ps. fst p < length big1 \<and> snd p < length big2 \<and> line_eq (big1 ! fst p) (big2 ! snd p) \<and>
      last1 \<le> ix1 ! fst p \<and> last2 \<le> ix2 ! snd p))"

lemma runs_match_big_pair:
  assumes engine: "engine_ok items line_eq engine" "list_all items xs" "list_all items ys"
    and size: "length xs < ENGINE_TOKEN_LIMIT" "length ys < ENGINE_TOKEN_LIMIT"
    and big: "big_indexes xs big1 ix1" "big_indexes ys big2 ix2"
    and inv: "big_pair_inv xs ys big1 big2 ix1 ix2 s (p # ps)"
  shows "runs (match_big_pair engine ix1 ix2 xs ys s (fst p) (snd p))
    (\<lambda>s'. big_pair_inv xs ys big1 big2 ix1 ix2 s' ps)"
proof -
  obtain b last1 last2 where s: "s = (b, last1, last2)" by (cases s)
  obtain i j where p: "p = (i, j)" by (cases p)
  have ij: "i < length ix1" "j < length ix2" "ix1 ! i < length xs" "ix2 ! j < length ys"
    and eq: "line_eq (xs ! (ix1 ! i)) (ys ! (ix2 ! j))"
    and le: "last1 \<le> ix1 ! i" "last2 \<le> ix2 ! j"
    and b: "cb_inv line_eq xs ys b" "cb_index1 b \<le> last1" "cb_index2 b \<le> last2"
    using inv big by (auto simp: s p big_pair_inv_def big_indexes_def)
  have rest: "Suc (ix1 ! i) \<le> ix1 ! fst q \<and> Suc (ix2 ! j) \<le> ix2 ! snd q" if "q \<in> set ps" for q
  proof -
    have "i < fst q" "j < snd q" "fst q < length ix1" "snd q < length ix2"
      using inv big that by (auto simp: s p big_pair_inv_def big_indexes_def pair_less_def)
    then show ?thesis
      using big by (simp add: big_indexes_def sorted_wrt_iff_nth_less Suc_le_eq)
  qed
  have "runs (cb_mark_equal b' (ix1 ! i) (ix2 ! j) (ix1 ! i + 1) (ix2 ! j + 1)) (\<lambda>b''.
      runs (Some (b'', ix1 ! i + 1, ix2 ! j + 1)) (\<lambda>s'. big_pair_inv xs ys big1 big2 ix1 ix2 s' ps))"
    if "cb_inv line_eq xs ys b' \<and> cb_index1 b' \<le> ix1 ! i \<and> cb_index2 b' \<le> ix2 ! j" for b'
    using that ij eq inv rest
    by (intro runs_mono [OF runs_cb_mark_equal [of line_eq xs ys]]) (auto simp: same_run_1 big_pair_inv_def s)
  then show ?thesis
    using ij le b unfolding match_big_pair_def Let_def s p
    by (auto simp: runs_bind runs_nth intro!: runs_mono [OF runs_match_line_gap [OF engine size]])
qed

lemma runs_smart_line_change_correction:
  assumes engine: "engine_ok items line_eq engine" "list_all items xs" "list_all items ys"
    and size: "length xs < ENGINE_TOKEN_LIMIT" "length ys < ENGINE_TOKEN_LIMIT"
    and big: "big_indexes xs big1 ix1" "big_indexes ys big2 ix2"
    and ch: "changes_ok line_eq big1 big2 ch"
  shows "runs (smart_line_change_correction engine ix1 ix2 xs ys ch) (changes_ok line_eq xs ys)"
  unfolding smart_line_change_correction_def
proof (rule runs_bindI [OF runs_unchanged_ok [OF ch]])
  let ?I = "big_pair_inv xs ys big1 big2 ix1 ix2"
  fix us
  assume us: "valid_matching line_eq big1 big2 us"
  have "?I (cb_new (length xs) (length ys), 0, 0) (match_pairs us)"
    using match_pairs_valid [OF us] match_pairs_sorted [OF us] cb_inv_new [of line_eq xs ys]
    by (auto simp: big_pair_inv_def cb_new_def)
  then have loop: "runs (for_each_pair (match_big_pair engine ix1 ix2 xs ys)
      (cb_new (length xs) (length ys), 0, 0) us) (\<lambda>s. ?I s [])"
    by (rule runs_for_each_pair [OF us]) (rule runs_match_big_pair [OF engine size big])
  show "runs (do {
     (builder, last1, last2) \<leftarrow> for_each_pair (match_big_pair engine ix1 ix2 xs ys)
       (cb_new (length xs) (length ys), 0, 0) us;
     builder \<leftarrow> match_line_gap engine builder xs ys last1 (length xs) last2 (length ys);
     cb_finish builder
   }) (changes_ok line_eq xs ys)"
  proof (rule runs_bindI [OF loop], clarify, goal_cases)
    case (1 b last1 last2)
    then show ?case
      by (intro runs_bindI [OF runs_match_line_gap [OF engine size]])
        (auto simp: big_pair_inv_def intro: runs_cb_finish)
  qed
qed

lemma runs_compare_smart:
  assumes engine: "engine_ok items line_eq engine" "list_all items xs" "list_all items ys"
    and size: "length xs < ENGINE_TOKEN_LIMIT" "length ys < ENGINE_TOKEN_LIMIT"
  shows "runs (compare_smart engine xs ys) (changes_ok line_eq xs ys)"
proof -
  obtain big1 ix1 big2 ix2 where big: "big_lines xs UNIMPORTANT_LINE_CHAR_COUNT = (big1, ix1)"
    "big_lines ys UNIMPORTANT_LINE_CHAR_COUNT = (big2, ix2)"
    by fastforce
  have "runs (lcs engine big1 big2) (changes_ok line_eq big1 big2)"
    using list_all_big_lines [OF big(1) engine(2)] list_all_big_lines [OF big(2) engine(3)] size
    by (intro runs_lcs [OF engine(1)]) auto
  then show ?thesis
    unfolding compare_smart_def big Let_def prod.case
    by (rule runs_bindI)
      (rule runs_smart_line_change_correction [OF engine size big_indexes_big_lines [OF big(1)]
          big_indexes_big_lines [OF big(2)]])
qed

text \<open>Every changed range is cut down to a tight one and the ranges of which nothing is left are dropped.\<close>

lemma runs_expand_path:
  assumes "diff_path line_eq xs ys s i j cs m n"
  shows "runs (map_or_panic (\<lambda>r. expand line_eq xs ys (r_start1 r) (r_start2 r) (r_end1 r) (r_end2 r)) cs)
    (\<lambda>es. diff_path line_eq xs ys s i j (filter (\<lambda>r. \<not> range_is_empty r) es) m n \<and>
      (\<forall>c\<in>set es. tight line_eq xs ys c))"
proof -
  have bounds: "r_start1 c \<le> r_end1 c" "r_end1 c \<le> length xs" "r_start2 c \<le> r_end2 c" "r_end2 c \<le> length ys" if "c \<in> set cs" for c
    using diff_path_in_bounds [OF assms that] diff_path_wf [OF assms that] diff_path_bounds [OF assms] by (auto simp: range_wf_def)
  have "runs (map_or_panic (\<lambda>r. expand line_eq xs ys (r_start1 r) (r_start2 r) (r_end1 r) (r_end2 r)) cs)
      (list_all2 (\<lambda>c r. narrowed line_eq xs ys c r \<and> tight line_eq xs ys r) cs)"
    by (rule runs_map_or_panic, rule runs_mono [OF runs_expand [OF bounds]]) (auto simp: narrowed_def)
  then show ?thesis
    by (rule runs_mono) (use diff_path_narrow [OF assms] in \<open>auto simp: list_all2_conv_all_nth in_set_conv_nth\<close>)
qed

lemma runs_expand_ranges:
  assumes "changes_ok line_eq xs ys ch"
  shows "runs (expand_ranges xs ys ch)
    (\<lambda>ch. changes_ok line_eq xs ys ch \<and> (\<forall>c\<in>set (ch_changed ch). tight line_eq xs ys c))"
  using assms unfolding expand_ranges_def changes_ok_def valid_diff_def
  by (intro runs_bindI [OF runs_expand_path]) auto

section \<open>The enumeration of alignments\<close>

fun choices :: "nat \<Rightarrow> nat \<Rightarrow> nat \<Rightarrow> nat list list" where
  "choices start n 0 = [[]]"
| "choices start n (Suc m) = concat (map (\<lambda>i. map ((#) i) (choices (i + 1) n m)) [start..<n + 1])"

definition increasing_upto :: "nat \<Rightarrow> nat \<Rightarrow> nat list \<Rightarrow> bool" where
  "increasing_upto m n c \<longleftrightarrow> length c = m \<and> sorted_wrt (<) c \<and> (\<forall>i\<in>set c. i < n)"

lemma set_choices:
  "set (choices start n m) = {c. length c = m \<and> sorted_wrt (<) c \<and> (\<forall>i\<in>set c. start \<le> i \<and> i \<le> n)}"
proof (induction m arbitrary: start)
  case 0
  then show ?case by auto
next
  case (Suc m)
  have "c \<in> set (choices start n (Suc m)) \<longleftrightarrow>
      length c = Suc m \<and> sorted_wrt (<) c \<and> (\<forall>i\<in>set c. start \<le> i \<and> i \<le> n)" for c
  proof (cases c)
    case Nil
    then show ?thesis by auto
  next
    case (Cons x xs)
    then show ?thesis by (auto simp: Suc image_iff Suc_le_eq)
  qed
  then show ?case by auto
qed

text \<open>
  \<open>combinations\<close> visits the choices in order: \<open>comb_sim\<close> relates its result, the buffer included, to
  the plain loop over the enumeration.
\<close>

definition comb_sim :: "nat list \<Rightarrow> nat \<Rightarrow> (nat list \<times> 's) option \<Rightarrow> 's option \<Rightarrow> bool" where
  "comb_sim pre m r r' \<longleftrightarrow> (case r of None \<Rightarrow> r' = None
     | Some (c, s) \<Rightarrow> r' = Some s \<and> length c = m \<and> take (length pre) c = pre)"

lemma comb_sim_loop:
  assumes step: "\<And>comb s i. length comb = m \<Longrightarrow> take (length pre) comb = pre \<Longrightarrow> i \<in> set is \<Longrightarrow>
      comb_sim pre m (f (comb, s) i) (g s i)"
    and "length comb = m" "take (length pre) comb = pre"
  shows "comb_sim pre m (for_each f (comb, s) is) (for_each g s is)"
  using assms
proof (induction "is" arbitrary: comb s)
  case Nil
  then show ?case by (simp add: comb_sim_def)
next
  case (Cons i "is")
  have "comb_sim pre m (f (comb, s) i) (g s i)" using Cons.prems by simp
  then show ?case
  proof (cases "f (comb, s) i")
    case None
    with \<open>comb_sim pre m (f (comb, s) i) (g s i)\<close> show ?thesis by (simp add: comb_sim_def)
  next
    case (Some r)
    then obtain c t where r: "f (comb, s) i = Some (c, t)" by (cases r) auto
    with \<open>comb_sim pre m (f (comb, s) i) (g s i)\<close>
    have "g s i = Some t" "length c = m" "take (length pre) c = pre" by (auto simp: comb_sim_def)
    moreover from this have "comb_sim pre m (for_each f (c, t) is) (for_each g t is)"
      using Cons.prems(1) by (intro Cons.IH) auto
    ultimately show ?thesis using r by simp
  qed
qed

lemma comb_sim_combinations:
  assumes "length comb = m" "k \<le> m"
  shows "comb_sim (take k comb) m (combinations m start n k comb process s)
    (for_each (\<lambda>s c. process (take k comb @ c) s) s (choices start n (m - k)))"
  using assms
proof (induction "m - k" arbitrary: k start comb s)
  case 0
  then have "m = k" by simp
  with 0 show ?case
    by (cases "process comb s") (simp_all add: combinations.simps [of k start n k] comb_sim_def)
next
  case (Suc d)
  then have k: "k < m" by simp
  let ?pre = "take k comb"
  have run: "combinations m start n k comb process s = for_each (\<lambda>(comb, s) i. do {
          dassert (k < length comb);
          combinations m (i + 1) n (k + 1) (comb[k := i]) process s
        }) (comb, s) [start..<n + 1]"
    using k by (simp add: combinations.simps [of m start n k])
  have loop: "for_each (\<lambda>s c. process (?pre @ c) s) s (choices start n (m - k)) =
      for_each (\<lambda>s i. for_each (\<lambda>s c. process ((?pre @ [i]) @ c) s) s (choices (i + 1) n (m - (k + 1))))
        s [start..<n + 1]"
  proof -
    have "for_each (\<lambda>s c. process (?pre @ c) s) s (concat (map (\<lambda>i. map ((#) i) (h i)) is)) =
      for_each (\<lambda>s i. for_each (\<lambda>s c. process ((?pre @ [i]) @ c) s) s (h i)) s is" for h "is" s
      by (induction "is" arbitrary: s) (auto simp: for_each_append for_each_map)
    moreover have "m - k = Suc (m - (k + 1))" using k by simp
    ultimately show ?thesis by simp
  qed
  show ?case
    unfolding run loop
  proof (rule comb_sim_loop)
    fix comb' s i
    assume c: "length comb' = m" "take (length ?pre) comb' = ?pre"
    then have pre: "take (k + 1) (comb'[k := i]) = ?pre @ [i]"
      using k Suc.prems by (simp add: take_Suc_conv_app_nth min_def)
    have "comb_sim (?pre @ [i]) m (combinations m (i + 1) n (k + 1) (comb'[k := i]) process s)
        (for_each (\<lambda>s c. process ((?pre @ [i]) @ c) s) s (choices (i + 1) n (m - (k + 1))))"
      using Suc.hyps(1) [of "k + 1" "comb'[k := i]" "i + 1" s] Suc.hyps(2) k c unfolding pre by simp
    moreover have "take k c' = ?pre" if "take (Suc (min m k)) c' = ?pre @ [i]" for c'
      using arg_cong [OF that, of "take k"] k Suc.prems by (simp add: min_def)
    ultimately show "comb_sim ?pre m ((case (comb', s) of (comb, s) \<Rightarrow> \<lambda>i. do {
          dassert (k < length comb);
          combinations m (i + 1) n (k + 1) (comb[k := i]) process s
        }) i) (for_each (\<lambda>s c. process ((?pre @ [i]) @ c) s) s (choices (i + 1) n (m - (k + 1))))"
      using c k Suc.prems by (auto simp: comb_sim_def dassert_def split: option.splits)
  qed (use Suc.prems in auto)
qed

lemma runs_combinations:
  assumes "runs (for_each (\<lambda>s c. process c s) s (choices start n m)) Q"
  shows "runs (combinations m start n 0 (replicate m 0) process s) (\<lambda>r. Q (snd r))"
  using comb_sim_combinations [of "replicate m 0" m 0 start n process s] assms
  by (auto simp: comb_sim_def runs_iff split: option.splits)

definition alignment_weight :: "nat list \<Rightarrow> nat list \<Rightarrow> line list \<Rightarrow> line list \<Rightarrow> nat list \<Rightarrow> nat" where
  "alignment_weight sub1 sub2 lines1 lines2 comb =
     length (filter (\<lambda>i. line_eq (lines1 ! (sub1 ! i)) (lines2 ! (sub2 ! (comb ! i)))) [0..<length sub1])"

lemma match_weight_eq:
  assumes "\<forall>i\<in>set sub1. i < length lines1" "\<forall>i\<in>set sub2. i < length lines2"
    and "increasing_upto (length sub1) (length sub2) comb"
  shows "match_weight sub1 sub2 lines1 lines2 comb = Some (alignment_weight sub1 sub2 lines1 lines2 comb)"
proof -
  have "map_or_panic (\<lambda>i. do {
         i1 \<leftarrow> nth_or_panic sub1 i;
         line1 \<leftarrow> nth_or_panic lines1 i1;
         c \<leftarrow> nth_or_panic comb i;
         i2 \<leftarrow> nth_or_panic sub2 c;
         line2 \<leftarrow> nth_or_panic lines2 i2;
         Some (line_eq line1 line2)
       }) [0..<length sub1] =
    Some (map (\<lambda>i. line_eq (lines1 ! (sub1 ! i)) (lines2 ! (sub2 ! (comb ! i)))) [0..<length sub1])"
    using assms by (intro map_or_panic_Some) (auto simp: nth_or_panic_def increasing_upto_def)
  then show ?thesis
    by (simp add: match_weight_def alignment_weight_def filter_map comp_def)
qed

lemma runs_best_matching_alignment:
  assumes subs: "\<forall>i\<in>set sub1. i < length lines1" "\<forall>i\<in>set sub2. i < length lines2"
    and less: "length sub1 < length sub2"
  shows "runs (best_matching_alignment sub1 sub2 lines1 lines2) (\<lambda>best.
    increasing_upto (length sub1) (length sub2) best \<and>
    (\<forall>c. increasing_upto (length sub1) (length sub2) c \<longrightarrow>
      alignment_weight sub1 sub2 lines1 lines2 c \<le> alignment_weight sub1 sub2 lines1 lines2 best))"
proof -
  let ?m = "length sub1" and ?n = "length sub2"
  let ?w = "alignment_weight sub1 sub2 lines1 lines2"
  define all where "all = choices 0 (?n - 1) ?m"
  have all: "c \<in> set all \<longleftrightarrow> increasing_upto ?m ?n c" for c
    using less by (auto simp: all_def set_choices increasing_upto_def)
  define I where "I = (\<lambda>(best, bw) rest. increasing_upto ?m ?n best \<and> bw \<le> ?w best \<and> set rest \<subseteq> set all \<and>
    (\<forall>c\<in>set all. c \<in> set rest \<or> ?w c \<le> bw))"
  have "runs (for_each (\<lambda>(best, best_weight) comb. do {
         weight \<leftarrow> match_weight sub1 sub2 lines1 lines2 comb;
         Some (if weight > best_weight then (comb, weight) else (best, best_weight))
       }) ([0..<?m], 0) all) (\<lambda>s. I s [])"
  proof (rule runs_for_each)
    show "I ([0..<?m], 0) all" using less by (auto simp: I_def increasing_upto_def)
  next
    fix s c cs
    assume "I s (c # cs)"
    moreover from this have "increasing_upto ?m ?n c" by (auto simp: I_def all)
    ultimately show "runs ((case s of (best, best_weight) \<Rightarrow> \<lambda>comb. do {
         weight \<leftarrow> match_weight sub1 sub2 lines1 lines2 comb;
         Some (if weight > best_weight then (comb, weight) else (best, best_weight))
       }) c) (\<lambda>s. I s cs)"
      by (force simp: I_def match_weight_eq [OF subs])
  qed
  then have "runs (combinations ?m 0 (?n - 1) 0 (replicate ?m 0) (\<lambda>comb (best, best_weight). do {
         weight \<leftarrow> match_weight sub1 sub2 lines1 lines2 comb;
         Some (if weight > best_weight then (comb, weight) else (best, best_weight))
       }) ([0..<?m], 0)) (\<lambda>r. I (snd r) [])"
    by (intro runs_combinations) (simp add: case_prod_unfold all_def)
  then show ?thesis
    using less unfolding best_matching_alignment_def Let_def
    by (auto simp: runs_bind runs_dassert runs_usub I_def all Ball_def elim!: runs_mono) (meson order.trans)
qed

section \<open>The second step\<close>

lemma runs_mark_aligned:
  assumes inv: "eb_inv line_eq xs ys b"
    and f: "\<And>i. i < k \<Longrightarrow> eb_index1 b \<le> f i \<and> f i < lim1" "\<And>i j. i < j \<Longrightarrow> j < k \<Longrightarrow> f i < f j"
    and g: "\<And>i. i < k \<Longrightarrow> eb_index2 b \<le> g i \<and> g i < lim2" "\<And>i j. i < j \<Longrightarrow> j < k \<Longrightarrow> g i < g j"
    and lim: "eb_index1 b \<le> lim1" "lim1 \<le> length xs" "eb_index2 b \<le> lim2" "lim2 \<le> length ys"
    and body: "\<And>b i. i < k \<Longrightarrow> body b i = mark_if_equal xs ys b (f i) (g i)"
  shows "runs (for_each body b [0..<k])
    (\<lambda>b'. eb_inv line_eq xs ys b' \<and> eb_index1 b' \<le> lim1 \<and> eb_index2 b' \<le> lim2)"
proof -
  let ?ps = "map (\<lambda>i. (f i, g i)) [0..<k]"
  have "for_each body b [0..<k] = for_each (\<lambda>b p. if line_eq (xs ! fst p) (ys ! snd p)
      then eb_mark_equal_one line_eq b (fst p) (snd p) else Some b) b ?ps"
    unfolding for_each_map
  proof (rule for_each_cong)
    fix b i
    assume "i \<in> set [0..<k]"
    then have "i < k" "f i < length xs" "g i < length ys" using f(1) g(1) lim by force+
    then show "body b i = (if line_eq (xs ! fst (f i, g i)) (ys ! snd (f i, g i))
        then eb_mark_equal_one line_eq b (fst (f i, g i)) (snd (f i, g i)) else Some b)"
      by (simp add: body mark_if_equal_def nth_or_panic_def)
  qed simp_all
  moreover have "sorted_wrt pair_less ?ps"
    using f(2) g(2) by (auto simp: sorted_wrt_iff_nth_less pair_less_def)
  moreover have "\<forall>p\<in>set ?ps. eb_index1 b \<le> fst p \<and> eb_index2 b \<le> snd p \<and> fst p < length xs \<and>
      snd p < length ys \<and> fst p < lim1 \<and> snd p < lim2"
    using f(1) g(1) lim by force
  ultimately show ?thesis
    using eb.mark_pairs [OF inv, of ?ps lim1 lim2] lim by simp
qed

definition sub_lines_ok :: "nat \<Rightarrow> nat \<Rightarrow> nat list \<Rightarrow> bool" where
  "sub_lines_ok lo hi sub \<longleftrightarrow> sorted_wrt (<) sub \<and> (\<forall>i\<in>set sub. lo \<le> i \<and> i < hi)"

lemma sub_lines_ok_nth:
  "sub_lines_ok lo hi sub \<Longrightarrow> i < length sub \<Longrightarrow> lo \<le> sub ! i \<and> sub ! i < hi"
  "sub_lines_ok lo hi sub \<Longrightarrow> i < j \<Longrightarrow> j < length sub \<Longrightarrow> sub ! i < sub ! j"
  by (auto simp: sub_lines_ok_def sorted_wrt_iff_nth_less)

lemma increasing_upto_nth:
  "increasing_upto m n c \<Longrightarrow> i < m \<Longrightarrow> c ! i < n"
  "increasing_upto m n c \<Longrightarrow> i < j \<Longrightarrow> j < m \<Longrightarrow> c ! i < c ! j"
  by (auto simp: increasing_upto_def sorted_wrt_iff_nth_less)

lemma runs_align_exact_matching:
  assumes inv: "eb_inv line_eq xs ys b"
    and sub: "sub_lines_ok (eb_index1 b) lim1 sub1" "sub_lines_ok (eb_index2 b) lim2 sub2"
    and lim: "eb_index1 b \<le> lim1" "lim1 \<le> length xs" "eb_index2 b \<le> lim2" "lim2 \<le> length ys"
  shows "runs (align_exact_matching xs ys b sub1 sub2)
    (\<lambda>b'. eb_inv line_eq xs ys b' \<and> eb_index1 b' \<le> lim1 \<and> eb_index2 b' \<le> lim2)"
proof -
  note mark = runs_mark_aligned [OF inv _ _ _ _ lim]
  note nth = sub_lines_ok_nth [OF sub(1)] sub_lines_ok_nth [OF sub(2)]
  have bounds: "\<forall>i\<in>set sub1. i < length xs" "\<forall>i\<in>set sub2. i < length ys"
    using sub lim by (auto simp: sub_lines_ok_def)
  consider "max (length sub1) (length sub2) > 10 \<or> length sub1 = length sub2"
    | "\<not> max (length sub1) (length sub2) > 10" "length sub1 < length sub2"
    | "\<not> max (length sub1) (length sub2) > 10" "length sub2 < length sub1" by linarith
  then show ?thesis
  proof cases
    case 1
    then show ?thesis
      unfolding align_exact_matching_def
      by (simp only: if_True)
        (rule mark [where f = "\<lambda>i. sub1 ! i" and g = "\<lambda>i. sub2 ! i"], auto simp: nth nth_or_panic_def)
  next
    case 2
    have "runs (for_each (\<lambda>builder i. do {
          index1 \<leftarrow> nth_or_panic sub1 i;
          m \<leftarrow> nth_or_panic c i;
          index2 \<leftarrow> nth_or_panic sub2 m;
          mark_if_equal xs ys builder index1 index2
        }) b [0..<length sub1]) (\<lambda>b'. eb_inv line_eq xs ys b' \<and> eb_index1 b' \<le> lim1 \<and> eb_index2 b' \<le> lim2)"
      if c: "increasing_upto (length sub1) (length sub2) c" for c
      by (rule mark [where f = "\<lambda>i. sub1 ! i" and g = "\<lambda>i. sub2 ! (c ! i)"])
        (use c in \<open>auto simp: nth nth_or_panic_def increasing_upto_nth [OF c] increasing_upto_def\<close>)
    with 2 show ?thesis
      unfolding align_exact_matching_def
      by (auto intro!: runs_bindI [OF runs_best_matching_alignment] simp: bounds)
  next
    case 3
    have "runs (for_each (\<lambda>builder i. do {
          m \<leftarrow> nth_or_panic c i;
          index1 \<leftarrow> nth_or_panic sub1 m;
          index2 \<leftarrow> nth_or_panic sub2 i;
          mark_if_equal xs ys builder index1 index2
        }) b [0..<length sub2]) (\<lambda>b'. eb_inv line_eq xs ys b' \<and> eb_index1 b' \<le> lim1 \<and> eb_index2 b' \<le> lim2)"
      if c: "increasing_upto (length sub2) (length sub1) c" for c
      by (rule mark [where f = "\<lambda>i. sub1 ! (c ! i)" and g = "\<lambda>i. sub2 ! i"])
        (use c in \<open>auto simp: nth nth_or_panic_def increasing_upto_nth [OF c] increasing_upto_def\<close>)
    with 3 show ?thesis
      unfolding align_exact_matching_def
      by (auto intro!: runs_bindI [OF runs_best_matching_alignment] simp: bounds)
  qed
qed

definition same_lines :: "line list \<Rightarrow> ustr \<Rightarrow> nat \<Rightarrow> nat \<Rightarrow> nat list" where
  "same_lines lines sample start limit =
     filter (\<lambda>i. is_equals sample (l_content (lines ! i)) IgnoreWhitespaces) [start..<limit]"

lemma collect_same_eq:
  assumes "limit \<le> length lines"
  shows "collect_same lines sample start limit last0 =
    (let sub = same_lines lines sample start limit
     in Some (sub, if sub = [] then last0 else Suc (last sub)))"
proof -
  have "for_each (\<lambda>(sub_lines, latest) i. do {
     l \<leftarrow> nth_or_panic lines i;
     Some (if is_equals sample (l_content l) IgnoreWhitespaces then (sub_lines @ [i], i + 1)
           else (sub_lines, latest))
   }) (acc, l) is =
    (let sub = filter (\<lambda>i. is_equals sample (l_content (lines ! i)) IgnoreWhitespaces) is
     in Some (acc @ sub, if sub = [] then l else Suc (last sub)))"
    if "\<forall>i\<in>set is. i < length lines" for acc l "is"
    using that by (induction "is" arbitrary: acc l) (auto simp: nth_or_panic_def Let_def)
  from this [of "[start..<limit]" "[]" last0] assms show ?thesis
    by (simp add: collect_same_def same_lines_def)
qed

lemma sub_lines_ok_same_lines: "lo \<le> start \<Longrightarrow> sub_lines_ok lo limit (same_lines lines sample start limit)"
  by (auto simp: sub_lines_ok_def same_lines_def intro: sorted_wrt_filter)

text \<open>
  The invariant of the second step: builder and bookkeeping stay behind the pairs still to come, and a
  pending sample comes from a pair not behind them, of which both lines equal the sample up to whitespace.
\<close>

definition ss_inv :: "line list \<Rightarrow> line list \<Rightarrow> nat \<Rightarrow> nat \<Rightarrow> second_step \<Rightarrow> bool" where
  "ss_inv xs ys lim1 lim2 step \<longleftrightarrow> eb_inv line_eq xs ys (ss_builder step) \<and>
     eb_index1 (ss_builder step) \<le> lim1 \<and> eb_index2 (ss_builder step) \<le> lim2 \<and>
     ss_last1 step \<le> lim1 \<and> ss_last2 step \<le> lim2 \<and> lim1 \<le> length xs \<and> lim2 \<le> length ys \<and>
     (\<forall>sample. ss_sample step = Some sample \<longrightarrow> (\<exists>i j.
       max (ss_last1 step) (eb_index1 (ss_builder step)) \<le> i \<and> i < lim1 \<and>
       max (ss_last2 step) (eb_index2 (ss_builder step)) \<le> j \<and> j < lim2 \<and>
       is_equals sample (l_content (xs ! i)) IgnoreWhitespaces \<and>
       is_equals sample (l_content (ys ! j)) IgnoreWhitespaces))"

lemma ss_inv_mono:
  "ss_inv xs ys lim1 lim2 step \<Longrightarrow> lim1 \<le> lim1' \<Longrightarrow> lim2 \<le> lim2' \<Longrightarrow> lim1' \<le> length xs \<Longrightarrow> lim2' \<le> length ys \<Longrightarrow>
   ss_inv xs ys lim1' lim2' step"
  unfolding ss_inv_def by (meson order.trans order.strict_trans2)

lemma runs_ss_flush:
  assumes "ss_inv xs ys lim1 lim2 step"
  shows "runs (ss_flush xs ys step lim1 lim2) (\<lambda>step'. ss_inv xs ys lim1 lim2 step' \<and> ss_sample step' = None)"
proof (cases "ss_sample step")
  case None
  with assms show ?thesis by (simp add: ss_flush_def)
next
  case (Some sample)
  let ?b = "ss_builder step"
  let ?sub1 = "same_lines xs sample (max (ss_last1 step) (eb_index1 ?b)) lim1"
  let ?sub2 = "same_lines ys sample (max (ss_last2 step) (eb_index2 ?b)) lim2"
  from assms Some have b: "eb_inv line_eq xs ys ?b" "eb_index1 ?b \<le> lim1" "eb_index2 ?b \<le> lim2"
    and lim: "lim1 \<le> length xs" "lim2 \<le> length ys" "ss_last1 step \<le> lim1" "ss_last2 step \<le> lim2"
    and ne: "?sub1 \<noteq> []" "?sub2 \<noteq> []"
    by (auto simp: ss_inv_def same_lines_def filter_empty_conv)
  then have "last ?sub1 \<in> set ?sub1" "last ?sub2 \<in> set ?sub2" by auto
  then have lasts: "last ?sub1 < lim1" "last ?sub2 < lim2" by (auto simp: same_lines_def)
  have "runs (align_exact_matching xs ys ?b ?sub1 ?sub2)
    (\<lambda>b'. eb_inv line_eq xs ys b' \<and> eb_index1 b' \<le> lim1 \<and> eb_index2 b' \<le> lim2)"
    using b lim by (intro runs_align_exact_matching sub_lines_ok_same_lines) auto
  then show ?thesis
    using Some ne lim lasts
    by (auto simp: ss_flush_def collect_same_eq Let_def runs_bind runs_dassert ss_inv_def elim!: runs_mono)
qed

lemma runs_second_step_visit:
  assumes inv: "ss_inv xs ys i j step" and ij: "i < length xs" "j < length ys"
    and eq: "is_equals (l_content (xs ! i)) (l_content (ys ! j)) IgnoreWhitespaces"
  shows "runs (second_step_visit xs ys step i j) (ss_inv xs ys (Suc i) (Suc j))"
proof (cases "case ss_sample step of None \<Rightarrow> False
    | Some sample \<Rightarrow> is_equals sample (l_content (xs ! i)) IgnoreWhitespaces")
  case True
  with ss_inv_mono [OF inv, of "Suc i" "Suc j"] ij show ?thesis
    by (simp add: second_step_visit_def nth_or_panic_def)
next
  case False
  have flush: "runs (ss_flush xs ys step i j) (\<lambda>step'. ss_inv xs ys i j step' \<and> ss_sample step' = None)"
    using inv by (rule runs_ss_flush)
  show ?thesis
  proof (cases "line_eq (xs ! i) (ys ! j)")
    case True
    have "runs (eb_mark_equal_one line_eq (ss_builder step') i j)
        (\<lambda>b. ss_inv xs ys (Suc i) (Suc j) (step'\<lparr>ss_builder := b\<rparr>))"
      if "ss_inv xs ys i j step'" "ss_sample step' = None" for step'
      using that ij True
      by (intro runs_mono [OF runs_eb_mark_equal_one [of line_eq xs ys]]) (auto simp: ss_inv_def)
    with False True flush ij show ?thesis
      by (auto simp: second_step_visit_def nth_or_panic_def runs_bind elim!: runs_mono)
  next
    case not_eq: False
    have "ss_inv xs ys (Suc i) (Suc j) (step'\<lparr>ss_sample := Some (l_content (xs ! i))\<rparr>)"
      if "ss_inv xs ys i j step'" for step'
      using that ij eq
      by (simp add: ss_inv_def del: is_equals.simps)
        (rule exI [of _ i], simp del: is_equals.simps, rule exI [of _ j], simp del: is_equals.simps)
    with False not_eq flush ij show ?thesis
      by (auto simp: second_step_visit_def nth_or_panic_def runs_bind elim!: runs_mono)
  qed
qed

lemma runs_correct_changes_second_step:
  assumes ch: "changes_ok eqm xs ys ch"
    and eqm: "\<And>a b. eqm a b \<Longrightarrow> is_equals (l_content a) (l_content b) IgnoreWhitespaces"
  shows "runs (correct_changes_second_step xs ys ch)
    (\<lambda>ch. changes_ok line_eq xs ys ch \<and> (\<forall>c\<in>set (ch_changed ch). tight line_eq xs ys c))"
  unfolding correct_changes_second_step_def
proof (rule runs_bindI [OF runs_unchanged_ok [OF ch]])
  fix us
  assume us: "valid_matching eqm xs ys us"
  let ?init = "\<lparr>ss_builder = eb_new xs ys, ss_sample = None, ss_last1 = 0, ss_last2 = 0\<rparr>"
  define I where "I step ps \<longleftrightarrow> sorted_wrt pair_less ps \<and>
    (\<forall>p\<in>set ps. fst p < length xs \<and> snd p < length ys \<and> eqm (xs ! fst p) (ys ! snd p)) \<and>
    (if ps = [] then ss_inv xs ys (length xs) (length ys) step
     else ss_inv xs ys (fst (hd ps)) (snd (hd ps)) step)" for step ps
  have "ss_inv xs ys a b ?init" if "a \<le> length xs" "b \<le> length ys" for a b
    using that eb_inv_new [of line_eq xs ys] by (simp add: ss_inv_def eb_new_def)
  then have init: "I ?init (match_pairs us)"
    using match_pairs_valid [OF us] match_pairs_sorted [OF us] by (auto simp: I_def order.strict_implies_order)
  have loop: "runs (for_each_pair (second_step_visit xs ys) ?init us) (\<lambda>step. I step [])"
  proof (rule runs_for_each_pair [where I = I, OF us init])
    fix step p ps
    assume I: "I step (p # ps)"
    then have "runs (second_step_visit xs ys step (fst p) (snd p)) (ss_inv xs ys (Suc (fst p)) (Suc (snd p)))"
      using eqm by (intro runs_second_step_visit) (auto simp: I_def)
    with I show "runs (second_step_visit xs ys step (fst p) (snd p)) (\<lambda>step. I step ps)"
      by (cases ps) (auto simp: I_def pair_less_def Suc_le_eq elim!: runs_mono ss_inv_mono)
  qed
  show "runs (do {
     step \<leftarrow> for_each_pair (second_step_visit xs ys) ?init us;
     step \<leftarrow> ss_flush xs ys step (ch_len1 ch) (ch_len2 ch);
     eb_finish line_eq (ss_builder step)
   }) (\<lambda>ch. changes_ok line_eq xs ys ch \<and> (\<forall>c\<in>set (ch_changed ch). tight line_eq xs ys c))"
    using ch by (intro runs_bindI [OF loop] runs_bindI [OF runs_ss_flush] runs_eb_finish)
      (auto simp: I_def ss_inv_def changes_ok_def)
qed

section \<open>The comparison\<close>

text \<open>
  The engine only ever sees lines built for \<open>IgnoreWhitespaces\<close>; on those \<open>line_eq\<close> is an equivalence
  that agrees with the hash, which is what the engine asks of its tokens.
\<close>

definition iw_line :: "line \<Rightarrow> bool" where
  "iw_line l \<longleftrightarrow> l = line_new (l_content l) IgnoreWhitespaces"

lemma line_new_sel [simp]:
  "l_content (line_new s p) = s" "l_policy (line_new s p) = p" "l_hash (line_new s p) = text_hash s p"
  by (simp_all add: line_new_def)

lemma iw_line_with_policy: "iw_line (with_policy (line_new s p) IgnoreWhitespaces)"
  by (simp add: iw_line_def with_policy_def)

lemma line_eq_Ignore: "line_eq a b \<Longrightarrow> is_equals (l_content a) (l_content b) IgnoreWhitespaces"
  unfolding line_eq_def using is_equals_imp_Ignore by blast

lemma l_content_with_policy [simp]: "l_content (with_policy l p) = l_content l"
  by (simp add: with_policy_def)

lemma runs_do_compare:
  assumes engine: "engine_ok iw_line line_eq engine"
    and size: "length l1 < ENGINE_TOKEN_LIMIT" "length l2 < ENGINE_TOKEN_LIMIT"
    and lines: "xs = map (\<lambda>l. line_new l policy) l1" "ys = map (\<lambda>l. line_new l policy) l2"
  shows "runs (do_compare engine xs ys policy)
    (\<lambda>ch. changes_ok line_eq xs ys ch \<and> (\<forall>c\<in>set (ch_changed ch). tight line_eq xs ys c))"
proof (cases "policy = IgnoreWhitespaces")
  case True
  have "list_all iw_line xs" "list_all iw_line ys" "length xs < ENGINE_TOKEN_LIMIT" "length ys < ENGINE_TOKEN_LIMIT"
    using size by (auto simp: lines True list_all_iff iw_line_def)
  then have "runs (compare_smart engine xs ys) (changes_ok line_eq xs ys)"
    using engine by (intro runs_compare_smart)
  then show ?thesis
    unfolding do_compare_def optimize_line_chunks_def using True
    by (auto intro!: runs_bindI runs_expand_ranges ls.optimize_chunks_ok)
next
  case False
  let ?iw = "\<lambda>l. with_policy l IgnoreWhitespaces"
  let ?eqm = "\<lambda>a b. is_equals (l_content a) (l_content b) IgnoreWhitespaces"
  have "runs (compare_smart engine (map ?iw xs) (map ?iw ys)) (changes_ok line_eq (map ?iw xs) (map ?iw ys))"
    using size by (intro runs_compare_smart [OF engine]) (auto simp: lines list_all_iff iw_line_with_policy)
  then have first: "runs (compare_smart engine (map ?iw xs) (map ?iw ys)) (changes_ok ?eqm xs ys)"
    by (rule runs_mono) (auto simp: changes_ok_map dest: line_eq_Ignore elim!: changes_ok_mono)
  have "runs (optimize_line_chunks xs ys ch) (changes_ok ?eqm xs ys)" if "changes_ok ?eqm xs ys ch" for ch
    unfolding optimize_line_chunks_def using line_eq_Ignore that by (rule ls.optimize_chunks_ok)
  then show ?thesis
    unfolding do_compare_def Let_def using False first
    by (auto intro!: runs_bindI [OF first] runs_bindI runs_correct_changes_second_step simp del: is_equals.simps)
qed

lemma runs_by_line_compare:
  assumes engine: "engine_ok iw_line line_eq engine"
    and size: "length l1 < ENGINE_TOKEN_LIMIT" "length l2 < ENGINE_TOKEN_LIMIT"
  shows "runs (by_line_compare engine l1 l2 policy) (\<lambda>ch. changes_ok (\<lambda>a b. is_equals a b policy) l1 l2 ch \<and>
    (\<forall>c\<in>set (ch_changed ch). tight (\<lambda>a b. line_eq (line_new a policy) (line_new b policy)) l1 l2 c))"
proof -
  let ?xs = "map (\<lambda>l. line_new l policy) l1" and ?ys = "map (\<lambda>l. line_new l policy) l2"
  have valid: "valid_diff (\<lambda>a b. is_equals a b policy) l1 l2 cs" if "valid_diff line_eq ?xs ?ys cs" for cs
    using that by (auto simp: valid_diff_map line_eq_def elim: valid_diff_mono)
  have tight: "tight (\<lambda>a b. line_eq (line_new a policy) (line_new b policy)) l1 l2 c"
    if "tight line_eq ?xs ?ys c" "c \<in> set cs" "valid_diff line_eq ?xs ?ys cs" for c cs
    using that diff_path_in_bounds [of line_eq ?xs ?ys False 0 0 cs "length ?xs" "length ?ys" c]
    by (auto simp: valid_diff_def tight_map)
  show ?thesis
    using runs_do_compare [OF engine size refl refl, of policy] valid tight
    by (auto simp: by_line_compare_def changes_ok_def elim!: runs_mono)
qed

lemma runs_compare_lines:
  assumes engine: "engine_ok iw_line line_eq engine"
    and size: "length l1 < ENGINE_TOKEN_LIMIT" "length l2 < ENGINE_TOKEN_LIMIT"
  shows "runs (compare_lines engine l1 l2 policy) (\<lambda>cs.
    valid_diff (\<lambda>a b. is_equals a b policy) l1 l2 cs \<and>
    (\<forall>c\<in>set cs. tight (\<lambda>a b. line_eq (line_new a policy) (line_new b policy)) l1 l2 c))"
proof (cases "l1 = l2")
  case True
  then show ?thesis by (simp add: compare_lines_def valid_diff_def same_run_def)
next
  case False
  then show ?thesis using runs_by_line_compare [OF assms, of policy] by (auto simp: compare_lines_def changes_ok_def wp elim!: runs_mono)
qed

lemma line_eq_line_new:
  "is_equals a b policy \<Longrightarrow> 10 \<notin> set a \<Longrightarrow> 10 \<notin> set b \<Longrightarrow> line_eq (line_new a policy) (line_new b policy)"
  by (auto simp: line_eq_def line_new_def is_equals_imp_text_hash)

section \<open>What a caller of \<open>compare_lines\<close> relies on\<close>

text \<open>
  C1. \<open>compare_lines\<close> never panics, whatever the lines and the policy, and what it returns is a valid diff:
  ordered, in-bounds, non-empty changed ranges, each pair of neighbours separated by at least one unchanged
  line, and every line outside them paired with a line equal to it under the policy.
\<close>

theorem compare_lines_valid:
  assumes "engine_ok iw_line line_eq engine"
    and "length lines1 < ENGINE_TOKEN_LIMIT" "length lines2 < ENGINE_TOKEN_LIMIT"
  shows "runs (compare_lines engine lines1 lines2 policy)
    (valid_diff (\<lambda>a b. is_equals a b policy) lines1 lines2)"
  using runs_compare_lines [OF assms] by (rule runs_mono) simp

theorem compare_lines_valid_witness:
  "runs (compare_lines (prefix_engine line_eq) [[97], [98, 32], [99]] [[97], [98], [100]] TrimWhitespaces)
     (valid_diff (\<lambda>a b. is_equals a b TrimWhitespaces) [[97], [98, 32], [99]] [[97], [98], [100]]) \<and>
   compare_lines (prefix_engine line_eq) [[97], [98, 32], [99]] [[97], [98], [100]] TrimWhitespaces =
     Some [mk_range 2 3 2 3]"
proof
  show "runs (compare_lines (prefix_engine line_eq) [[97], [98, 32], [99]] [[97], [98], [100]] TrimWhitespaces)
     (valid_diff (\<lambda>a b. is_equals a b TrimWhitespaces) [[97], [98, 32], [99]] [[97], [98], [100]])"
    by (rule compare_lines_valid) (simp_all add: engine_ok_prefix_engine ENGINE_TOKEN_LIMIT_def)
  show "compare_lines (prefix_engine line_eq) [[97], [98, 32], [99]] [[97], [98], [100]] TrimWhitespaces =
     Some [mk_range 2 3 2 3]"
    by code_simp
qed

text \<open>
  C2. Under the default policy the returned ranges reconstruct the second text: replacing each of them in
  the first text by its other side gives exactly the second.
\<close>

theorem compare_lines_patch:
  assumes "engine_ok iw_line line_eq engine"
    and "length lines1 < ENGINE_TOKEN_LIMIT" "length lines2 < ENGINE_TOKEN_LIMIT"
  shows "runs (compare_lines engine lines1 lines2 Default) (\<lambda>cs. patch lines1 lines2 0 cs = lines2)"
  using runs_compare_lines [OF assms, of Default] by (rule runs_mono) (simp add: patch_valid_diff)

theorem compare_lines_patch_witness:
  "runs (compare_lines (prefix_engine line_eq) [[97], [98]] [[97], [99], [98]] Default)
     (\<lambda>cs. patch [[97::nat], [98]] [[97], [99], [98]] 0 cs = [[97], [99], [98]])"
  by (rule compare_lines_patch) (simp_all add: engine_ok_prefix_engine ENGINE_TOKEN_LIMIT_def)

text \<open>
  On lines without a line break no returned range is larger than it has to be: neither its first nor
  its last pair of lines is equal under the policy.
\<close>

theorem compare_lines_tight:
  assumes "engine_ok iw_line line_eq engine"
    and "length lines1 < ENGINE_TOKEN_LIMIT" "length lines2 < ENGINE_TOKEN_LIMIT"
    and "\<forall>l\<in>set lines1 \<union> set lines2. 10 \<notin> set l"
  shows "runs (compare_lines engine lines1 lines2 policy)
    (\<lambda>cs. \<forall>c\<in>set cs. tight (\<lambda>a b. is_equals a b policy) lines1 lines2 c)"
proof (rule runs_mono [OF runs_compare_lines [OF assms(1-3)]], intro ballI)
  fix cs c
  assume *: "valid_diff (\<lambda>a b. is_equals a b policy) lines1 lines2 cs \<and>
    (\<forall>c\<in>set cs. tight (\<lambda>a b. line_eq (line_new a policy) (line_new b policy)) lines1 lines2 c)"
    and c: "c \<in> set cs"
  have "line_eq (line_new a policy) (line_new b policy)"
    if "is_equals a b policy" "a \<in> set lines1" "b \<in> set lines2" for a b
    using is_equals_imp_text_hash [OF that(1)] that assms(4) by (auto simp: line_eq_def)
  moreover have "r_end1 c \<le> length lines1" "r_end2 c \<le> length lines2"
    using * c by (auto simp: valid_diff_def dest: diff_path_in_bounds)
  ultimately show "tight (\<lambda>a b. is_equals a b policy) lines1 lines2 c"
    using * c by (fastforce simp: tight_def)
qed

theorem compare_lines_tight_witness:
  "runs (compare_lines (prefix_engine line_eq) [[97], [98, 32]] [[97], [98]] IgnoreWhitespaces)
     (\<lambda>cs. \<forall>c\<in>set cs. tight (\<lambda>a b. is_equals a b IgnoreWhitespaces) [[97], [98, 32]] [[97], [98]] c)"
  by (rule compare_lines_tight) (simp_all add: engine_ok_prefix_engine ENGINE_TOKEN_LIMIT_def)

text \<open>
  C17. \<open>best_matching_alignment\<close> places the shorter group of lines into the longer one without reordering
  it, and no other placement pairs more equal lines.
\<close>

theorem best_matching_alignment_optimal:
  assumes "\<forall>i\<in>set sub_lines1. i < length lines1" "\<forall>i\<in>set sub_lines2. i < length lines2"
    and "length sub_lines1 < length sub_lines2"
  shows "runs (best_matching_alignment sub_lines1 sub_lines2 lines1 lines2) (\<lambda>best.
    increasing_upto (length sub_lines1) (length sub_lines2) best \<and>
    (\<forall>c. increasing_upto (length sub_lines1) (length sub_lines2) c \<longrightarrow>
      alignment_weight sub_lines1 sub_lines2 lines1 lines2 c
        \<le> alignment_weight sub_lines1 sub_lines2 lines1 lines2 best))"
  using assms by (rule runs_best_matching_alignment)

theorem best_matching_alignment_optimal_witness:
  "runs (best_matching_alignment [0] [0, 1] [line_new [97] Default] [line_new [97, 32] Default, line_new [97] Default])
     (\<lambda>best. increasing_upto 1 2 best \<and>
       (\<forall>c. increasing_upto 1 2 c \<longrightarrow>
         alignment_weight [0] [0, 1] [line_new [97] Default] [line_new [97, 32] Default, line_new [97] Default] c
          \<le> alignment_weight [0] [0, 1] [line_new [97] Default] [line_new [97, 32] Default, line_new [97] Default] best)) \<and>
   best_matching_alignment [0] [0, 1] [line_new [97] Default] [line_new [97, 32] Default, line_new [97] Default] =
     Some [1]"
proof
  show "best_matching_alignment [0] [0, 1] [line_new [97] Default] [line_new [97, 32] Default, line_new [97] Default] =
     Some [1]"
    by code_simp
qed (use best_matching_alignment_optimal [of "[0]" "[line_new [97] Default]" "[0, 1]"
    "[line_new [97, 32] Default, line_new [97] Default]"] in \<open>simp add: numeral_2_eq_2\<close>)

text \<open>
  Moving and merging block boundaries keeps a diff valid, for every equality that the line equality
  refines: no line is dropped, duplicated or paired with a line it does not equal.
\<close>

theorem optimize_line_chunks_valid:
  assumes "changes_ok eqm lines1 lines2 ch" and "\<forall>a b. line_eq a b \<longrightarrow> eqm a b"
  shows "runs (optimize_line_chunks lines1 lines2 ch) (changes_ok eqm lines1 lines2)"
  unfolding optimize_line_chunks_def using assms by (auto intro: ls.optimize_chunks_ok)

theorem optimize_line_chunks_valid_witness:
  "runs (optimize_line_chunks [line_new [97] Default, line_new [98] Default]
       [line_new [97] Default, line_new [98] Default, line_new [98] Default] (changes_new [mk_range 1 1 1 2] 2 3))
     (changes_ok line_eq [line_new [97] Default, line_new [98] Default]
       [line_new [97] Default, line_new [98] Default, line_new [98] Default]) \<and>
   optimize_line_chunks [line_new [97] Default, line_new [98] Default]
     [line_new [97] Default, line_new [98] Default, line_new [98] Default] (changes_new [mk_range 1 1 1 2] 2 3) =
   Some (changes_new [mk_range 2 2 2 3] 2 3)"
proof
  show "runs (optimize_line_chunks [line_new [97] Default, line_new [98] Default]
       [line_new [97] Default, line_new [98] Default, line_new [98] Default] (changes_new [mk_range 1 1 1 2] 2 3))
     (changes_ok line_eq [line_new [97] Default, line_new [98] Default]
       [line_new [97] Default, line_new [98] Default, line_new [98] Default])"
    by (rule optimize_line_chunks_valid)
      (auto simp: changes_ok_def valid_diff_def same_run_1 line_eq_def)
  show "optimize_line_chunks [line_new [97] Default, line_new [98] Default]
     [line_new [97] Default, line_new [98] Default, line_new [98] Default] (changes_new [mk_range 1 1 1 2] 2 3) =
   Some (changes_new [mk_range 2 2 2 3] 2 3)"
    by code_simp
qed

end
