(* ===== verification/Word_Chunks.thy ===== *)
theory Word_Chunks
  imports Chunk_Optimizer
begin

text \<open>
  The words of a text (\<open>crates/paneflow-textdiff/src/by_word.rs\<close>): \<open>inline_chunks\<close> cuts a text into words and line breaks,
  \<open>diff_chunks\<close> compares two such sequences with the engine and \<open>optimize_word_chunks\<close> moves the boundaries of matched words
  to places separated by whitespace. Offsets are byte offsets, and a slice that does not start and end at characters
  panics.

  The comparison of two views slices their texts: \<open>chunk_view_eq\<close> is false where that would panic, which never
  happens, since the chunks of a text start and end at characters (\<open>runs_inline_chunks\<close>).
\<close>

datatype InlineChunk = Word nat nat | Newline nat

fun chunk_start :: "InlineChunk \<Rightarrow> nat" where
  "chunk_start (Word start end') = start"
| "chunk_start (Newline off) = off"

fun chunk_end :: "InlineChunk \<Rightarrow> nat" where
  "chunk_end (Word start end') = end'"
| "chunk_end (Newline off) = off + 1"

fun is_newline :: "InlineChunk \<Rightarrow> bool" where
  "is_newline (Word start end') \<longleftrightarrow> False"
| "is_newline (Newline off) \<longleftrightarrow> True"

datatype ChunkToken = WordToken ustr | NewlineToken

fun token :: "ustr \<Rightarrow> InlineChunk \<Rightarrow> ChunkToken option" where
  "token text (Word start end') = map_option WordToken (str_slice text start end')"
| "token text (Newline off) = Some NewlineToken"

record chunk_view =
  cv_text :: ustr
  cv_chunk :: InlineChunk

definition chunk_view_eq :: "chunk_view \<Rightarrow> chunk_view \<Rightarrow> bool" where
  "chunk_view_eq v other = (case (token (cv_text v) (cv_chunk v), token (cv_text other) (cv_chunk other)) of
     (Some a, Some b) \<Rightarrow> a = b | _ \<Rightarrow> False)"

definition views :: "ustr \<Rightarrow> InlineChunk list \<Rightarrow> chunk_view list" where
  "views text chunks = map (\<lambda>chunk. \<lparr>cv_text = text, cv_chunk = chunk\<rparr>) chunks"

text \<open>The loop of \<open>inline_chunks\<close> over \<open>char_indices\<close>: at \<open>offset\<close>, in a word since \<open>word_start\<close>.\<close>

fun inline_loop :: "(uchar \<Rightarrow> bool) \<Rightarrow> nat \<Rightarrow> nat option \<Rightarrow> ustr \<Rightarrow> InlineChunk list option" where
  "inline_loop is_alphabetic off word_start [] =
     Some (case word_start of None \<Rightarrow> [] | Some start \<Rightarrow> [Word start off])"
| "inline_loop is_alphabetic off word_start (c # cs) = do {
     let alpha = is_alpha c;
     continuous \<leftarrow> (if alpha then is_continuous_script is_alphabetic c else Some False);
     let next_off = off + length (utf8_encode c);
     if alpha \<and> \<not> continuous
     then inline_loop is_alphabetic next_off (case word_start of None \<Rightarrow> Some off | Some start \<Rightarrow> Some start) cs
     else do {
       rest \<leftarrow> inline_loop is_alphabetic next_off None cs;
       Some ((case word_start of None \<Rightarrow> [] | Some start \<Rightarrow> [Word start off]) @
         (if alpha then [Word off next_off] else if c = 10 then [Newline off] else []) @ rest)
     }
   }"

definition inline_chunks :: "(uchar \<Rightarrow> bool) \<Rightarrow> ustr \<Rightarrow> InlineChunk list option" where
  "inline_chunks is_alphabetic text = inline_loop is_alphabetic 0 None text"

definition diff_chunks :: "ChunkToken diff_engine \<Rightarrow> ustr \<Rightarrow> InlineChunk list \<Rightarrow> ustr \<Rightarrow> InlineChunk list \<Rightarrow>
    (DiffTooBig + changes) option" where
  "diff_chunks engine text1 words1 text2 words2 = do {
     tokens1 \<leftarrow> map_or_panic (token text1) words1;
     tokens2 \<leftarrow> map_or_panic (token text2) words2;
     lcs_bounded engine tokens1 tokens2
   }"

section \<open>Boundary shifts\<close>

definition is_separated_with_whitespace :: "ustr \<Rightarrow> InlineChunk \<Rightarrow> InlineChunk \<Rightarrow> bool option" where
  "is_separated_with_whitespace text word1 word2 =
     (if is_newline word1 \<or> is_newline word2 then Some True
      else do {
        bytes \<leftarrow> slice_or_panic (str_bytes text) (chunk_end word1) (chunk_start word2);
        Some (list_ex is_whitespace_byte bytes)
      })"

definition sequence_edge_shift :: "ustr \<Rightarrow> InlineChunk list \<Rightarrow> nat \<Rightarrow> nat \<Rightarrow> bool \<Rightarrow> nat option option" where
  "sequence_edge_shift text words off count left_to_right = do {
     found \<leftarrow> find_or_panic (\<lambda>i.
       if left_to_right then do {
         word1 \<leftarrow> nth_or_panic words (off + i);
         word2 \<leftarrow> nth_or_panic words (off + i + 1);
         is_separated_with_whitespace text word1 word2
       } else do {
         k \<leftarrow> usub off i;
         j \<leftarrow> usub k 1;
         word1 \<leftarrow> nth_or_panic words j;
         word2 \<leftarrow> nth_or_panic words k;
         is_separated_with_whitespace text word1 word2
       }) [0..<count];
     Some (map_option (\<lambda>i. i + 1) found)
   }"

definition word_shift :: "ustr \<Rightarrow> ustr \<Rightarrow> InlineChunk list \<Rightarrow> InlineChunk list \<Rightarrow> shift_fun" where
  "word_shift text1 text2 words1 words2 touch_left equal_forward equal_backward range1 range2 = do {
     let touch_words = select touch_left words1 words2;
     let touch_text = select touch_left text1 text2;
     let touch_start = select touch_left (r_start1 range2) (r_start2 range2);
     prior \<leftarrow> usub touch_start 1;
     word1 \<leftarrow> nth_or_panic touch_words prior;
     word2 \<leftarrow> nth_or_panic touch_words touch_start;
     separated \<leftarrow> is_separated_with_whitespace touch_text word1 word2;
     if separated then Some 0
     else do {
       left_shift \<leftarrow> sequence_edge_shift touch_text touch_words touch_start equal_forward True;
       case left_shift of Some shift \<Rightarrow> Some (int shift)
       | None \<Rightarrow> do {
           right_shift \<leftarrow> sequence_edge_shift touch_text touch_words prior equal_backward False;
           case right_shift of Some shift \<Rightarrow> Some (- int shift) | None \<Rightarrow> Some 0
         }
     }
   }"

definition optimize_word_chunks :: "ustr \<Rightarrow> ustr \<Rightarrow> InlineChunk list \<Rightarrow> InlineChunk list \<Rightarrow> changes \<Rightarrow> changes option" where
  "optimize_word_chunks text1 text2 words1 words2 ch =
     optimize_chunks chunk_view_eq (views text1 words1) (views text2 words2) ch (word_shift text1 text2 words1 words2)"

section \<open>Words lie in their text\<close>

text \<open>
  \<open>words_from text i ws\<close>: the chunks are in order from offset \<open>i\<close> on, none is empty, they start and end at characters,
  and their line breaks are line breaks of the text.
\<close>

fun words_from :: "ustr \<Rightarrow> nat \<Rightarrow> InlineChunk list \<Rightarrow> bool" where
  "words_from text i [] \<longleftrightarrow> i \<le> str_len text"
| "words_from text i (w # ws) \<longleftrightarrow> i \<le> chunk_start w \<and> chunk_start w < chunk_end w \<and>
     boundary text (chunk_start w) \<and> boundary text (chunk_end w) \<and>
     (is_newline w \<longrightarrow> str_bytes text ! chunk_start w = 10) \<and> words_from text (chunk_end w) ws"

lemma runs_in_ranges: "length starts = length ends \<Longrightarrow> runs (in_ranges c starts ends) (\<lambda>_. True)"
proof -
  assume len: "length starts = length ends"
  let ?i = "length (takeWhile (\<lambda>y. y < c) starts)"
  have "?i \<le> length starts" by (rule length_takeWhile_le)
  with len have "?i - 1 < length ends" if "?i \<noteq> 0" using that by linarith
  then show ?thesis by (simp add: in_ranges_def binary_search_def Let_def wp)
qed

lemma runs_is_continuous_script: "runs (is_continuous_script al c) (\<lambda>_. True)"
proof -
  have ranges: "runs (in_ranges c s e) Q" if "length s = length e" "\<And>b. Q b" for s e Q
    using runs_in_ranges [OF that(1)] that(2) by (rule runs_mono)
  show ?thesis unfolding is_continuous_script_def
    by (auto simp: wp DECIMAL_DIGIT_STARTS_def DECIMAL_DIGIT_ENDS_def IDEOGRAPHIC_STARTS_def IDEOGRAPHIC_ENDS_def
        HIRAGANA_STARTS_def HIRAGANA_ENDS_def KATAKANA_STARTS_def KATAKANA_ENDS_def THAI_STARTS_def THAI_ENDS_def
        JAVANESE_STARTS_def JAVANESE_ENDS_def intro!: ranges)
qed

lemma runs_inline_loop:
  assumes "text = pre @ cs" "off = str_len pre" "i \<le> off" "boundary text i"
    and "\<And>s. word_start = Some s \<Longrightarrow> i \<le> s \<and> s < off \<and> boundary text s"
  shows "runs (inline_loop al off word_start cs) (words_from text i)"
  using assms
proof (induction al off word_start cs arbitrary: pre i rule: inline_loop.induct)
  case (1 al off word_start)
  then show ?case by (auto split: option.splits)
next
  case (2 al off word_start c cs)
  have tx: "text = (pre @ [c]) @ cs" using 2(3) by simp
  let ?nx = "off + length (utf8_encode c)"
  have next_off: "?nx = str_len (pre @ [c])" "off < ?nx" using 2(4) by simp_all
  have bd: "boundary text off" "boundary text ?nx"
    using boundary_append [of pre "c # cs"] boundary_append [of "pre @ [c]" cs] 2(3,4) by simp_all
  obtain b where b: "(if is_alpha c then is_continuous_script al c else Some False) = Some b"
    using runs_returns [OF runs_is_continuous_script [of al c]] by (cases "is_alpha c") auto
  show ?case
  proof (cases "is_alpha c \<and> \<not> b")
    case True
    let ?ws = "case word_start of None \<Rightarrow> Some off | Some start \<Rightarrow> Some start"
    have "runs (inline_loop al ?nx ?ws cs) (words_from text i)"
      by (rule 2(1) [OF refl b refl True tx next_off(1)])
        (use 2(5-7) bd next_off(2) in \<open>force split: option.splits\<close>)+
    with True b show ?thesis by (simp add: Let_def)
  next
    case False
    have rest: "runs (inline_loop al ?nx None cs) (words_from text ?nx)"
      by (rule 2(2) [OF refl b refl False tx next_off(1)]) (use bd in auto)
    have nl: "str_bytes text ! off = 10" if "c = 10"
      using that 2(3,4) by (simp add: nth_append utf8_encode_def)
    have mid: "words_from text j ((if is_alpha c then [Word off ?nx] else if c = 10 then [Newline off] else []) @ rest)"
      if "words_from text ?nx rest" "j \<le> off" for j rest
    proof -
      have "words_from text j rest" if "words_from text ?nx rest"
        using that \<open>j \<le> off\<close> next_off(2) by (cases rest) auto
      moreover have "?nx = Suc off" if "c = 10" using that by (simp add: utf8_encode_def)
      ultimately show ?thesis using that bd next_off(2) nl by auto
    qed
    have "inline_loop al off word_start (c # cs) = do {
       rest \<leftarrow> inline_loop al ?nx None cs;
       Some ((case word_start of None \<Rightarrow> [] | Some start \<Rightarrow> [Word start off]) @
         (if is_alpha c then [Word off ?nx] else if c = 10 then [Newline off] else []) @ rest) }"
      using False b by (cases "is_alpha c") (simp_all add: Let_def)
    also have "runs \<dots> (words_from text i)"
      by (rule runs_bindI [OF rest]) (use mid 2(5-7) bd(1) in \<open>force split: option.splits\<close>)
    finally show ?thesis .
  qed
qed

lemma runs_inline_chunks: "runs (inline_chunks al text) (words_from text 0)"
  unfolding inline_chunks_def by (rule runs_inline_loop [where pre = "[]"]) simp_all

lemma words_nth:
  assumes "words_from text i ws" "k < length ws"
  shows "i \<le> chunk_start (ws ! k)" "chunk_start (ws ! k) < chunk_end (ws ! k)" "chunk_end (ws ! k) \<le> str_len text"
    "boundary text (chunk_start (ws ! k))" "boundary text (chunk_end (ws ! k))"
    "is_newline (ws ! k) \<Longrightarrow> str_bytes text ! chunk_start (ws ! k) = 10"
proof -
  have "i \<le> chunk_start (ws ! k) \<and> chunk_start (ws ! k) < chunk_end (ws ! k) \<and> boundary text (chunk_start (ws ! k)) \<and>
    boundary text (chunk_end (ws ! k)) \<and> (is_newline (ws ! k) \<longrightarrow> str_bytes text ! chunk_start (ws ! k) = 10)"
    using assms
  proof (induction ws arbitrary: i k)
    case (Cons w ws)
    then show ?case using Cons.IH [of "chunk_end w" "k - 1"] by (cases k) force+
  qed simp
  then show "i \<le> chunk_start (ws ! k)" "chunk_start (ws ! k) < chunk_end (ws ! k)" "chunk_end (ws ! k) \<le> str_len text"
    "boundary text (chunk_start (ws ! k))" "boundary text (chunk_end (ws ! k))"
    "is_newline (ws ! k) \<Longrightarrow> str_bytes text ! chunk_start (ws ! k) = 10"
    by (auto dest: boundary_le)
qed

lemma words_order:
  assumes "words_from text i ws" "k < l" "l < length ws"
  shows "chunk_end (ws ! k) \<le> chunk_start (ws ! l)"
  using assms
proof (induction ws arbitrary: i k l)
  case (Cons w ws)
  then obtain l' where l': "l = Suc l'" "l' < length ws" by (cases l) auto
  then show ?case using Cons words_nth(1) [of "text" "chunk_end w" ws l'] by (cases k) auto
qed simp

section \<open>Line breaks\<close>

text \<open>The line breaks among the chunks are the line breaks of the text.\<close>

definition nl_offsets :: "nat \<Rightarrow> u8 list \<Rightarrow> nat list" where
  "nl_offsets off bs = map fst (filter (\<lambda>(k, b). b = 10) (enumerate off bs))"

lemma nl_offsets_append: "nl_offsets off (xs @ ys) = nl_offsets off xs @ nl_offsets (off + length xs) ys"
  by (simp add: nl_offsets_def enumerate_append_eq)

lemma nl_offsets_char: "scalar c \<Longrightarrow> nl_offsets off (utf8_encode c) = (if c = 10 then [off] else [])"
proof -
  assume c: "scalar c"
  have "10 \<notin> set (utf8_encode c)" if "c \<noteq> 10"
  proof
    assume ten: "10 \<in> set (utf8_encode c)"
    with utf8_encode_ascii [OF c ten] have "c < 128" by simp
    with ten have "(10 :: u8) = of_nat c" by (simp add: utf8_encode_def)
    then have "unat (10 :: u8) = unat (of_nat c :: u8)" by simp
    with \<open>c < 128\<close> that show False by (simp add: unat_of_nat)
  qed
  moreover have "nl_offsets off bs = []" if "10 \<notin> set bs" for bs using that by (induction bs arbitrary: off) (auto simp: nl_offsets_def)
  ultimately show ?thesis by (auto simp: nl_offsets_def utf8_encode_def)
qed

lemma inline_loop_newlines:
  "inline_loop al off w cs = Some ws \<Longrightarrow> list_all scalar cs \<Longrightarrow> map chunk_start (filter is_newline ws) = nl_offsets off (str_bytes cs)"
proof (induction al off w cs arbitrary: ws rule: inline_loop.induct)
  case (1 al off w)
  then show ?case by (auto simp: nl_offsets_def split: option.splits)
next
  case (2 al off w c cs)
  let ?nx = "off + length (utf8_encode c)"
  have c: "scalar c" "list_all scalar cs" using 2(4) by auto
  have bytes: "nl_offsets off (str_bytes (c # cs)) = (if c = 10 then [off] else []) @ nl_offsets ?nx (str_bytes cs)"
    using nl_offsets_char [OF c(1), of off] by (simp add: nl_offsets_append)
  obtain b where b: "(if is_alpha c then is_continuous_script al c else Some False) = Some b"
    using runs_returns [OF runs_is_continuous_script [of al c]] by (cases "is_alpha c") auto
  have alpha: "c \<noteq> 10" if "is_alpha c" using that by (auto simp: is_alpha_def is_whitespace_def)
  show ?case
  proof (cases "is_alpha c \<and> \<not> b")
    case True
    with 2(3) b have "inline_loop al ?nx (case w of None \<Rightarrow> Some off | Some start \<Rightarrow> Some start) cs = Some ws" by (simp add: Let_def)
    from 2(1) [OF refl b refl True this c(2)] alpha True show ?thesis unfolding bytes by simp
  next
    case False
    with 2(3) b obtain rest where rest: "inline_loop al ?nx None cs = Some rest"
      "ws = (case w of None \<Rightarrow> [] | Some start \<Rightarrow> [Word start off]) @
         (if is_alpha c then [Word off ?nx] else if c = 10 then [Newline off] else []) @ rest"
      by (cases "is_alpha c") (auto simp: Let_def bind_eq_Some_conv)
    from 2(2) [OF refl b refl False rest(1) c(2)] rest(2) alpha show ?thesis unfolding bytes by (auto split: option.splits)
  qed
qed

lemma inline_chunks_newlines:
  "inline_chunks al text = Some ws \<Longrightarrow> list_all scalar text \<Longrightarrow> map chunk_start (filter is_newline ws) = nl_offsets 0 (str_bytes text)"
  unfolding inline_chunks_def by (rule inline_loop_newlines)

lemma nl_offsets_count: "length (nl_offsets off bs) = count_list bs 10"
  by (induction bs arbitrary: off) (simp_all add: nl_offsets_def)

section \<open>Shifts stay within bounds\<close>

lemma runs_is_separated:
  assumes "words_from text i ws" "k < l" "l < length ws"
  shows "runs (is_separated_with_whitespace text (ws ! k) (ws ! l)) (\<lambda>_. True)"
  using words_order [OF assms] words_nth(2,3) [OF assms(1,3)] by (auto simp: is_separated_with_whitespace_def wp)

lemma runs_sequence_edge_shift:
  assumes ws: "words_from text i ws"
    and "if left_to_right then off + count < length ws else count \<le> off \<and> off < length ws"
  shows "runs (sequence_edge_shift text ws off count left_to_right) (\<lambda>r. \<forall>s. r = Some s \<longrightarrow> s \<le> count)"
proof -
  have "runs (find_or_panic (\<lambda>i.
       if left_to_right then do {
         word1 \<leftarrow> nth_or_panic ws (off + i);
         word2 \<leftarrow> nth_or_panic ws (off + i + 1);
         is_separated_with_whitespace text word1 word2
       } else do {
         k \<leftarrow> usub off i;
         j \<leftarrow> usub k 1;
         word1 \<leftarrow> nth_or_panic ws j;
         word2 \<leftarrow> nth_or_panic ws k;
         is_separated_with_whitespace text word1 word2
       }) [0..<count]) (\<lambda>r. \<forall>x. r = Some x \<longrightarrow> x \<in> set [0..<count])"
    by (rule runs_find_or_panic) (use assms(2) in \<open>auto simp: wp intro!: runs_is_separated [OF ws]\<close>)
  then show ?thesis unfolding sequence_edge_shift_def by (rule runs_bindI) auto
qed

lemma word_shift_contract:
  assumes ws: "words_from text1 i words1" "words_from text2 j words2"
  shows "boundary_shift (views text1 words1) (views text2 words2) (word_shift text1 text2 words1 words2)"
proof
  fix touch_left f b range1 range2
  assume pre: "shift_pre (views text1 words1) (views text2 words2) touch_left f b range1 range2"
  let ?ws = "select touch_left words1 words2" and ?text = "select touch_left text1 text2"
  let ?s = "select touch_left (r_start1 range2) (r_start2 range2)"
  obtain k where k: "words_from ?text k ?ws" using ws by (cases touch_left) (auto simp: select_def)
  have s: "b + 1 \<le> ?s" "?s + f < length ?ws"
    using pre by (auto simp: shift_pre_def views_def select_def range_before_def split: if_splits)
  have edges: "runs (sequence_edge_shift ?text ?ws ?s f True) (\<lambda>r. \<forall>x. r = Some x \<longrightarrow> x \<le> f)"
    "runs (sequence_edge_shift ?text ?ws (?s - 1) b False) (\<lambda>r. \<forall>x. r = Some x \<longrightarrow> x \<le> b)"
    by (rule runs_sequence_edge_shift [OF k]; use s in \<open>simp; linarith\<close>)+
  have sep: "runs (is_separated_with_whitespace ?text (?ws ! (?s - 1)) (?ws ! ?s)) (\<lambda>_. True)"
    by (rule runs_is_separated [OF k]) (use s in auto)
  obtain sp l r where steps: "is_separated_with_whitespace ?text (?ws ! (?s - 1)) (?ws ! ?s) = Some sp"
    "sequence_edge_shift ?text ?ws ?s f True = Some l" "\<forall>x. l = Some x \<longrightarrow> x \<le> f"
    "sequence_edge_shift ?text ?ws (?s - 1) b False = Some r" "\<forall>x. r = Some x \<longrightarrow> x \<le> b"
    using sep edges unfolding runs_iff by blast
  have "usub ?s 1 = Some (?s - 1)" "nth_or_panic ?ws (?s - 1) = Some (?ws ! (?s - 1))" "nth_or_panic ?ws ?s = Some (?ws ! ?s)"
    using s by (auto simp: usub_def nth_or_panic_def)
  then have "word_shift text1 text2 words1 words2 touch_left f b range1 range2 =
      Some (if sp then 0 else case l of Some x \<Rightarrow> int x | None \<Rightarrow> (case r of Some x \<Rightarrow> - int x | None \<Rightarrow> 0))"
    unfolding word_shift_def Let_def using steps(1,2,4) by (simp only: bind.simps) (cases l; cases r; simp)
  with steps(3,5) show "runs (word_shift text1 text2 words1 words2 touch_left f b range1 range2)
      (\<lambda>delta. - int b \<le> delta \<and> delta \<le> int f)"
    by (auto split: option.split)
qed

section \<open>Comparing words\<close>

definition word_eq :: "ustr \<Rightarrow> ustr \<Rightarrow> InlineChunk \<Rightarrow> InlineChunk \<Rightarrow> bool" where
  "word_eq text1 text2 w1 w2 \<longleftrightarrow> (\<exists>t. token text1 w1 = Some t \<and> token text2 w2 = Some t)"

lemma word_eq_view: "chunk_view_eq \<lparr>cv_text = text1, cv_chunk = a\<rparr> \<lparr>cv_text = text2, cv_chunk = b\<rparr> \<longleftrightarrow> word_eq text1 text2 a b"
  by (auto simp: chunk_view_eq_def word_eq_def split: option.splits)

lemma token_word:
  assumes "words_from text i ws" "w \<in> set ws"
  shows "\<exists>t. token text w = Some t"
proof (cases w)
  case (Word s e)
  obtain k where "k < length ws" "ws ! k = w" using assms(2) by (auto simp: in_set_conv_nth)
  with Word words_nth [OF assms(1), of k] obtain p v q where "str_slice text s e = Some v"
    using str_slice_boundary [of "text" s e] by auto
  with Word show ?thesis by simp
qed simp

lemma map_or_panic_total:
  "(\<And>x. x \<in> set xs \<Longrightarrow> \<exists>y. f x = Some y) \<Longrightarrow> map_or_panic f xs = Some (map (the \<circ> f) xs)"
  by (rule map_or_panic_Some) force

text \<open>The comparison of the words of two texts never panics; it fails only when a text has too many words.\<close>

lemma runs_diff_chunks:
  assumes engine: "engine_ok (\<lambda>_. True) (=) engine"
    and ws: "words_from text1 i words1" "words_from text2 j words2"
  shows "runs (diff_chunks engine text1 words1 text2 words2) (\<lambda>r. case r of
      Inl _ \<Rightarrow> DELTA_THRESHOLD_SIZE < length words1 \<or> DELTA_THRESHOLD_SIZE < length words2
    | Inr ch \<Rightarrow> changes_ok (word_eq text1 text2) words1 words2 ch)"
proof -
  let ?t1 = "map (the \<circ> token text1) words1" and ?t2 = "map (the \<circ> token text2) words2"
  have tokens: "map_or_panic (token text1) words1 = Some ?t1" "map_or_panic (token text2) words2 = Some ?t2"
    by (intro map_or_panic_total token_word [OF ws(1)] token_word [OF ws(2)]; assumption)+
  have "runs (lcs engine ?t1 ?t2) (changes_ok (word_eq text1 text2) words1 words2)"
    if "length words1 \<le> DELTA_THRESHOLD_SIZE" "length words2 \<le> DELTA_THRESHOLD_SIZE"
  proof (rule runs_mono [OF runs_lcs [OF engine]])
    fix ch
    assume "changes_ok (=) ?t1 ?t2 ch"
    then have "valid_diff (\<lambda>a b. (the \<circ> token text1) a = (the \<circ> token text2) b) words1 words2 (ch_changed ch)"
      and len: "ch_len1 ch = length words1" "ch_len2 ch = length words2"
      unfolding changes_ok_def valid_diff_map by auto
    then have "valid_diff (\<lambda>a b. the (token text1 a) = the (token text2 b) \<and> a \<in> set words1 \<and> b \<in> set words2) words1 words2 (ch_changed ch)"
      using valid_diff_members by fastforce
    then have "valid_diff (word_eq text1 text2) words1 words2 (ch_changed ch)"
      using token_word [OF ws(1)] token_word [OF ws(2)] by (elim valid_diff_mono) (force simp: word_eq_def)
    with len show "changes_ok (word_eq text1 text2) words1 words2 ch" by (simp add: changes_ok_def)
  qed (use that in \<open>auto simp: DELTA_THRESHOLD_SIZE_def ENGINE_TOKEN_LIMIT_def list_all_iff\<close>)
  then show ?thesis unfolding diff_chunks_def tokens lcs_bounded_def by (auto simp: wp)
qed

lemma runs_optimize_word_chunks:
  assumes ws: "words_from text1 i words1" "words_from text2 j words2"
    and ch: "changes_ok (word_eq text1 text2) words1 words2 ch"
  shows "runs (optimize_word_chunks text1 text2 words1 words2 ch) (changes_ok (word_eq text1 text2) words1 words2)"
proof -
  have views: "changes_ok chunk_view_eq (views text1 words1) (views text2 words2) = changes_ok (word_eq text1 text2) words1 words2"
    by (intro ext) (simp add: views_def changes_ok_map word_eq_view)
  show ?thesis unfolding optimize_word_chunks_def
    using boundary_shift.optimize_chunks_ok [OF word_shift_contract [OF ws], of chunk_view_eq chunk_view_eq ch] ch
    by (simp add: views)
qed

end
