(* ===== verification/Word_Delimiters.thy ===== *)
theory Word_Delimiters
  imports Word_Chunks
begin

text \<open>
  Between the words: \<open>compare_punctuation\<close> (\<open>crates/paneflow-textdiff/src/by_char.rs\<close>) matches the punctuation of two pieces of
  text, and the \<open>PunctuationMatcher\<close> of \<open>by_word.rs\<close> applies it to the gaps around the matched words, so that a comparison
  of words becomes one of the bytes of the two texts.

  A gap that has words on one side only is compared with the two gaps around these words at once
  (\<open>match_complex_range\<close>).
\<close>

section \<open>Punctuation\<close>

record code_points_offsets =
  cp_code_points :: "uchar list"
  cp_offsets :: "nat list"

definition punctuation_chars :: "ustr \<Rightarrow> code_points_offsets" where
  "punctuation_chars text =
     (let found = filter (\<lambda>(off, byte). is_punctuation_byte byte) (enumerate 0 (str_bytes text))
      in \<lparr>cp_code_points = map (\<lambda>(off, byte). unat byte) found, cp_offsets = map fst found\<rparr>)"

definition compare_punctuation :: "uchar diff_engine \<Rightarrow> ustr \<Rightarrow> ustr \<Rightarrow> changes option" where
  "compare_punctuation engine text1 text2 = do {
     let chars1 = punctuation_chars text1;
     let chars2 = punctuation_chars text2;
     ch \<leftarrow> lcs engine (cp_code_points chars1) (cp_code_points chars2);
     us \<leftarrow> unchanged ch;
     builder \<leftarrow> for_each_pair (\<lambda>builder i j. do {
         offset1 \<leftarrow> nth_or_panic (cp_offsets chars1) i;
         offset2 \<leftarrow> nth_or_panic (cp_offsets chars2) j;
         cb_mark_equal_one builder offset1 offset2
       }) (cb_new (str_len text1) (str_len text2)) us;
     cb_finish builder
   }"

definition split_ranges :: "nat \<Rightarrow> range list \<times> range list \<Rightarrow> range \<Rightarrow> (range list \<times> range list) option" where
  "split_ranges off acc ch = (case acc of (ranges1, ranges2) \<Rightarrow>
     if r_end2 ch \<le> off then Some (ranges1 @ [ch], ranges2)
     else if r_start2 ch \<ge> off then do {
       r \<leftarrow> range_new (r_start1 ch) (r_end1 ch) (r_start2 ch - off) (r_end2 ch - off);
       Some (ranges1, ranges2 @ [r])
     } else do {
       let len2 = off - r_start2 ch;
       a \<leftarrow> range_new (r_start1 ch) (r_start1 ch + len2) (r_start2 ch) off;
       b \<leftarrow> range_new (r_start1 ch + len2) (r_end1 ch) 0 (r_end2 ch - off);
       Some (ranges1 @ [a], ranges2 @ [b])
     })"

definition compare_punctuation_two_side :: "uchar diff_engine \<Rightarrow> ustr \<Rightarrow> ustr \<Rightarrow> ustr \<Rightarrow> (range list \<times> range list) option" where
  "compare_punctuation_two_side engine text1 text21 text22 = do {
     ch \<leftarrow> compare_punctuation engine text1 (text21 @ text22);
     us \<leftarrow> unchanged ch;
     for_each (split_ranges (str_len text21)) ([], []) us
   }"

section \<open>The matcher\<close>

record punctuation_matcher =
  pm_text1 :: ustr
  pm_text2 :: ustr
  pm_words1 :: "InlineChunk list"
  pm_words2 :: "InlineChunk list"
  pm_start_shift1 :: nat
  pm_start_shift2 :: nat
  pm_builder :: change_builder
  pm_last :: "range option"

definition start_offset1 :: "punctuation_matcher \<Rightarrow> nat \<Rightarrow> nat option" where
  "start_offset1 m index = do { w \<leftarrow> nth_or_panic (pm_words1 m) index; usub (chunk_start w) (pm_start_shift1 m) }"

definition start_offset2 :: "punctuation_matcher \<Rightarrow> nat \<Rightarrow> nat option" where
  "start_offset2 m index = do { w \<leftarrow> nth_or_panic (pm_words2 m) index; usub (chunk_start w) (pm_start_shift2 m) }"

definition end_offset1 :: "punctuation_matcher \<Rightarrow> nat \<Rightarrow> nat option" where
  "end_offset1 m index = do { w \<leftarrow> nth_or_panic (pm_words1 m) index; usub (chunk_end w) (pm_start_shift1 m) }"

definition end_offset2 :: "punctuation_matcher \<Rightarrow> nat \<Rightarrow> nat option" where
  "end_offset2 m index = do { w \<leftarrow> nth_or_panic (pm_words2 m) index; usub (chunk_end w) (pm_start_shift2 m) }"

text \<open>The loops \<open>for ch in ..\<close> that mark a range moved by a base on each side, the second one with the sides exchanged.\<close>

definition mark_moved :: "nat \<Rightarrow> nat \<Rightarrow> change_builder \<Rightarrow> range list \<Rightarrow> change_builder option" where
  "mark_moved base1 base2 = for_each (\<lambda>builder ch.
     cb_mark_equal builder (base1 + r_start1 ch) (base2 + r_start2 ch) (base1 + r_end1 ch) (base2 + r_end2 ch))"

definition mark_moved_swapped :: "nat \<Rightarrow> nat \<Rightarrow> change_builder \<Rightarrow> range list \<Rightarrow> change_builder option" where
  "mark_moved_swapped base1 base2 = for_each (\<lambda>builder ch.
     cb_mark_equal builder (base1 + r_start2 ch) (base2 + r_start1 ch) (base1 + r_end2 ch) (base2 + r_end1 ch))"

definition match_range :: "uchar diff_engine \<Rightarrow> punctuation_matcher \<Rightarrow> range \<Rightarrow> punctuation_matcher option" where
  "match_range engine m r =
     (if range_is_empty r then Some m
      else do {
        sequence1 \<leftarrow> str_slice (pm_text1 m) (r_start1 r) (r_end1 r);
        sequence2 \<leftarrow> str_slice (pm_text2 m) (r_start2 r) (r_end2 r);
        ch \<leftarrow> compare_punctuation engine sequence1 sequence2;
        us \<leftarrow> unchanged ch;
        builder \<leftarrow> mark_moved (r_start1 r) (r_start2 r) (pm_builder m) us;
        Some (m\<lparr>pm_builder := builder\<rparr>)
      })"

definition match_complex_range_left :: "uchar diff_engine \<Rightarrow> punctuation_matcher \<Rightarrow> nat \<Rightarrow> nat \<Rightarrow> nat \<Rightarrow> nat \<Rightarrow> nat \<Rightarrow> nat \<Rightarrow>
    punctuation_matcher option" where
  "match_complex_range_left engine m start1 end1 start12 end12 start22 end22 = do {
     sequence1 \<leftarrow> str_slice (pm_text1 m) start1 end1;
     sequence21 \<leftarrow> str_slice (pm_text2 m) start12 end12;
     sequence22 \<leftarrow> str_slice (pm_text2 m) start22 end22;
     (first, second) \<leftarrow> compare_punctuation_two_side engine sequence1 sequence21 sequence22;
     builder \<leftarrow> mark_moved start1 start12 (pm_builder m) first;
     builder \<leftarrow> mark_moved start1 start22 builder second;
     Some (m\<lparr>pm_builder := builder\<rparr>)
   }"

definition match_complex_range_right :: "uchar diff_engine \<Rightarrow> punctuation_matcher \<Rightarrow> nat \<Rightarrow> nat \<Rightarrow> nat \<Rightarrow> nat \<Rightarrow> nat \<Rightarrow> nat \<Rightarrow>
    punctuation_matcher option" where
  "match_complex_range_right engine m start2 end2 start11 end11 start21 end21 = do {
     sequence11 \<leftarrow> str_slice (pm_text1 m) start11 end11;
     sequence12 \<leftarrow> str_slice (pm_text1 m) start21 end21;
     sequence2 \<leftarrow> str_slice (pm_text2 m) start2 end2;
     (first, second) \<leftarrow> compare_punctuation_two_side engine sequence2 sequence11 sequence12;
     builder \<leftarrow> mark_moved_swapped start11 start2 (pm_builder m) first;
     builder \<leftarrow> mark_moved_swapped start21 start2 builder second;
     Some (m\<lparr>pm_builder := builder\<rparr>)
   }"

definition match_complex_range :: "uchar diff_engine \<Rightarrow> punctuation_matcher \<Rightarrow> range \<Rightarrow> range \<Rightarrow> punctuation_matcher option" where
  "match_complex_range engine m first second =
     (if r_start1 first = r_start1 second \<and> r_end1 first = r_end1 second
      then match_complex_range_left engine m (r_start1 first) (r_end1 first) (r_start2 first) (r_end2 first)
        (r_start2 second) (r_end2 second)
      else if r_start2 first = r_start2 second \<and> r_end2 first = r_end2 second
      then match_complex_range_right engine m (r_start2 first) (r_end2 first) (r_start1 first) (r_end1 first)
        (r_start1 second) (r_end1 second)
      else do { dassert False; Some m })"

definition match_backward :: "uchar diff_engine \<Rightarrow> punctuation_matcher \<Rightarrow> range \<Rightarrow> punctuation_matcher option" where
  "match_backward engine m r = (case pm_last m of
     None \<Rightarrow> do { dassert False; Some m }
   | Some latest \<Rightarrow>
       if r_start1 latest = r_start1 r \<and> r_start2 latest = r_start2 r then match_range engine m r
       else if r_start1 latest < r_start1 r \<and> r_start2 latest < r_start2 r then do {
         m \<leftarrow> match_range engine m latest;
         match_range engine m r
       }
       else match_complex_range engine m latest r)"

definition match_backward_at :: "uchar diff_engine \<Rightarrow> punctuation_matcher \<Rightarrow> nat \<Rightarrow> nat \<Rightarrow> punctuation_matcher option" where
  "match_backward_at engine m index1 index2 = do {
     start1 \<leftarrow> (if index1 = 0 then Some 0 else end_offset1 m (index1 - 1));
     start2 \<leftarrow> (if index2 = 0 then Some 0 else end_offset2 m (index2 - 1));
     end1 \<leftarrow> (if index1 = length (pm_words1 m) then Some (str_len (pm_text1 m)) else start_offset1 m index1);
     end2 \<leftarrow> (if index2 = length (pm_words2 m) then Some (str_len (pm_text2 m)) else start_offset2 m index2);
     r \<leftarrow> range_new start1 end1 start2 end2;
     m \<leftarrow> match_backward engine m r;
     Some (m\<lparr>pm_last := None\<rparr>)
   }"

definition match_forward_at :: "punctuation_matcher \<Rightarrow> nat option \<Rightarrow> nat option \<Rightarrow> punctuation_matcher option" where
  "match_forward_at m index1 index2 = do {
     start1 \<leftarrow> (case index1 of None \<Rightarrow> Some 0 | Some index \<Rightarrow> end_offset1 m index);
     start2 \<leftarrow> (case index2 of None \<Rightarrow> Some 0 | Some index \<Rightarrow> end_offset2 m index);
     let next1 = (case index1 of None \<Rightarrow> 0 | Some index \<Rightarrow> index + 1);
     let next2 = (case index2 of None \<Rightarrow> 0 | Some index \<Rightarrow> index + 1);
     end1 \<leftarrow> (if next1 = length (pm_words1 m) then Some (str_len (pm_text1 m)) else start_offset1 m next1);
     end2 \<leftarrow> (if next2 = length (pm_words2 m) then Some (str_len (pm_text2 m)) else start_offset2 m next2);
     dassert (pm_last m = None);
     r \<leftarrow> range_new start1 end1 start2 end2;
     Some (m\<lparr>pm_last := Some r\<rparr>)
   }"

definition match_pair :: "uchar diff_engine \<Rightarrow> punctuation_matcher \<Rightarrow> nat \<Rightarrow> nat \<Rightarrow> punctuation_matcher option" where
  "match_pair engine m index1 index2 = do {
     start1 \<leftarrow> start_offset1 m index1;
     start2 \<leftarrow> start_offset2 m index2;
     end1 \<leftarrow> end_offset1 m index1;
     end2 \<leftarrow> end_offset2 m index2;
     m \<leftarrow> match_backward_at engine m index1 index2;
     builder \<leftarrow> cb_mark_equal (pm_builder m) start1 start2 end1 end2;
     match_forward_at (m\<lparr>pm_builder := builder\<rparr>) (Some index1) (Some index2)
   }"

definition matcher_build :: "uchar diff_engine \<Rightarrow> punctuation_matcher \<Rightarrow> changes \<Rightarrow> changes option" where
  "matcher_build engine m ch = do {
     m \<leftarrow> match_forward_at m None None;
     us \<leftarrow> unchanged ch;
     m \<leftarrow> for_each_pair (match_pair engine) m us;
     m \<leftarrow> match_backward_at engine m (length (pm_words1 m)) (length (pm_words2 m));
     cb_finish (pm_builder m)
   }"

definition match_adjustment_delimiters :: "uchar diff_engine \<Rightarrow> ustr \<Rightarrow> ustr \<Rightarrow> InlineChunk list \<Rightarrow> InlineChunk list \<Rightarrow> changes \<Rightarrow>
    nat \<Rightarrow> nat \<Rightarrow> changes option" where
  "match_adjustment_delimiters engine text1 text2 words1 words2 ch start_shift1 start_shift2 =
     matcher_build engine \<lparr>pm_text1 = text1, pm_text2 = text2, pm_words1 = words1, pm_words2 = words2,
       pm_start_shift1 = start_shift1, pm_start_shift2 = start_shift2,
       pm_builder = cb_new (str_len text1) (str_len text2), pm_last = None\<rparr> ch"

section \<open>Matched punctuation\<close>

definition punct_eq :: "u8 \<Rightarrow> u8 \<Rightarrow> bool" where
  "punct_eq a b \<longleftrightarrow> a = b \<and> is_punctuation_byte a"

lemma punctuation_chars_facts:
  fixes t :: ustr
  defines "offs \<equiv> cp_offsets (punctuation_chars t)" and "cps \<equiv> cp_code_points (punctuation_chars t)"
  shows "length cps = length offs" "sorted_wrt (<) offs" "length offs \<le> str_len t"
    "k < length offs \<Longrightarrow> offs ! k < str_len t \<and> is_punctuation_byte (str_bytes t ! (offs ! k)) \<and> cps ! k = unat (str_bytes t ! (offs ! k))"
proof -
  let ?found = "filter (\<lambda>(off, byte). is_punctuation_byte byte) (enumerate 0 (str_bytes t))"
  have eqs: "offs = map fst ?found" "cps = map (\<lambda>(off, byte). unat byte) ?found"
    by (simp_all add: offs_def cps_def punctuation_chars_def Let_def)
  show "length cps = length offs" unfolding eqs by simp
  show "length offs \<le> str_len t" using length_filter_le [of "\<lambda>(off, byte). is_punctuation_byte byte" "enumerate 0 (str_bytes t)"]
    unfolding eqs by simp
  have "sorted_wrt (<) (map fst (enumerate 0 (str_bytes t)))" by simp
  then show "sorted_wrt (<) offs" unfolding eqs sorted_wrt_map by (rule sorted_wrt_filter)
  assume "k < length offs"
  then have k: "k < length ?found" unfolding eqs by simp
  then have "?found ! k \<in> set ?found" by (rule nth_mem)
  then obtain j where "?found ! k = (j, str_bytes t ! j)" "j < str_len t" "is_punctuation_byte (str_bytes t ! j)"
    by (auto simp: in_set_enumerate_eq)
  with k show "offs ! k < str_len t \<and> is_punctuation_byte (str_bytes t ! (offs ! k)) \<and> cps ! k = unat (str_bytes t ! (offs ! k))"
    unfolding eqs by simp
qed

lemma runs_compare_punctuation:
  assumes engine: "engine_ok (\<lambda>_. True) (=) engine"
    and size: "str_len text1 < ENGINE_TOKEN_LIMIT" "str_len text2 < ENGINE_TOKEN_LIMIT"
  shows "runs (compare_punctuation engine text1 text2) (changes_ok punct_eq (str_bytes text1) (str_bytes text2))"
proof -
  define o1 o2 c1 c2 where "o1 = cp_offsets (punctuation_chars text1)" and "o2 = cp_offsets (punctuation_chars text2)"
    and "c1 = cp_code_points (punctuation_chars text1)" and "c2 = cp_code_points (punctuation_chars text2)"
  note f1 = punctuation_chars_facts [where t = text1, folded o1_def c1_def]
    and f2 = punctuation_chars_facts [where t = text2, folded o2_def c2_def]
  let ?inv = "cb_inv punct_eq (str_bytes text1) (str_bytes text2)"
  let ?mark = "\<lambda>builder i j. do {
         offset1 \<leftarrow> nth_or_panic o1 i;
         offset2 \<leftarrow> nth_or_panic o2 j;
         cb_mark_equal_one builder offset1 offset2 }"
  let ?I = "\<lambda>b ps. ?inv b \<and> sorted_wrt pair_less ps \<and> (\<forall>p\<in>set ps. fst p < length c1 \<and> snd p < length c2 \<and>
    c1 ! fst p = c2 ! snd p \<and> cb_index1 b \<le> o1 ! fst p \<and> cb_index2 b \<le> o2 ! snd p)"
  have mark: "runs (?mark b (fst p) (snd p)) (\<lambda>b'. ?I b' ps)" if I: "?I b (p # ps)" for b p ps
  proof -
    have p: "fst p < length o1" "snd p < length o2" "str_bytes text1 ! (o1 ! fst p) = str_bytes text2 ! (o2 ! snd p)"
      using I f1(1,4) f2(1,4) by (auto simp flip: word_unat_eq_iff)
    have less: "o1 ! fst p < o1 ! fst q" "o2 ! snd p < o2 ! snd q" if "q \<in> set ps" for q
      using I that f1(1) f2(1) sorted_wrt_nth_less [OF f1(2)] sorted_wrt_nth_less [OF f2(2)] by (auto simp: pair_less_def)
    have "runs (cb_mark_equal_one b (o1 ! fst p) (o2 ! snd p))
        (\<lambda>b'. ?inv b' \<and> cb_index1 b' = o1 ! fst p + 1 \<and> cb_index2 b' = o2 ! snd p + 1)"
      by (rule cb.mark_one) (use I p f1(4) f2(4) in \<open>auto simp: punct_eq_def\<close>)
    then show ?thesis using p less I by (auto simp: wp Suc_le_eq elim!: runs_mono)
  qed
  have loop: "runs (for_each_pair ?mark (cb_new (str_len text1) (str_len text2)) us \<bind> cb_finish)
      (changes_ok punct_eq (str_bytes text1) (str_bytes text2))" if us: "valid_matching (=) c1 c2 us" for us
  proof (rule runs_bindI)
    show "runs (for_each_pair ?mark (cb_new (str_len text1) (str_len text2)) us) (\<lambda>b. ?I b [])"
    proof (rule runs_for_each_pair [OF us])
      show "?I (cb_new (str_len text1) (str_len text2)) (match_pairs us)"
        using match_pairs_valid [OF us] match_pairs_sorted [OF us] cb_inv_new [of punct_eq "str_bytes text1" "str_bytes text2"]
        by (auto simp: cb_new_def)
    qed (rule mark)
  qed (use runs_cb_finish in auto)
  have words: "runs (lcs engine c1 c2) (changes_ok (=) c1 c2)"
    by (rule runs_lcs [OF engine]) (use size f1(1,3) f2(1,3) in \<open>auto simp: list_all_iff\<close>)
  show ?thesis unfolding compare_punctuation_def Let_def o1_def [symmetric] o2_def [symmetric] c1_def [symmetric] c2_def [symmetric]
    by (rule runs_bindI [OF words], rule runs_bindI [OF runs_unchanged_ok]) (assumption, rule loop)
qed

section \<open>Marking matched punctuation\<close>

text \<open>\<open>range_bounds\<close>: a range starts and ends at characters on both sides. \<open>cb_text\<close> is the builder for two texts.\<close>

definition range_bounds :: "ustr \<Rightarrow> ustr \<Rightarrow> range \<Rightarrow> bool" where
  "range_bounds text1 text2 r \<longleftrightarrow> boundary text1 (r_start1 r) \<and> boundary text1 (r_end1 r) \<and>
     boundary text2 (r_start2 r) \<and> boundary text2 (r_end2 r)"

definition cb_text :: "ustr \<Rightarrow> ustr \<Rightarrow> change_builder \<Rightarrow> bool" where
  "cb_text text1 text2 b \<longleftrightarrow> cb_inv (=) (str_bytes text1) (str_bytes text2) b \<and>
     boundary text1 (cb_index1 b) \<and> boundary text2 (cb_index2 b) \<and> list_all (range_bounds text1 text2) (cb_changes b)"

definition changes_text :: "ustr \<Rightarrow> ustr \<Rightarrow> changes \<Rightarrow> bool" where
  "changes_text text1 text2 ch \<longleftrightarrow> changes_ok (=) (str_bytes text1) (str_bytes text2) ch \<and>
     list_all (range_bounds text1 text2) (ch_changed ch)"

lemma range_bounds_mk [simp]:
  "range_bounds text1 text2 (mk_range a b c d) \<longleftrightarrow> boundary text1 a \<and> boundary text1 b \<and> boundary text2 c \<and> boundary text2 d"
  by (simp add: range_bounds_def)

lemma cb_text_new: "cb_text text1 text2 (cb_new (str_len text1) (str_len text2))"
  using cb_inv_new [of "(=)" "str_bytes text1" "str_bytes text2"] by (simp add: cb_text_def cb_new_def)

lemma cb_mark_equal_bounds:
  assumes "cb_mark_equal b i j m n = Some b'" "list_all (range_bounds text1 text2) (cb_changes b)"
    and "boundary text1 (cb_index1 b)" "boundary text2 (cb_index2 b)" "boundary text1 i" "boundary text2 j"
  shows "list_all (range_bounds text1 text2) (cb_changes b')"
  using assms by (auto simp: cb_mark_equal_def range_new_def dassert_def Let_def bind_eq_Some_conv split: if_splits)

lemma runs_cb_mark_text:
  assumes "cb_text text1 text2 b" "cb_index1 b \<le> i" "cb_index2 b \<le> j"
    and "same_run (=) (str_bytes text1) (str_bytes text2) i j k"
    and "boundary text1 i" "boundary text2 j" "boundary text1 (i + k)" "boundary text2 (j + k)"
  shows "runs (cb_mark_equal b i j (i + k) (j + k)) (\<lambda>b'. cb_text text1 text2 b' \<and>
    (if k = 0 then b' = b else cb_index1 b' = i + k \<and> cb_index2 b' = j + k))"
proof -
  have "cb_inv (=) (str_bytes text1) (str_bytes text2) b" using assms(1) by (simp add: cb_text_def)
  from runs_cb_mark_equal [OF this assms(2-4)] obtain b' where b': "cb_mark_equal b i j (i + k) (j + k) = Some b'"
    "cb_inv (=) (str_bytes text1) (str_bytes text2) b'" "if k = 0 then b' = b else cb_index1 b' = i + k \<and> cb_index2 b' = j + k"
    by (auto simp: runs_iff)
  with assms cb_mark_equal_bounds [OF b'(1), of text1 text2] show ?thesis by (auto simp: cb_text_def split: if_splits)
qed

lemma runs_cb_finish_text:
  assumes "cb_text text1 text2 b"
  shows "runs (cb_finish b) (changes_text text1 text2)"
proof -
  from runs_cb_finish [of "(=)" "str_bytes text1" "str_bytes text2" b] assms obtain ch where
    ch: "cb_finish b = Some ch" "changes_ok (=) (str_bytes text1) (str_bytes text2) ch" by (auto simp: cb_text_def runs_iff)
  moreover have "list_all (range_bounds text1 text2) (ch_changed ch)"
    using ch(1) assms
    by (auto simp: cb_finish_def cb_text_def cb_inv_def range_new_def dassert_def bind_eq_Some_conv split: if_splits)
  ultimately show ?thesis by (simp add: changes_text_def)
qed

text \<open>The blocks to be marked, in order, after the builder's position and within a limit.\<close>

definition markable :: "ustr \<Rightarrow> ustr \<Rightarrow> nat \<Rightarrow> nat \<Rightarrow> nat \<Rightarrow> nat \<Rightarrow> range list \<Rightarrow> bool" where
  "markable text1 text2 i j m n us \<longleftrightarrow> valid_matching (=) (str_bytes text1) (str_bytes text2) us \<and>
     list_all (range_bounds text1 text2) us \<and>
     (\<forall>u\<in>set us. i \<le> r_start1 u \<and> j \<le> r_start2 u \<and> r_end1 u \<le> m \<and> r_end2 u \<le> n) \<and> i \<le> m \<and> j \<le> n"

abbreviation mark_ranges :: "change_builder \<Rightarrow> range list \<Rightarrow> change_builder option" where
  "mark_ranges \<equiv> for_each (\<lambda>b u. cb_mark_equal b (r_start1 u) (r_start2 u) (r_end1 u) (r_end2 u))"

lemma runs_mark_ranges:
  assumes "cb_text text1 text2 b" "markable text1 text2 (cb_index1 b) (cb_index2 b) m n us"
  shows "runs (mark_ranges b us) (\<lambda>b'. cb_text text1 text2 b' \<and> cb_index1 b' \<le> m \<and> cb_index2 b' \<le> n)"
proof -
  let ?I = "\<lambda>b us. cb_text text1 text2 b \<and> markable text1 text2 (cb_index1 b) (cb_index2 b) m n us"
  have "runs (mark_ranges b us) (\<lambda>b'. ?I b' [])"
  proof (rule runs_for_each)
    show "?I b us" using assms by simp
  next
    fix b u us
    assume I: "?I b (u # us)"
    then obtain k where k: "0 < k" "r_end1 u = r_start1 u + k" "r_end2 u = r_start2 u + k"
        "same_run (=) (str_bytes text1) (str_bytes text2) (r_start1 u) (r_start2 u) k"
      by (auto simp: markable_def valid_matching_Cons elim: match_blockE)
    have "runs (cb_mark_equal b (r_start1 u) (r_start2 u) (r_start1 u + k) (r_start2 u + k)) (\<lambda>b'. cb_text text1 text2 b' \<and>
        (if k = 0 then b' = b else cb_index1 b' = r_start1 u + k \<and> cb_index2 b' = r_start2 u + k))"
      by (rule runs_cb_mark_text) (use I k in \<open>auto simp: markable_def range_bounds_def\<close>)
    then show "runs (cb_mark_equal b (r_start1 u) (r_start2 u) (r_end1 u) (r_end2 u)) (\<lambda>b'. ?I b' us)"
      using I k by (auto simp: markable_def valid_matching_Cons range_before_def elim!: runs_mono)
  qed
  then show ?thesis by (rule runs_mono) (simp add: markable_def)
qed

section \<open>Matched punctuation in a slice\<close>

lemma punctuation_ascii: "is_punctuation_byte b \<Longrightarrow> b < 0x80"
  by (auto simp: is_punctuation_byte_def intro: le_less_trans)

lemma punct_run_boundary:
  assumes "list_all scalar text1" "list_all scalar text2" "same_run punct_eq (str_bytes text1) (str_bytes text2) i j k" "0 < k" "l \<le> k"
  shows "boundary text1 (i + l) \<and> boundary text2 (j + l)"
proof -
  have "boundary text1 (i + x) \<and> boundary text1 (Suc (i + x)) \<and> boundary text2 (j + x) \<and> boundary text2 (Suc (j + x))" if "x < k" for x
    using assms(3) that boundary_ascii [OF assms(1), of "i + x"] boundary_ascii [OF assms(2), of "j + x"] punctuation_ascii
    by (auto simp: same_run_def punct_eq_def)
  from this [of l] this [of "k - 1"] assms(4,5) show ?thesis by (cases "l = k") auto
qed

lemma punct_block_bounds:
  assumes "list_all scalar text1" "list_all scalar text2" "match_block punct_eq (str_bytes text1) (str_bytes text2) u"
  shows "range_bounds text1 text2 u"
  using assms(3)
proof (rule match_blockE)
  fix k
  assume k: "0 < k" "r_end1 u = r_start1 u + k" "r_end2 u = r_start2 u + k"
    "same_run punct_eq (str_bytes text1) (str_bytes text2) (r_start1 u) (r_start2 u) k"
  from punct_run_boundary [OF assms(1,2) k(4,1), of 0] punct_run_boundary [OF assms(1,2) k(4,1), of k] k(2,3)
  show ?thesis by (simp add: range_bounds_def)
qed

lemma punct_markable:
  assumes "list_all scalar text1" "list_all scalar text2" "valid_matching punct_eq (str_bytes text1) (str_bytes text2) us"
    and "\<forall>u\<in>set us. i \<le> r_start1 u \<and> j \<le> r_start2 u \<and> r_end1 u \<le> m \<and> r_end2 u \<le> n" "i \<le> m" "j \<le> n"
  shows "markable text1 text2 i j m n us"
proof -
  have "valid_matching (=) (str_bytes text1) (str_bytes text2) us"
    using assms(3) by (auto simp: valid_matching_def match_block_def punct_eq_def same_run_def)
  moreover have "list_all (range_bounds text1 text2) us"
    using assms(1-3) punct_block_bounds by (auto simp: list_all_iff valid_matching_def)
  ultimately show ?thesis using assms(4-6) by (simp add: markable_def)
qed

lemma move_matching:
  assumes "str_slice text1 a b = Some s1" "str_slice text2 c d = Some s2"
    and "valid_matching eq (str_bytes s1) (str_bytes s2) us"
  shows "valid_matching eq (str_bytes text1) (str_bytes text2) (map (move_range a c) us)"
    "u \<in> set us \<Longrightarrow> a + r_end1 u \<le> b \<and> c + r_end2 u \<le> d"
proof -
  have le: "a \<le> str_len text1" "c \<le> str_len text2" "a + str_len s1 = b" "c + str_len s2 = d"
    using assms(1,2) by (auto elim!: str_slice_Some)
  have "match_block eq (str_bytes text1) (str_bytes text2) (move_range a c u)" if "match_block eq (str_bytes s1) (str_bytes s2) u" for u
    using that le same_run_slice [of eq "b - a" a "str_bytes text1" "d - c" c "str_bytes text2" "r_start1 u" "r_start2 u"]
    unfolding str_slice_bytes [OF assms(1)] str_slice_bytes [OF assms(2)] by (auto simp: match_block_def)
  then show "valid_matching eq (str_bytes text1) (str_bytes text2) (map (move_range a c) us)"
    using assms(3) by (auto simp: valid_matching_def range_before_def intro!: sorted_range_before_map)
  assume "u \<in> set us"
  then have "match_block eq (str_bytes s1) (str_bytes s2) u" using assms(3) by (simp add: valid_matching_def)
  then show "a + r_end1 u \<le> b \<and> c + r_end2 u \<le> d" using le by (auto elim!: match_blockE simp: same_run_def)
qed

lemma mark_moved_eq: "mark_moved a c b us = mark_ranges b (map (move_range a c) us)"
  by (simp add: mark_moved_def for_each_map)

definition swap_range :: "range \<Rightarrow> range" where
  "swap_range r = mk_range (r_start2 r) (r_end2 r) (r_start1 r) (r_end1 r)"

lemma mark_moved_swapped_eq: "mark_moved_swapped a c b us = mark_ranges b (map (move_range a c \<circ> swap_range) us)"
  by (simp add: mark_moved_swapped_def for_each_map swap_range_def)

lemma valid_matching_swap:
  assumes "valid_matching punct_eq xs ys us"
  shows "valid_matching punct_eq ys xs (map swap_range us)"
proof -
  have "match_block punct_eq ys xs (swap_range u)" if "match_block punct_eq xs ys u" for u
    using that by (auto simp: match_block_def swap_range_def same_run_def punct_eq_def)
  with assms show ?thesis by (auto simp: valid_matching_def swap_range_def range_before_def intro!: sorted_range_before_map)
qed

section \<open>Two gaps against one\<close>

lemma valid_matching_snoc:
  "valid_matching eq xs ys (us @ [u]) \<longleftrightarrow> valid_matching eq xs ys us \<and> match_block eq xs ys u \<and> (\<forall>v\<in>set us. range_before v u)"
  by (auto simp: valid_matching_def sorted_wrt_append)

lemma runs_two_side:
  assumes engine: "engine_ok (\<lambda>_. True) (=) engine"
    and size: "str_len text1 < ENGINE_TOKEN_LIMIT" "str_len text21 + str_len text22 < ENGINE_TOKEN_LIMIT"
  shows "runs (compare_punctuation_two_side engine text1 text21 text22) (\<lambda>(us, vs).
    valid_matching punct_eq (str_bytes text1) (str_bytes text21) us \<and> valid_matching punct_eq (str_bytes text1) (str_bytes text22) vs \<and>
    (\<forall>u\<in>set us. \<forall>v\<in>set vs. r_end1 u \<le> r_start1 v))"
proof -
  let ?b1 = "str_bytes text1" and ?b21 = "str_bytes text21" and ?b22 = "str_bytes text22" and ?n = "str_len text21"
  let ?P = "\<lambda>us vs. valid_matching punct_eq ?b1 ?b21 us \<and> valid_matching punct_eq ?b1 ?b22 vs \<and> (\<forall>u\<in>set us. \<forall>v\<in>set vs. r_end1 u \<le> r_start1 v)"
  let ?I = "\<lambda>(us, vs) ws. ?P us vs \<and> valid_matching punct_eq ?b1 (?b21 @ ?b22) ws \<and>
    (\<forall>w\<in>set ws. (\<forall>u\<in>set us. range_before u w) \<and>
      (\<forall>v\<in>set vs. r_end1 v \<le> r_start1 w \<and> ?n + r_end2 v \<le> r_start2 w))"
  have step: "runs (split_ranges ?n acc w) (\<lambda>acc'. ?I acc' ws)" if I: "?I acc (w # ws)" for acc w ws
  proof -
    obtain us vs where acc: "acc = (us, vs)" by (cases acc)
    have w: "match_block punct_eq ?b1 (?b21 @ ?b22) w" "valid_matching punct_eq ?b1 (?b21 @ ?b22) ws" "\<forall>x\<in>set ws. range_before w x"
      using I by (auto simp: acc valid_matching_Cons)
    from w(1) obtain k where k: "0 < k" "r_end1 w = r_start1 w + k" "r_end2 w = r_start2 w + k"
      "same_run punct_eq ?b1 (?b21 @ ?b22) (r_start1 w) (r_start2 w) k" by (rule match_blockE)
    consider (left) "r_end2 w \<le> ?n" | (right) "\<not> r_end2 w \<le> ?n" "?n \<le> r_start2 w" | (split) "\<not> r_end2 w \<le> ?n" "\<not> ?n \<le> r_start2 w"
      by linarith
    then show ?thesis
    proof cases
      case left
      then have "vs = []" using I k(1,3) by (cases vs) (auto simp: acc)
      moreover have "match_block punct_eq ?b1 ?b21 w" using left k same_run_append(1) [OF k(4)] by (simp add: match_block_def)
      ultimately show ?thesis using left I w by (auto simp: split_ranges_def acc valid_matching_snoc)
    next
      case right
      let ?v = "mk_range (r_start1 w) (r_end1 w) (r_start2 w - ?n) (r_end2 w - ?n)"
      have "match_block punct_eq ?b1 ?b22 ?v" using right k same_run_append(2) [OF k(4)] by (simp add: match_block_def)
      then show ?thesis using right k I w by (force simp: split_ranges_def acc wp valid_matching_snoc range_before_def)
    next
      case split
      let ?l = "?n - r_start2 w"
      let ?u = "mk_range (r_start1 w) (r_start1 w + ?l) (r_start2 w) ?n" and ?v = "mk_range (r_start1 w + ?l) (r_end1 w) 0 (r_end2 w - ?n)"
      have "vs = []" using I split by (cases vs) (auto simp: acc)
      moreover have l: "?l < k" "0 < ?l" "r_start2 w + ?l = ?n" using split k by auto
      then have "same_run punct_eq ?b1 (?b21 @ ?b22) (r_start1 w) (r_start2 w) ?l"
        "same_run punct_eq ?b1 (?b21 @ ?b22) (r_start1 w + ?l) (r_start2 w + ?l) (k - ?l)"
        using same_run_sub [OF k(4), of 0 ?l] same_run_sub [OF k(4), of ?l "k - ?l"] by simp_all
      then have "match_block punct_eq ?b1 ?b21 ?u" "match_block punct_eq ?b1 ?b22 ?v"
        using l k same_run_append(1) [of punct_eq ?b1 ?b21 ?b22 "r_start1 w" "r_start2 w" ?l]
          same_run_append(2) [of punct_eq ?b1 ?b21 ?b22 "r_start1 w + ?l" "r_start2 w + ?l" "k - ?l"]
        by (auto simp: match_block_def)
      ultimately show ?thesis using split k l I w
        by (force simp: split_ranges_def acc wp Let_def valid_matching_snoc valid_matching_Cons range_before_def)
    qed
  qed
  have "runs (for_each (split_ranges ?n) ([], []) ws) (\<lambda>(us, vs). ?P us vs)" if "valid_matching punct_eq ?b1 (?b21 @ ?b22) ws" for ws
    by (rule runs_mono [OF runs_for_each [where I = ?I, OF _ step]]) (use that in \<open>auto simp: valid_matching_def\<close>)
  moreover have "runs (compare_punctuation engine text1 (text21 @ text22)) (changes_ok punct_eq ?b1 (?b21 @ ?b22))"
    using runs_compare_punctuation [OF engine, of text1 "text21 @ text22"] size by simp
  ultimately show ?thesis unfolding compare_punctuation_two_side_def
    by (intro runs_bindI [of "compare_punctuation engine text1 (text21 @ text22)"] runs_bindI [OF runs_unchanged_ok])
qed

section \<open>The matcher keeps its builder valid\<close>

text \<open>What the steps of the matcher rely on and keep: \<open>marked\<close> names the outcome of a step that moves the builder up to a position.\<close>

definition pm_texts :: "punctuation_matcher \<Rightarrow> bool" where
  "pm_texts m \<longleftrightarrow> list_all scalar (pm_text1 m) \<and> list_all scalar (pm_text2 m) \<and>
     str_len (pm_text1 m) < ENGINE_TOKEN_LIMIT \<and> str_len (pm_text2 m) < ENGINE_TOKEN_LIMIT \<and>
     cb_text (pm_text1 m) (pm_text2 m) (pm_builder m)"

definition marked :: "punctuation_matcher \<Rightarrow> nat \<Rightarrow> nat \<Rightarrow> punctuation_matcher \<Rightarrow> bool" where
  "marked m i j m' \<longleftrightarrow> (\<exists>b. m' = m\<lparr>pm_builder := b\<rparr> \<and> cb_text (pm_text1 m) (pm_text2 m) b \<and> cb_index1 b \<le> i \<and> cb_index2 b \<le> j)"

lemma slice_size: "str_slice s a b = Some v \<Longrightarrow> str_len v \<le> str_len s"
  by (auto elim!: str_slice_Some)

lemma runs_match_range:
  assumes engine: "engine_ok (\<lambda>_. True) (=) engine" and m: "pm_texts m"
    and r: "range_bounds (pm_text1 m) (pm_text2 m) r" "r_start1 r \<le> r_end1 r" "r_start2 r \<le> r_end2 r"
    and idx: "cb_index1 (pm_builder m) \<le> r_start1 r" "cb_index2 (pm_builder m) \<le> r_start2 r"
  shows "runs (match_range engine m r) (marked m (r_end1 r) (r_end2 r))"
proof (cases "range_is_empty r")
  case True
  have "marked m (r_end1 r) (r_end2 r) m" unfolding marked_def
    by (rule exI [of _ "pm_builder m"]) (use m idx True in \<open>simp add: pm_texts_def range_is_empty_def\<close>)
  with True show ?thesis by (simp add: match_range_def)
next
  case False
  obtain s1 s2 where s: "str_slice (pm_text1 m) (r_start1 r) (r_end1 r) = Some s1" "str_slice (pm_text2 m) (r_start2 r) (r_end2 r) = Some s2"
    using str_slice_boundary [of "pm_text1 m" "r_start1 r" "r_end1 r"] str_slice_boundary [of "pm_text2 m" "r_start2 r" "r_end2 r"] r
    by (metis range_bounds_def)
  have compare: "runs (compare_punctuation engine s1 s2) (changes_ok punct_eq (str_bytes s1) (str_bytes s2))"
    using slice_size [OF s(1)] slice_size [OF s(2)] m by (intro runs_compare_punctuation [OF engine]) (auto simp: pm_texts_def)
  have mark: "runs (mark_moved (r_start1 r) (r_start2 r) (pm_builder m) us)
      (\<lambda>b. cb_text (pm_text1 m) (pm_text2 m) b \<and> cb_index1 b \<le> r_end1 r \<and> cb_index2 b \<le> r_end2 r)"
    if us: "valid_matching punct_eq (str_bytes s1) (str_bytes s2) us" for us
    unfolding mark_moved_eq
  proof (rule runs_mark_ranges)
    show "markable (pm_text1 m) (pm_text2 m) (cb_index1 (pm_builder m)) (cb_index2 (pm_builder m)) (r_end1 r) (r_end2 r)
        (map (move_range (r_start1 r) (r_start2 r)) us)"
      by (rule punct_markable [OF _ _ move_matching(1) [OF s us]])
        (use m idx r(2,3) move_matching(2) [OF s us] in \<open>auto simp: pm_texts_def intro: le_trans\<close>)
  qed (use m in \<open>simp add: pm_texts_def\<close>)
  show ?thesis unfolding match_range_def if_not_P [OF False] s bind.simps
    by (rule runs_bindI [OF compare], rule runs_bindI [OF runs_unchanged_ok], assumption, rule runs_bindI [OF mark])
      (auto simp: marked_def)
qed

lemma runs_mark_two:
  assumes m: "pm_texts m"
    and us: "str_slice (pm_text1 m) a b = Some s1" "str_slice (pm_text2 m) c d = Some s2" "valid_matching punct_eq (str_bytes s1) (str_bytes s2) us"
    and vs: "str_slice (pm_text1 m) a' b' = Some t1" "str_slice (pm_text2 m) c' d' = Some t2" "valid_matching punct_eq (str_bytes t1) (str_bytes t2) vs"
    and uv: "\<And>u v. u \<in> set us \<Longrightarrow> v \<in> set vs \<Longrightarrow> a + r_end1 u \<le> a' + r_start1 v \<and> c + r_end2 u \<le> c' + r_start2 v"
    and idx: "cb_index1 (pm_builder m) \<le> a" "cb_index2 (pm_builder m) \<le> c"
    and le: "a \<le> a'" "c \<le> c'" "b \<le> b'" "d \<le> d'"
  shows "runs (mark_ranges (pm_builder m) (map (move_range a c) us) \<bind> (\<lambda>b. mark_ranges b (map (move_range a' c') vs) \<bind>
    (\<lambda>builder. Some (m\<lparr>pm_builder := builder\<rparr>)))) (marked m b' d')"
proof -
  note mu = move_matching [OF us] and mv = move_matching [OF vs]
  have ab: "a \<le> b'" "c \<le> d'" using us(1,2) le by (auto elim!: str_slice_Some)
  have "valid_matching punct_eq (str_bytes (pm_text1 m)) (str_bytes (pm_text2 m)) (map (move_range a c) us @ map (move_range a' c') vs)"
    using mu(1) mv(1) uv by (auto simp: valid_matching_def sorted_wrt_append range_before_def)
  moreover have "a + r_end1 u \<le> b' \<and> c + r_end2 u \<le> d'" if "u \<in> set us" for u
    using mu(2) [OF that] le(3,4) by linarith
  ultimately have "markable (pm_text1 m) (pm_text2 m) (cb_index1 (pm_builder m)) (cb_index2 (pm_builder m)) b' d'
      (map (move_range a c) us @ map (move_range a' c') vs)"
    by (intro punct_markable) (use m idx le ab mv(2) in \<open>auto simp: pm_texts_def intro: le_trans\<close>)
  from runs_mark_ranges [OF _ this] m show ?thesis
    unfolding for_each_append by (auto simp: pm_texts_def runs_bind marked_def elim!: runs_mono)
qed

lemma runs_match_complex_left:
  assumes engine: "engine_ok (\<lambda>_. True) (=) engine" and m: "pm_texts m"
    and bd: "boundary (pm_text1 m) a" "boundary (pm_text1 m) b" "boundary (pm_text2 m) c" "boundary (pm_text2 m) d"
      "boundary (pm_text2 m) e" "boundary (pm_text2 m) f"
    and le: "a \<le> b" "c \<le> d" "d \<le> e" "e \<le> f"
    and idx: "cb_index1 (pm_builder m) \<le> a" "cb_index2 (pm_builder m) \<le> c"
  shows "runs (match_complex_range_left engine m a b c d e f) (marked m b f)"
proof -
  obtain s1 where s1: "str_slice (pm_text1 m) a b = Some s1" using str_slice_boundary [OF bd(1,2) le(1)] by blast
  obtain s2 where s2: "str_slice (pm_text2 m) c d = Some s2" using str_slice_boundary [OF bd(3,4) le(2)] by blast
  obtain s3 where s3: "str_slice (pm_text2 m) e f = Some s3" using str_slice_boundary [OF bd(5,6) le(4)] by blast
  have "str_len s2 + str_len s3 \<le> str_len (pm_text2 m)"
    using s2 s3 le(3) boundary_le [OF bd(6)] by (auto elim!: str_slice_Some)
  then have two: "runs (compare_punctuation_two_side engine s1 s2 s3) (\<lambda>(us, vs).
      valid_matching punct_eq (str_bytes s1) (str_bytes s2) us \<and> valid_matching punct_eq (str_bytes s1) (str_bytes s3) vs \<and>
      (\<forall>u\<in>set us. \<forall>v\<in>set vs. r_end1 u \<le> r_start1 v))"
    using slice_size [OF s1] m by (intro runs_two_side [OF engine]) (auto simp: pm_texts_def)
  show ?thesis unfolding match_complex_range_left_def s1 s2 s3 bind.simps mark_moved_eq
  proof (rule runs_bindI [OF two], clarify)
    fix us vs
    assume us: "valid_matching punct_eq (str_bytes s1) (str_bytes s2) us" and vs: "valid_matching punct_eq (str_bytes s1) (str_bytes s3) vs"
      and uv: "\<forall>u\<in>set us. \<forall>v\<in>set vs. r_end1 u \<le> r_start1 v"
    show "runs (mark_ranges (pm_builder m) (map (move_range a c) us) \<bind> (\<lambda>builder. mark_ranges builder (map (move_range a e) vs) \<bind>
        (\<lambda>builder. Some (m\<lparr>pm_builder := builder\<rparr>)))) (marked m b f)"
      by (rule runs_mark_two [OF m s1 s2 us s1 s3 vs]) (use uv idx le move_matching(2) [OF s1 s2 us] in force)+
  qed
qed

lemma runs_match_complex_right:
  assumes engine: "engine_ok (\<lambda>_. True) (=) engine" and m: "pm_texts m"
    and bd: "boundary (pm_text2 m) a" "boundary (pm_text2 m) b" "boundary (pm_text1 m) c" "boundary (pm_text1 m) d"
      "boundary (pm_text1 m) e" "boundary (pm_text1 m) f"
    and le: "a \<le> b" "c \<le> d" "d \<le> e" "e \<le> f"
    and idx: "cb_index1 (pm_builder m) \<le> c" "cb_index2 (pm_builder m) \<le> a"
  shows "runs (match_complex_range_right engine m a b c d e f) (marked m f b)"
proof -
  obtain s1 where s1: "str_slice (pm_text2 m) a b = Some s1" using str_slice_boundary [OF bd(1,2) le(1)] by blast
  obtain s2 where s2: "str_slice (pm_text1 m) c d = Some s2" using str_slice_boundary [OF bd(3,4) le(2)] by blast
  obtain s3 where s3: "str_slice (pm_text1 m) e f = Some s3" using str_slice_boundary [OF bd(5,6) le(4)] by blast
  have "str_len s2 + str_len s3 \<le> str_len (pm_text1 m)"
    using s2 s3 le(3) boundary_le [OF bd(6)] by (auto elim!: str_slice_Some)
  then have two: "runs (compare_punctuation_two_side engine s1 s2 s3) (\<lambda>(us, vs).
      valid_matching punct_eq (str_bytes s1) (str_bytes s2) us \<and> valid_matching punct_eq (str_bytes s1) (str_bytes s3) vs \<and>
      (\<forall>u\<in>set us. \<forall>v\<in>set vs. r_end1 u \<le> r_start1 v))"
    using slice_size [OF s1] m by (intro runs_two_side [OF engine]) (auto simp: pm_texts_def)
  show ?thesis unfolding match_complex_range_right_def s1 s2 s3 bind.simps mark_moved_swapped_eq
  proof (rule runs_bindI [OF two], clarify)
    fix us vs
    assume us: "valid_matching punct_eq (str_bytes s1) (str_bytes s2) us" and vs: "valid_matching punct_eq (str_bytes s1) (str_bytes s3) vs"
      and uv: "\<forall>u\<in>set us. \<forall>v\<in>set vs. r_end1 u \<le> r_start1 v"
    have us': "valid_matching punct_eq (str_bytes s2) (str_bytes s1) (map swap_range us)"
      and vs': "valid_matching punct_eq (str_bytes s3) (str_bytes s1) (map swap_range vs)"
      using valid_matching_swap us vs by blast+
    have "runs (mark_ranges (pm_builder m) (map (move_range c a) (map swap_range us)) \<bind>
        (\<lambda>builder. mark_ranges builder (map (move_range e a) (map swap_range vs)) \<bind>
        (\<lambda>builder. Some (m\<lparr>pm_builder := builder\<rparr>)))) (marked m f b)"
      by (rule runs_mark_two [OF m s2 s1 us' s3 s1 vs'])
        (use uv idx le move_matching(2) [OF s2 s1 us'] in \<open>force simp: swap_range_def\<close>)+
    then show "runs (mark_ranges (pm_builder m) (map (move_range c a \<circ> swap_range) us) \<bind>
        (\<lambda>builder. mark_ranges builder (map (move_range e a \<circ> swap_range) vs) \<bind>
        (\<lambda>builder. Some (m\<lparr>pm_builder := builder\<rparr>)))) (marked m f b)" by simp
  qed
qed

section \<open>The gaps between the words\<close>

text \<open>
  \<open>block_words text shift ws\<close>: the chunks lie in \<open>text\<close>, which starts at offset \<open>shift\<close> of the text they were cut from.
  Gap \<open>k\<close> lies before the chunk \<open>k\<close>, and the last one ends the text.
\<close>

definition block_words :: "ustr \<Rightarrow> nat \<Rightarrow> InlineChunk list \<Rightarrow> bool" where
  "block_words text shift ws \<longleftrightarrow>
     (\<forall>w\<in>set ws. shift \<le> chunk_start w \<and> chunk_start w < chunk_end w \<and>
       boundary text (chunk_start w - shift) \<and> boundary text (chunk_end w - shift)) \<and>
     sorted_wrt (\<lambda>v w. chunk_end v \<le> chunk_start w) ws"

definition gap_start :: "nat \<Rightarrow> InlineChunk list \<Rightarrow> nat \<Rightarrow> nat" where
  "gap_start shift ws k = (if k = 0 then 0 else chunk_end (ws ! (k - 1)) - shift)"

definition gap_end :: "ustr \<Rightarrow> nat \<Rightarrow> InlineChunk list \<Rightarrow> nat \<Rightarrow> nat" where
  "gap_end text shift ws k = (if k = length ws then str_len text else chunk_start (ws ! k) - shift)"

definition gap :: "punctuation_matcher \<Rightarrow> nat \<Rightarrow> nat \<Rightarrow> range" where
  "gap m i j = mk_range (gap_start (pm_start_shift1 m) (pm_words1 m) i) (gap_end (pm_text1 m) (pm_start_shift1 m) (pm_words1 m) i)
     (gap_start (pm_start_shift2 m) (pm_words2 m) j) (gap_end (pm_text2 m) (pm_start_shift2 m) (pm_words2 m) j)"

lemma gap_update [simp]: "gap (m\<lparr>pm_builder := b\<rparr>) i j = gap m i j" "gap (m\<lparr>pm_last := l\<rparr>) i j = gap m i j"
  by (simp_all add: gap_def)

lemma block_words_nth:
  assumes "block_words text shift ws" "k < length ws"
  shows "shift \<le> chunk_start (ws ! k)" "chunk_start (ws ! k) < chunk_end (ws ! k)"
    "boundary text (chunk_start (ws ! k) - shift)" "boundary text (chunk_end (ws ! k) - shift)"
  using assms by (auto simp: block_words_def)

lemma block_words_order: "block_words text shift ws \<Longrightarrow> k < l \<Longrightarrow> l < length ws \<Longrightarrow> chunk_end (ws ! k) \<le> chunk_start (ws ! l)"
  by (auto simp: block_words_def sorted_wrt_iff_nth_less)

lemma gap_boundary:
  assumes "block_words text shift ws" "k \<le> length ws"
  shows "boundary text (gap_start shift ws k)" "boundary text (gap_end text shift ws k)"
  using block_words_nth [OF assms(1), of "k - 1"] block_words_nth [OF assms(1), of k] assms(2)
  by (auto simp: gap_start_def gap_end_def)

lemma gap_step: "block_words text shift ws \<Longrightarrow> k < length ws \<Longrightarrow> gap_end text shift ws k < gap_start shift ws (Suc k)"
  using block_words_nth [of "text" shift ws k] by (auto simp: gap_start_def gap_end_def)

lemma gap_le:
  assumes "block_words text shift ws" "k \<le> length ws"
  shows "gap_start shift ws k \<le> gap_end text shift ws k"
proof (cases "k = length ws")
  case True
  then show ?thesis using boundary_le [OF gap_boundary(1) [OF assms]] by (simp add: gap_end_def)
next
  case False
  with assms block_words_order [of "text" shift ws "k - 1" k] show ?thesis by (auto simp: gap_start_def gap_end_def)
qed

lemma gap_less:
  assumes "block_words text shift ws" "k < l" "l \<le> length ws"
  shows "gap_end text shift ws k < gap_start shift ws l"
  using assms(2,3)
proof (induction l)
  case (Suc l)
  then show ?case
    using gap_step [OF assms(1), of l] gap_le [OF assms(1), of l] by (cases "k = l") force+
qed simp

text \<open>Matched words cover the same bytes of the two blocks.\<close>

definition block_eq :: "ustr \<Rightarrow> nat \<Rightarrow> ustr \<Rightarrow> nat \<Rightarrow> InlineChunk \<Rightarrow> InlineChunk \<Rightarrow> bool" where
  "block_eq text1 shift1 text2 shift2 v w \<longleftrightarrow> chunk_end v - chunk_start v = chunk_end w - chunk_start w \<and>
     same_run (=) (str_bytes text1) (str_bytes text2) (chunk_start v - shift1) (chunk_start w - shift2) (chunk_end v - chunk_start v)"

section \<open>The matcher goes from gap to gap\<close>

definition pm_blocks :: "punctuation_matcher \<Rightarrow> bool" where
  "pm_blocks m \<longleftrightarrow> block_words (pm_text1 m) (pm_start_shift1 m) (pm_words1 m) \<and>
     block_words (pm_text2 m) (pm_start_shift2 m) (pm_words2 m)"

lemma pm_blocks_update [simp]: "pm_blocks (m\<lparr>pm_builder := b\<rparr>) = pm_blocks m" "pm_blocks (m\<lparr>pm_last := l\<rparr>) = pm_blocks m"
  by (simp_all add: pm_blocks_def)

definition pm_at :: "punctuation_matcher \<Rightarrow> nat \<Rightarrow> nat \<Rightarrow> bool" where
  "pm_at m i j \<longleftrightarrow> pm_texts m \<and> pm_blocks m \<and> i \<le> length (pm_words1 m) \<and> j \<le> length (pm_words2 m) \<and>
     pm_last m = Some (gap m i j) \<and> cb_index1 (pm_builder m) \<le> r_start1 (gap m i j) \<and> cb_index2 (pm_builder m) \<le> r_start2 (gap m i j)"

lemma gap_range:
  assumes "pm_blocks m" "i \<le> length (pm_words1 m)" "j \<le> length (pm_words2 m)"
  shows "range_bounds (pm_text1 m) (pm_text2 m) (gap m i j)" "r_start1 (gap m i j) \<le> r_end1 (gap m i j)"
    "r_start2 (gap m i j) \<le> r_end2 (gap m i j)"
  using assms gap_boundary gap_le by (auto simp: pm_blocks_def gap_def)

lemma gap_order:
  assumes "pm_blocks m"
  shows "i < k \<Longrightarrow> k \<le> length (pm_words1 m) \<Longrightarrow> r_end1 (gap m i j) < r_start1 (gap m k l)"
    "j < l \<Longrightarrow> l \<le> length (pm_words2 m) \<Longrightarrow> r_end2 (gap m i j) < r_start2 (gap m k l)"
  using assms gap_less by (auto simp: pm_blocks_def gap_def)

lemma gap_side:
  "r_start1 (gap m i j) = r_start1 (gap m i l)" "r_end1 (gap m i j) = r_end1 (gap m i l)"
  "r_start2 (gap m i j) = r_start2 (gap m k j)" "r_end2 (gap m i j) = r_end2 (gap m k j)"
  by (simp_all add: gap_def)

lemma runs_match_backward:
  assumes engine: "engine_ok (\<lambda>_. True) (=) engine" and at: "pm_at m p q"
    and le: "p \<le> i" "q \<le> j" "i \<le> length (pm_words1 m)" "j \<le> length (pm_words2 m)"
  shows "runs (match_backward engine m (gap m i j)) (marked m (r_end1 (gap m i j)) (r_end2 (gap m i j)))"
proof -
  have blocks: "pm_blocks m" and m: "pm_texts m" and last: "pm_last m = Some (gap m p q)" using at by (simp_all add: pm_at_def)
  have idx: "cb_index1 (pm_builder m) \<le> r_start1 (gap m p q)" "cb_index2 (pm_builder m) \<le> r_start2 (gap m p q)"
    using at by (simp_all add: pm_at_def)
  have pq: "p \<le> length (pm_words1 m)" "q \<le> length (pm_words2 m)" using le by linarith+
  note first = gap_range [OF blocks pq] and second = gap_range [OF blocks le(3,4)]
  note order = gap_order [OF blocks, where i = p and k = i and j = q and l = j] le
  consider (here) "p = i" "q = j" | (both) "p < i" "q < j" | (left) "p = i" "q < j" | (right) "p < i" "q = j"
    using le by linarith
  then show ?thesis
  proof cases
    case here
    then show ?thesis using runs_match_range [OF engine m second] idx by (simp add: match_backward_def last)
  next
    case both
    have one: "runs (match_range engine m (gap m p q)) (marked m (r_end1 (gap m p q)) (r_end2 (gap m p q)))"
      by (rule runs_match_range [OF engine m first idx])
    have two: "runs (match_range engine m' (gap m i j)) (marked m (r_end1 (gap m i j)) (r_end2 (gap m i j)))"
      if m': "marked m (r_end1 (gap m p q)) (r_end2 (gap m p q)) m'" for m'
    proof -
      obtain b where b: "m' = m\<lparr>pm_builder := b\<rparr>" "cb_text (pm_text1 m) (pm_text2 m) b"
        "cb_index1 b \<le> r_end1 (gap m p q)" "cb_index2 b \<le> r_end2 (gap m p q)" using m' by (auto simp: marked_def)
      then have "runs (match_range engine m' (gap m i j)) (marked m' (r_end1 (gap m i j)) (r_end2 (gap m i j)))"
        by (intro runs_match_range [OF engine]) (use m second both order in \<open>auto simp: pm_texts_def\<close>)
      then show ?thesis by (rule runs_mono) (use b in \<open>auto simp: marked_def\<close>)
    qed
    have "match_backward engine m (gap m i j) = match_range engine m (gap m p q) \<bind> (\<lambda>m'. match_range engine m' (gap m i j))"
      using both order first by (auto simp: match_backward_def last)
    also have "runs \<dots> (marked m (r_end1 (gap m i j)) (r_end2 (gap m i j)))"
      by (rule runs_bindI [OF one two])
    finally show ?thesis .
  next
    case left
    have "match_backward engine m (gap m i j) = match_complex_range_left engine m (r_start1 (gap m i j)) (r_end1 (gap m i j))
        (r_start2 (gap m p q)) (r_end2 (gap m p q)) (r_start2 (gap m i j)) (r_end2 (gap m i j))"
      using left order first gap_side(1,2) [where m = m and i = i and j = q and l = j] by (auto simp: match_backward_def match_complex_range_def last)
    also have "runs \<dots> (marked m (r_end1 (gap m i j)) (r_end2 (gap m i j)))"
      by (rule runs_match_complex_left [OF engine m])
        (use first second idx left order gap_side(1,2) [where m = m and i = i and j = q and l = j] in \<open>auto simp: range_bounds_def\<close>)
    finally show ?thesis .
  next
    case right
    have "match_backward engine m (gap m i j) = match_complex_range_right engine m (r_start2 (gap m i j)) (r_end2 (gap m i j))
        (r_start1 (gap m p q)) (r_end1 (gap m p q)) (r_start1 (gap m i j)) (r_end1 (gap m i j))"
      using right order first gap_side(3,4) [where m = m and i = p and j = j and k = i] by (auto simp: match_backward_def match_complex_range_def last)
    also have "runs \<dots> (marked m (r_end1 (gap m i j)) (r_end2 (gap m i j)))"
      by (rule runs_match_complex_right [OF engine m])
        (use first second idx right order gap_side(3,4) [where m = m and i = p and j = j and k = i] in \<open>auto simp: range_bounds_def\<close>)
    finally show ?thesis .
  qed
qed

section \<open>The whole match\<close>

text \<open>The offsets of the words are the ends of the gaps.\<close>

lemma offset_eqs:
  assumes "pm_blocks m"
  shows "i < length (pm_words1 m) \<Longrightarrow> start_offset1 m i = Some (r_end1 (gap m i j))"
    "i < length (pm_words1 m) \<Longrightarrow> end_offset1 m i = Some (r_start1 (gap m (Suc i) j))"
    "j < length (pm_words2 m) \<Longrightarrow> start_offset2 m j = Some (r_end2 (gap m i j))"
    "j < length (pm_words2 m) \<Longrightarrow> end_offset2 m j = Some (r_start2 (gap m i (Suc j)))"
  using assms block_words_nth(1,2) [of "pm_text1 m" "pm_start_shift1 m" "pm_words1 m" i]
    block_words_nth(1,2) [of "pm_text2 m" "pm_start_shift2 m" "pm_words2 m" j]
  by (auto simp: pm_blocks_def gap_def gap_start_def gap_end_def start_offset1_def end_offset1_def start_offset2_def
      end_offset2_def nth_or_panic_def usub_def)

lemma gap_edges:
  assumes "pm_blocks m" "i \<le> length (pm_words1 m)" "j \<le> length (pm_words2 m)"
  shows "(if i = 0 then Some 0 else end_offset1 m (i - 1)) = Some (r_start1 (gap m i j))"
    "(if j = 0 then Some 0 else end_offset2 m (j - 1)) = Some (r_start2 (gap m i j))"
    "(if i = length (pm_words1 m) then Some (str_len (pm_text1 m)) else start_offset1 m i) = Some (r_end1 (gap m i j))"
    "(if j = length (pm_words2 m) then Some (str_len (pm_text2 m)) else start_offset2 m j) = Some (r_end2 (gap m i j))"
proof -
  show "(if i = 0 then Some 0 else end_offset1 m (i - 1)) = Some (r_start1 (gap m i j))"
    using assms offset_eqs(2) [OF assms(1), of "i - 1" j] by (auto simp: gap_def gap_start_def)
  show "(if j = 0 then Some 0 else end_offset2 m (j - 1)) = Some (r_start2 (gap m i j))"
    using assms offset_eqs(4) [OF assms(1), of "j - 1" i] by (auto simp: gap_def gap_start_def)
  show "(if i = length (pm_words1 m) then Some (str_len (pm_text1 m)) else start_offset1 m i) = Some (r_end1 (gap m i j))"
    using assms offset_eqs(1) [OF assms(1), of i j] by (auto simp: gap_def gap_end_def)
  show "(if j = length (pm_words2 m) then Some (str_len (pm_text2 m)) else start_offset2 m j) = Some (r_end2 (gap m i j))"
    using assms offset_eqs(3) [OF assms(1), of j i] by (auto simp: gap_def gap_end_def)
qed

lemma runs_match_backward_at:
  assumes engine: "engine_ok (\<lambda>_. True) (=) engine" and at: "pm_at m p q"
    and le: "p \<le> i" "q \<le> j" "i \<le> length (pm_words1 m)" "j \<le> length (pm_words2 m)"
  shows "runs (match_backward_at engine m i j) (\<lambda>m'. \<exists>b. m' = m\<lparr>pm_builder := b, pm_last := None\<rparr> \<and>
    cb_text (pm_text1 m) (pm_text2 m) b \<and> cb_index1 b \<le> r_end1 (gap m i j) \<and> cb_index2 b \<le> r_end2 (gap m i j))"
proof -
  have blocks: "pm_blocks m" using at by (simp add: pm_at_def)
  note edges = gap_edges [OF blocks le(3,4)] and r = gap_range [OF blocks le(3,4)]
  have "match_backward_at engine m i j = match_backward engine m (gap m i j) \<bind> (\<lambda>m. Some (m\<lparr>pm_last := None\<rparr>))"
    unfolding match_backward_at_def edges bind.simps using r by (simp add: range_new_def dassert_def)
  also have "runs \<dots> (\<lambda>m'. \<exists>b. m' = m\<lparr>pm_builder := b, pm_last := None\<rparr> \<and>
      cb_text (pm_text1 m) (pm_text2 m) b \<and> cb_index1 b \<le> r_end1 (gap m i j) \<and> cb_index2 b \<le> r_end2 (gap m i j))"
    by (rule runs_bindI [OF runs_match_backward [OF engine at le]]) (auto simp: marked_def)
  finally show ?thesis .
qed

lemma match_forward_at_gap:
  assumes "pm_blocks m" "pm_last m = None"
    and "index1 = None \<and> i = 0 \<or> (\<exists>k. index1 = Some k \<and> i = Suc k)" "i \<le> length (pm_words1 m)"
    and "index2 = None \<and> j = 0 \<or> (\<exists>k. index2 = Some k \<and> j = Suc k)" "j \<le> length (pm_words2 m)"
  shows "match_forward_at m index1 index2 = Some (m\<lparr>pm_last := Some (gap m i j)\<rparr>)"
proof -
  note edges = gap_edges [OF assms(1,4,6)] and r = gap_range [OF assms(1,4,6)]
  have nexts: "(case index1 of None \<Rightarrow> 0 | Some index \<Rightarrow> index + 1) = i" "(case index2 of None \<Rightarrow> 0 | Some index \<Rightarrow> index + 1) = j"
    and starts: "(case index1 of None \<Rightarrow> Some 0 | Some index \<Rightarrow> end_offset1 m index) = (if i = 0 then Some 0 else end_offset1 m (i - 1))"
      "(case index2 of None \<Rightarrow> Some 0 | Some index \<Rightarrow> end_offset2 m index) = (if j = 0 then Some 0 else end_offset2 m (j - 1))"
    using assms(3,5) by auto
  show ?thesis unfolding match_forward_at_def Let_def nexts starts edges bind.simps
    using r assms(2) by (simp add: range_new_def dassert_def)
qed

lemma runs_match_pair:
  assumes engine: "engine_ok (\<lambda>_. True) (=) engine" and at: "pm_at m p q"
    and le: "p \<le> i" "q \<le> j" "i < length (pm_words1 m)" "j < length (pm_words2 m)"
    and eq: "block_eq (pm_text1 m) (pm_start_shift1 m) (pm_text2 m) (pm_start_shift2 m) (pm_words1 m ! i) (pm_words2 m ! j)"
  shows "runs (match_pair engine m i j) (\<lambda>m'. \<exists>b l. m' = m\<lparr>pm_builder := b, pm_last := l\<rparr> \<and> pm_at m' (Suc i) (Suc j))"
proof -
  let ?w = "pm_words1 m ! i" and ?g = "gap m i j" and ?h = "gap m (Suc i) (Suc j)"
  have blocks: "pm_blocks m" and m: "pm_texts m" using at by (simp_all add: pm_at_def)
  note offsets = offset_eqs(1) [OF blocks le(3), of j] offset_eqs(2) [OF blocks le(3), of "Suc j"]
    offset_eqs(3) [OF blocks le(4), of i] offset_eqs(4) [OF blocks le(4), of "Suc i"]
  note bounds = gap_range(1) [OF blocks, of i j] gap_range(1) [OF blocks, of "Suc i" "Suc j"]
  have k: "r_start1 ?h = r_end1 ?g + (chunk_end ?w - chunk_start ?w)" "r_start2 ?h = r_end2 ?g + (chunk_end ?w - chunk_start ?w)"
    "same_run (=) (str_bytes (pm_text1 m)) (str_bytes (pm_text2 m)) (r_end1 ?g) (r_end2 ?g) (chunk_end ?w - chunk_start ?w)"
    "0 < chunk_end ?w - chunk_start ?w"
    using eq le blocks block_words_nth(1,2) [of "pm_text1 m" "pm_start_shift1 m" "pm_words1 m" i]
      block_words_nth(1,2) [of "pm_text2 m" "pm_start_shift2 m" "pm_words2 m" j]
    by (auto simp: block_eq_def gap_def gap_start_def gap_end_def pm_blocks_def)
  have mark: "runs (cb_mark_equal b (r_end1 ?g) (r_end2 ?g) (r_start1 ?h) (r_start2 ?h))
      (\<lambda>b'. cb_text (pm_text1 m) (pm_text2 m) b' \<and> cb_index1 b' \<le> r_start1 ?h \<and> cb_index2 b' \<le> r_start2 ?h)"
    if "cb_text (pm_text1 m) (pm_text2 m) b" "cb_index1 b \<le> r_end1 ?g" "cb_index2 b \<le> r_end2 ?g" for b
    using runs_cb_mark_text [OF that k(3)] k(4) bounds le unfolding k(1,2) [symmetric]
    by (auto simp: range_bounds_def elim!: runs_mono)
  have forward: "match_forward_at (m\<lparr>pm_last := None, pm_builder := b\<rparr>) (Some i) (Some j) = Some (m\<lparr>pm_builder := b, pm_last := Some ?h\<rparr>)" for b
    using match_forward_at_gap [of "m\<lparr>pm_last := None, pm_builder := b\<rparr>" "Some i" "Suc i" "Some j" "Suc j"] blocks le by simp
  have before: "runs (match_backward_at engine m i j) (\<lambda>m'. \<exists>b. m' = m\<lparr>pm_builder := b, pm_last := None\<rparr> \<and>
      cb_text (pm_text1 m) (pm_text2 m) b \<and> cb_index1 b \<le> r_end1 ?g \<and> cb_index2 b \<le> r_end2 ?g)"
    by (rule runs_match_backward_at [OF engine at]) (use le in auto)
  have final: "\<exists>b l. m\<lparr>pm_builder := c, pm_last := Some ?h\<rparr> = m\<lparr>pm_builder := b, pm_last := l\<rparr> \<and>
      pm_at (m\<lparr>pm_builder := c, pm_last := Some ?h\<rparr>) (Suc i) (Suc j)"
    if "cb_text (pm_text1 m) (pm_text2 m) c" "cb_index1 c \<le> r_start1 ?h" "cb_index2 c \<le> r_start2 ?h" for c
    using that m blocks le by (intro exI [of _ c] exI [of _ "Some ?h"]) (simp add: pm_at_def pm_texts_def)
  show ?thesis unfolding match_pair_def offsets bind.simps
    by (rule runs_bindI [OF before], elim exE conjE, simp only: punctuation_matcher.simps, rule runs_bindI [OF mark])
      (use forward final in auto)
qed

text \<open>
  The comparison of two blocks of text, given the matched words in them: the changes are a diff of the bytes of the two
  blocks, and every changed range starts and ends at characters.
\<close>

lemma runs_match_adjustment_delimiters:
  assumes engine: "engine_ok (\<lambda>_. True) (=) engine"
    and texts: "list_all scalar text1" "list_all scalar text2" "str_len text1 < ENGINE_TOKEN_LIMIT" "str_len text2 < ENGINE_TOKEN_LIMIT"
    and ws: "block_words text1 shift1 words1" "block_words text2 shift2 words2"
    and ch: "changes_ok (block_eq text1 shift1 text2 shift2) words1 words2 ch"
  shows "runs (match_adjustment_delimiters engine text1 text2 words1 words2 ch shift1 shift2) (changes_text text1 text2)"
proof -
  define m0 where "m0 = \<lparr>pm_text1 = text1, pm_text2 = text2, pm_words1 = words1, pm_words2 = words2,
    pm_start_shift1 = shift1, pm_start_shift2 = shift2, pm_builder = cb_new (str_len text1) (str_len text2), pm_last = None\<rparr>"
  let ?I = "\<lambda>m ps. (\<exists>b l. m = m0\<lparr>pm_builder := b, pm_last := l\<rparr>) \<and> sorted_wrt pair_less ps \<and>
    (\<exists>p q. pm_at m p q \<and> (\<forall>x\<in>set ps. p \<le> fst x \<and> q \<le> snd x \<and> fst x < length words1 \<and> snd x < length words2 \<and>
      block_eq text1 shift1 text2 shift2 (words1 ! fst x) (words2 ! snd x)))"
  have blocks: "pm_blocks m0" using ws by (simp add: pm_blocks_def m0_def)
  have start: "match_forward_at m0 None None = Some (m0\<lparr>pm_last := Some (gap m0 0 0)\<rparr>)"
    by (rule match_forward_at_gap [OF blocks]) (simp_all add: m0_def)
  have at0: "pm_at (m0\<lparr>pm_last := Some (gap m0 0 0)\<rparr>) 0 0"
    using blocks texts cb_text_new [of text1 text2] by (simp add: pm_at_def pm_texts_def) (simp add: m0_def cb_new_def)
  have step: "runs (match_pair engine m (fst x) (snd x)) (\<lambda>m'. ?I m' xs)" if I: "?I m (x # xs)" for m x xs
  proof -
    obtain p q where at: "pm_at m p q" "p \<le> fst x" "q \<le> snd x" using I by auto
    obtain b l where m: "m = m0\<lparr>pm_builder := b, pm_last := l\<rparr>" using I by auto
    have "runs (match_pair engine m (fst x) (snd x))
        (\<lambda>m'. \<exists>b l. m' = m\<lparr>pm_builder := b, pm_last := l\<rparr> \<and> pm_at m' (Suc (fst x)) (Suc (snd x)))"
      by (rule runs_match_pair [OF engine at]) (use I in \<open>auto simp: m m0_def\<close>)
    then show ?thesis by (rule runs_mono) (use I in \<open>force simp: m pair_less_def Suc_le_eq\<close>)
  qed
  have loop: "runs (for_each_pair (match_pair engine) (m0\<lparr>pm_last := Some (gap m0 0 0)\<rparr>) us) (\<lambda>m. ?I m [])"
    if us: "valid_matching (block_eq text1 shift1 text2 shift2) words1 words2 us" for us
  proof (rule runs_for_each_pair [OF us, where I = ?I])
    show "?I (m0\<lparr>pm_last := Some (gap m0 0 0)\<rparr>) (match_pairs us)"
      using at0 match_pairs_sorted [OF us] match_pairs_valid [OF us]
      by (auto intro!: exI [of _ "pm_builder m0"] exI [of _ "Some (gap m0 0 0)"] exI [of _ 0])
  qed (rule step)
  have finish: "runs (match_backward_at engine m (length (pm_words1 m)) (length (pm_words2 m)) \<bind> (\<lambda>m. cb_finish (pm_builder m)))
      (changes_text text1 text2)" if I: "?I m []" for m
  proof -
    obtain p q where at: "pm_at m p q" using I by auto
    moreover have "pm_text1 m = text1" "pm_text2 m = text2" using I by (auto simp: m0_def)
    ultimately show ?thesis
      by (intro runs_bindI [OF runs_match_backward_at [OF engine at]]) (auto simp: pm_at_def runs_cb_finish_text)
  qed
  show ?thesis unfolding match_adjustment_delimiters_def matcher_build_def m0_def [symmetric] start bind.simps
    by (rule runs_bindI [OF runs_unchanged_ok [OF ch]], rule runs_bindI [OF loop], assumption) (rule finish)
qed

end
