(* ===== verification/Diff_Split.thy ===== *)
theory Diff_Split
  imports Iterable
begin

text \<open>
  Cutting a diff in two: a point lies on a diff when the changes before it lead to it and the changes after it lead on. The
  part of a diff between two such points is a diff of the two windows, which is what the word comparison computes for each
  block of lines (\<open>sub_iterable\<close> of \<open>crates/paneflow-textdiff/src/by_word.rs\<close>).
\<close>

definition on_path :: "('a \<Rightarrow> 'b \<Rightarrow> bool) \<Rightarrow> 'a list \<Rightarrow> 'b list \<Rightarrow> range list \<Rightarrow> nat \<Rightarrow> nat \<Rightarrow> bool" where
  "on_path eq xs ys cs a b \<longleftrightarrow> (\<exists>c1 c2. cs = c1 @ c2 \<and> diff_path eq xs ys False 0 0 c1 a b \<and>
     diff_path eq xs ys False a b c2 (length xs) (length ys))"

lemma on_path_ends:
  assumes "valid_diff eq xs ys cs"
  shows "on_path eq xs ys cs 0 0" "on_path eq xs ys cs (length xs) (length ys)"
proof -
  show "on_path eq xs ys cs 0 0"
    using assms unfolding on_path_def valid_diff_def by (intro exI [of _ "[]"] exI [of _ cs]) simp
  show "on_path eq xs ys cs (length xs) (length ys)"
    using assms unfolding on_path_def valid_diff_def by (intro exI [of _ cs] exI [of _ "[]"]) simp
qed

lemma diff_path_run_split:
  assumes "diff_path eq xs ys s i j cs m n" "same_run eq xs ys i j k"
    and "cs = [] \<Longrightarrow> i + k \<le> m" "\<And>c. c \<in> set (take 1 cs) \<Longrightarrow> i + k \<le> r_start1 c"
  shows "diff_path eq xs ys False (i + k) (j + k) cs m n"
proof (cases cs)
  case Nil
  with assms(1,3) obtain l where "m = i + (k + l)" "n = j + (k + l)" "same_run eq xs ys i j (k + l)"
    unfolding Nil diff_path_Nil_iff by (metis le_add_diff_inverse nat_add_left_cancel_le)
  with Nil show ?thesis unfolding Nil diff_path_Nil_iff same_run_add by (auto simp: add.assoc)
next
  case (Cons c ds)
  with assms(1,4) have c: "i + k \<le> r_start1 c" "r_start1 c - i = r_start2 c - j" "j \<le> r_start2 c" "i \<le> r_start1 c"
    "same_run eq xs ys i j (k + (r_start1 c - (i + k)))" by auto
  then have "same_run eq xs ys (i + k) (j + k) (r_start1 c - (i + k))" unfolding same_run_add by simp
  with assms(1) c show ?thesis unfolding Cons by auto
qed

text \<open>The pairs of equal elements of a diff lie on it, and so do the points behind them.\<close>

lemma complement_loop_on_path:
  assumes "diff_path eq xs ys s i j cs m n" "complement_loop i j cs m n = Some us" "u \<in> set us" "k \<le> r_end1 u - r_start1 u"
  shows "\<exists>c1 c2. cs = c1 @ c2 \<and> diff_path eq xs ys s i j c1 (r_start1 u + k) (r_start2 u + k) \<and>
    diff_path eq xs ys False (r_start1 u + k) (r_start2 u + k) c2 m n"
  using assms
proof (induction cs arbitrary: s i j us)
  case Nil
  then have "u = mk_range i m j n" by (auto simp: range_new_def bind_eq_Some_conv split: if_splits)
  moreover from this Nil(1,4) have k: "i + k \<le> m" "same_run eq xs ys i j k"
    using same_run_sub [of eq xs ys i j "m - i" 0 k] by auto
  moreover from k have "diff_path eq xs ys False (i + k) (j + k) [] m n" by (intro diff_path_run_split [OF Nil(1)]) auto
  ultimately show ?case by (auto simp: diff_path_Nil_iff simp del: diff_path.simps)
next
  case (Cons c cs)
  from Cons.prems(2) obtain rest where rest: "complement_loop (r_end1 c) (r_end2 c) cs m n = Some rest"
    and us: "us = (if i = r_start1 c \<and> j = r_start2 c then rest else mk_range i (r_start1 c) j (r_start2 c) # rest)"
    by (auto simp: range_new_def bind_eq_Some_conv dassert_def split: if_splits)
  show ?case
  proof (cases "u \<in> set rest")
    case True
    have "diff_path eq xs ys True (r_end1 c) (r_end2 c) cs m n" using Cons.prems(1) by simp
    from Cons.IH [OF this rest True Cons.prems(4)] obtain c1 c2 where "cs = c1 @ c2"
      "diff_path eq xs ys True (r_end1 c) (r_end2 c) c1 (r_start1 u + k) (r_start2 u + k)"
      "diff_path eq xs ys False (r_start1 u + k) (r_start2 u + k) c2 m n" by blast
    with Cons.prems(1) show ?thesis by (intro exI [of _ "c # c1"] exI [of _ c2]) auto
  next
    case False
    with us Cons.prems(3) have u: "u = mk_range i (r_start1 c) j (r_start2 c)" by (auto split: if_splits)
    have k: "same_run eq xs ys i j k" using Cons.prems(1,4) same_run_sub [of eq xs ys i j "r_start1 c - i" 0 k] u by auto
    have "diff_path eq xs ys False (i + k) (j + k) (c # cs) m n"
      by (rule diff_path_run_split [OF Cons.prems(1) k]) (use Cons.prems(1,4) u in auto)
    with k u show ?thesis by (intro exI [of _ "[]"] exI [of _ "c # cs"]) auto
  qed
qed

lemma runs_unchanged_on_path:
  assumes "changes_ok eq xs ys ch"
  shows "runs (unchanged ch) (\<lambda>us. valid_matching eq xs ys us \<and> (\<forall>p\<in>set (match_pairs us).
    on_path eq xs ys (ch_changed ch) (fst p) (snd p) \<and> on_path eq xs ys (ch_changed ch) (Suc (fst p)) (Suc (snd p))))"
proof -
  from runs_unchanged_ok [OF assms] obtain us where us: "unchanged ch = Some us" "valid_matching eq xs ys us"
    by (auto simp: runs_iff)
  have path: "diff_path eq xs ys False 0 0 (ch_changed ch) (length xs) (length ys)"
    and loop: "complement_loop 0 0 (ch_changed ch) (length xs) (length ys) = Some us"
    using assms us(1) by (auto simp: changes_ok_def valid_diff_def unchanged_def complement_def)
  have "on_path eq xs ys (ch_changed ch) (fst p) (snd p) \<and> on_path eq xs ys (ch_changed ch) (Suc (fst p)) (Suc (snd p))"
    if p: "p \<in> set (match_pairs us)" for p
  proof -
    obtain u i where u: "u \<in> set us" "i < r_end1 u - r_start1 u" "p = (r_start1 u + i, r_start2 u + i)"
      using p by (auto simp: match_pairs_def)
    from complement_loop_on_path [OF path loop u(1), of i] complement_loop_on_path [OF path loop u(1), of "Suc i"] u(2,3)
    show ?thesis unfolding on_path_def by auto
  qed
  with us show ?thesis by simp
qed

text \<open>Between two points of a diff.\<close>

lemma diff_path_between:
  assumes "diff_path eq xs ys s i j (c1 @ mid) c d" "diff_path eq xs ys s i j c1 a b" "diff_path eq xs ys False a b (mid @ rest) m n"
    and "a \<le> c" "b \<le> d"
  shows "diff_path eq xs ys False a b mid c d"
  using assms(1,2)
proof (induction c1 arbitrary: s i j)
  case Nil
  show ?case
  proof (cases mid)
    case Nil
    obtain k l where k: "c = i + k" "d = j + k" "same_run eq xs ys i j k" "a = i + l" "b = j + l"
      using \<open>diff_path eq xs ys s i j ([] @ mid) c d\<close> \<open>diff_path eq xs ys s i j [] a b\<close> unfolding Nil append_Nil diff_path_Nil_iff by blast
    with assms(4) have "same_run eq xs ys (i + l) (j + l) (k - l)" using same_run_sub [of eq xs ys i j k l "k - l"] by simp
    with k assms(4) show ?thesis unfolding Nil diff_path_Nil_iff by (intro exI [of _ "k - l"]) auto
  next
    case (Cons x ds)
    with Nil assms(3) show ?thesis by auto
  qed
next
  case (Cons x c1)
  then show ?case by auto
qed

lemma on_path_between:
  assumes "on_path eq xs ys cs a b" "on_path eq xs ys cs c d" "a \<le> c" "b \<le> d"
  obtains c1 mid c2 where "cs = c1 @ mid @ c2" "diff_path eq xs ys False 0 0 c1 a b" "diff_path eq xs ys False a b mid c d"
    "diff_path eq xs ys False c d c2 (length xs) (length ys)"
proof -
  let ?m = "length xs" and ?n = "length ys"
  obtain c1 c2 where c: "cs = c1 @ c2" "diff_path eq xs ys False 0 0 c1 a b" "diff_path eq xs ys False a b c2 ?m ?n"
    using assms(1) unfolding on_path_def by blast
  obtain e1 e2 where e: "cs = e1 @ e2" "diff_path eq xs ys False 0 0 e1 c d" "diff_path eq xs ys False c d e2 ?m ?n"
    using assms(2) unfolding on_path_def by blast
  consider mid where "e1 = c1 @ mid" "c2 = mid @ e2" | x y where "c1 = e1 @ x # y" "e2 = (x # y) @ c2"
    using c(1) e(1) by (metis append_Nil2 append_eq_append_conv2 list.exhaust)
  then show thesis
  proof cases
    case 1
    then have "diff_path eq xs ys False a b mid c d"
      using diff_path_between [of eq xs ys False 0 0 c1 mid c d a b e2 ?m ?n] c e assms(3,4) by simp
    with 1 c e show thesis by (intro that [of c1 mid e2]) auto
  next
    case 2
    have "c \<le> r_start1 x" "d \<le> r_start2 x" using diff_path_in_bounds [OF e(3), of x] 2 by auto
    moreover have "r_end1 x \<le> a" "r_end2 x \<le> b" "range_wf x"
      using diff_path_in_bounds [OF c(2), of x] diff_path_wf [OF c(2), of x] 2 by auto
    ultimately have False using assms(3,4) by (auto simp: range_wf_def range_is_empty_def)
    then show thesis ..
  qed
qed

text \<open>The part of a diff in a window.\<close>

definition move_back :: "nat \<Rightarrow> nat \<Rightarrow> range \<Rightarrow> range" where
  "move_back a b r = mk_range (r_start1 r - a) (r_end1 r - a) (r_start2 r - b) (r_end2 r - b)"

lemma move_back_sel [simp]:
  "r_start1 (move_back a b r) = r_start1 r - a" "r_end1 (move_back a b r) = r_end1 r - a"
  "r_start2 (move_back a b r) = r_start2 r - b" "r_end2 (move_back a b r) = r_end2 r - b"
  by (simp_all add: move_back_def)

lemma same_run_window:
  assumes "same_run eq xs ys i j n" "a \<le> i" "b \<le> j" "i + n \<le> c" "j + n \<le> d" "c \<le> length xs" "d \<le> length ys"
  shows "same_run eq (take (c - a) (drop a xs)) (take (d - b) (drop b ys)) (i - a) (j - b) n"
  using assms by (auto simp: same_run_def)

lemma diff_path_window:
  assumes "diff_path eq xs ys s i j cs c d" "a \<le> i" "b \<le> j"
  shows "diff_path eq (take (c - a) (drop a xs)) (take (d - b) (drop b ys)) s (i - a) (j - b) (map (move_back a b) cs) (c - a) (d - b)"
  using assms
proof (induction cs arbitrary: s i j)
  case Nil
  then have "c \<le> length xs" "d \<le> length ys" using diff_path_bounds by blast+
  with Nil show ?case using same_run_window [of eq xs ys i j "c - i" a b c d] by auto
next
  case (Cons r cs)
  then have r: "range_wf r" "i \<le> r_start1 r" "j \<le> r_start2 r" "r_start1 r - i = r_start2 r - j" "same_run eq xs ys i j (r_start1 r - i)"
    and tl: "diff_path eq xs ys True (r_end1 r) (r_end2 r) cs c d" by auto
  have le: "r_start1 r \<le> r_end1 r" "r_start2 r \<le> r_end2 r" "r_end1 r \<le> c" "r_end2 r \<le> d" "c \<le> length xs" "d \<le> length ys"
    using r(1) diff_path_bounds [OF tl] by (auto simp: range_wf_def)
  have "same_run eq (take (c - a) (drop a xs)) (take (d - b) (drop b ys)) (i - a) (j - b) (r_start1 r - i)"
    by (rule same_run_window [OF r(5)]) (use Cons.prems r le in linarith)+
  moreover have "range_wf (move_back a b r)" using r le Cons.prems(2,3) by (auto simp: range_wf_def range_is_empty_def)
  moreover have "diff_path eq (take (c - a) (drop a xs)) (take (d - b) (drop b ys)) True (r_end1 r - a) (r_end2 r - b)
      (map (move_back a b) cs) (c - a) (d - b)"
    by (rule Cons.IH [OF tl]) (use Cons.prems r le in linarith)+
  ultimately show ?case using Cons.prems r le by auto
qed

lemma valid_diff_window:
  assumes "diff_path eq xs ys False a b mid c d"
  shows "valid_diff eq (take (c - a) (drop a xs)) (take (d - b) (drop b ys)) (map (move_back a b) mid)"
proof -
  have "length (take (c - a) (drop a xs)) = c - a" "length (take (d - b) (drop b ys)) = d - b"
    using diff_path_bounds [OF assms] by auto
  with diff_path_window [OF assms, of a b] show ?thesis by (simp only: valid_diff_def diff_self_eq_0 order_refl)
qed

end
