(* ===== verification/Word_Blocks.thy ===== *)
theory Word_Blocks
  imports Word_Delimiters Diff_Split
begin

text \<open>
  The compared words are cut into blocks of whole lines (\<open>crates/paneflow-textdiff/src/splitter.rs\<close>): a block ends at a pair
  of matched line breaks or before a pair of matched words that both start a line. Each block gets its own part of the
  comparison (\<open>collect_word_block_sub_iterables\<close> of \<open>by_word.rs\<close>).

  The cuts lie on the diff of the words (\<open>on_path\<close>), so the part of each block is a diff of the words of the block; the
  blocks follow each other without a gap from the start to the end of both texts (\<open>chain\<close>).
\<close>

record word_block =
  wb_words :: range
  wb_offsets :: range

record pending_chunk =
  pc_block :: word_block
  pc_has_equal_words :: bool
  pc_has_words_inside :: bool
  pc_is_equal_ignore_whitespaces :: bool

record splitter =
  sp_text1 :: ustr
  sp_text2 :: ustr
  sp_words1 :: "InlineChunk list"
  sp_words2 :: "InlineChunk list"
  sp_result :: "word_block list"
  sp_last1 :: "nat option"
  sp_last2 :: "nat option"
  sp_pending :: "pending_chunk option"

section \<open>Cutting into lines\<close>

fun after :: "nat option \<Rightarrow> nat option \<Rightarrow> bool" where
  "after (Some latest) (Some end') = (latest > end')"
| "after (Some latest) None = True"
| "after None end' = False"

definition offset_at :: "InlineChunk list \<Rightarrow> ustr \<Rightarrow> nat option \<Rightarrow> nat option" where
  "offset_at words text index = (case index of
     None \<Rightarrow> Some 0
   | Some index \<Rightarrow>
       if index = length words then Some (str_len text)
       else do {
         w \<leftarrow> nth_or_panic words index;
         dassert (is_newline w);
         Some (chunk_end w)
       })"

definition is_first_in_line :: "InlineChunk list \<Rightarrow> nat \<Rightarrow> bool option" where
  "is_first_in_line words index =
     (if index = 0 then Some True else do { w \<leftarrow> nth_or_panic words (index - 1); Some (is_newline w) })"

definition should_merge_chunks :: "pending_chunk \<Rightarrow> pending_chunk \<Rightarrow> bool" where
  "should_merge_chunks chunk1 chunk2 =
     (if \<not> pc_has_equal_words chunk1 \<and> \<not> pc_has_equal_words chunk2 then True
      else if pc_is_equal_ignore_whitespaces chunk1 \<and> pc_is_equal_ignore_whitespaces chunk2 then True
      else if \<not> pc_has_words_inside chunk1 \<or> \<not> pc_has_words_inside chunk2 then True
      else False)"

definition merge_chunks :: "pending_chunk \<Rightarrow> pending_chunk \<Rightarrow> pending_chunk option" where
  "merge_chunks chunk1 chunk2 = do {
     let block1 = pc_block chunk1;
     let block2 = pc_block chunk2;
     words \<leftarrow> range_new (r_start1 (wb_words block1)) (r_end1 (wb_words block2))
       (r_start2 (wb_words block1)) (r_end2 (wb_words block2));
     offsets \<leftarrow> range_new (r_start1 (wb_offsets block1)) (r_end1 (wb_offsets block2))
       (r_start2 (wb_offsets block1)) (r_end2 (wb_offsets block2));
     Some \<lparr>pc_block = \<lparr>wb_words = words, wb_offsets = offsets\<rparr>,
       pc_has_equal_words = pc_has_equal_words chunk1 \<or> pc_has_equal_words chunk2,
       pc_has_words_inside = pc_has_words_inside chunk1 \<or> pc_has_words_inside chunk2,
       pc_is_equal_ignore_whitespaces = pc_is_equal_ignore_whitespaces chunk1 \<and> pc_is_equal_ignore_whitespaces chunk2\<rparr>
   }"

definition has_words_inside :: "splitter \<Rightarrow> word_block \<Rightarrow> bool option" where
  "has_words_inside s block = do {
     ws1 \<leftarrow> slice_or_panic (sp_words1 s) (r_start1 (wb_words block)) (r_end1 (wb_words block));
     ws2 \<leftarrow> slice_or_panic (sp_words2 s) (r_start2 (wb_words block)) (r_end2 (wb_words block));
     Some (list_ex (\<lambda>chunk. \<not> is_newline chunk) (ws1 @ ws2))
   }"

definition create_chunk :: "splitter \<Rightarrow> nat option \<Rightarrow> nat option \<Rightarrow> nat option \<Rightarrow> nat option \<Rightarrow> bool \<Rightarrow> pending_chunk option" where
  "create_chunk s start1 start2 end1 end2 has_equal_words = do {
     start_offset1 \<leftarrow> offset_at (sp_words1 s) (sp_text1 s) start1;
     start_offset2 \<leftarrow> offset_at (sp_words2 s) (sp_text2 s) start2;
     end_offset1 \<leftarrow> offset_at (sp_words1 s) (sp_text1 s) end1;
     end_offset2 \<leftarrow> offset_at (sp_words2 s) (sp_text2 s) end2;
     words \<leftarrow> range_new (case start1 of None \<Rightarrow> 0 | Some index \<Rightarrow> index + 1)
       (case end1 of None \<Rightarrow> 0 | Some index \<Rightarrow> min (index + 1) (length (sp_words1 s)))
       (case start2 of None \<Rightarrow> 0 | Some index \<Rightarrow> index + 1)
       (case end2 of None \<Rightarrow> 0 | Some index \<Rightarrow> min (index + 1) (length (sp_words2 s)));
     offsets \<leftarrow> range_new start_offset1 end_offset1 start_offset2 end_offset2;
     let block = \<lparr>wb_words = words, wb_offsets = offsets\<rparr>;
     inside \<leftarrow> has_words_inside s block;
     equal \<leftarrow> is_equals_range (sp_text1 s) (sp_text2 s) offsets IgnoreWhitespaces;
     Some \<lparr>pc_block = block, pc_has_equal_words = has_equal_words, pc_has_words_inside = inside,
       pc_is_equal_ignore_whitespaces = equal\<rparr>
   }"

definition add_line_chunk :: "splitter \<Rightarrow> nat option \<Rightarrow> nat option \<Rightarrow> bool \<Rightarrow> splitter option" where
  "add_line_chunk s end1 end2 has_equal_words =
     (if after (sp_last1 s) end1 \<or> after (sp_last2 s) end2 then Some s
      else do {
        chunk \<leftarrow> create_chunk s (sp_last1 s) (sp_last2 s) end1 end2 has_equal_words;
        if range_is_empty (wb_offsets (pc_block chunk)) then Some s
        else do {
          (pending, result) \<leftarrow> (case sp_pending s of
              Some previous \<Rightarrow>
                if should_merge_chunks previous chunk
                then do { merged \<leftarrow> merge_chunks previous chunk; Some (merged, sp_result s) }
                else Some (chunk, sp_result s @ [pc_block previous])
            | None \<Rightarrow> Some (chunk, sp_result s));
          Some (s\<lparr>sp_result := result, sp_pending := Some pending, sp_last1 := end1, sp_last2 := end2\<rparr>)
        }
      })"

definition checked_sub :: "nat \<Rightarrow> nat \<Rightarrow> nat option" where
  "checked_sub a b = (if b \<le> a then Some (a - b) else None)"

definition split_at_pair :: "splitter \<times> bool \<Rightarrow> nat \<Rightarrow> nat \<Rightarrow> (splitter \<times> bool) option" where
  "split_at_pair state index1 index2 = (case state of (s, has_equal_words) \<Rightarrow> do {
     w1 \<leftarrow> nth_or_panic (sp_words1 s) index1;
     both \<leftarrow> (if is_newline w1 then do { w2 \<leftarrow> nth_or_panic (sp_words2 s) index2; Some (is_newline w2) } else Some False);
     if both then do {
       s \<leftarrow> add_line_chunk s (Some index1) (Some index2) has_equal_words;
       Some (s, False)
     } else do {
       first1 \<leftarrow> is_first_in_line (sp_words1 s) index1;
       first \<leftarrow> (if first1 then is_first_in_line (sp_words2 s) index2 else Some False);
       s \<leftarrow> (if first then add_line_chunk s (checked_sub index1 1) (checked_sub index2 1) has_equal_words else Some s);
       Some (s, True)
     }
   })"

definition split_line_blocks :: "ustr \<Rightarrow> ustr \<Rightarrow> InlineChunk list \<Rightarrow> InlineChunk list \<Rightarrow> changes \<Rightarrow> word_block list option" where
  "split_line_blocks text1 text2 words1 words2 iterable = do {
     us \<leftarrow> unchanged iterable;
     (s, has_equal_words) \<leftarrow> for_each_pair split_at_pair
       (\<lparr>sp_text1 = text1, sp_text2 = text2, sp_words1 = words1, sp_words2 = words2, sp_result = [],
         sp_last1 = None, sp_last2 = None, sp_pending = None\<rparr>, False) us;
     s \<leftarrow> add_line_chunk s (Some (length words1)) (Some (length words2)) has_equal_words;
     Some (case sp_pending s of Some pending \<Rightarrow> sp_result s @ [pc_block pending] | None \<Rightarrow> sp_result s)
   }"

section \<open>The comparison of a block\<close>

text \<open>The loop of \<open>sub_iterable\<close> with its \<open>continue\<close>s and its \<open>break\<close>.\<close>

fun sub_ranges :: "range list \<Rightarrow> range \<Rightarrow> range list option" where
  "sub_ranges [] words = Some []"
| "sub_ranges (r # rs) words =
     (if r_end1 r < r_start1 words \<or> r_end2 r < r_start2 words then sub_ranges rs words
      else if r_start1 r > r_end1 words \<or> r_start2 r > r_end2 words then Some []
      else do {
        start1 \<leftarrow> usub (max (r_start1 r) (r_start1 words)) (r_start1 words);
        end1 \<leftarrow> usub (min (r_end1 r) (r_end1 words)) (r_start1 words);
        start2 \<leftarrow> usub (max (r_start2 r) (r_start2 words)) (r_start2 words);
        end2 \<leftarrow> usub (min (r_end2 r) (r_end2 words)) (r_start2 words);
        clipped \<leftarrow> range_new start1 end1 start2 end2;
        rest \<leftarrow> sub_ranges rs words;
        Some (if range_is_empty clipped then rest else clipped # rest)
      })"

definition sub_iterable :: "range list \<Rightarrow> range \<Rightarrow> nat \<Rightarrow> changes option" where
  "sub_iterable changed words first_index = do {
     rest \<leftarrow> slice_or_panic changed first_index (length changed);
     ranges \<leftarrow> sub_ranges rest words;
     len1 \<leftarrow> usub (r_end1 words) (r_start1 words);
     len2 \<leftarrow> usub (r_end2 words) (r_start2 words);
     Some (changes_new ranges len1 len2)
   }"

function skip_before :: "range list \<Rightarrow> range \<Rightarrow> nat \<Rightarrow> nat option" where
  "skip_before changed words index =
     (if index < length changed then do {
        r \<leftarrow> nth_or_panic changed index;
        if r_end1 r < r_start1 words \<or> r_end2 r < r_start2 words then skip_before changed words (index + 1) else Some index
      } else Some index)"
  by pat_completeness auto
termination
  by (relation "measure (\<lambda>(changed, words, index). length changed - index)") auto

declare skip_before.simps [simp del]

definition collect_word_block_sub_iterables :: "changes \<Rightarrow> word_block list \<Rightarrow> changes list option" where
  "collect_word_block_sub_iterables ch word_blocks = do {
     let changed = ch_changed ch;
     (index, subs) \<leftarrow> for_each (\<lambda>(index, subs) block. do {
         index \<leftarrow> skip_before changed (wb_words block) index;
         sub \<leftarrow> sub_iterable changed (wb_words block) index;
         Some (index, subs @ [sub])
       }) (0, []) word_blocks;
     Some subs
   }"

section \<open>Cuts\<close>

text \<open>
  A cut is named by the chunk it follows: a line break, the start of the text, or the end of it. \<open>cut_point\<close> says what the
  others rely on: the chunks before it end there or earlier, the chunks after it start there or later. A pair of cuts is at
  the start of a line on both sides or at the end of both texts (\<open>line_corner\<close>).
\<close>

definition line_cut :: "InlineChunk list \<Rightarrow> nat option \<Rightarrow> bool" where
  "line_cut ws idx \<longleftrightarrow> (case idx of None \<Rightarrow> True | Some i \<Rightarrow> i = length ws \<or> i < length ws \<and> is_newline (ws ! i))"

definition cut_word :: "InlineChunk list \<Rightarrow> nat option \<Rightarrow> nat" where
  "cut_word ws idx = (case idx of None \<Rightarrow> 0 | Some i \<Rightarrow> min (i + 1) (length ws))"

definition cut_offset :: "ustr \<Rightarrow> InlineChunk list \<Rightarrow> nat option \<Rightarrow> nat" where
  "cut_offset text ws idx = (case idx of None \<Rightarrow> 0 | Some i \<Rightarrow> if i = length ws then str_len text else chunk_end (ws ! i))"

definition cut_point :: "ustr \<Rightarrow> InlineChunk list \<Rightarrow> nat \<Rightarrow> nat \<Rightarrow> bool" where
  "cut_point text ws a x \<longleftrightarrow> boundary text x \<and> a \<le> length ws \<and> (\<forall>k<a. chunk_end (ws ! k) \<le> x) \<and>
     (\<forall>k. a \<le> k \<and> k < length ws \<longrightarrow> x \<le> chunk_start (ws ! k))"

definition line_start_at :: "ustr \<Rightarrow> nat \<Rightarrow> bool" where
  "line_start_at text x \<longleftrightarrow> x = 0 \<or> 0 < x \<and> x \<le> str_len text \<and> str_bytes text ! (x - 1) = 10"

definition line_corner :: "ustr \<Rightarrow> ustr \<Rightarrow> nat \<Rightarrow> nat \<Rightarrow> bool" where
  "line_corner text1 text2 x y \<longleftrightarrow> line_start_at text1 x \<and> line_start_at text2 y \<or> x = str_len text1 \<and> y = str_len text2"

lemma offset_at_cut: "line_cut ws idx \<Longrightarrow> offset_at ws text idx = Some (cut_offset text ws idx)"
  by (auto simp: offset_at_def line_cut_def cut_offset_def nth_or_panic_def dassert_def split: option.splits)

lemma newline_end: "is_newline w \<Longrightarrow> chunk_end w = Suc (chunk_start w)"
  by (cases w) auto

lemma words_ends: "words_from text i ws \<Longrightarrow> k \<le> l \<Longrightarrow> l < length ws \<Longrightarrow> chunk_end (ws ! k) \<le> chunk_end (ws ! l)"
  using words_order [of "text" i ws k l] words_nth(2) [of "text" i ws l] by (cases "k = l") auto

lemma cut_point_cut:
  assumes ws: "words_from text 0 ws" and cut: "line_cut ws idx"
  shows "cut_point text ws (cut_word ws idx) (cut_offset text ws idx)"
proof (cases idx)
  case None
  then show ?thesis by (simp add: cut_point_def cut_word_def cut_offset_def)
next
  case (Some i)
  show ?thesis
  proof (cases "i = length ws")
    case True
    then show ?thesis using Some words_nth(3) [OF ws] by (simp add: cut_point_def cut_word_def cut_offset_def)
  next
    case False
    with cut Some have i: "i < length ws" "is_newline (ws ! i)" by (auto simp: line_cut_def)
    moreover have "chunk_end (ws ! k) \<le> chunk_end (ws ! i)" if "k < Suc i" for k using words_ends [OF ws] that i(1) by auto
    moreover have "chunk_end (ws ! i) \<le> chunk_start (ws ! k)" if "Suc i \<le> k" "k < length ws" for k
      using words_order [OF ws] that by auto
    ultimately show ?thesis using Some False words_nth(5) [OF ws i(1)] by (simp add: cut_point_def cut_word_def cut_offset_def)
  qed
qed

lemma cut_line_start:
  assumes ws: "words_from text 0 ws" and cut: "line_cut ws idx" "idx \<noteq> Some (length ws)"
  shows "line_start_at text (cut_offset text ws idx)"
proof (cases idx)
  case (Some i)
  with cut have i: "i < length ws" "is_newline (ws ! i)" by (auto simp: line_cut_def)
  then show ?thesis using Some words_nth(3,6) [OF ws i(1)] newline_end [OF i(2)] by (simp add: line_start_at_def cut_offset_def)
qed (simp add: line_start_at_def cut_offset_def)

lemma cut_mono:
  assumes ws: "words_from text 0 ws" and cut: "line_cut ws l" "line_cut ws e" "\<not> after l e"
  shows "cut_word ws l \<le> cut_word ws e" "cut_offset text ws l \<le> cut_offset text ws e"
proof -
  show "cut_word ws l \<le> cut_word ws e" using cut(3) by (cases l; cases e) (auto simp: cut_word_def)
  show "cut_offset text ws l \<le> cut_offset text ws e"
    using cut words_ends [OF ws] words_nth(3) [OF ws] by (cases l; cases e) (auto simp: cut_offset_def line_cut_def)
qed

text \<open>Two cuts at the same offset have no chunk between them.\<close>

lemma cut_point_same:
  assumes ws: "words_from text 0 ws" and "cut_point text ws a x" "cut_point text ws b x" "a \<le> b"
  shows "a = b"
proof (rule ccontr)
  assume "a \<noteq> b"
  with assms(4) have "a < b" by simp
  with assms(2,3) have "x \<le> chunk_start (ws ! a)" "chunk_end (ws ! a) \<le> x" "a < length ws" by (auto simp: cut_point_def)
  with words_nth(2) [OF ws, of a] show False by simp
qed

section \<open>Chains of blocks\<close>

type_synonym corner = "nat \<times> nat \<times> nat \<times> nat"

definition wb_from :: "word_block \<Rightarrow> corner" where
  "wb_from b = (r_start1 (wb_words b), r_start2 (wb_words b), r_start1 (wb_offsets b), r_start2 (wb_offsets b))"

definition wb_to :: "word_block \<Rightarrow> corner" where
  "wb_to b = (r_end1 (wb_words b), r_end2 (wb_words b), r_end1 (wb_offsets b), r_end2 (wb_offsets b))"

definition wb_wf :: "word_block \<Rightarrow> bool" where
  "wb_wf b \<longleftrightarrow> r_start1 (wb_words b) \<le> r_end1 (wb_words b) \<and> r_start2 (wb_words b) \<le> r_end2 (wb_words b) \<and> range_wf (wb_offsets b)"

fun chain :: "(corner \<Rightarrow> bool) \<Rightarrow> corner \<Rightarrow> word_block list \<Rightarrow> corner \<Rightarrow> bool" where
  "chain good x [] y \<longleftrightarrow> x = y"
| "chain good x (b # bs) y \<longleftrightarrow> wb_from b = x \<and> wb_wf b \<and> good (wb_to b) \<and> chain good (wb_to b) bs y"

lemma chain_snoc: "chain good x (bs @ [b]) y \<longleftrightarrow> chain good x bs (wb_from b) \<and> wb_wf b \<and> good (wb_to b) \<and> wb_to b = y"
  by (induction bs arbitrary: x) auto

definition sp_blocks :: "splitter \<Rightarrow> word_block list" where
  "sp_blocks s = (case sp_pending s of Some pending \<Rightarrow> sp_result s @ [pc_block pending] | None \<Rightarrow> sp_result s)"

definition sp_corner :: "splitter \<Rightarrow> nat option \<Rightarrow> nat option \<Rightarrow> corner" where
  "sp_corner s e1 e2 = (cut_word (sp_words1 s) e1, cut_word (sp_words2 s) e2,
     cut_offset (sp_text1 s) (sp_words1 s) e1, cut_offset (sp_text2 s) (sp_words2 s) e2)"

definition sp_words_ok :: "splitter \<Rightarrow> bool" where
  "sp_words_ok s \<longleftrightarrow> words_from (sp_text1 s) 0 (sp_words1 s) \<and> words_from (sp_text2 s) 0 (sp_words2 s)"

definition sp_cuts :: "splitter \<Rightarrow> nat option \<Rightarrow> nat option \<Rightarrow> bool" where
  "sp_cuts s e1 e2 \<longleftrightarrow> line_cut (sp_words1 s) e1 \<and> line_cut (sp_words2 s) e2 \<and>
     (e1 = Some (length (sp_words1 s)) \<longleftrightarrow> e2 = Some (length (sp_words2 s)))"

lemma runs_create_chunk:
  assumes ok: "sp_words_ok s" and cuts: "sp_cuts s s1 s2" "sp_cuts s e1 e2" and "\<not> after s1 e1" "\<not> after s2 e2"
    and last: "s1 \<noteq> Some (length (sp_words1 s))" "s2 \<noteq> Some (length (sp_words2 s))"
  shows "runs (create_chunk s s1 s2 e1 e2 h) (\<lambda>c. wb_from (pc_block c) = sp_corner s s1 s2 \<and> wb_to (pc_block c) = sp_corner s e1 e2 \<and>
    (range_is_empty (wb_offsets (pc_block c)) \<or> wb_wf (pc_block c)))"
proof -
  have cut: "line_cut (sp_words1 s) s1" "line_cut (sp_words1 s) e1" "line_cut (sp_words2 s) s2" "line_cut (sp_words2 s) e2"
    using cuts by (auto simp: sp_cuts_def)
  have ws: "words_from (sp_text1 s) 0 (sp_words1 s)" "words_from (sp_text2 s) 0 (sp_words2 s)" using ok by (auto simp: sp_words_ok_def)
  note mono1 = cut_mono [OF ws(1) cut(1,2) assms(4)] and mono2 = cut_mono [OF ws(2) cut(3,4) assms(5)]
  have points: "cut_point (sp_text1 s) (sp_words1 s) (cut_word (sp_words1 s) s1) (cut_offset (sp_text1 s) (sp_words1 s) s1)"
    "cut_point (sp_text1 s) (sp_words1 s) (cut_word (sp_words1 s) e1) (cut_offset (sp_text1 s) (sp_words1 s) e1)"
    "cut_point (sp_text2 s) (sp_words2 s) (cut_word (sp_words2 s) s2) (cut_offset (sp_text2 s) (sp_words2 s) s2)"
    "cut_point (sp_text2 s) (sp_words2 s) (cut_word (sp_words2 s) e2) (cut_offset (sp_text2 s) (sp_words2 s) e2)"
    using cut_point_cut [OF ws(1)] cut_point_cut [OF ws(2)] cut by auto
  obtain v1 v2 where v: "str_slice (sp_text1 s) (cut_offset (sp_text1 s) (sp_words1 s) s1) (cut_offset (sp_text1 s) (sp_words1 s) e1) = Some v1"
    "str_slice (sp_text2 s) (cut_offset (sp_text2 s) (sp_words2 s) s2) (cut_offset (sp_text2 s) (sp_words2 s) e2) = Some v2"
    using points mono1(2) mono2(2) str_slice_boundary unfolding cut_point_def by metis
  have starts: "(case s1 of None \<Rightarrow> 0 | Some index \<Rightarrow> index + 1) = cut_word (sp_words1 s) s1"
    "(case s2 of None \<Rightarrow> 0 | Some index \<Rightarrow> index + 1) = cut_word (sp_words2 s) s2"
    using cut(1,3) last by (auto simp: cut_word_def line_cut_def split: option.splits)
  show ?thesis unfolding create_chunk_def offset_at_cut [OF cut(1)] offset_at_cut [OF cut(2)] offset_at_cut [OF cut(3)]
    offset_at_cut [OF cut(4)] bind.simps starts cut_word_def [symmetric] Let_def
    using mono1 mono2 points v
    by (auto simp: wp has_words_inside_def is_equals_range_def wb_from_def wb_to_def wb_wf_def sp_corner_def cut_point_def range_wf_def)
qed

section \<open>The splitter\<close>

definition good_corner :: "ustr \<Rightarrow> ustr \<Rightarrow> InlineChunk list \<Rightarrow> InlineChunk list \<Rightarrow> range list \<Rightarrow> corner \<Rightarrow> bool" where
  "good_corner text1 text2 ws1 ws2 cs x \<longleftrightarrow> (case x of (a, b, x, y) \<Rightarrow> cut_point text1 ws1 a x \<and> cut_point text2 ws2 b y \<and>
     line_corner text1 text2 x y \<and> on_path (word_eq text1 text2) ws1 ws2 cs a b)"

abbreviation sp_good :: "range list \<Rightarrow> splitter \<Rightarrow> corner \<Rightarrow> bool" where
  "sp_good cs s \<equiv> good_corner (sp_text1 s) (sp_text2 s) (sp_words1 s) (sp_words2 s) cs"

definition sp_inv :: "range list \<Rightarrow> splitter \<Rightarrow> bool" where
  "sp_inv cs s \<longleftrightarrow> sp_words_ok s \<and> sp_cuts s (sp_last1 s) (sp_last2 s) \<and>
     chain (sp_good cs s) (0, 0, 0, 0) (sp_blocks s) (sp_corner s (sp_last1 s) (sp_last2 s))"

definition sp_same :: "splitter \<Rightarrow> splitter \<Rightarrow> bool" where
  "sp_same s s' \<longleftrightarrow> sp_text1 s' = sp_text1 s \<and> sp_text2 s' = sp_text2 s \<and> sp_words1 s' = sp_words1 s \<and> sp_words2 s' = sp_words2 s"

lemma runs_merge_chunks:
  assumes "wb_to (pc_block c1) = wb_from (pc_block c2)" "wb_wf (pc_block c1)" "wb_wf (pc_block c2)"
  shows "runs (merge_chunks c1 c2) (\<lambda>c. wb_from (pc_block c) = wb_from (pc_block c1) \<and> wb_to (pc_block c) = wb_to (pc_block c2) \<and>
    wb_wf (pc_block c))"
  using assms by (auto simp: merge_chunks_def wp Let_def wb_to_def wb_from_def wb_wf_def range_wf_def range_is_empty_def)

lemma sp_same_simps:
  assumes "sp_same s s'"
  shows "sp_corner s' = sp_corner s" "sp_cuts s' = sp_cuts s" "sp_words_ok s' = sp_words_ok s" "sp_good cs s' = sp_good cs s"
  using assms by (auto simp: sp_same_def sp_corner_def sp_cuts_def sp_words_ok_def fun_eq_iff)

lemma sp_good_cut:
  assumes "sp_words_ok s" "sp_cuts s e1 e2" "on_path (word_eq (sp_text1 s) (sp_text2 s)) (sp_words1 s) (sp_words2 s) cs
    (cut_word (sp_words1 s) e1) (cut_word (sp_words2 s) e2)"
  shows "sp_good cs s (sp_corner s e1 e2)"
proof -
  have cut: "line_cut (sp_words1 s) e1" "line_cut (sp_words2 s) e2"
    and ws: "words_from (sp_text1 s) 0 (sp_words1 s)" "words_from (sp_text2 s) 0 (sp_words2 s)"
    using assms by (auto simp: sp_cuts_def sp_words_ok_def)
  have "line_corner (sp_text1 s) (sp_text2 s) (cut_offset (sp_text1 s) (sp_words1 s) e1) (cut_offset (sp_text2 s) (sp_words2 s) e2)"
    using cut_line_start [OF ws(1) cut(1)] cut_line_start [OF ws(2) cut(2)] assms(2)
    by (cases "e1 = Some (length (sp_words1 s))") (auto simp: line_corner_def sp_cuts_def cut_offset_def)
  then show ?thesis using cut_point_cut [OF ws(1) cut(1)] cut_point_cut [OF ws(2) cut(2)] assms(3) by (simp add: good_corner_def sp_corner_def)
qed

text \<open>A step that adds the block from the last cut to a new one, or finds nothing between them.\<close>

definition sp_step :: "range list \<Rightarrow> splitter \<Rightarrow> nat option \<Rightarrow> nat option \<Rightarrow> splitter \<Rightarrow> bool" where
  "sp_step cs s e1 e2 s' \<longleftrightarrow> sp_inv cs s' \<and> sp_same s s' \<and>
     (sp_last1 s', sp_last2 s') \<in> {(sp_last1 s, sp_last2 s), (e1, e2)} \<and>
     (\<not> after (sp_last1 s) e1 \<and> \<not> after (sp_last2 s) e2 \<longrightarrow> sp_corner s (sp_last1 s') (sp_last2 s') = sp_corner s e1 e2)"

lemma sp_corner_empty:
  assumes ok: "sp_words_ok s" and cuts: "sp_cuts s s1 s2" "sp_cuts s e1 e2" and "\<not> after s1 e1" "\<not> after s2 e2"
    and "wb_from b = sp_corner s s1 s2" "wb_to b = sp_corner s e1 e2" "range_is_empty (wb_offsets b)"
  shows "sp_corner s s1 s2 = sp_corner s e1 e2"
proof -
  have cut: "line_cut (sp_words1 s) s1" "line_cut (sp_words1 s) e1" "line_cut (sp_words2 s) s2" "line_cut (sp_words2 s) e2"
    and ws: "words_from (sp_text1 s) 0 (sp_words1 s)" "words_from (sp_text2 s) 0 (sp_words2 s)"
    using cuts ok by (auto simp: sp_cuts_def sp_words_ok_def)
  have offs: "cut_offset (sp_text1 s) (sp_words1 s) s1 = cut_offset (sp_text1 s) (sp_words1 s) e1"
    "cut_offset (sp_text2 s) (sp_words2 s) s2 = cut_offset (sp_text2 s) (sp_words2 s) e2"
    using assms(6-8) by (auto simp: wb_from_def wb_to_def sp_corner_def range_is_empty_def)
  note points = cut_point_cut [OF ws(1) cut(1)] cut_point_cut [OF ws(1) cut(2)] cut_point_cut [OF ws(2) cut(3)] cut_point_cut [OF ws(2) cut(4)]
  have "cut_word (sp_words1 s) s1 = cut_word (sp_words1 s) e1"
    by (rule cut_point_same [OF ws(1) points(1) _ cut_mono(1) [OF ws(1) cut(1,2) assms(4)]]) (use points(2) offs in simp)
  moreover have "cut_word (sp_words2 s) s2 = cut_word (sp_words2 s) e2"
    by (rule cut_point_same [OF ws(2) points(3) _ cut_mono(1) [OF ws(2) cut(3,4) assms(5)]]) (use points(4) offs in simp)
  ultimately show ?thesis using offs by (simp add: sp_corner_def)
qed

lemma runs_add_line_chunk:
  assumes inv: "sp_inv cs s" and cuts: "sp_cuts s e1 e2"
    and path: "on_path (word_eq (sp_text1 s) (sp_text2 s)) (sp_words1 s) (sp_words2 s) cs (cut_word (sp_words1 s) e1) (cut_word (sp_words2 s) e2)"
    and last: "sp_last1 s \<noteq> Some (length (sp_words1 s))" "sp_last2 s \<noteq> Some (length (sp_words2 s))"
  shows "runs (add_line_chunk s e1 e2 h) (sp_step cs s e1 e2)"
proof (cases "after (sp_last1 s) e1 \<or> after (sp_last2 s) e2")
  case True
  with inv show ?thesis by (auto simp: add_line_chunk_def sp_step_def sp_same_def)
next
  case False
  have ok: "sp_words_ok s" and lasts: "sp_cuts s (sp_last1 s) (sp_last2 s)"
    and blocks: "chain (sp_good cs s) (0, 0, 0, 0) (sp_blocks s) (sp_corner s (sp_last1 s) (sp_last2 s))"
    using inv by (auto simp: sp_inv_def)
  note create = runs_create_chunk [OF ok lasts cuts _ _ last, of h]
  have good: "sp_good cs s (sp_corner s e1 e2)" by (rule sp_good_cut [OF ok cuts path])
  have step: "sp_step cs s e1 e2 (s\<lparr>sp_result := r, sp_pending := Some p, sp_last1 := e1, sp_last2 := e2\<rparr>)"
    if "chain (sp_good cs s) (0, 0, 0, 0) (r @ [pc_block p]) (sp_corner s e1 e2)" for r p
  proof -
    let ?s = "s\<lparr>sp_result := r, sp_pending := Some p, sp_last1 := e1, sp_last2 := e2\<rparr>"
    have same: "sp_same s ?s" by (simp add: sp_same_def)
    have "sp_blocks ?s = r @ [pc_block p]" by (simp add: sp_blocks_def)
    with that ok cuts have "sp_inv cs ?s" unfolding sp_inv_def sp_same_simps [OF same] by simp
    with same show ?thesis by (simp add: sp_step_def)
  qed
  have merge: "runs (merge_chunks p c \<bind> (\<lambda>merged. Some (merged, sp_result s)))
      (\<lambda>(p, r). chain (sp_good cs s) (0, 0, 0, 0) (r @ [pc_block p]) (sp_corner s e1 e2))"
    if "sp_pending s = Some p" "wb_from (pc_block c) = sp_corner s (sp_last1 s) (sp_last2 s)" "wb_to (pc_block c) = sp_corner s e1 e2"
      "wb_wf (pc_block c)" for p c
    by (rule runs_bindI [OF runs_merge_chunks])
      (use that blocks good in \<open>auto simp: sp_blocks_def chain_snoc\<close>)
  show ?thesis unfolding add_line_chunk_def if_not_P [OF False]
  proof (rule runs_bindI [OF create])
    fix c :: pending_chunk
    assume c: "wb_from (pc_block c) = sp_corner s (sp_last1 s) (sp_last2 s) \<and> wb_to (pc_block c) = sp_corner s e1 e2 \<and>
      (range_is_empty (wb_offsets (pc_block c)) \<or> wb_wf (pc_block c))"
    have empty: "sp_step cs s e1 e2 s" if "range_is_empty (wb_offsets (pc_block c))"
      using sp_corner_empty [OF ok lasts cuts _ _ _ _ that] False c inv by (auto simp: sp_step_def sp_same_def)
    have append: "chain (sp_good cs s) (0, 0, 0, 0) (sp_blocks s @ [pc_block c]) (sp_corner s e1 e2)" if "wb_wf (pc_block c)"
      using blocks c good that by (auto simp: chain_snoc)
    let ?choose = "case sp_pending s of
        Some previous \<Rightarrow>
          if should_merge_chunks previous c
          then do { merged \<leftarrow> merge_chunks previous c; Some (merged, sp_result s) }
          else Some (c, sp_result s @ [pc_block previous])
      | None \<Rightarrow> Some (c, sp_result s)"
    have choose: "runs ?choose (\<lambda>(p, r). chain (sp_good cs s) (0, 0, 0, 0) (r @ [pc_block p]) (sp_corner s e1 e2))"
      if "wb_wf (pc_block c)"
      using append [OF that] merge [of _ c] c that by (cases "sp_pending s") (auto simp: sp_blocks_def)
    show "runs (if range_is_empty (wb_offsets (pc_block c)) then Some s else ?choose \<bind> (\<lambda>(pending, result).
          Some (s\<lparr>sp_result := result, sp_pending := Some pending, sp_last1 := e1, sp_last2 := e2\<rparr>))) (sp_step cs s e1 e2)"
    proof (cases "range_is_empty (wb_offsets (pc_block c))")
      case True
      with empty show ?thesis by simp
    next
      case False
      with c have "wb_wf (pc_block c)" by simp
      from choose [OF this] show ?thesis unfolding if_not_P [OF False]
        by (rule runs_bindI, elim case_prodE conjE, simp only: prod.case runs_Some, elim step)
    qed
  qed (use False in auto)
qed

lemma runs_split_at_pair:
  assumes inv: "sp_inv cs s" and last: "sp_last1 s \<noteq> Some (length (sp_words1 s))" "sp_last2 s \<noteq> Some (length (sp_words2 s))"
    and idx: "i < length (sp_words1 s)" "j < length (sp_words2 s)"
    and path: "on_path (word_eq (sp_text1 s) (sp_text2 s)) (sp_words1 s) (sp_words2 s) cs i j"
      "on_path (word_eq (sp_text1 s) (sp_text2 s)) (sp_words1 s) (sp_words2 s) cs (Suc i) (Suc j)"
  shows "runs (split_at_pair (s, h) i j) (\<lambda>(s', h'). sp_inv cs s' \<and> sp_same s s' \<and>
    sp_last1 s' \<noteq> Some (length (sp_words1 s)) \<and> sp_last2 s' \<noteq> Some (length (sp_words2 s)))"
proof -
  let ?w1 = "sp_words1 s ! i" and ?w2 = "sp_words2 s ! j"
  have add: "runs (add_line_chunk s e1 e2 h) (\<lambda>s'. sp_inv cs s' \<and> sp_same s s' \<and>
      sp_last1 s' \<noteq> Some (length (sp_words1 s)) \<and> sp_last2 s' \<noteq> Some (length (sp_words2 s)))"
    if "sp_cuts s e1 e2" "on_path (word_eq (sp_text1 s) (sp_text2 s)) (sp_words1 s) (sp_words2 s) cs
        (cut_word (sp_words1 s) e1) (cut_word (sp_words2 s) e2)"
      "e1 \<noteq> Some (length (sp_words1 s))" "e2 \<noteq> Some (length (sp_words2 s))" for e1 e2
    using runs_add_line_chunk [OF inv that(1,2) last] by (rule runs_mono) (use last that(3,4) in \<open>auto simp: sp_step_def\<close>)
  have newlines: "runs (add_line_chunk s (Some i) (Some j) h) (\<lambda>s'. sp_inv cs s' \<and> sp_same s s' \<and>
      sp_last1 s' \<noteq> Some (length (sp_words1 s)) \<and> sp_last2 s' \<noteq> Some (length (sp_words2 s)))" if "is_newline ?w1" "is_newline ?w2"
    by (rule add) (use that idx path in \<open>auto simp: sp_cuts_def line_cut_def cut_word_def\<close>)
  have first: "is_first_in_line ws k = Some (k = 0 \<or> is_newline (ws ! (k - 1)))" if "k < length ws" for ws :: "InlineChunk list" and k
    using that by (auto simp: is_first_in_line_def nth_or_panic_def)
  have starts: "runs (add_line_chunk s (checked_sub i 1) (checked_sub j 1) h) (\<lambda>s'. sp_inv cs s' \<and> sp_same s s' \<and>
      sp_last1 s' \<noteq> Some (length (sp_words1 s)) \<and> sp_last2 s' \<noteq> Some (length (sp_words2 s)))"
    if "i = 0 \<or> is_newline (sp_words1 s ! (i - 1))" "j = 0 \<or> is_newline (sp_words2 s ! (j - 1))"
    by (rule add) (use that idx path(1) in \<open>auto simp: sp_cuts_def line_cut_def cut_word_def checked_sub_def Suc_le_eq\<close>)
  have "sp_same s s" by (simp add: sp_same_def)
  then show ?thesis using newlines starts idx inv last
    by (auto simp: split_at_pair_def nth_or_panic_def first runs_bind elim!: runs_mono)
qed

text \<open>The blocks lead from the start of both texts to their ends, and every cut between them lies on the diff.\<close>

lemma runs_split_line_blocks:
  assumes ws: "words_from text1 0 words1" "words_from text2 0 words2" and ch: "changes_ok (word_eq text1 text2) words1 words2 ch"
  shows "runs (split_line_blocks text1 text2 words1 words2 ch) (\<lambda>bs.
    chain (good_corner text1 text2 words1 words2 (ch_changed ch)) (0, 0, 0, 0) bs (length words1, length words2, str_len text1, str_len text2))"
proof -
  define s0 where "s0 = \<lparr>sp_text1 = text1, sp_text2 = text2, sp_words1 = words1, sp_words2 = words2, sp_result = [],
         sp_last1 = None, sp_last2 = None, sp_pending = None\<rparr>"
  let ?cs = "ch_changed ch" and ?path = "on_path (word_eq text1 text2) words1 words2 (ch_changed ch)"
  let ?S = "\<lambda>s. sp_inv ?cs s \<and> sp_same s0 s \<and> sp_last1 s \<noteq> Some (length words1) \<and> sp_last2 s \<noteq> Some (length words2)"
  let ?I = "\<lambda>st ps. ?S (fst (st :: splitter \<times> bool)) \<and> (\<forall>p\<in>set ps. fst p < length words1 \<and> snd p < length words2 \<and>
    ?path (fst p) (snd p) \<and> ?path (Suc (fst p)) (Suc (snd p)))"
  have valid: "valid_diff (word_eq text1 text2) words1 words2 ?cs" using ch by (simp add: changes_ok_def)
  have start: "?S s0"
    using ws by (simp add: sp_inv_def sp_words_ok_def sp_cuts_def line_cut_def sp_blocks_def sp_corner_def cut_word_def cut_offset_def sp_same_def s0_def)
  have step: "runs (split_at_pair st (fst p) (snd p)) (\<lambda>st'. ?I st' ps)" if I: "?I st (p # ps)" for st p ps
  proof -
    obtain s h where st: "st = (s, h)" by (cases st)
    have same: "sp_text1 s = text1" "sp_text2 s = text2" "sp_words1 s = words1" "sp_words2 s = words2"
      using I by (auto simp: st sp_same_def s0_def)
    show ?thesis unfolding st using runs_split_at_pair [of ?cs s "fst p" "snd p" h] I unfolding st same
      by (auto simp: sp_same_def s0_def elim!: runs_mono)
  qed
  have loop: "runs (for_each_pair split_at_pair (s0, False) us) (\<lambda>st. ?I st [])"
    if "valid_matching (word_eq text1 text2) words1 words2 us"
      "\<forall>p\<in>set (match_pairs us). ?path (fst p) (snd p) \<and> ?path (Suc (fst p)) (Suc (snd p))" for us
  proof (rule runs_for_each_pair [OF that(1), where I = ?I])
    show "?I (s0, False) (match_pairs us)" using start that match_pairs_valid [OF that(1)] by auto
  qed (rule step)
  have finish: "runs (add_line_chunk s (Some (length words1)) (Some (length words2)) h \<bind> (\<lambda>s. Some (sp_blocks s)))
      (\<lambda>bs. chain (good_corner text1 text2 words1 words2 ?cs) (0, 0, 0, 0) bs (length words1, length words2, str_len text1, str_len text2))"
    if S: "?S s" for s h
  proof -
    have same: "sp_text1 s = text1" "sp_text2 s = text2" "sp_words1 s = words1" "sp_words2 s = words2"
      using S by (auto simp: sp_same_def s0_def)
    have "runs (add_line_chunk s (Some (length words1)) (Some (length words2)) h) (sp_step ?cs s (Some (length words1)) (Some (length words2)))"
      by (rule runs_add_line_chunk)
        (use S on_path_ends(2) [OF valid] in \<open>auto simp: same sp_cuts_def line_cut_def cut_word_def\<close>)
    moreover have "\<not> after (sp_last1 s) (Some (length words1))" "\<not> after (sp_last2 s) (Some (length words2))"
      using S by (auto simp: sp_inv_def sp_cuts_def line_cut_def same split: option.splits)
    moreover have "sp_corner s (Some (length words1)) (Some (length words2)) = (length words1, length words2, str_len text1, str_len text2)"
      by (simp add: sp_corner_def cut_word_def cut_offset_def same)
    moreover have "chain (sp_good ?cs s) (0, 0, 0, 0) (sp_blocks s') (sp_corner s (sp_last1 s') (sp_last2 s'))"
      if "sp_step ?cs s (Some (length words1)) (Some (length words2)) s'" for s'
      using that unfolding sp_step_def sp_inv_def by (auto simp: sp_same_simps)
    ultimately show ?thesis by (elim runs_bindI) (simp add: sp_step_def same)
  qed
  show ?thesis unfolding split_line_blocks_def s0_def [symmetric] sp_blocks_def [symmetric]
    by (rule runs_bindI [OF runs_unchanged_on_path [OF ch]], elim conjE, rule runs_bindI [OF loop], assumption, assumption)
      (use finish in \<open>auto split: prod.splits\<close>)
qed

section \<open>The changes of a block\<close>

lemma sub_ranges_before:
  "list_all (\<lambda>r. r_end1 r \<le> a \<and> r_end2 r \<le> b \<and> range_wf r) cs \<Longrightarrow> a \<le> c \<Longrightarrow> b \<le> d \<Longrightarrow>
   sub_ranges (cs @ rest) (mk_range a c b d) = sub_ranges rest (mk_range a c b d)"
  by (induction cs) (auto simp: usub_def range_new_def dassert_def range_wf_def range_is_empty_def)

lemma sub_ranges_after:
  "list_all (\<lambda>r. c \<le> r_start1 r \<and> d \<le> r_start2 r \<and> range_wf r) cs \<Longrightarrow> a \<le> c \<Longrightarrow> b \<le> d \<Longrightarrow> sub_ranges cs (mk_range a c b d) = Some []"
  by (induction cs) (auto simp: usub_def range_new_def dassert_def range_wf_def)

lemma sub_ranges_inside:
  "list_all (\<lambda>r. a \<le> r_start1 r \<and> b \<le> r_start2 r \<and> r_end1 r \<le> c \<and> r_end2 r \<le> d \<and> range_wf r) cs \<Longrightarrow>
   sub_ranges rest (mk_range a c b d) = Some [] \<Longrightarrow> sub_ranges (cs @ rest) (mk_range a c b d) = Some (map (move_back a b) cs)"
  by (induction cs)
    (auto simp: usub_def range_new_def dassert_def range_wf_def range_is_empty_def move_back_def max_absorb1 min_absorb1)

text \<open>The changes skipped so far end before the block.\<close>

definition skipped :: "range list \<Rightarrow> nat \<Rightarrow> nat \<Rightarrow> nat \<Rightarrow> bool" where
  "skipped changed index a b \<longleftrightarrow> index \<le> length changed \<and> (\<forall>k<index. r_end1 (changed ! k) < a \<or> r_end2 (changed ! k) < b)"

lemma runs_skip_before:
  "skipped changed index (r_start1 w) (r_start2 w) \<Longrightarrow>
   runs (skip_before changed w index) (\<lambda>index'. skipped changed index' (r_start1 w) (r_start2 w))"
proof (induction changed w index rule: skip_before.induct)
  case (1 changed w index)
  show ?case
  proof (cases "index < length changed \<and> (r_end1 (changed ! index) < r_start1 w \<or> r_end2 (changed ! index) < r_start2 w)")
    case True
    with 1(2) have "skipped changed (index + 1) (r_start1 w) (r_start2 w)" by (auto simp: skipped_def less_Suc_eq)
    with True 1(1) show ?thesis by (subst skip_before.simps) (simp add: nth_or_panic_def)
  next
    case False
    with 1(2) show ?thesis by (subst skip_before.simps) (auto simp: nth_or_panic_def)
  qed
qed

lemma runs_sub_iterable:
  assumes path: "on_path eq xs ys changed a b" "on_path eq xs ys changed c d" and le: "a \<le> c" "b \<le> d"
    and index: "skipped changed index a b"
  shows "runs (sub_iterable changed (mk_range a c b d) index) (changes_ok eq (take (c - a) (drop a xs)) (take (d - b) (drop b ys)))"
proof -
  obtain c1 mid c2 where cs: "changed = c1 @ mid @ c2" and p: "diff_path eq xs ys False 0 0 c1 a b" "diff_path eq xs ys False a b mid c d"
    "diff_path eq xs ys False c d c2 (length xs) (length ys)"
    using on_path_between [OF path le] by blast
  note bounds = diff_path_in_bounds [OF p(1)] diff_path_in_bounds [OF p(2)] diff_path_in_bounds [OF p(3)]
    and wf = diff_path_wf [OF p(1)] diff_path_wf [OF p(2)] diff_path_wf [OF p(3)]
  have "index \<le> length c1"
  proof (rule ccontr)
    assume "\<not> index \<le> length c1"
    with index cs have k: "length c1 < length (c1 @ mid @ c2)" "r_end1 (changed ! length c1) < a \<or> r_end2 (changed ! length c1) < b"
      by (auto simp: skipped_def)
    then have "changed ! length c1 \<in> set (mid @ c2)" using cs by (auto simp: nth_append intro: nth_mem)
    then have "a \<le> r_end1 (changed ! length c1) \<and> b \<le> r_end2 (changed ! length c1)"
      using bounds(2,3) [of "changed ! length c1"] wf(2,3) [of "changed ! length c1"] le by (auto simp: range_wf_def)
    with k(2) show False by simp
  qed
  then have drop: "drop index changed = drop index c1 @ mid @ c2" using cs by simp
  have "list_all (\<lambda>r. r_end1 r \<le> a \<and> r_end2 r \<le> b \<and> range_wf r) (drop index c1)"
    using bounds(1) wf(1) by (auto simp: list_all_iff dest: in_set_dropD)
  moreover have "list_all (\<lambda>r. a \<le> r_start1 r \<and> b \<le> r_start2 r \<and> r_end1 r \<le> c \<and> r_end2 r \<le> d \<and> range_wf r) mid"
    "list_all (\<lambda>r. c \<le> r_start1 r \<and> d \<le> r_start2 r \<and> range_wf r) c2"
    using bounds(2,3) wf(2,3) by (auto simp: list_all_iff)
  ultimately have "sub_ranges (drop index changed) (mk_range a c b d) = Some (map (move_back a b) mid)"
    unfolding drop by (simp add: sub_ranges_before [OF _ le] sub_ranges_inside sub_ranges_after [OF _ le])
  moreover have "length (take (c - a) (drop a xs)) = c - a" "length (take (d - b) (drop b ys)) = d - b"
    using diff_path_bounds [OF p(2)] by auto
  ultimately show ?thesis using index le valid_diff_window [OF p(2)]
    by (simp add: sub_iterable_def slice_or_panic_def skipped_def usub_def changes_ok_def)
qed

definition block_words1 :: "InlineChunk list \<Rightarrow> word_block \<Rightarrow> InlineChunk list" where
  "block_words1 ws b = take (r_end1 (wb_words b) - r_start1 (wb_words b)) (drop (r_start1 (wb_words b)) ws)"

definition block_words2 :: "InlineChunk list \<Rightarrow> word_block \<Rightarrow> InlineChunk list" where
  "block_words2 ws b = take (r_end2 (wb_words b) - r_start2 (wb_words b)) (drop (r_start2 (wb_words b)) ws)"

text \<open>Every block gets the comparison of its own words.\<close>

lemma runs_collect_sub_iterables:
  assumes "chain (good_corner text1 text2 words1 words2 (ch_changed ch)) x bs y"
    and "good_corner text1 text2 words1 words2 (ch_changed ch) x" "skipped (ch_changed ch) index (fst x) (fst (snd x))"
  shows "runs (for_each (\<lambda>(index, subs) block. do {
         index \<leftarrow> skip_before (ch_changed ch) (wb_words block) index;
         sub \<leftarrow> sub_iterable (ch_changed ch) (wb_words block) index;
         Some (index, subs @ [sub])
       }) (index, subs) bs) (\<lambda>(_, subs'). \<exists>new. subs' = subs @ new \<and>
    list_all2 (\<lambda>b. changes_ok (word_eq text1 text2) (block_words1 words1 b) (block_words2 words2 b)) bs new)"
  using assms
proof (induction bs arbitrary: x index subs)
  case Nil
  then show ?case by simp
next
  case (Cons b bs)
  let ?w = "wb_words b" and ?cs = "ch_changed ch"
  have b: "wb_from b = x" "wb_wf b" "good_corner text1 text2 words1 words2 ?cs (wb_to b)"
    "chain (good_corner text1 text2 words1 words2 ?cs) (wb_to b) bs y" using Cons.prems(1) by auto
  have path: "on_path (word_eq text1 text2) words1 words2 ?cs (r_start1 ?w) (r_start2 ?w)"
    "on_path (word_eq text1 text2) words1 words2 ?cs (r_end1 ?w) (r_end2 ?w)"
    using Cons.prems(2) b(1,3) by (auto simp: good_corner_def wb_from_def wb_to_def)
  have le: "r_start1 ?w \<le> r_end1 ?w" "r_start2 ?w \<le> r_end2 ?w" using b(2) by (auto simp: wb_wf_def)
  have skip: "runs (skip_before ?cs ?w index) (\<lambda>i. skipped ?cs i (r_start1 ?w) (r_start2 ?w))"
    by (rule runs_skip_before) (use Cons.prems(3) b(1) in \<open>auto simp: wb_from_def\<close>)
  have sub: "runs (sub_iterable ?cs ?w i) (changes_ok (word_eq text1 text2) (block_words1 words1 b) (block_words2 words2 b))"
    if "skipped ?cs i (r_start1 ?w) (r_start2 ?w)" for i
    using runs_sub_iterable [OF path le that] by (simp add: block_words1_def block_words2_def)
  have later: "skipped ?cs i (fst (wb_to b)) (fst (snd (wb_to b)))" if "skipped ?cs i (r_start1 ?w) (r_start2 ?w)" for i
    using that le by (fastforce simp: skipped_def wb_to_def)
  obtain i sb where i: "skip_before ?cs ?w index = Some i" "skipped ?cs i (r_start1 ?w) (r_start2 ?w)" "sub_iterable ?cs ?w i = Some sb"
    "changes_ok (word_eq text1 text2) (block_words1 words1 b) (block_words2 words2 b) sb"
    using skip sub unfolding runs_iff by blast
  show ?case using Cons.IH [OF b(4,3) later [OF i(2)], of "subs @ [sb]"] i(1,3,4) by (auto elim!: runs_mono)
qed

lemma runs_collect_word_block_sub_iterables:
  assumes "changes_ok (word_eq text1 text2) words1 words2 ch"
    and "chain (good_corner text1 text2 words1 words2 (ch_changed ch)) (0, 0, 0, 0) bs y"
  shows "runs (collect_word_block_sub_iterables ch bs)
    (list_all2 (\<lambda>b. changes_ok (word_eq text1 text2) (block_words1 words1 b) (block_words2 words2 b)) bs)"
proof -
  have "on_path (word_eq text1 text2) words1 words2 (ch_changed ch) 0 0" using assms(1) by (auto simp: changes_ok_def on_path_ends)
  then have "good_corner text1 text2 words1 words2 (ch_changed ch) (0, 0, 0, 0)"
    by (simp add: good_corner_def cut_point_def line_corner_def line_start_at_def)
  note loop = runs_collect_sub_iterables [OF assms(2) this, of 0 "[]"]
  show ?thesis unfolding collect_word_block_sub_iterables_def Let_def by (rule runs_bindI [OF loop]) (auto simp: skipped_def)
qed

end
