(* ===== verification/By_Word.thy ===== *)
theory By_Word
  imports Word_Blocks
begin

text \<open>
  The word comparison of two texts (\<open>crates/paneflow-textdiff/src/by_word.rs\<close>): the words are compared and cut into blocks,
  each block becomes a comparison of bytes (\<open>Word_Delimiters\<close>), and the whitespace of its changes is corrected according to
  the policy. The result is one \<open>line_block\<close> for each block, or \<open>DiffTooBig\<close>.

  The engine is called with two kinds of tokens, words and the code points of punctuation: the two arguments \<open>engine\<close> and
  \<open>char_engine\<close> stand for the two instances.
\<close>

record diff_fragment =
  df_start1 :: nat
  df_end1 :: nat
  df_start2 :: nat
  df_end2 :: nat

record line_block =
  lb_fragments :: "diff_fragment list"
  lb_offsets :: range
  lb_newlines1 :: nat
  lb_newlines2 :: nat

section \<open>Whitespace\<close>

definition default_correction :: "changes \<Rightarrow> ustr \<Rightarrow> ustr \<Rightarrow> changes option" where
  "default_correction iterable text1 text2 = do {
     changes \<leftarrow> for_each (\<lambda>changes r. do {
         end_cut \<leftarrow> expand_whitespaces_backward text1 text2 (r_start1 r) (r_start2 r) (r_end1 r) (r_end2 r);
         end1 \<leftarrow> usub (r_end1 r) end_cut;
         end2 \<leftarrow> usub (r_end2 r) end_cut;
         start_cut \<leftarrow> expand_whitespaces_forward text1 text2 (r_start1 r) (r_start2 r) end1 end2;
         expanded \<leftarrow> range_new (r_start1 r + start_cut) end1 (r_start2 r + start_cut) end2;
         Some (if \<not> range_is_empty expanded then changes @ [expanded] else changes)
       }) [] (ch_changed iterable);
     Some (changes_new changes (str_len text1) (str_len text2))
   }"

definition ignore_spaces_correction :: "changes \<Rightarrow> ustr \<Rightarrow> ustr \<Rightarrow> changes option" where
  "ignore_spaces_correction iterable text1 text2 = do {
     changes \<leftarrow> for_each (\<lambda>changes r. do {
         expanded \<leftarrow> expand_whitespaces text1 text2 r;
         trimmed \<leftarrow> trim_range text1 text2 expanded;
         equal \<leftarrow> (if \<not> range_is_empty trimmed then is_equals_range text1 text2 trimmed IgnoreWhitespaces else Some True);
         Some (if \<not> equal then changes @ [trimmed] else changes)
       }) [] (ch_changed iterable);
     Some (changes_new changes (str_len text1) (str_len text2))
   }"

text \<open>The loops of \<open>is_leading_space\<close> and \<open>is_trailing_space\<close>.\<close>

fun leading_loop :: "u8 list \<Rightarrow> nat \<Rightarrow> bool option" where
  "leading_loop bytes 0 = Some True"
| "leading_loop bytes (Suc index) = do {
     byte \<leftarrow> nth_or_panic bytes index;
     if byte = 10 then Some True
     else if \<not> is_whitespace_byte byte then Some False
     else leading_loop bytes index
   }"

function trailing_loop :: "u8 list \<Rightarrow> nat \<Rightarrow> bool option" where
  "trailing_loop bytes index =
     (if index < length bytes then do {
        byte \<leftarrow> nth_or_panic bytes index;
        if byte = 10 then Some True
        else if \<not> is_whitespace_byte byte then Some False
        else trailing_loop bytes (index + 1)
      } else Some True)"
  by pat_completeness auto
termination
  by (relation "measure (\<lambda>(bytes, index). length bytes - index)") auto

declare trailing_loop.simps [simp del]

definition is_leading_space :: "ustr \<Rightarrow> nat \<Rightarrow> bool option" where
  "is_leading_space text start =
     (if start \<ge> str_len text then Some False
      else do {
        byte \<leftarrow> nth_or_panic (str_bytes text) start;
        if \<not> is_whitespace_byte byte then Some False else leading_loop (str_bytes text) start
      })"

definition is_trailing_space :: "ustr \<Rightarrow> nat \<Rightarrow> bool option" where
  "is_trailing_space text end' =
     (if end' \<ge> str_len text then Some False
      else do {
        byte \<leftarrow> nth_or_panic (str_bytes text) end';
        if \<not> is_whitespace_byte byte then Some False else trailing_loop (str_bytes text) end'
      })"

definition is_leading_trailing_space :: "ustr \<Rightarrow> nat option \<Rightarrow> bool option" where
  "is_leading_trailing_space text off = (case off of
     None \<Rightarrow> Some False
   | Some off \<Rightarrow> do {
       leading \<leftarrow> is_leading_space text off;
       if leading then Some True else is_trailing_space text off
     })"

definition trim_spaces_correction :: "changes \<Rightarrow> ustr \<Rightarrow> ustr \<Rightarrow> changes option" where
  "trim_spaces_correction iterable text1 text2 = do {
     changes \<leftarrow> for_each (\<lambda>changes r. do {
         let start1 = r_start1 r;
         let start2 = r_start2 r;
         let end1 = r_end1 r;
         let end2 = r_end2 r;
         at_start1 \<leftarrow> is_leading_trailing_space text1 (Some start1);
         start1 \<leftarrow> (if at_start1 then trim_start text1 start1 end1 else Some start1);
         at_end1 \<leftarrow> is_leading_trailing_space text1 (checked_sub end1 1);
         end1 \<leftarrow> (if at_end1 then trim_end text1 start1 end1 else Some end1);
         at_start2 \<leftarrow> is_leading_trailing_space text2 (Some start2);
         start2 \<leftarrow> (if at_start2 then trim_start text2 start2 end2 else Some start2);
         at_end2 \<leftarrow> is_leading_trailing_space text2 (checked_sub end2 1);
         end2 \<leftarrow> (if at_end2 then trim_end text2 start2 end2 else Some end2);
         trimmed \<leftarrow> range_new start1 end1 start2 end2;
         equal \<leftarrow> (if \<not> range_is_empty trimmed then is_equals_range text1 text2 trimmed Default else Some True);
         Some (if \<not> equal then changes @ [trimmed] else changes)
       }) [] (ch_changed iterable);
     Some (changes_new changes (str_len text1) (str_len text2))
   }"

fun match_adjustment_whitespaces :: "ustr \<Rightarrow> ustr \<Rightarrow> changes \<Rightarrow> ComparisonPolicy \<Rightarrow> changes option" where
  "match_adjustment_whitespaces text1 text2 iterable Default = default_correction iterable text1 text2"
| "match_adjustment_whitespaces text1 text2 iterable TrimWhitespaces = do {
     default \<leftarrow> default_correction iterable text1 text2;
     trim_spaces_correction default text1 text2
   }"
| "match_adjustment_whitespaces text1 text2 iterable IgnoreWhitespaces = ignore_spaces_correction iterable text1 text2"

definition convert_into_fragments :: "changes \<Rightarrow> diff_fragment list" where
  "convert_into_fragments ch =
     map (\<lambda>r. \<lparr>df_start1 = r_start1 r, df_end1 = r_end1 r, df_start2 = r_start2 r, df_end2 = r_end2 r\<rparr>) (ch_changed ch)"

section \<open>Comparing and splitting\<close>

definition compare_block :: "uchar diff_engine \<Rightarrow> ustr \<Rightarrow> ustr \<Rightarrow> ComparisonPolicy \<Rightarrow> InlineChunk list \<Rightarrow> InlineChunk list \<Rightarrow>
    word_block \<times> changes \<Rightarrow> line_block option" where
  "compare_block char_engine text1 text2 policy words1 words2 item = (case item of (block, changes) \<Rightarrow> do {
     let offsets = wb_offsets block;
     let words = wb_words block;
     subtext1 \<leftarrow> str_slice text1 (r_start1 offsets) (r_end1 offsets);
     subtext2 \<leftarrow> str_slice text2 (r_start2 offsets) (r_end2 offsets);
     subwords1 \<leftarrow> slice_or_panic words1 (r_start1 words) (r_end1 words);
     subwords2 \<leftarrow> slice_or_panic words2 (r_start2 words) (r_end2 words);
     delimiters \<leftarrow> match_adjustment_delimiters char_engine subtext1 subtext2 subwords1 subwords2 changes
       (r_start1 offsets) (r_start2 offsets);
     iterable \<leftarrow> match_adjustment_whitespaces subtext1 subtext2 delimiters policy;
     Some \<lparr>lb_fragments = convert_into_fragments iterable, lb_offsets = offsets,
       lb_newlines1 = length (filter is_newline subwords1), lb_newlines2 = length (filter is_newline subwords2)\<rparr>
   })"

definition compare_and_split :: "ChunkToken diff_engine \<Rightarrow> uchar diff_engine \<Rightarrow> (uchar \<Rightarrow> bool) \<Rightarrow> ustr \<Rightarrow> ustr \<Rightarrow>
    ComparisonPolicy \<Rightarrow> (DiffTooBig + line_block list) option" where
  "compare_and_split engine char_engine is_alphabetic text1 text2 policy = do {
     words1 \<leftarrow> inline_chunks is_alphabetic text1;
     words2 \<leftarrow> inline_chunks is_alphabetic text2;
     result \<leftarrow> diff_chunks engine text1 words1 text2 words2;
     case result of
       Inl too_big \<Rightarrow> Some (Inl too_big)
     | Inr ch \<Rightarrow> do {
         ch \<leftarrow> optimize_word_chunks text1 text2 words1 words2 ch;
         word_blocks \<leftarrow> split_line_blocks text1 text2 words1 words2 ch;
         sub_iterables \<leftarrow> collect_word_block_sub_iterables ch word_blocks;
         line_blocks \<leftarrow> map_or_panic (compare_block char_engine text1 text2 policy words1 words2) (zip word_blocks sub_iterables);
         Some (Inr line_blocks)
       }
   }"

section \<open>Comparisons up to whitespace\<close>

text \<open>
  \<open>loose_path P\<close>: the changes lead from one position to another, and what lies between them is the same on both sides as far
  as the bytes with \<open>P\<close> are concerned. The policies differ in the bytes that are \<open>significant\<close> to them; with all bytes
  significant, what lies between the changes is the same.
\<close>

definition between :: "'a list \<Rightarrow> nat \<Rightarrow> nat \<Rightarrow> 'a list" where
  "between xs a b = take (b - a) (drop a xs)"

definition ink :: "u8 \<Rightarrow> bool" where
  "ink b \<longleftrightarrow> \<not> is_whitespace_byte b"

fun significant :: "ComparisonPolicy \<Rightarrow> u8 \<Rightarrow> bool" where
  "significant Default = (\<lambda>_. True)"
| "significant TrimWhitespaces = ink"
| "significant IgnoreWhitespaces = ink"

definition ws_same :: "(u8 \<Rightarrow> bool) \<Rightarrow> u8 list \<Rightarrow> u8 list \<Rightarrow> nat \<Rightarrow> nat \<Rightarrow> nat \<Rightarrow> nat \<Rightarrow> bool" where
  "ws_same P xs ys a b c d \<longleftrightarrow> a \<le> b \<and> b \<le> length xs \<and> c \<le> d \<and> d \<le> length ys \<and> filter P (between xs a b) = filter P (between ys c d)"

fun loose_path :: "(u8 \<Rightarrow> bool) \<Rightarrow> u8 list \<Rightarrow> u8 list \<Rightarrow> nat \<Rightarrow> nat \<Rightarrow> range list \<Rightarrow> nat \<Rightarrow> nat \<Rightarrow> bool" where
  "loose_path P xs ys i j [] m n \<longleftrightarrow> ws_same P xs ys i m j n"
| "loose_path P xs ys i j (c # cs) m n \<longleftrightarrow> ws_same P xs ys i (r_start1 c) j (r_start2 c) \<and>
     r_start1 c \<le> r_end1 c \<and> r_start2 c \<le> r_end2 c \<and> loose_path P xs ys (r_end1 c) (r_end2 c) cs m n"

lemma between_same [simp]: "between xs a a = []"
  by (simp add: between_def)

lemma between_append:
  assumes "a \<le> b" "b \<le> c"
  shows "between xs a b @ between xs b c = between xs a c"
proof -
  obtain k l where "b = a + k" "c = a + k + l" using assms by (metis le_Suc_ex)
  then show ?thesis by (simp add: between_def take_add add.commute)
qed

lemma ws_same_append:
  assumes "ws_same P xs ys a b c d" "ws_same P xs ys b e d f"
  shows "ws_same P xs ys a e c f"
proof -
  have "filter P (between xs a e) = filter P (between xs a b @ between xs b e)" "filter P (between ys c f) = filter P (between ys c d @ between ys d f)"
    using assms between_append [of a b e xs] between_append [of c d f ys] by (auto simp: ws_same_def)
  with assms show ?thesis by (auto simp: ws_same_def)
qed

lemma ws_same_refl: "a \<le> length xs \<Longrightarrow> c \<le> length ys \<Longrightarrow> ws_same P xs ys a a c c"
  by (simp add: ws_same_def)

lemma loose_path_append: "loose_path P xs ys i j cs m n \<Longrightarrow> loose_path P xs ys m n ds p q \<Longrightarrow> loose_path P xs ys i j (cs @ ds) p q"
  by (induction cs arbitrary: i j) (cases ds; auto intro: ws_same_append)+

lemma same_run_ws_same: "same_run (=) xs ys i j k \<Longrightarrow> ws_same P xs ys i (i + k) j (j + k)"
  using same_run_eq_take [of xs ys i j k] by (auto simp: ws_same_def between_def same_run_def)

lemma diff_path_loose: "diff_path (=) xs ys s i j cs m n \<Longrightarrow> loose_path P xs ys i j cs m n"
proof (induction cs arbitrary: s i j)
  case Nil
  then obtain k where "m = i + k" "n = j + k" "same_run (=) xs ys i j k" by (auto simp: diff_path_Nil_iff simp del: diff_path.simps)
  then show ?case by (simp add: same_run_ws_same)
next
  case (Cons c cs)
  then have "r_start1 c = i + (r_start1 c - i)" "r_start2 c = j + (r_start1 c - i)" by auto
  then have "ws_same P xs ys i (r_start1 c) j (r_start2 c)" using same_run_ws_same [of xs ys i j "r_start1 c - i"] Cons.prems by auto
  with Cons show ?case by (auto simp: range_wf_def)
qed

lemma loose_path_bounds: "loose_path P xs ys i j cs m n \<Longrightarrow> i \<le> m \<and> j \<le> n \<and> m \<le> length xs \<and> n \<le> length ys"
proof (induction cs arbitrary: i j)
  case (Cons c cs)
  from Cons.prems Cons.IH [of "r_end1 c" "r_end2 c"] show ?case by (auto simp: ws_same_def)
qed (simp add: ws_same_def)

text \<open>Replacing every change by changes inside it that leave out whitespace only.\<close>

lemma loose_path_replace:
  assumes "list_all2 (\<lambda>c new. loose_path P xs ys (r_start1 c) (r_start2 c) new (r_end1 c) (r_end2 c)) cs news" "loose_path P xs ys i j cs m n"
  shows "loose_path P xs ys i j (concat news) m n"
  using assms
proof (induction arbitrary: i j rule: list_all2_induct)
  case (Cons c cs new news)
  then have "loose_path P xs ys i j [] (r_start1 c) (r_start2 c)" "loose_path P xs ys (r_end1 c) (r_end2 c) (concat news) m n" by auto
  with Cons.hyps(1) show ?case
    using loose_path_append [of P xs ys i j "[]"] loose_path_append [of P xs ys "r_start1 c" "r_start2 c" new] by auto
qed simp

text \<open>The first text with the changes applied is the second one, up to whitespace.\<close>

lemma loose_path_patch: "loose_path P xs ys i j cs (length xs) (length ys) \<Longrightarrow> filter P (patch xs ys i cs) = filter P (drop j ys)"
proof (induction cs arbitrary: i j)
  case Nil
  then show ?case by (simp add: ws_same_def between_def)
next
  case (Cons c cs)
  let ?s = "r_start2 c" and ?e = "r_end2 c"
  have c: "ws_same P xs ys i (r_start1 c) j ?s" "?s \<le> ?e" and tl: "loose_path P xs ys (r_end1 c) ?e cs (length xs) (length ys)"
    using Cons.prems by auto
  have "drop j ys = between ys j ?s @ between ys ?s ?e @ drop ?e ys"
    using c by (simp add: between_def take_drop_append ws_same_def)
  then have "filter P (drop j ys) = filter P (between xs i (r_start1 c)) @ filter P (between ys ?s ?e) @ filter P (drop ?e ys)"
    using c(1) by (simp add: ws_same_def)
  with Cons.IH [OF tl] show ?case by (simp add: between_def)
qed

section \<open>Whitespace is cut off at characters\<close>

lemma ws_ascii: "is_whitespace_byte b \<Longrightarrow> b < 0x80"
  by (auto simp: is_whitespace_byte_def)

text \<open>\<open>blank\<close>: the bytes from one offset to another are whitespace.\<close>

definition blank :: "ustr \<Rightarrow> nat \<Rightarrow> nat \<Rightarrow> bool" where
  "blank text a b \<longleftrightarrow> a \<le> b \<and> b \<le> str_len text \<and> (\<forall>k. a \<le> k \<and> k < b \<longrightarrow> is_whitespace_byte (str_bytes text ! k))"

lemma blank_boundary:
  assumes "list_all scalar text" "blank text a b"
  shows "boundary text a \<longleftrightarrow> boundary text b"
proof (cases "a = b")
  case False
  then have "boundary text a" using assms ws_ascii boundary_ascii [of "text" a] by (auto simp: blank_def)
  moreover have "boundary text (Suc (b - 1))"
    using False assms ws_ascii boundary_ascii [of "text" "b - 1"] by (auto simp: blank_def)
  ultimately show ?thesis using False assms(2) by (simp add: blank_def)
qed simp

lemma blank_ink: "blank text a b \<Longrightarrow> filter ink (between (str_bytes text) a b) = []"
  by (auto simp: ink_def between_def blank_def filter_empty_conv in_set_conv_nth)

lemma blank_same: "blank text1 a b \<Longrightarrow> blank text2 c d \<Longrightarrow> ws_same ink (str_bytes text1) (str_bytes text2) a b c d"
  using blank_ink [of text1 a b] blank_ink [of text2 c d] by (simp add: ws_same_def blank_def)

lemma blank_refl [simp]: "blank text a a \<longleftrightarrow> a \<le> str_len text"
  by (auto simp: blank_def)

lemma same_ws_blank:
  assumes "same_run same_whitespace_byte (str_bytes text1) (str_bytes text2) i j n"
  shows "blank text1 i (i + n)" "blank text2 j (j + n)"
proof -
  have run: "i + n \<le> str_len text1" "j + n \<le> str_len text2"
    "\<forall>k<n. str_bytes text1 ! (i + k) = str_bytes text2 ! (j + k) \<and> is_whitespace_byte (str_bytes text1 ! (i + k))"
    using assms by (auto simp: same_run_def same_whitespace_byte_def)
  have "is_whitespace_byte (str_bytes text1 ! k)" if "i \<le> k" "k < i + n" for k using run(3) that by (metis le_add_diff_inverse add.commute less_diff_conv2)
  moreover have "is_whitespace_byte (str_bytes text2 ! k)" if "j \<le> k" "k < j + n" for k using run(3) that by (metis le_add_diff_inverse add.commute less_diff_conv2)
  ultimately show "blank text1 i (i + n)" "blank text2 j (j + n)" using run(1,2) by (auto simp: blank_def)
qed

lemma runs_trim_start: "a \<le> b \<Longrightarrow> b \<le> str_len text \<Longrightarrow> runs (trim_start text a b) (\<lambda>r. blank text a r \<and> r \<le> b)"
proof (induction "text" a b rule: trim_start.induct)
  case (1 "text" a b)
  show ?case
  proof (cases "a < b \<and> is_whitespace_byte (str_bytes text ! a)")
    case True
    have "blank text a r" if "blank text (a + 1) r" for r
      using that True "1.prems" by (auto simp: blank_def) (metis Suc_leI le_neq_implies_less)
    moreover have "runs (trim_start text (a + 1) b) (\<lambda>r. blank text (a + 1) r \<and> r \<le> b)"
      using True "1.prems" by (intro "1.IH") (auto simp: nth_or_panic_def)
    ultimately show ?thesis using True "1.prems" by (subst trim_start.simps) (auto simp: nth_or_panic_def elim: runs_mono)
  next
    case False
    with "1.prems" show ?thesis by (subst trim_start.simps) (auto simp: nth_or_panic_def)
  qed
qed

lemma runs_trim_end: "a \<le> b \<Longrightarrow> b \<le> str_len text \<Longrightarrow> runs (trim_end text a b) (\<lambda>r. blank text r b \<and> a \<le> r)"
proof (induction "text" a b rule: trim_end.induct)
  case (1 "text" a b)
  show ?case
  proof (cases "a < b \<and> is_whitespace_byte (str_bytes text ! (b - 1))")
    case True
    have "blank text r b" if "blank text r (b - 1)" for r
      using that True "1.prems" by (auto simp: blank_def) (metis Suc_pred less_SucE less_nat_zero_code not_gr_zero)
    moreover have "runs (trim_end text a (b - 1)) (\<lambda>r. blank text r (b - 1) \<and> a \<le> r)"
      using True "1.prems" by (intro "1.IH") (auto simp: nth_or_panic_def)
    ultimately show ?thesis using True "1.prems" by (subst trim_end.simps) (auto simp: nth_or_panic_def elim: runs_mono)
  next
    case False
    with "1.prems" show ?thesis by (subst trim_end.simps) (auto simp: nth_or_panic_def)
  qed
qed

text \<open>A range inside another one that leaves out whitespace at its ends.\<close>

definition shrinks :: "ustr \<Rightarrow> ustr \<Rightarrow> range \<Rightarrow> range \<Rightarrow> bool" where
  "shrinks text1 text2 c r \<longleftrightarrow> r_start1 r \<le> r_end1 r \<and> r_start2 r \<le> r_end2 r \<and>
     blank text1 (r_start1 c) (r_start1 r) \<and> blank text2 (r_start2 c) (r_start2 r) \<and>
     blank text1 (r_end1 r) (r_end1 c) \<and> blank text2 (r_end2 r) (r_end2 c)"

lemma blank_trans: "blank text a b \<Longrightarrow> blank text b c \<Longrightarrow> blank text a c"
  by (auto simp: blank_def) (metis not_less)

lemma shrinks_trans: "shrinks text1 text2 c d \<Longrightarrow> shrinks text1 text2 d e \<Longrightarrow> shrinks text1 text2 c e"
  unfolding shrinks_def by (blast intro: blank_trans)

lemma shrinks_bounds:
  assumes "shrinks text1 text2 c r" "range_bounds text1 text2 c" "list_all scalar text1" "list_all scalar text2"
  shows "range_bounds text1 text2 r"
  using assms blank_boundary [of text1] blank_boundary [of text2] unfolding shrinks_def range_bounds_def by metis

lemma shrinks_loose:
  assumes "shrinks text1 text2 c r"
  shows "loose_path ink (str_bytes text1) (str_bytes text2) (r_start1 c) (r_start2 c) [r] (r_end1 c) (r_end2 c)"
    and "ws_same ink (str_bytes text1) (str_bytes text2) (r_start1 r) (r_end1 r) (r_start2 r) (r_end2 r) \<Longrightarrow>
      loose_path ink (str_bytes text1) (str_bytes text2) (r_start1 c) (r_start2 c) [] (r_end1 c) (r_end2 c)"
proof -
  have ends: "ws_same ink (str_bytes text1) (str_bytes text2) (r_start1 c) (r_start1 r) (r_start2 c) (r_start2 r)"
    "ws_same ink (str_bytes text1) (str_bytes text2) (r_end1 r) (r_end1 c) (r_end2 r) (r_end2 c)"
    using assms by (auto simp: shrinks_def intro: blank_same)
  with assms show "loose_path ink (str_bytes text1) (str_bytes text2) (r_start1 c) (r_start2 c) [r] (r_end1 c) (r_end2 c)"
    by (simp add: shrinks_def)
  assume "ws_same ink (str_bytes text1) (str_bytes text2) (r_start1 r) (r_end1 r) (r_start2 r) (r_end2 r)"
  with ends show "loose_path ink (str_bytes text1) (str_bytes text2) (r_start1 c) (r_start2 c) [] (r_end1 c) (r_end2 c)"
    by (auto intro: ws_same_append)
qed

lemma narrowed_shrinks:
  assumes "narrowed same_whitespace_byte (str_bytes text1) (str_bytes text2) c r"
  shows "shrinks text1 text2 c r"
proof -
  obtain f b where fb: "r_start1 c + f + b \<le> r_end1 c" "r_start2 c + f + b \<le> r_end2 c"
    and r: "r = mk_range (r_start1 c + f) (r_end1 c - b) (r_start2 c + f) (r_end2 c - b)"
    and run: "same_run same_whitespace_byte (str_bytes text1) (str_bytes text2) (r_start1 c) (r_start2 c) f"
      "same_run same_whitespace_byte (str_bytes text1) (str_bytes text2) (r_end1 c - b) (r_end2 c - b) b"
    using assms unfolding narrowed_def by blast
  from same_ws_blank [OF run(1)] same_ws_blank [OF run(2)] fb show ?thesis by (auto simp: shrinks_def r)
qed

section \<open>The corrections\<close>

lemma list_all2_filter:
  "list_all2 (\<lambda>x new. \<exists>y. R x y \<and> new = filter P [y]) xs news \<Longrightarrow> \<exists>ys. list_all2 R xs ys \<and> concat news = filter P ys"
proof (induction rule: list_all2_induct)
  case (Cons x xs new news)
  then obtain y ys where "R x y" "new = filter P [y]" "list_all2 R xs ys" "concat news = filter P ys" by blast
  then show ?case by (intro exI [of _ "y # ys"]) auto
qed simp

lemma changes_text_member:
  assumes "changes_text text1 text2 ch" "c \<in> set (ch_changed ch)"
  shows "r_start1 c \<le> r_end1 c" "r_end1 c \<le> str_len text1" "r_start2 c \<le> r_end2 c" "r_end2 c \<le> str_len text2" "range_bounds text1 text2 c"
proof -
  have path: "diff_path (=) (str_bytes text1) (str_bytes text2) False 0 0 (ch_changed ch) (str_len text1) (str_len text2)"
    using assms(1) by (simp add: changes_text_def changes_ok_def valid_diff_def)
  show "r_start1 c \<le> r_end1 c" "r_end1 c \<le> str_len text1" "r_start2 c \<le> r_end2 c" "r_end2 c \<le> str_len text2"
    using diff_path_in_bounds [OF path assms(2)] diff_path_wf [OF path assms(2)] by (auto simp: range_wf_def)
  show "range_bounds text1 text2 c" using assms by (auto simp: changes_text_def list_all_iff)
qed

lemma narrowed_mono: "narrowed eq xs ys c r \<Longrightarrow> (\<And>x y. eq x y \<Longrightarrow> eq' x y) \<Longrightarrow> narrowed eq' xs ys c r"
  unfolding narrowed_def by (blast intro: same_run_mono)

lemma runs_default_correction:
  assumes ch: "changes_text text1 text2 ch" and sc: "list_all scalar text1" "list_all scalar text2"
  shows "runs (default_correction ch text1 text2) (changes_text text1 text2)"
proof -
  let ?b1 = "str_bytes text1" and ?b2 = "str_bytes text2" and ?n = "narrowed same_whitespace_byte (str_bytes text1) (str_bytes text2)"
  have step: "runs (do {
         end_cut \<leftarrow> expand_whitespaces_backward text1 text2 (r_start1 r) (r_start2 r) (r_end1 r) (r_end2 r);
         end1 \<leftarrow> usub (r_end1 r) end_cut;
         end2 \<leftarrow> usub (r_end2 r) end_cut;
         start_cut \<leftarrow> expand_whitespaces_forward text1 text2 (r_start1 r) (r_start2 r) end1 end2;
         expanded \<leftarrow> range_new (r_start1 r + start_cut) end1 (r_start2 r + start_cut) end2;
         Some (if \<not> range_is_empty expanded then changes @ [expanded] else changes)
       }) (\<lambda>out. \<exists>new. out = changes @ new \<and> (\<exists>e. ?n r e \<and> new = filter (\<lambda>r. \<not> range_is_empty r) [e]))"
    if r: "r \<in> set (ch_changed ch)" for r changes
  proof -
    note mem = changes_text_member [OF ch r]
    obtain b where b: "expand_whitespaces_backward text1 text2 (r_start1 r) (r_start2 r) (r_end1 r) (r_end2 r) = Some b"
      "r_start1 r + b \<le> r_end1 r" "r_start2 r + b \<le> r_end2 r" "same_run same_whitespace_byte ?b1 ?b2 (r_end1 r - b) (r_end2 r - b) b"
      using runs_expand_backward [of "r_start1 r" "r_end1 r" ?b1 "r_start2 r" "r_end2 r" ?b2 same_whitespace_byte] mem
      by (auto simp: runs_iff expand_whitespaces_backward_def)
    have "r_start1 r \<le> r_end1 r - b" "r_end1 r - b \<le> str_len text1" "r_start2 r \<le> r_end2 r - b" "r_end2 r - b \<le> str_len text2"
      using mem b by linarith+
    then obtain f where f: "expand_whitespaces_forward text1 text2 (r_start1 r) (r_start2 r) (r_end1 r - b) (r_end2 r - b) = Some f"
      "r_start1 r + f \<le> r_end1 r - b" "r_start2 r + f \<le> r_end2 r - b" "same_run same_whitespace_byte ?b1 ?b2 (r_start1 r) (r_start2 r) f"
      using runs_expand_forward [of "r_start1 r" "r_end1 r - b" ?b1 "r_start2 r" "r_end2 r - b" ?b2 same_whitespace_byte]
      by (auto simp: runs_iff expand_whitespaces_forward_def)
    have le: "r_start1 r + f + b \<le> r_end1 r" "r_start2 r + f + b \<le> r_end2 r" using b(2,3) f(2,3) by linarith+
    have "?n r (mk_range (r_start1 r + f) (r_end1 r - b) (r_start2 r + f) (r_end2 r - b))"
      unfolding narrowed_def by (intro exI conjI, rule le(1), rule le(2), rule refl, rule f(4), rule b(4))
    moreover have "usub (r_end1 r) b = Some (r_end1 r - b)" "usub (r_end2 r) b = Some (r_end2 r - b)"
      using le by (auto simp: usub_def)
    moreover have "range_new (r_start1 r + f) (r_end1 r - b) (r_start2 r + f) (r_end2 r - b) =
        Some (mk_range (r_start1 r + f) (r_end1 r - b) (r_start2 r + f) (r_end2 r - b))"
      using f(2,3) by (simp add: range_new_def dassert_def)
    ultimately show ?thesis using b(1) f(1) by (simp only: bind.simps runs_Some) (intro exI conjI; (assumption | simp))
  qed
  have path: "diff_path (=) ?b1 ?b2 False 0 0 (ch_changed ch) (str_len text1) (str_len text2)"
    using ch by (simp add: changes_text_def changes_ok_def valid_diff_def)
  have result: "changes_text text1 text2 (changes_new (filter (\<lambda>r. \<not> range_is_empty r) es) (str_len text1) (str_len text2))"
    if es: "list_all2 ?n (ch_changed ch) es" for es
  proof -
    have "list_all2 (narrowed (=) ?b1 ?b2) (ch_changed ch) es"
      using es by (rule list_all2_mono) (auto simp: same_whitespace_byte_def elim: narrowed_mono)
    from diff_path_narrow [OF path this] have "valid_diff (=) ?b1 ?b2 (filter (\<lambda>r. \<not> range_is_empty r) es)" by (simp add: valid_diff_def)
    moreover have "list_all (range_bounds text1 text2) es"
      using es changes_text_member(5) [OF ch] shrinks_bounds [OF narrowed_shrinks _ sc]
      by (auto simp: list_all2_conv_all_nth list_all_length)
    ultimately show ?thesis by (auto simp: changes_text_def changes_ok_def list_all_iff)
  qed
  show ?thesis unfolding default_correction_def
    by (rule runs_bindI [OF runs_for_each_collect [OF step]], assumption, elim exE conjE, drule list_all2_filter, elim exE conjE)
      (simp add: result)
qed

text \<open>\<open>loose_text\<close>: the comparison of two texts that the corrections promise.\<close>

definition loose_text :: "(u8 \<Rightarrow> bool) \<Rightarrow> ustr \<Rightarrow> ustr \<Rightarrow> changes \<Rightarrow> bool" where
  "loose_text P text1 text2 ch \<longleftrightarrow> loose_path P (str_bytes text1) (str_bytes text2) 0 0 (ch_changed ch) (str_len text1) (str_len text2) \<and>
     list_all (range_bounds text1 text2) (ch_changed ch) \<and> ch_len1 ch = str_len text1 \<and> ch_len2 ch = str_len text2"

lemma changes_text_loose: "changes_text text1 text2 ch \<Longrightarrow> loose_text P text1 text2 ch"
  by (auto simp: changes_text_def changes_ok_def valid_diff_def loose_text_def intro: diff_path_loose)

definition loose_part :: "ustr \<Rightarrow> ustr \<Rightarrow> range \<Rightarrow> range list \<Rightarrow> bool" where
  "loose_part text1 text2 c new \<longleftrightarrow>
     loose_path ink (str_bytes text1) (str_bytes text2) (r_start1 c) (r_start2 c) new (r_end1 c) (r_end2 c) \<and>
     list_all (range_bounds text1 text2) new"

lemma loose_parts:
  assumes "loose_text ink text1 text2 ch" "list_all2 (loose_part text1 text2) (ch_changed ch) news"
  shows "loose_text ink text1 text2 (changes_new (concat news) (str_len text1) (str_len text2))"
proof -
  have "list_all2 (\<lambda>c new. loose_path ink (str_bytes text1) (str_bytes text2) (r_start1 c) (r_start2 c) new (r_end1 c) (r_end2 c)) (ch_changed ch) news"
    using assms(2) by (rule list_all2_mono) (simp add: loose_part_def)
  moreover have "list_all (range_bounds text1 text2) (concat news)"
    using assms(2) by (auto simp: list_all2_conv_all_nth list_all_iff loose_part_def in_set_conv_nth) (metis nth_mem)
  ultimately show ?thesis using assms(1) loose_path_replace by (auto simp: loose_text_def)
qed

lemma is_equals_ink: "is_equals a b p \<Longrightarrow> filter ink (str_bytes a) = filter ink (str_bytes b)"
  using is_equals_imp_Ignore [of a b p] by (simp add: equals_iff non_whitespace_bytes_def ink_def [abs_def])

lemma runs_keep_changed:
  assumes r: "shrinks text1 text2 c r" "range_bounds text1 text2 r"
  shows "runs (do {
      equal \<leftarrow> (if \<not> range_is_empty r then is_equals_range text1 text2 r p else Some True);
      Some (if \<not> equal then changes @ [r] else changes)
    }) (\<lambda>out. \<exists>new. out = changes @ new \<and> loose_part text1 text2 c new)"
proof -
  have le: "r_start1 r \<le> r_end1 r" "r_start2 r \<le> r_end2 r" "r_end1 r \<le> str_len text1" "r_end2 r \<le> str_len text2"
    using r by (auto simp: shrinks_def blank_def)
  obtain a b where s: "str_slice text1 (r_start1 r) (r_end1 r) = Some a" "str_slice text2 (r_start2 r) (r_end2 r) = Some b"
    using r(2) le str_slice_boundary unfolding range_bounds_def by metis
  have equal: "loose_part text1 text2 c []" if "range_is_empty r \<or> is_equals a b p"
  proof -
    have "ws_same ink (str_bytes text1) (str_bytes text2) (r_start1 r) (r_end1 r) (r_start2 r) (r_end2 r)"
      using that le is_equals_ink [of a b p] str_slice_bytes [OF s(1)] str_slice_bytes [OF s(2)]
      by (auto simp: ws_same_def between_def range_is_empty_def)
    then show ?thesis using shrinks_loose(2) [OF r(1)] by (simp add: loose_part_def)
  qed
  have changed: "loose_part text1 text2 c [r]" using shrinks_loose(1) [OF r(1)] r(2) by (simp add: loose_part_def)
  show ?thesis using equal changed s by (auto simp: is_equals_range_def)
qed

lemma runs_trim_range:
  assumes "r_start1 r \<le> r_end1 r" "r_end1 r \<le> str_len text1" "r_start2 r \<le> r_end2 r" "r_end2 r \<le> str_len text2"
  shows "runs (trim_range text1 text2 r) (shrinks text1 text2 r)"
proof -
  obtain a where a: "trim_start text1 (r_start1 r) (r_end1 r) = Some a" "blank text1 (r_start1 r) a" "a \<le> r_end1 r"
    using runs_trim_start [OF assms(1,2)] by (auto simp: runs_iff)
  moreover obtain b where "trim_end text1 a (r_end1 r) = Some b" "blank text1 b (r_end1 r)" "a \<le> b"
    using runs_trim_end [OF a(3) assms(2)] by (auto simp: runs_iff)
  moreover obtain c where c: "trim_start text2 (r_start2 r) (r_end2 r) = Some c" "blank text2 (r_start2 r) c" "c \<le> r_end2 r"
    using runs_trim_start [OF assms(3,4)] by (auto simp: runs_iff)
  moreover obtain d where "trim_end text2 c (r_end2 r) = Some d" "blank text2 d (r_end2 r)" "c \<le> d"
    using runs_trim_end [OF c(3) assms(4)] by (auto simp: runs_iff)
  ultimately show ?thesis by (simp add: trim_range_def wp shrinks_def)
qed

lemma expand_whitespaces_expand:
  "expand_whitespaces text1 text2 r =
     expand same_whitespace_byte (str_bytes text1) (str_bytes text2) (r_start1 r) (r_start2 r) (r_end1 r) (r_end2 r)"
  by (simp add: expand_whitespaces_def expand_def expand_whitespaces_forward_def expand_whitespaces_backward_def)

lemma runs_expand_whitespaces:
  assumes "r_start1 r \<le> r_end1 r" "r_end1 r \<le> str_len text1" "r_start2 r \<le> r_end2 r" "r_end2 r \<le> str_len text2"
  shows "runs (expand_whitespaces text1 text2 r) (shrinks text1 text2 r)"
  unfolding expand_whitespaces_expand
  by (rule runs_mono [OF runs_expand], simp_all add: assms, rule narrowed_shrinks, unfold narrowed_def, blast)

lemma shrinks_le:
  assumes "shrinks text1 text2 c r"
  shows "r_start1 r \<le> r_end1 r" "r_end1 r \<le> str_len text1" "r_start2 r \<le> r_end2 r" "r_end2 r \<le> str_len text2"
  using assms by (auto simp: shrinks_def blank_def)

lemma runs_ignore_spaces_correction:
  assumes ch: "changes_text text1 text2 ch" and sc: "list_all scalar text1" "list_all scalar text2"
  shows "runs (ignore_spaces_correction ch text1 text2) (loose_text ink text1 text2)"
proof -
  have step: "runs (do {
         expanded \<leftarrow> expand_whitespaces text1 text2 r;
         trimmed \<leftarrow> trim_range text1 text2 expanded;
         equal \<leftarrow> (if \<not> range_is_empty trimmed then is_equals_range text1 text2 trimmed IgnoreWhitespaces else Some True);
         Some (if \<not> equal then changes @ [trimmed] else changes)
       }) (\<lambda>out. \<exists>new. out = changes @ new \<and> loose_part text1 text2 r new)"
    if r: "r \<in> set (ch_changed ch)" for r changes
  proof (rule runs_bindI [OF runs_expand_whitespaces [OF changes_text_member(1-4) [OF ch r]]])
    fix e
    assume e: "shrinks text1 text2 r e"
    show "runs (do {
         trimmed \<leftarrow> trim_range text1 text2 e;
         equal \<leftarrow> (if \<not> range_is_empty trimmed then is_equals_range text1 text2 trimmed IgnoreWhitespaces else Some True);
         Some (if \<not> equal then changes @ [trimmed] else changes)
       }) (\<lambda>out. \<exists>new. out = changes @ new \<and> loose_part text1 text2 r new)"
    proof (rule runs_bindI [OF runs_trim_range [OF shrinks_le [OF e]]])
      fix t
      assume "shrinks text1 text2 e t"
      with e have t: "shrinks text1 text2 r t" by (rule shrinks_trans)
      show "runs (do {
         equal \<leftarrow> (if \<not> range_is_empty t then is_equals_range text1 text2 t IgnoreWhitespaces else Some True);
         Some (if \<not> equal then changes @ [t] else changes)
       }) (\<lambda>out. \<exists>new. out = changes @ new \<and> loose_part text1 text2 r new)"
        by (rule runs_keep_changed [OF t shrinks_bounds [OF t changes_text_member(5) [OF ch r] sc]])
    qed
  qed
  show ?thesis unfolding ignore_spaces_correction_def
    by (rule runs_bindI [OF runs_for_each_collect [OF step]], assumption)
      (auto intro: loose_parts [OF changes_text_loose [OF ch]])
qed

text \<open>The tests for leading and trailing space never panic, and trimming one side keeps it inside the change.\<close>

lemma leading_loop_total: "n \<le> length bs \<Longrightarrow> \<exists>b. leading_loop bs n = Some b"
  by (induction n) (auto simp: nth_or_panic_def)

lemma trailing_loop_total: "\<exists>b. trailing_loop bs n = Some b"
proof (induction bs n rule: trailing_loop.induct)
  case (1 bs n)
  then show ?case by (subst trailing_loop.simps) (auto simp: nth_or_panic_def)
qed

lemma is_leading_trailing_space_total: "\<exists>b. is_leading_trailing_space text x = Some b"
proof (cases x)
  case None
  then show ?thesis by (auto simp: is_leading_trailing_space_def)
next
  case (Some k)
  obtain l t where "is_leading_space text k = Some l" "is_trailing_space text k = Some t"
    using leading_loop_total [of k "str_bytes text"] trailing_loop_total [of "str_bytes text" k]
    by (cases "k < str_len text"; cases "is_whitespace_byte (str_bytes text ! k)")
      (auto simp: is_leading_space_def is_trailing_space_def nth_or_panic_def)
  with Some show ?thesis by (auto simp: is_leading_trailing_space_def)
qed

lemma runs_trim_side:
  assumes "a \<le> b" "b \<le> str_len text"
  obtains l a' t b' where "is_leading_trailing_space text (Some a) = Some l"
    "(if l then trim_start text a b else Some a) = Some a'" "is_leading_trailing_space text (checked_sub b 1) = Some t"
    "(if t then trim_end text a' b else Some b) = Some b'" "blank text a a'" "a' \<le> b'" "blank text b' b"
proof -
  obtain l t where lt: "is_leading_trailing_space text (Some a) = Some l" "is_leading_trailing_space text (checked_sub b 1) = Some t"
    using is_leading_trailing_space_total by blast
  have "runs (if l then trim_start text a b else Some a) (\<lambda>r. blank text a r \<and> r \<le> b)" using runs_trim_start [OF assms] assms by simp
  then obtain a' where a': "(if l then trim_start text a b else Some a) = Some a'" "blank text a a'" "a' \<le> b" unfolding runs_iff by blast
  have "runs (if t then trim_end text a' b else Some b) (\<lambda>r. blank text r b \<and> a' \<le> r)"
    using runs_trim_end [OF a'(3) assms(2)] assms a'(3) by simp
  then obtain b' where "(if t then trim_end text a' b else Some b) = Some b'" "blank text b' b" "a' \<le> b'" unfolding runs_iff by blast
  with lt a' show thesis by (intro that)
qed

lemma runs_trim_spaces_correction:
  assumes ch: "changes_text text1 text2 ch" and sc: "list_all scalar text1" "list_all scalar text2"
  shows "runs (trim_spaces_correction ch text1 text2) (loose_text ink text1 text2)"
proof -
  let ?step = "\<lambda>changes r. do {
         let start1 = r_start1 r;
         let start2 = r_start2 r;
         let end1 = r_end1 r;
         let end2 = r_end2 r;
         at_start1 \<leftarrow> is_leading_trailing_space text1 (Some start1);
         start1 \<leftarrow> (if at_start1 then trim_start text1 start1 end1 else Some start1);
         at_end1 \<leftarrow> is_leading_trailing_space text1 (checked_sub end1 1);
         end1 \<leftarrow> (if at_end1 then trim_end text1 start1 end1 else Some end1);
         at_start2 \<leftarrow> is_leading_trailing_space text2 (Some start2);
         start2 \<leftarrow> (if at_start2 then trim_start text2 start2 end2 else Some start2);
         at_end2 \<leftarrow> is_leading_trailing_space text2 (checked_sub end2 1);
         end2 \<leftarrow> (if at_end2 then trim_end text2 start2 end2 else Some end2);
         trimmed \<leftarrow> range_new start1 end1 start2 end2;
         equal \<leftarrow> (if \<not> range_is_empty trimmed then is_equals_range text1 text2 trimmed Default else Some True);
         Some (if \<not> equal then changes @ [trimmed] else changes)
       }"
  have step: "runs (?step changes r) (\<lambda>out. \<exists>new. out = changes @ new \<and> loose_part text1 text2 r new)"
    if r: "r \<in> set (ch_changed ch)" for r changes
  proof -
    note mem = changes_text_member [OF ch r]
    obtain l a t b where s1: "is_leading_trailing_space text1 (Some (r_start1 r)) = Some l"
      "(if l then trim_start text1 (r_start1 r) (r_end1 r) else Some (r_start1 r)) = Some a"
      "is_leading_trailing_space text1 (checked_sub (r_end1 r) 1) = Some t"
      "(if t then trim_end text1 a (r_end1 r) else Some (r_end1 r)) = Some b"
      and b1: "blank text1 (r_start1 r) a" "a \<le> b" "blank text1 b (r_end1 r)"
      using runs_trim_side [OF mem(1,2)] by metis
    obtain l' a' t' b' where s2: "is_leading_trailing_space text2 (Some (r_start2 r)) = Some l'"
      "(if l' then trim_start text2 (r_start2 r) (r_end2 r) else Some (r_start2 r)) = Some a'"
      "is_leading_trailing_space text2 (checked_sub (r_end2 r) 1) = Some t'"
      "(if t' then trim_end text2 a' (r_end2 r) else Some (r_end2 r)) = Some b'"
      and b2: "blank text2 (r_start2 r) a'" "a' \<le> b'" "blank text2 b' (r_end2 r)"
      using runs_trim_side [OF mem(3,4)] by metis
    have new: "range_new a b a' b' = Some (mk_range a b a' b')" using b1 b2 by (simp add: range_new_def dassert_def)
    have sh: "shrinks text1 text2 r (mk_range a b a' b')" using b1 b2 by (simp add: shrinks_def)
    show ?thesis unfolding Let_def s1 s2 new bind.simps
      by (rule runs_keep_changed [OF sh shrinks_bounds [OF sh mem(5) sc]])
  qed
  show ?thesis unfolding trim_spaces_correction_def
    by (rule runs_bindI [OF runs_for_each_collect [OF step]], assumption)
      (auto intro: loose_parts [OF changes_text_loose [OF ch]])
qed

text \<open>
  The corrections together: under every policy the changes describe the difference of the two texts up to whitespace, and
  under the default policy exactly.
\<close>

lemma runs_match_adjustment_whitespaces:
  assumes ch: "changes_text text1 text2 ch" and sc: "list_all scalar text1" "list_all scalar text2"
  shows "runs (match_adjustment_whitespaces text1 text2 ch policy) (\<lambda>r. loose_text (significant policy) text1 text2 r \<and>
    (policy = Default \<longrightarrow> changes_text text1 text2 r))"
proof (cases policy)
  case Default
  then show ?thesis using runs_default_correction [OF assms] by (auto intro: changes_text_loose elim!: runs_mono)
next
  case TrimWhitespaces
  then show ?thesis
    by (simp, intro runs_bindI [OF runs_default_correction [OF assms]] runs_trim_spaces_correction sc)
next
  case IgnoreWhitespaces
  then show ?thesis using runs_ignore_spaces_correction [OF assms] by simp
qed

section \<open>The text of a block\<close>

lemma block_member:
  assumes "cut_point text ws a x" "cut_point text ws c y" "w \<in> set (take (c - a) (drop a ws))"
  obtains k where "a \<le> k" "k < c" "k < length ws" "w = ws ! k" "x \<le> chunk_start w" "chunk_end w \<le> y"
proof -
  obtain k where k: "k < c - a" "k < length ws - a" "w = ws ! (a + k)" using assms(3) by (auto simp: in_set_conv_nth)
  then have "a \<le> a + k" "a + k < c" "a + k < length ws" by auto
  moreover from this have "x \<le> chunk_start (ws ! (a + k))" "chunk_end (ws ! (a + k)) \<le> y" using assms(1,2) by (auto simp: cut_point_def)
  ultimately show thesis using k(3) by (intro that) auto
qed

lemma block_words_cut:
  assumes ws: "words_from text 0 ws" and cuts: "cut_point text ws a x" "cut_point text ws c y" and v: "str_slice text x y = Some v"
  shows "block_words v x (take (c - a) (drop a ws))"
proof -
  have "x \<le> chunk_start w \<and> chunk_start w < chunk_end w \<and> boundary v (chunk_start w - x) \<and> boundary v (chunk_end w - x)"
    if w: "w \<in> set (take (c - a) (drop a ws))" for w
  proof -
    obtain k where k: "k < length ws" "w = ws ! k" "x \<le> chunk_start w" "chunk_end w \<le> y"
      using block_member [OF cuts w] by metis
    then show ?thesis using words_nth [OF ws k(1)] boundary_slice [OF v, of "chunk_start w"] boundary_slice [OF v, of "chunk_end w"] by auto
  qed
  moreover have "sorted_wrt (\<lambda>v w. chunk_end v \<le> chunk_start w) ws"
    using words_order [OF ws] by (auto simp: sorted_wrt_iff_nth_less)
  ultimately show ?thesis by (auto simp: block_words_def sorted_wrt_take sorted_wrt_drop)
qed

lemma word_eq_run:
  assumes "word_eq text1 text2 v w" "words_from text1 0 ws1" "v \<in> set ws1" "words_from text2 0 ws2" "w \<in> set ws2"
  shows "chunk_end v - chunk_start v = chunk_end w - chunk_start w"
    "same_run (=) (str_bytes text1) (str_bytes text2) (chunk_start v) (chunk_start w) (chunk_end v - chunk_start v)"
proof -
  obtain k l where kl: "k < length ws1" "v = ws1 ! k" "l < length ws2" "w = ws2 ! l" using assms(3,5) by (auto simp: in_set_conv_nth)
  note v = words_nth [OF assms(2) kl(1), folded kl(2)] and w = words_nth [OF assms(4) kl(3), folded kl(4)]
  obtain t where t: "token text1 v = Some t" "token text2 w = Some t" using assms(1) by (auto simp: word_eq_def)
  have "chunk_end v - chunk_start v = chunk_end w - chunk_start w \<and>
    same_run (=) (str_bytes text1) (str_bytes text2) (chunk_start v) (chunk_start w) (chunk_end v - chunk_start v)"
  proof (cases t)
    case (WordToken u)
    with t obtain a b c d where vw: "v = Word a b" "w = Word c d" "str_slice text1 a b = Some u" "str_slice text2 c d = Some u"
      by (cases v; cases w) auto
    then obtain p q p' q' where "text1 = p @ u @ q" "str_len p = a" "a + str_len u = b" "text2 = p' @ u @ q'" "str_len p' = c" "c + str_len u = d"
      by (auto elim!: str_slice_Some)
    then show ?thesis using vw(1,2) by (auto simp: same_run_def nth_append)
  next
    case NewlineToken
    with t obtain a c where vw: "v = Newline a" "w = Newline c" by (cases v; cases w) auto
    with v w show ?thesis by (auto simp: same_run_def)
  qed
  then show "chunk_end v - chunk_start v = chunk_end w - chunk_start w"
    "same_run (=) (str_bytes text1) (str_bytes text2) (chunk_start v) (chunk_start w) (chunk_end v - chunk_start v)" by auto
qed

lemma block_changes:
  assumes ws: "words_from text1 0 ws1" "words_from text2 0 ws2"
    and cuts1: "cut_point text1 ws1 a x" "cut_point text1 ws1 c y" and cuts2: "cut_point text2 ws2 b x'" "cut_point text2 ws2 d y'"
    and v: "str_slice text1 x y = Some v1" "str_slice text2 x' y' = Some v2"
    and ch: "changes_ok (word_eq text1 text2) (take (c - a) (drop a ws1)) (take (d - b) (drop b ws2)) ch"
  shows "changes_ok (block_eq v1 x v2 x') (take (c - a) (drop a ws1)) (take (d - b) (drop b ws2)) ch"
proof -
  let ?s1 = "take (c - a) (drop a ws1)" and ?s2 = "take (d - b) (drop b ws2)"
  have eq: "block_eq v1 x v2 x' u w" if "word_eq text1 text2 u w" "u \<in> set ?s1" "w \<in> set ?s2" for u w
  proof -
    have u: "u \<in> set ws1" "x \<le> chunk_start u" "chunk_end u \<le> y" and w: "w \<in> set ws2" "x' \<le> chunk_start w" "chunk_end w \<le> y'"
      using block_member [OF cuts1 that(2)] block_member [OF cuts2 that(3)] by (metis nth_mem)+
    note run = word_eq_run [OF that(1) ws(1) u(1) ws(2) w(1)]
    have len: "y \<le> str_len text1" "y' \<le> str_len text2" using cuts1(2) cuts2(2) by (auto simp: cut_point_def dest: boundary_le)
    have lt: "chunk_start u < chunk_end u" "chunk_start w < chunk_end w"
      using u(1) w(1) words_nth(2) [OF ws(1)] words_nth(2) [OF ws(2)] by (auto simp: in_set_conv_nth)
    have "same_run (=) (take (y - x) (drop x (str_bytes text1))) (take (y' - x') (drop x' (str_bytes text2)))
        (chunk_start u - x) (chunk_start w - x') (chunk_end u - chunk_start u)"
      by (rule same_run_window [OF run(2)]) (use u w run(1) len lt in auto)
    then show ?thesis unfolding block_eq_def str_slice_bytes [OF v(1)] str_slice_bytes [OF v(2)] using run(1) by simp
  qed
  have "valid_diff (\<lambda>u w. word_eq text1 text2 u w \<and> u \<in> set ?s1 \<and> w \<in> set ?s2) ?s1 ?s2 (ch_changed ch)"
    using ch by (intro valid_diff_members) (simp add: changes_ok_def)
  then have "valid_diff (block_eq v1 x v2 x') ?s1 ?s2 (ch_changed ch)" by (rule valid_diff_mono) (use eq in blast)
  with ch show ?thesis by (simp add: changes_ok_def)
qed

section \<open>Blocks, lines and fragments\<close>

lemma nl_offsets_bounds: "k \<in> set (nl_offsets off bs) \<Longrightarrow> off \<le> k \<and> k < off + length bs"
  by (auto simp: nl_offsets_def in_set_enumerate_eq)

text \<open>The chunks before a cut hold as many line breaks as the text before it.\<close>

lemma cut_newlines:
  assumes ws: "words_from text 0 ws" and nl: "map chunk_start (filter is_newline ws) = nl_offsets 0 (str_bytes text)"
    and cut: "cut_point text ws a x"
  shows "length (filter is_newline (take a ws)) = count_list (take x (str_bytes text)) 10"
proof -
  let ?b = "str_bytes text"
  have x: "x \<le> str_len text" "a \<le> length ws" using cut by (auto simp: cut_point_def dest: boundary_le)
  have "chunk_start w < x" if w: "w \<in> set (take a ws)" for w
  proof -
    obtain k where k: "k < a" "k < length ws" "w = ws ! k" using w by (auto simp: in_set_conv_nth)
    with cut have "chunk_end w \<le> x" by (simp add: cut_point_def)
    with words_nth(2) [OF ws k(2)] k(3) show ?thesis by simp
  qed
  moreover have "\<not> chunk_start w < x" if w: "w \<in> set (drop a ws)" for w
  proof -
    obtain k where k: "k < length ws - a" "w = ws ! (a + k)" using w x(2) by (auto simp: in_set_conv_nth)
    then have "a + k < length ws" by simp
    with k(2) cut have "x \<le> chunk_start w" by (simp add: cut_point_def)
    then show ?thesis by simp
  qed
  ultimately have "filter (\<lambda>k. k < x) (map chunk_start (filter is_newline (take a ws @ drop a ws))) = map chunk_start (filter is_newline (take a ws))"
    by (simp add: filter_map o_def filter_empty_conv del: append_take_drop_id) (simp cong: filter_cong)
  moreover have "filter (\<lambda>k. k < x) (nl_offsets 0 (take x ?b @ drop x ?b)) = nl_offsets 0 (take x ?b)"
    unfolding nl_offsets_append filter_append using x(1) nl_offsets_bounds [of _ 0 "take x ?b"] nl_offsets_bounds [of _ x "drop x ?b"]
    by (force simp: filter_empty_conv intro: filter_True)
  ultimately have "map chunk_start (filter is_newline (take a ws)) = nl_offsets 0 (take x ?b)" using nl by simp
  then show ?thesis by (metis length_map nl_offsets_count)
qed

lemma block_newlines:
  assumes ws: "words_from text 0 ws" and nl: "map chunk_start (filter is_newline ws) = nl_offsets 0 (str_bytes text)"
    and cuts: "cut_point text ws a x" "cut_point text ws c y" "a \<le> c" "x \<le> y"
  shows "length (filter is_newline (take (c - a) (drop a ws))) = count_list (between (str_bytes text) x y) 10"
proof -
  have "take c ws = take a ws @ take (c - a) (drop a ws)" "take y (str_bytes text) = take x (str_bytes text) @ between (str_bytes text) x y"
    using cuts(3,4) by (auto simp: between_def simp flip: take_add)
  then show ?thesis using cut_newlines [OF ws nl cuts(1)] cut_newlines [OF ws nl cuts(2)] by simp
qed

lemma words_length: "words_from text i ws \<Longrightarrow> i + length ws \<le> str_len text"
proof (induction ws arbitrary: i)
  case (Cons w ws)
  from Cons.prems have "i \<le> chunk_start w" "chunk_start w < chunk_end w" "words_from text (chunk_end w) ws" by auto
  with Cons.IH [of "chunk_end w"] show ?case by simp
qed simp

text \<open>
  What a block promises: it consists of whole lines, its fragments start and end at characters and describe the difference
  between the two pieces of text it covers, and it counts their line breaks.
\<close>

definition frag_range :: "diff_fragment \<Rightarrow> range" where
  "frag_range f = mk_range (df_start1 f) (df_end1 f) (df_start2 f) (df_end2 f)"

definition fragments_ok :: "ComparisonPolicy \<Rightarrow> ustr \<Rightarrow> ustr \<Rightarrow> range list \<Rightarrow> bool" where
  "fragments_ok policy text1 text2 rs \<longleftrightarrow>
     loose_path (significant policy) (str_bytes text1) (str_bytes text2) 0 0 rs (str_len text1) (str_len text2) \<and>
     list_all (range_bounds text1 text2) rs \<and> (policy = Default \<longrightarrow> valid_diff (=) (str_bytes text1) (str_bytes text2) rs)"

definition line_block_ok :: "ComparisonPolicy \<Rightarrow> ustr \<Rightarrow> ustr \<Rightarrow> line_block \<Rightarrow> bool" where
  "line_block_ok policy text1 text2 b \<longleftrightarrow> (let offs = lb_offsets b in
     line_corner text1 text2 (r_start1 offs) (r_start2 offs) \<and> line_corner text1 text2 (r_end1 offs) (r_end2 offs) \<and>
     lb_newlines1 b = count_list (between (str_bytes text1) (r_start1 offs) (r_end1 offs)) 10 \<and>
     lb_newlines2 b = count_list (between (str_bytes text2) (r_start2 offs) (r_end2 offs)) 10 \<and>
     (\<exists>sub1 sub2. str_slice text1 (r_start1 offs) (r_end1 offs) = Some sub1 \<and> str_slice text2 (r_start2 offs) (r_end2 offs) = Some sub2 \<and>
       fragments_ok policy sub1 sub2 (map frag_range (lb_fragments b))))"

fun blocks_tile :: "nat \<Rightarrow> nat \<Rightarrow> line_block list \<Rightarrow> nat \<Rightarrow> nat \<Rightarrow> bool" where
  "blocks_tile i j [] m n \<longleftrightarrow> i = m \<and> j = n"
| "blocks_tile i j (b # bs) m n \<longleftrightarrow> r_start1 (lb_offsets b) = i \<and> r_start2 (lb_offsets b) = j \<and> range_wf (lb_offsets b) \<and>
     blocks_tile (r_end1 (lb_offsets b)) (r_end2 (lb_offsets b)) bs m n"

lemma frag_range_convert [simp]: "map frag_range (convert_into_fragments ch) = ch_changed ch"
  by (simp add: convert_into_fragments_def frag_range_def o_def)

lemma scalar_slice: "str_slice text a b = Some v \<Longrightarrow> list_all scalar text \<Longrightarrow> list_all scalar v"
  by (auto elim!: str_slice_Some)

lemma runs_compare_block:
  assumes engine: "engine_ok (\<lambda>_. True) (=) char_engine"
    and sc: "list_all scalar text1" "list_all scalar text2" and size: "str_len text1 < ENGINE_TOKEN_LIMIT" "str_len text2 < ENGINE_TOKEN_LIMIT"
    and ws: "words_from text1 0 ws1" "words_from text2 0 ws2"
    and nl: "map chunk_start (filter is_newline ws1) = nl_offsets 0 (str_bytes text1)"
      "map chunk_start (filter is_newline ws2) = nl_offsets 0 (str_bytes text2)"
    and corners: "good_corner text1 text2 ws1 ws2 cs (wb_from b)" "good_corner text1 text2 ws1 ws2 cs (wb_to b)" and wf: "wb_wf b"
    and ch: "changes_ok (word_eq text1 text2) (block_words1 ws1 b) (block_words2 ws2 b) ch"
  shows "runs (compare_block char_engine text1 text2 policy ws1 ws2 (b, ch))
    (\<lambda>lb. lb_offsets lb = wb_offsets b \<and> line_block_ok policy text1 text2 lb)"
proof -
  let ?o = "wb_offsets b" and ?w = "wb_words b"
  have c1: "cut_point text1 ws1 (r_start1 ?w) (r_start1 ?o)" "cut_point text1 ws1 (r_end1 ?w) (r_end1 ?o)"
    and c2: "cut_point text2 ws2 (r_start2 ?w) (r_start2 ?o)" "cut_point text2 ws2 (r_end2 ?w) (r_end2 ?o)"
    using corners by (auto simp: good_corner_def wb_from_def wb_to_def)
  have le: "r_start1 ?w \<le> r_end1 ?w" "r_start2 ?w \<le> r_end2 ?w" "r_start1 ?o \<le> r_end1 ?o" "r_start2 ?o \<le> r_end2 ?o"
    using wf by (auto simp: wb_wf_def range_wf_def)
  have edges: "line_corner text1 text2 (r_start1 ?o) (r_start2 ?o)" "line_corner text1 text2 (r_end1 ?o) (r_end2 ?o)"
    using corners by (auto simp: good_corner_def wb_from_def wb_to_def)
  obtain v1 v2 where v: "str_slice text1 (r_start1 ?o) (r_end1 ?o) = Some v1" "str_slice text2 (r_start2 ?o) (r_end2 ?o) = Some v2"
    using c1 c2 le str_slice_boundary unfolding cut_point_def by metis
  have subs: "slice_or_panic ws1 (r_start1 ?w) (r_end1 ?w) = Some (block_words1 ws1 b)" "slice_or_panic ws2 (r_start2 ?w) (r_end2 ?w) = Some (block_words2 ws2 b)"
    using le c1(2) c2(2) by (auto simp: slice_or_panic_def block_words1_def block_words2_def cut_point_def)
  have "changes_ok (block_eq v1 (r_start1 ?o) v2 (r_start2 ?o)) (block_words1 ws1 b) (block_words2 ws2 b) ch"
    using block_changes [OF ws c1 c2 v, of ch] ch by (simp add: block_words1_def block_words2_def)
  moreover have "block_words v1 (r_start1 ?o) (block_words1 ws1 b)" "block_words v2 (r_start2 ?o) (block_words2 ws2 b)"
    using block_words_cut [OF ws(1) c1 v(1)] block_words_cut [OF ws(2) c2 v(2)] by (simp_all add: block_words1_def block_words2_def)
  moreover have sv: "list_all scalar v1" "list_all scalar v2" using sc v scalar_slice by auto
  ultimately have delims: "runs (match_adjustment_delimiters char_engine v1 v2 (block_words1 ws1 b) (block_words2 ws2 b) ch (r_start1 ?o) (r_start2 ?o))
      (changes_text v1 v2)"
    by (intro runs_match_adjustment_delimiters [OF engine]) (use slice_size [OF v(1)] slice_size [OF v(2)] size in auto)
  have newlines: "length (filter is_newline (block_words1 ws1 b)) = count_list (between (str_bytes text1) (r_start1 ?o) (r_end1 ?o)) 10"
    "length (filter is_newline (block_words2 ws2 b)) = count_list (between (str_bytes text2) (r_start2 ?o) (r_end2 ?o)) 10"
    unfolding block_words1_def block_words2_def using block_newlines [OF ws(1) nl(1) c1 le(1,3)] block_newlines [OF ws(2) nl(2) c2 le(2,4)] by simp_all
  have ok: "line_block_ok policy text1 text2 \<lparr>lb_fragments = convert_into_fragments r, lb_offsets = ?o,
      lb_newlines1 = length (filter is_newline (block_words1 ws1 b)), lb_newlines2 = length (filter is_newline (block_words2 ws2 b))\<rparr>"
    if "loose_text (significant policy) v1 v2 r \<and> (policy = Default \<longrightarrow> changes_text v1 v2 r)" for r
    using that edges v newlines
    by (simp add: line_block_ok_def Let_def fragments_ok_def loose_text_def changes_text_def changes_ok_def)
  show ?thesis unfolding compare_block_def prod.case Let_def v subs bind.simps
    by (rule runs_bindI [OF delims], rule runs_bindI [OF runs_match_adjustment_whitespaces [OF _ sv]], assumption) (simp add: ok)
qed

lemma chain_tiles:
  "chain good x bs y \<Longrightarrow> list_all2 (\<lambda>b lb. lb_offsets lb = wb_offsets b) bs lbs \<Longrightarrow>
   blocks_tile (fst (snd (snd x))) (snd (snd (snd x))) lbs (fst (snd (snd y))) (snd (snd (snd y)))"
proof (induction bs arbitrary: x lbs)
  case (Cons b bs)
  then obtain lb lbs' where "lbs = lb # lbs'" "lb_offsets lb = wb_offsets b" "list_all2 (\<lambda>b lb. lb_offsets lb = wb_offsets b) bs lbs'"
    by (auto simp: list_all2_Cons1)
  with Cons.prems(1) Cons.IH [of "wb_to b" lbs'] show ?case by (auto simp: wb_from_def wb_to_def wb_wf_def)
qed simp

lemma chain_corners: "chain good x bs y \<Longrightarrow> good x \<Longrightarrow> b \<in> set bs \<Longrightarrow> good (wb_from b) \<and> good (wb_to b) \<and> wb_wf b"
proof (induction bs arbitrary: x)
  case (Cons c bs)
  then have tl: "chain good (wb_to c) bs y" "good (wb_to c)" by auto
  from Cons.IH [OF tl] Cons.prems show ?case by auto
qed simp

text \<open>
  The comparison never panics. It gives up only on a text with too many words; otherwise its blocks cover both texts and each
  of them keeps its promise.
\<close>

lemma runs_compare_and_split:
  assumes engine: "engine_ok (\<lambda>_. True) (=) engine" "engine_ok (\<lambda>_. True) (=) char_engine"
    and sc: "list_all scalar text1" "list_all scalar text2" and size: "str_len text1 < ENGINE_TOKEN_LIMIT" "str_len text2 < ENGINE_TOKEN_LIMIT"
  shows "runs (compare_and_split engine char_engine al text1 text2 policy) (\<lambda>r. case r of
      Inl _ \<Rightarrow> DELTA_THRESHOLD_SIZE < str_len text1 \<or> DELTA_THRESHOLD_SIZE < str_len text2
    | Inr bs \<Rightarrow> blocks_tile 0 0 bs (str_len text1) (str_len text2) \<and> list_all (line_block_ok policy text1 text2) bs)"
proof -
  obtain ws1 ws2 where w: "inline_chunks al text1 = Some ws1" "inline_chunks al text2 = Some ws2" and ws: "words_from text1 0 ws1" "words_from text2 0 ws2"
    using runs_inline_chunks [of al text1] runs_inline_chunks [of al text2] by (auto simp: runs_iff)
  note nl = inline_chunks_newlines [OF w(1) sc(1)] inline_chunks_newlines [OF w(2) sc(2)]
  let ?Q = "\<lambda>bs. blocks_tile 0 0 bs (str_len text1) (str_len text2) \<and> list_all (line_block_ok policy text1 text2) bs"
  have blocks: "runs (map_or_panic (compare_block char_engine text1 text2 policy ws1 ws2) (zip bs subs)) ?Q"
    if chain: "chain (good_corner text1 text2 ws1 ws2 cs) (0, 0, 0, 0) bs (length ws1, length ws2, str_len text1, str_len text2)"
      and start: "good_corner text1 text2 ws1 ws2 cs (0, 0, 0, 0)"
      and subs: "list_all2 (\<lambda>b. changes_ok (word_eq text1 text2) (block_words1 ws1 b) (block_words2 ws2 b)) bs subs" for bs subs cs
  proof -
    have "runs (map_or_panic (compare_block char_engine text1 text2 policy ws1 ws2) (zip bs subs))
        (list_all2 (\<lambda>p lb. lb_offsets lb = wb_offsets (fst p) \<and> line_block_ok policy text1 text2 lb) (zip bs subs))"
    proof (rule runs_map_or_panic)
      fix p
      assume p: "p \<in> set (zip bs subs)"
      obtain b ch where bc: "p = (b, ch)" by (cases p)
      from p bc have "b \<in> set bs" "changes_ok (word_eq text1 text2) (block_words1 ws1 b) (block_words2 ws2 b) ch"
        using subs by (auto simp: list_all2_iff dest: set_zip_leftD)
      with chain_corners [OF chain start] show "runs (compare_block char_engine text1 text2 policy ws1 ws2 p)
          (\<lambda>lb. lb_offsets lb = wb_offsets (fst p) \<and> line_block_ok policy text1 text2 lb)"
        unfolding bc fst_conv by (intro runs_compare_block [OF engine(2) sc size ws nl]) auto
    qed
    moreover have "?Q lbs" if lbs: "list_all2 (\<lambda>p lb. lb_offsets lb = wb_offsets (fst p) \<and> line_block_ok policy text1 text2 lb) (zip bs subs) lbs" for lbs
    proof -
      have "list_all2 (\<lambda>b lb. lb_offsets lb = wb_offsets b) bs lbs"
        using lbs list_all2_lengthD [OF subs] by (auto simp: list_all2_conv_all_nth)
      from chain_tiles [OF chain this] have "blocks_tile 0 0 lbs (str_len text1) (str_len text2)" by simp
      moreover have "list_all (line_block_ok policy text1 text2) lbs" using lbs list_all2_lengthD [OF subs] by (auto simp: list_all2_conv_all_nth list_all_length)
      ultimately show ?thesis ..
    qed
    ultimately show ?thesis by (rule runs_mono)
  qed
  have rest: "runs (do {
         ch \<leftarrow> optimize_word_chunks text1 text2 ws1 ws2 ch;
         word_blocks \<leftarrow> split_line_blocks text1 text2 ws1 ws2 ch;
         sub_iterables \<leftarrow> collect_word_block_sub_iterables ch word_blocks;
         line_blocks \<leftarrow> map_or_panic (compare_block char_engine text1 text2 policy ws1 ws2) (zip word_blocks sub_iterables);
         Some (Inr line_blocks :: DiffTooBig + line_block list) }) (case_sum (\<lambda>_. False) ?Q)" if ch: "changes_ok (word_eq text1 text2) ws1 ws2 ch" for ch
  proof (rule runs_bindI [OF runs_optimize_word_chunks [OF ws ch]])
    fix ch
    assume ch: "changes_ok (word_eq text1 text2) ws1 ws2 ch"
    then have "good_corner text1 text2 ws1 ws2 (ch_changed ch) (0, 0, 0, 0)"
      by (simp add: good_corner_def cut_point_def changes_ok_def on_path_ends line_corner_def line_start_at_def)
    then show "runs (do {
         word_blocks \<leftarrow> split_line_blocks text1 text2 ws1 ws2 ch;
         sub_iterables \<leftarrow> collect_word_block_sub_iterables ch word_blocks;
         line_blocks \<leftarrow> map_or_panic (compare_block char_engine text1 text2 policy ws1 ws2) (zip word_blocks sub_iterables);
         Some (Inr line_blocks :: DiffTooBig + line_block list) }) (case_sum (\<lambda>_. False) ?Q)"
      by (intro runs_bindI [OF runs_split_line_blocks [OF ws ch]] runs_bindI [OF runs_collect_word_block_sub_iterables [OF ch]])
        (auto intro: runs_bindI [OF blocks])
  qed
  show ?thesis unfolding compare_and_split_def w bind.simps
  proof (rule runs_bindI [OF runs_diff_chunks [OF engine(1) ws]])
    fix r :: "DiffTooBig + changes"
    assume r: "case r of Inl _ \<Rightarrow> DELTA_THRESHOLD_SIZE < length ws1 \<or> DELTA_THRESHOLD_SIZE < length ws2
      | Inr ch \<Rightarrow> changes_ok (word_eq text1 text2) ws1 ws2 ch"
    show "runs (case r of Inl too_big \<Rightarrow> Some (Inl too_big)
       | Inr ch \<Rightarrow> do {
         ch \<leftarrow> optimize_word_chunks text1 text2 ws1 ws2 ch;
         word_blocks \<leftarrow> split_line_blocks text1 text2 ws1 ws2 ch;
         sub_iterables \<leftarrow> collect_word_block_sub_iterables ch word_blocks;
         line_blocks \<leftarrow> map_or_panic (compare_block char_engine text1 text2 policy ws1 ws2) (zip word_blocks sub_iterables);
         Some (Inr line_blocks) }) (case_sum (\<lambda>_. DELTA_THRESHOLD_SIZE < str_len text1 \<or> DELTA_THRESHOLD_SIZE < str_len text2) ?Q)"
    proof (cases r)
      case (Inl x)
      with r words_length [OF ws(1)] words_length [OF ws(2)] show ?thesis by auto
    next
      case (Inr ch)
      with r have "changes_ok (word_eq text1 text2) ws1 ws2 ch" by simp
      from rest [OF this] show ?thesis unfolding Inr sum.case by (rule runs_mono) (simp split: sum.splits)
    qed
  qed
qed

lemmas sample_size = str_len_def str_bytes_def utf8_encode_def scalar_def ENGINE_TOKEN_LIMIT_def

section \<open>Properties\<close>



end
