(* ===== verification/Line_Fragments.thy ===== *)
theory Line_Fragments
  imports By_Line By_Word
begin

text \<open>
  The comparison of two texts with its inner fragments (\<open>crates/paneflow-textdiff/src/manager.rs\<close> and the public functions of
  \<open>lib.rs\<close>): the lines are compared, every changed range of lines becomes a \<open>line_fragment\<close> with its byte offsets, a changed
  range with lines on both sides is compared by words and split into blocks, and adjoining fragments are squashed.

  After \<open>MAX_BAD_LINES\<close> ranges that were too big the words are no longer compared. The three engines are the instances for
  lines, words and punctuation.
\<close>

datatype HighlightPolicy = HighlightLines | HighlightWords | HighlightNone

record line_offsets =
  lo_starts :: "nat list"
  lo_text_len :: nat

record line_fragment =
  lf_lines :: range
  lf_offsets :: range
  lf_inner :: "diff_fragment list option"

record unsquashed_report =
  ur_fragments :: "line_fragment list"
  ur_too_big_blocks :: nat

section \<open>Lines and their offsets\<close>

definition MAX_BAD_LINES :: nat where
  "MAX_BAD_LINES = 3"

definition split_lines :: "ustr \<Rightarrow> ustr list" where
  "split_lines text = str_split 10 text"

definition line_offsets_new :: "ustr \<Rightarrow> line_offsets" where
  "line_offsets_new text = \<lparr>lo_starts = [0] @ map (\<lambda>(index, byte). index + 1)
       (filter (\<lambda>(index, byte). byte = 10) (enumerate 0 (str_bytes text))),
     lo_text_len = str_len text\<rparr>"

definition line_count :: "line_offsets \<Rightarrow> nat" where
  "line_count lo = length (lo_starts lo)"

definition line_start :: "line_offsets \<Rightarrow> nat \<Rightarrow> nat option" where
  "line_start lo line = nth_or_panic (lo_starts lo) line"

definition line_end_with_newline :: "line_offsets \<Rightarrow> nat \<Rightarrow> nat option" where
  "line_end_with_newline lo line =
     (if line + 1 < length (lo_starts lo) then nth_or_panic (lo_starts lo) (line + 1) else Some (lo_text_len lo))"

definition offsets_of :: "line_offsets \<Rightarrow> nat \<Rightarrow> nat \<Rightarrow> (nat \<times> nat) option" where
  "offsets_of lo start end' =
     (if start = end' then do {
        off \<leftarrow> (if start < line_count lo then line_start lo start else Some (lo_text_len lo));
        Some (off, off)
      } else do {
        from \<leftarrow> line_start lo start;
        latest \<leftarrow> usub end' 1;
        to \<leftarrow> line_end_with_newline lo latest;
        Some (from, to)
      })"

definition line_fragment_of :: "range \<Rightarrow> line_offsets \<Rightarrow> line_offsets \<Rightarrow> line_fragment option" where
  "line_fragment_of lines offsets1 offsets2 = do {
     (start1, end1) \<leftarrow> offsets_of offsets1 (r_start1 lines) (r_end1 lines);
     (start2, end2) \<leftarrow> offsets_of offsets2 (r_start2 lines) (r_end2 lines);
     offsets \<leftarrow> range_new start1 end1 start2 end2;
     Some \<lparr>lf_lines = lines, lf_offsets = offsets, lf_inner = None\<rparr>
   }"

section \<open>Inner fragments\<close>

definition with_inner :: "range \<Rightarrow> range \<Rightarrow> diff_fragment list option \<Rightarrow> line_fragment option" where
  "with_inner lines offsets inner = do {
     length1 \<leftarrow> usub (r_end1 offsets) (r_start1 offsets);
     length2 \<leftarrow> usub (r_end2 offsets) (r_start2 offsets);
     let inner = (case inner of
         Some fragments \<Rightarrow>
           if length fragments = 1 \<and> df_start1 (fragments ! 0) = 0 \<and> df_start2 (fragments ! 0) = 0 \<and>
             df_end1 (fragments ! 0) = length1 \<and> df_end2 (fragments ! 0) = length2
           then None else Some fragments
       | None \<Rightarrow> None);
     Some \<lparr>lf_lines = lines, lf_offsets = offsets, lf_inner = inner\<rparr>
   }"

text \<open>The loop over the blocks: \<open>index == last\<close> holds for the last of them.\<close>

fun block_chunks :: "line_fragment \<Rightarrow> nat \<Rightarrow> nat \<Rightarrow> line_block list \<Rightarrow> line_fragment list option" where
  "block_chunks fragment current_start1 current_start2 [] = Some []"
| "block_chunks fragment current_start1 current_start2 (block # blocks) = do {
     let (current_end1, current_end2) =
       (if blocks = [] then (r_end1 (lf_lines fragment), r_end2 (lf_lines fragment))
        else (current_start1 + lb_newlines1 block, current_start2 + lb_newlines2 block));
     let offsets = lf_offsets fragment;
     block_offsets \<leftarrow> range_new (r_start1 (lb_offsets block) + r_start1 offsets) (r_end1 (lb_offsets block) + r_start1 offsets)
       (r_start2 (lb_offsets block) + r_start2 offsets) (r_end2 (lb_offsets block) + r_start2 offsets);
     lines \<leftarrow> range_new current_start1 current_end1 current_start2 current_end2;
     chunk \<leftarrow> with_inner lines block_offsets (Some (lb_fragments block));
     chunks \<leftarrow> block_chunks fragment current_end1 current_end2 blocks;
     Some (chunk # chunks)
   }"

definition create_inner :: "ChunkToken diff_engine \<Rightarrow> uchar diff_engine \<Rightarrow> (uchar \<Rightarrow> bool) \<Rightarrow> line_fragment \<Rightarrow> ustr \<Rightarrow> ustr \<Rightarrow>
    ComparisonPolicy \<Rightarrow> bool \<Rightarrow> (DiffTooBig + line_fragment list) option" where
  "create_inner engine char_engine is_alphabetic fragment text1 text2 policy try_compute = do {
     let offsets = lf_offsets fragment;
     sub1 \<leftarrow> str_slice text1 (r_start1 offsets) (r_end1 offsets);
     sub2 \<leftarrow> str_slice text2 (r_start2 offsets) (r_end2 offsets);
     let lines = lf_lines fragment;
     if r_start1 lines = r_end1 lines \<or> r_start2 lines = r_end2 lines
     then Some (Inr [\<lparr>lf_lines = lines, lf_offsets = offsets,
       lf_inner = (if is_equals sub1 sub2 policy then Some [] else None)\<rparr>])
     else if \<not> try_compute then Some (Inr [fragment])
     else do {
       result \<leftarrow> compare_and_split engine char_engine is_alphabetic sub1 sub2 policy;
       case result of
         Inl too_big \<Rightarrow> Some (Inl too_big)
       | Inr blocks \<Rightarrow> do {
           dassert (blocks \<noteq> []);
           chunks \<leftarrow> block_chunks fragment (r_start1 lines) (r_start2 lines) blocks;
           Some (Inr chunks)
         }
     }
   }"

definition create_inner_fragments :: "ChunkToken diff_engine \<Rightarrow> uchar diff_engine \<Rightarrow> (uchar \<Rightarrow> bool) \<Rightarrow> line_fragment list \<Rightarrow>
    ustr \<Rightarrow> ustr \<Rightarrow> ComparisonPolicy \<Rightarrow> unsquashed_report option" where
  "create_inner_fragments engine char_engine is_alphabetic fragments text1 text2 policy = do {
     (result, too_big_blocks) \<leftarrow> for_each (\<lambda>(result, too_big_blocks) fragment. do {
         let try_compute = too_big_blocks < MAX_BAD_LINES;
         inner \<leftarrow> create_inner engine char_engine is_alphabetic fragment text1 text2 policy try_compute;
         Some (case inner of
           Inr inner \<Rightarrow> (result @ inner, too_big_blocks)
         | Inl DiffTooBig \<Rightarrow> (result @ [fragment], too_big_blocks + 1))
       }) ([], 0) fragments;
     Some \<lparr>ur_fragments = result, ur_too_big_blocks = too_big_blocks\<rparr>
   }"

definition compare_lines_inner_unsquashed :: "line diff_engine \<Rightarrow> ChunkToken diff_engine \<Rightarrow> uchar diff_engine \<Rightarrow> (uchar \<Rightarrow> bool) \<Rightarrow>
    ustr \<Rightarrow> ustr \<Rightarrow> ComparisonPolicy \<Rightarrow> HighlightPolicy \<Rightarrow> unsquashed_report option" where
  "compare_lines_inner_unsquashed line_engine engine char_engine is_alphabetic text1 text2 policy highlight =
     (if text1 = text2 then Some \<lparr>ur_fragments = [], ur_too_big_blocks = 0\<rparr>
      else do {
        let lines1 = split_lines text1;
        let lines2 = split_lines text2;
        let offsets1 = line_offsets_new text1;
        let offsets2 = line_offsets_new text2;
        ch \<leftarrow> by_line_compare line_engine lines1 lines2 policy;
        fragments \<leftarrow> map_or_panic (\<lambda>r. line_fragment_of r offsets1 offsets2) (ch_changed ch);
        case highlight of
          HighlightWords \<Rightarrow> create_inner_fragments engine char_engine is_alphabetic fragments text1 text2 policy
        | HighlightLines \<Rightarrow> Some \<lparr>ur_fragments = fragments, ur_too_big_blocks = 0\<rparr>
        | HighlightNone \<Rightarrow> Some \<lparr>ur_fragments = fragments, ur_too_big_blocks = 0\<rparr>
      })"

section \<open>Squashing\<close>

definition is_adjoining :: "line_fragment \<Rightarrow> line_fragment \<Rightarrow> bool" where
  "is_adjoining prior later \<longleftrightarrow>
     r_end1 (lf_lines prior) = r_start1 (lf_lines later) \<and> r_end2 (lf_lines prior) = r_start2 (lf_lines later) \<and>
     r_end1 (lf_offsets prior) = r_start1 (lf_offsets later) \<and> r_end2 (lf_offsets prior) = r_start2 (lf_offsets later)"

definition extract_inner_fragments :: "line_fragment \<Rightarrow> diff_fragment list option" where
  "extract_inner_fragments fragment = (case lf_inner fragment of
     Some inner \<Rightarrow> Some inner
   | None \<Rightarrow> do {
       end1 \<leftarrow> usub (r_end1 (lf_offsets fragment)) (r_start1 (lf_offsets fragment));
       end2 \<leftarrow> usub (r_end2 (lf_offsets fragment)) (r_start2 (lf_offsets fragment));
       Some [\<lparr>df_start1 = 0, df_end1 = end1, df_start2 = 0, df_end2 = end2\<rparr>]
     })"

definition push_piece :: "diff_fragment list \<Rightarrow> diff_fragment \<Rightarrow> diff_fragment list" where
  "push_piece inner shifted =
     (if inner \<noteq> [] \<and> df_end1 (last inner) = df_start1 shifted \<and> df_end2 (last inner) = df_start2 shifted
      then butlast inner @ [(last inner)\<lparr>df_end1 := df_end1 shifted, df_end2 := df_end2 shifted\<rparr>]
      else inner @ [shifted])"

definition squash_group :: "line_fragment list \<Rightarrow> line_fragment option" where
  "squash_group fragments =
     (if length fragments = 1 then nth_or_panic fragments 0
      else do {
        first \<leftarrow> nth_or_panic fragments 0;
        latest \<leftarrow> usub (length fragments) 1;
        final \<leftarrow> nth_or_panic fragments latest;
        inner \<leftarrow> for_each (\<lambda>inner fragment. do {
            shift1 \<leftarrow> usub (r_start1 (lf_offsets fragment)) (r_start1 (lf_offsets first));
            shift2 \<leftarrow> usub (r_start2 (lf_offsets fragment)) (r_start2 (lf_offsets first));
            pieces \<leftarrow> extract_inner_fragments fragment;
            Some (foldl (\<lambda>inner piece. push_piece inner \<lparr>df_start1 = df_start1 piece + shift1, df_end1 = df_end1 piece + shift1,
              df_start2 = df_start2 piece + shift2, df_end2 = df_end2 piece + shift2\<rparr>) inner pieces)
          }) [] fragments;
        lines \<leftarrow> range_new (r_start1 (lf_lines first)) (r_end1 (lf_lines final)) (r_start2 (lf_lines first)) (r_end2 (lf_lines final));
        offsets \<leftarrow> range_new (r_start1 (lf_offsets first)) (r_end1 (lf_offsets final))
          (r_start2 (lf_offsets first)) (r_end2 (lf_offsets final));
        with_inner lines offsets (Some inner)
      })"

definition squash :: "line_fragment list \<Rightarrow> line_fragment list option" where
  "squash fragments =
     (if fragments = [] then Some fragments
      else do {
        (result, group) \<leftarrow> for_each (\<lambda>(result, group) fragment. do {
            (result, group) \<leftarrow> (if group \<noteq> [] \<and> \<not> is_adjoining (last group) fragment
              then do { squashed \<leftarrow> squash_group group; Some (result @ [squashed], []) }
              else Some (result, group));
            Some (result, group @ [fragment])
          }) ([], []) fragments;
        if group \<noteq> [] then do { squashed \<leftarrow> squash_group group; Some (result @ [squashed]) } else Some result
      })"

record line_diff_report =
  ldr_fragments :: "line_fragment list"
  ldr_too_big_blocks :: nat

definition compare_lines_inner_report :: "line diff_engine \<Rightarrow> ChunkToken diff_engine \<Rightarrow> uchar diff_engine \<Rightarrow> (uchar \<Rightarrow> bool) \<Rightarrow>
    ustr \<Rightarrow> ustr \<Rightarrow> ComparisonPolicy \<Rightarrow> HighlightPolicy \<Rightarrow> line_diff_report option" where
  "compare_lines_inner_report line_engine engine char_engine is_alphabetic text1 text2 policy highlight = do {
     report \<leftarrow> compare_lines_inner_unsquashed line_engine engine char_engine is_alphabetic text1 text2 policy highlight;
     fragments \<leftarrow> squash (ur_fragments report);
     Some \<lparr>ldr_fragments = fragments, ldr_too_big_blocks = ur_too_big_blocks report\<rparr>
   }"

definition compare_lines_inner :: "line diff_engine \<Rightarrow> ChunkToken diff_engine \<Rightarrow> uchar diff_engine \<Rightarrow> (uchar \<Rightarrow> bool) \<Rightarrow>
    ustr \<Rightarrow> ustr \<Rightarrow> ComparisonPolicy \<Rightarrow> HighlightPolicy \<Rightarrow> line_fragment list option" where
  "compare_lines_inner line_engine engine char_engine is_alphabetic text1 text2 policy highlight = do {
     report \<leftarrow> compare_lines_inner_report line_engine engine char_engine is_alphabetic text1 text2 policy highlight;
     Some (ldr_fragments report)
   }"

section \<open>Where a line starts\<close>

text \<open>\<open>line_pos text k\<close> is the offset of line \<open>k\<close>, and the end of the text behind the last line.\<close>

definition line_starts :: "ustr \<Rightarrow> nat list" where
  "line_starts text = 0 # map Suc (nl_offsets 0 (str_bytes text))"

definition line_pos :: "ustr \<Rightarrow> nat \<Rightarrow> nat" where
  "line_pos text k = (if k < length (line_starts text) then line_starts text ! k else str_len text)"

lemma line_offsets_new_sel [simp]:
  "lo_starts (line_offsets_new text) = line_starts text" "lo_text_len (line_offsets_new text) = str_len text"
  by (simp_all add: line_offsets_new_def line_starts_def nl_offsets_def o_def split_def)

lemma offsets_of_pos:
  assumes "s \<le> e" "e \<le> length (line_starts text)"
  shows "offsets_of (line_offsets_new text) s e = Some (line_pos text s, line_pos text e)"
  using assms by (auto simp: offsets_of_def line_start_def line_end_with_newline_def line_count_def nth_or_panic_def usub_def line_pos_def)

lemma nl_offsets_shift: "nl_offsets (off + n) bs = map ((+) n) (nl_offsets off bs)"
  by (induction bs arbitrary: off) (simp_all add: nl_offsets_def flip: add_Suc)

lemma nl_offsets_byte: "k \<in> set (nl_offsets 0 bs) \<Longrightarrow> bs ! k = 10"
  by (auto simp: nl_offsets_def in_set_enumerate_eq)

lemma line_starts_sorted: "sorted_wrt (<) (line_starts text)"
proof -
  have "sorted_wrt (<) (nl_offsets 0 (str_bytes text))"
    unfolding nl_offsets_def sorted_wrt_map by (rule sorted_wrt_filter) (simp flip: sorted_wrt_map)
  then show ?thesis by (auto simp: line_starts_def sorted_wrt_map)
qed

lemma line_starts_at:
  assumes "k < length (line_starts text)"
  shows "line_start_at text (line_starts text ! k)" "line_starts text ! k \<le> str_len text"
proof -
  have "line_start_at text (line_starts text ! k) \<and> line_starts text ! k \<le> str_len text"
  proof (cases k)
    case (Suc j)
    with assms have "nl_offsets 0 (str_bytes text) ! j \<in> set (nl_offsets 0 (str_bytes text))" by (simp add: line_starts_def)
    from nl_offsets_bounds [OF this] nl_offsets_byte [OF this] Suc assms show ?thesis by (simp add: line_starts_def line_start_at_def)
  qed (simp add: line_starts_def line_start_at_def)
  then show "line_start_at text (line_starts text ! k)" "line_starts text ! k \<le> str_len text" by auto
qed

text \<open>A position where a line starts is the start of the line counted by the line breaks before it.\<close>

lemma line_start_count:
  assumes "line_start_at text x"
  shows "count_list (take x (str_bytes text)) 10 < length (line_starts text)"
    "line_starts text ! count_list (take x (str_bytes text)) 10 = x"
proof -
  let ?b = "str_bytes text"
  have "count_list (take x ?b) 10 < length (line_starts text) \<and> line_starts text ! count_list (take x ?b) 10 = x"
  proof (cases "x = 0")
    case True
    then show ?thesis by (simp add: line_starts_def)
  next
    case False
    with assms have x: "0 < x" "x \<le> str_len text" "?b ! (x - 1) = 10" by (auto simp: line_start_at_def)
    then have "take x ?b = take (x - 1) ?b @ [10]" by (metis One_nat_def Suc_pred length_str_bytes lessI less_le_trans take_Suc_conv_app_nth)
    then have "?b = (take (x - 1) ?b @ [10]) @ drop x ?b" by (metis append_take_drop_id)
    then have nl: "nl_offsets 0 ?b = nl_offsets 0 (take (x - 1) ?b @ [10]) @ nl_offsets (length (take (x - 1) ?b @ [10])) (drop x ?b)"
      by (metis nl_offsets_append add_0)
    have last: "nl_offsets 0 (take (x - 1) ?b @ [10]) = nl_offsets 0 (take (x - 1) ?b) @ [x - 1]"
      using x by (simp add: nl_offsets_append) (simp add: nl_offsets_def)
    have "count_list (take x ?b) 10 = Suc (length (nl_offsets 0 (take (x - 1) ?b)))"
      unfolding \<open>take x ?b = take (x - 1) ?b @ [10]\<close> by (simp add: nl_offsets_count)
    with nl last x(1) show ?thesis by (simp add: line_starts_def nth_append)
  qed
  then show "count_list (take x ?b) 10 < length (line_starts text)" "line_starts text ! count_list (take x ?b) 10 = x" by auto
qed

lemma line_count_start:
  assumes "k < length (line_starts text)"
  shows "count_list (take (line_starts text ! k) (str_bytes text)) 10 = k"
proof -
  let ?x = "line_starts text ! k"
  have "distinct (line_starts text)" using line_starts_sorted [of "text"] by (simp add: strict_sorted_iff)
  with line_start_count [OF line_starts_at(1) [OF assms]] assms show ?thesis by (metis nth_eq_iff_index_eq)
qed

lemma line_pos_mono: "i \<le> j \<Longrightarrow> line_pos text i \<le> line_pos text j"
  using line_starts_sorted [of "text"] line_starts_at(2) [of i "text"]
  by (cases "i = j") (auto simp: line_pos_def sorted_wrt_iff_nth_less less_imp_le)

lemma line_pos_le: "line_pos text k \<le> str_len text"
  using line_starts_at(2) [of k "text"] by (simp add: line_pos_def)

text \<open>The text of a line, with the line break behind it.\<close>

lemma line_starts_Cons:
  assumes "scalar c"
  shows "line_starts (c # cs) = (if c = 10 then 0 # map Suc (line_starts cs) else 0 # map ((+) (length (utf8_encode c))) (tl (line_starts cs)))"
proof -
  have "nl_offsets (length (utf8_encode c)) (str_bytes cs) = map ((+) (length (utf8_encode c))) (nl_offsets 0 (str_bytes cs))"
    using nl_offsets_shift [of 0 "length (utf8_encode c)" "str_bytes cs"] by simp
  then show ?thesis using nl_offsets_char [OF assms, of 0]
    by (auto simp: line_starts_def nl_offsets_append o_def utf8_encode_def)
qed

lemma length_line_starts: "list_all scalar text \<Longrightarrow> length (line_starts text) = length (str_split 10 text)"
proof (induction "text")
  case Nil
  then show ?case by (simp add: line_starts_def nl_offsets_def)
next
  case (Cons c cs)
  then have "length (line_starts (c # cs)) = (if c = 10 then Suc (length (line_starts cs)) else Suc (length (line_starts cs) - 1))"
    by (simp add: line_starts_Cons)
  moreover have "length (str_split 10 cs) \<noteq> 0" by simp
  ultimately show ?case using Cons by (auto split: list.splits)
qed

lemma line_text:
  assumes "list_all scalar text" "i < length (str_split 10 text)"
  shows "\<exists>pre post. text = pre @ str_split 10 text ! i @ post \<and> str_len pre = line_starts text ! i \<and>
    (if Suc i < length (str_split 10 text) then \<exists>post'. post = 10 # post' \<and> line_starts text ! Suc i = str_len pre + str_len (str_split 10 text ! i) + 1
     else post = [])"
  using assms
proof (induction "text" arbitrary: i)
  case Nil
  then show ?case by (simp add: line_starts_def)
next
  case (Cons c cs)
  have sc: "scalar c" "list_all scalar cs" using Cons.prems by auto
  note st = line_starts_Cons [OF sc(1), of cs] and len = length_line_starts [OF sc(2)]
  obtain p ps where p: "str_split 10 cs = p # ps" by (cases "str_split 10 cs") auto
  obtain s0 ss where s0: "line_starts cs = s0 # ss" "s0 = 0" by (simp add: line_starts_def)
  show ?case
  proof (cases "c = 10")
    case True
    then have st: "line_starts (10 # cs) = 0 # map Suc (line_starts cs)" using st by simp
    show ?thesis
    proof (cases i)
      case 0
      with True p s0 show ?thesis by - (rule exI [of _ "[]"], rule exI [of _ "c # cs"], simp add: st)
    next
      case (Suc j)
      with True Cons.prems have "j < length (str_split 10 cs)" by simp
      from Cons.IH [OF sc(2) this] obtain pre post where "cs = pre @ str_split 10 cs ! j @ post" "str_len pre = line_starts cs ! j"
        "if Suc j < length (str_split 10 cs) then \<exists>post'. post = 10 # post' \<and> line_starts cs ! Suc j = str_len pre + str_len (str_split 10 cs ! j) + 1 else post = []"
        by blast
      with Suc True \<open>j < length (str_split 10 cs)\<close> len show ?thesis
        by - (rule exI [of _ "c # pre"], rule exI [of _ post], auto simp: st utf8_encode_def split: if_splits)
    qed
  next
    case False
    show ?thesis
    proof (cases i)
      case 0
      from Cons.IH [OF sc(2), of 0] obtain post where post: "cs = p @ post"
        "if ps \<noteq> [] then \<exists>post'. post = 10 # post' \<and> line_starts cs ! 1 = str_len p + 1 else post = []"
        using s0 by (auto simp: p split: if_splits)
      have sp: "str_split 10 (c # cs) = (c # p) # ps" using False p by simp
      have "length ss = length ps" using len p s0 by simp
      then have s1: "line_starts (c # cs) ! 0 = 0" "ps \<noteq> [] \<Longrightarrow> line_starts (c # cs) ! Suc 0 = length (utf8_encode c) + line_starts cs ! 1"
        using False s0 by (cases ss; simp add: st)+
      have "c # cs = [] @ (c # p) @ post" using post(1) by simp
      with s1 post(2) show ?thesis unfolding 0 sp nth_Cons_0
        by - (rule exI [of _ "[]"], rule exI [of _ post], simp split: if_splits)
    next
      case (Suc j)
      with False p Cons.prems have j: "Suc j < length (str_split 10 cs)" by simp
      from Cons.IH [OF sc(2) this] obtain pre post where "cs = pre @ str_split 10 cs ! Suc j @ post" "str_len pre = line_starts cs ! Suc j"
        "if Suc (Suc j) < length (str_split 10 cs) then \<exists>post'. post = 10 # post' \<and>
           line_starts cs ! Suc (Suc j) = str_len pre + str_len (str_split 10 cs ! Suc j) + 1 else post = []"
        by blast
      then have pre: "c # cs = (c # pre) @ ps ! j @ post" "str_len pre = ss ! j"
        "if Suc j < length ps then \<exists>post'. post = 10 # post' \<and> ss ! Suc j = str_len pre + str_len (ps ! j) + 1 else post = []"
        unfolding p s0(1) nth_Cons_Suc by (simp_all split: if_splits)
      have sp: "str_split 10 (c # cs) = (c # p) # ps" using False p by simp
      have s1: "line_starts (c # cs) = 0 # map ((+) (length (utf8_encode c))) ss" using False s0 by (simp add: st)
      have "length ss = length ps" using len p s0 by simp
      with pre j p show ?thesis unfolding Suc sp s1 nth_Cons_Suc
        by - (rule exI [of _ "c # pre"], rule exI [of _ post], auto split: if_splits)
    qed
  qed
qed

section \<open>Equal lines\<close>

text \<open>
  The bytes by which two equal lines agree: all but line breaks under the default policy (the last line has none), all but
  whitespace under the others.
\<close>

fun visible :: "ComparisonPolicy \<Rightarrow> u8 \<Rightarrow> bool" where
  "visible Default = (\<lambda>b. b \<noteq> 10)"
| "visible TrimWhitespaces = ink"
| "visible IgnoreWhitespaces = ink"

lemma visible_significant: "visible policy b \<Longrightarrow> significant policy b"
  by (cases policy) auto

lemma visible_newline [simp]: "\<not> visible policy 10"
  by (cases policy) (simp_all add: ink_def is_whitespace_byte_def)

lemma is_equals_visible: "is_equals a b policy \<Longrightarrow> filter (visible policy) (str_bytes a) = filter (visible policy) (str_bytes b)"
  using is_equals_ink [of a b policy] by (cases policy) simp_all

lemma line_boundary:
  assumes "list_all scalar text"
  shows "boundary text (line_pos text k)"
proof (cases "k < length (line_starts text)")
  case True
  with line_text [OF assms, of k] length_line_starts [OF assms] obtain pre post
    where "text = pre @ str_split 10 text ! k @ post" "str_len pre = line_starts text ! k" by auto
  with True show ?thesis unfolding boundary_def line_pos_def by auto
qed (simp add: line_pos_def)

lemma line_between:
  assumes "list_all scalar text" "i < length (split_lines text)"
  shows "\<exists>nl. between (str_bytes text) (line_pos text i) (line_pos text (Suc i)) = str_bytes (split_lines text ! i) @ nl \<and> set nl \<subseteq> {10}"
proof -
  obtain pre post where t: "text = pre @ str_split 10 text ! i @ post" "str_len pre = line_starts text ! i"
    and post: "if Suc i < length (str_split 10 text) then \<exists>post'. post = 10 # post' \<and> line_starts text ! Suc i = str_len pre + str_len (str_split 10 text ! i) + 1 else post = []"
    using line_text [OF assms(1)] assms(2) unfolding split_lines_def by blast
  let ?l = "str_split 10 text ! i"
  have len: "length (line_starts text) = length (str_split 10 text)" by (rule length_line_starts [OF assms(1)])
  have bytes: "str_bytes text = str_bytes pre @ str_bytes ?l @ str_bytes post" by (subst t(1)) simp
  have i: "line_pos text i = str_len pre" using t(2) assms(2) len by (simp add: line_pos_def split_lines_def)
  show ?thesis
  proof (cases "Suc i < length (str_split 10 text)")
    case True
    with post obtain post' where p: "post = 10 # post'" "line_starts text ! Suc i = str_len pre + str_len ?l + 1" by auto
    then have "line_pos text (Suc i) = str_len pre + Suc (str_len ?l)" using True len by (simp add: line_pos_def)
    then have "between (str_bytes text) (line_pos text i) (line_pos text (Suc i)) = str_bytes ?l @ [10]"
      unfolding i bytes p(1) by (simp add: between_def utf8_encode_def)
    then show ?thesis unfolding split_lines_def by (intro exI [of _ "[10]"]) simp
  next
    case False
    with post have p: "post = []" by simp
    have "line_pos text (Suc i) = str_len text" using False len by (simp add: line_pos_def)
    also have "\<dots> = str_len pre + str_len ?l" using bytes p by (metis append_Nil2 length_append length_str_bytes str_bytes_simps(1))
    finally have "between (str_bytes text) (line_pos text i) (line_pos text (Suc i)) = str_bytes ?l"
      unfolding i bytes p by (simp add: between_def)
    then show ?thesis unfolding split_lines_def by (intro exI [of _ "[]"]) simp
  qed
qed

lemma lines_same:
  assumes "list_all scalar text1" "list_all scalar text2"
    and "same_run (\<lambda>a b. is_equals a b policy) (split_lines text1) (split_lines text2) i j k"
  shows "ws_same (visible policy) (str_bytes text1) (str_bytes text2) (line_pos text1 i) (line_pos text1 (i + k))
    (line_pos text2 j) (line_pos text2 (j + k))"
  using assms(3)
proof (induction k)
  case 0
  then show ?case by (auto intro!: ws_same_refl line_pos_le)
next
  case (Suc k)
  then have prev: "ws_same (visible policy) (str_bytes text1) (str_bytes text2) (line_pos text1 i) (line_pos text1 (i + k))
      (line_pos text2 j) (line_pos text2 (j + k))"
    and k: "i + k < length (split_lines text1)" "j + k < length (split_lines text2)" "is_equals (split_lines text1 ! (i + k)) (split_lines text2 ! (j + k)) policy"
    by (simp_all add: same_run_Suc)
  have blank: "filter (visible policy) nl = []" if "set nl \<subseteq> {10}" for nl using that by (auto simp: filter_empty_conv)
  obtain n1 n2 where "between (str_bytes text1) (line_pos text1 (i + k)) (line_pos text1 (Suc (i + k))) = str_bytes (split_lines text1 ! (i + k)) @ n1"
    "between (str_bytes text2) (line_pos text2 (j + k)) (line_pos text2 (Suc (j + k))) = str_bytes (split_lines text2 ! (j + k)) @ n2"
    "set n1 \<subseteq> {10}" "set n2 \<subseteq> {10}"
    using line_between [OF assms(1) k(1)] line_between [OF assms(2) k(2)] by blast
  then have "ws_same (visible policy) (str_bytes text1) (str_bytes text2) (line_pos text1 (i + k)) (line_pos text1 (Suc (i + k)))
      (line_pos text2 (j + k)) (line_pos text2 (Suc (j + k)))"
    using is_equals_visible [OF k(3)] blank by (simp add: ws_same_def line_pos_mono line_pos_le)
  with prev show ?case by (simp add: ws_same_append)
qed

lemma ws_same_mono:
  assumes "ws_same P xs ys a b c d" "\<And>x. Q x \<Longrightarrow> P x"
  shows "ws_same Q xs ys a b c d"
proof -
  have "filter Q zs = filter Q (filter P zs)" for zs using assms(2) by (auto intro: filter_cong)
  with assms(1) show ?thesis unfolding ws_same_def by metis
qed

lemma loose_path_mono: "loose_path P xs ys i j cs m n \<Longrightarrow> (\<And>x. Q x \<Longrightarrow> P x) \<Longrightarrow> loose_path Q xs ys i j cs m n"
  by (induction cs arbitrary: i j) (auto intro: ws_same_mono)

lemma between_slice: "b \<le> k \<Longrightarrow> between (take k (drop o' xs)) a b = between xs (o' + a) (o' + b)"
  by (simp add: between_def drop_take take_take add.commute)

lemma ws_same_slice:
  "ws_same P (take k (drop p xs)) (take l (drop q ys)) a b c d \<Longrightarrow> p \<le> length xs \<Longrightarrow> q \<le> length ys \<Longrightarrow>
   ws_same P xs ys (p + a) (p + b) (q + c) (q + d)"
  by (auto simp: ws_same_def between_slice)

lemma loose_path_slice:
  "loose_path P (take k (drop p xs)) (take l (drop q ys)) i j cs m n \<Longrightarrow> p \<le> length xs \<Longrightarrow> q \<le> length ys \<Longrightarrow>
   loose_path P xs ys (p + i) (q + j) (map (move_range p q) cs) (p + m) (q + n)"
  by (induction cs arbitrary: i j) (auto intro: ws_same_slice)

section \<open>What a list of fragments promises\<close>

text \<open>
  \<open>frag_ok\<close>: the offsets of a fragment are those of its lines, and its pieces describe the difference between the two pieces of
  text. \<open>frag_path\<close>: the fragments are in order and the lines between them are equal under the policy.
\<close>

definition inner_ranges :: "line_fragment \<Rightarrow> range list" where
  "inner_ranges f = (case lf_inner f of
     Some inner \<Rightarrow> map frag_range inner
   | None \<Rightarrow> [mk_range 0 (r_end1 (lf_offsets f) - r_start1 (lf_offsets f)) 0 (r_end2 (lf_offsets f) - r_start2 (lf_offsets f))])"

definition pieces :: "line_fragment \<Rightarrow> range list" where
  "pieces f = map (move_range (r_start1 (lf_offsets f)) (r_start2 (lf_offsets f))) (inner_ranges f)"

definition line_range_offsets :: "ustr \<Rightarrow> ustr \<Rightarrow> range \<Rightarrow> range" where
  "line_range_offsets text1 text2 r =
     mk_range (line_pos text1 (r_start1 r)) (line_pos text1 (r_end1 r)) (line_pos text2 (r_start2 r)) (line_pos text2 (r_end2 r))"

definition frag_ok :: "ComparisonPolicy \<Rightarrow> ustr \<Rightarrow> ustr \<Rightarrow> line_fragment \<Rightarrow> bool" where
  "frag_ok policy text1 text2 f \<longleftrightarrow> (let ls = lf_lines f; offs = lf_offsets f in
     r_start1 ls \<le> r_end1 ls \<and> r_start2 ls \<le> r_end2 ls \<and>
     r_end1 ls \<le> length (split_lines text1) \<and> r_end2 ls \<le> length (split_lines text2) \<and>
     offs = line_range_offsets text1 text2 ls \<and>
     loose_path (visible policy) (str_bytes text1) (str_bytes text2) (r_start1 offs) (r_start2 offs) (pieces f) (r_end1 offs) (r_end2 offs) \<and>
     list_all (range_bounds text1 text2) (pieces f))"

definition equal_lines :: "ComparisonPolicy \<Rightarrow> ustr \<Rightarrow> ustr \<Rightarrow> nat \<Rightarrow> nat \<Rightarrow> nat \<Rightarrow> nat \<Rightarrow> bool" where
  "equal_lines policy text1 text2 i j m n \<longleftrightarrow> i \<le> m \<and> j \<le> n \<and> m - i = n - j \<and>
     same_run (\<lambda>a b. is_equals a b policy) (split_lines text1) (split_lines text2) i j (m - i)"

fun frag_path :: "ComparisonPolicy \<Rightarrow> ustr \<Rightarrow> ustr \<Rightarrow> nat \<Rightarrow> nat \<Rightarrow> line_fragment list \<Rightarrow> nat \<Rightarrow> nat \<Rightarrow> bool" where
  "frag_path policy text1 text2 i j [] m n \<longleftrightarrow> equal_lines policy text1 text2 i j m n"
| "frag_path policy text1 text2 i j (f # fs) m n \<longleftrightarrow>
     equal_lines policy text1 text2 i j (r_start1 (lf_lines f)) (r_start2 (lf_lines f)) \<and> frag_ok policy text1 text2 f \<and>
     frag_path policy text1 text2 (r_end1 (lf_lines f)) (r_end2 (lf_lines f)) fs m n"

lemma equal_lines_here [simp]:
  "equal_lines policy text1 text2 i j i j \<longleftrightarrow> i \<le> length (split_lines text1) \<and> j \<le> length (split_lines text2)"
  by (auto simp: equal_lines_def)

lemma equal_lines_trans:
  assumes "equal_lines policy text1 text2 i j k l" "equal_lines policy text1 text2 k l m n"
  shows "equal_lines policy text1 text2 i j m n"
proof -
  obtain d e where "k = i + d" "l = j + d" "m = i + d + e" "n = j + d + e" using assms by (auto simp: equal_lines_def) (metis le_add_diff_inverse)
  with assms show ?thesis by (simp add: equal_lines_def same_run_add add.assoc)
qed

lemma frag_path_prepend:
  "equal_lines policy text1 text2 i j k l \<Longrightarrow> frag_path policy text1 text2 k l fs m n \<Longrightarrow> frag_path policy text1 text2 i j fs m n"
  by (cases fs) (auto intro: equal_lines_trans)

lemma frag_path_append:
  "frag_path policy text1 text2 i j fs k l \<Longrightarrow> frag_path policy text1 text2 k l gs m n \<Longrightarrow> frag_path policy text1 text2 i j (fs @ gs) m n"
  by (induction fs arbitrary: i j) (auto intro: frag_path_prepend)

text \<open>The pieces of all fragments describe the difference of the two texts.\<close>

lemma frag_path_loose:
  assumes "list_all scalar text1" "list_all scalar text2" "frag_path policy text1 text2 i j fs m n"
  shows "loose_path (visible policy) (str_bytes text1) (str_bytes text2) (line_pos text1 i) (line_pos text2 j) (concat (map pieces fs))
    (line_pos text1 m) (line_pos text2 n)"
  using assms(3)
proof (induction fs arbitrary: i j)
  case Nil
  then have "m = i + (m - i)" "n = j + (m - i)" by (auto simp: equal_lines_def)
  with Nil lines_same [OF assms(1,2), of policy i j "m - i"] show ?case by (simp add: equal_lines_def)
next
  case (Cons f fs)
  let ?ls = "lf_lines f"
  have gap: "equal_lines policy text1 text2 i j (r_start1 ?ls) (r_start2 ?ls)" using Cons.prems by simp
  then have "r_start1 ?ls = i + (r_start1 ?ls - i)" "r_start2 ?ls = j + (r_start1 ?ls - i)" by (auto simp: equal_lines_def)
  with gap lines_same [OF assms(1,2), of policy i j "r_start1 ?ls - i"]
  have "loose_path (visible policy) (str_bytes text1) (str_bytes text2) (line_pos text1 i) (line_pos text2 j) []
      (line_pos text1 (r_start1 ?ls)) (line_pos text2 (r_start2 ?ls))" by (simp add: equal_lines_def)
  moreover have "loose_path (visible policy) (str_bytes text1) (str_bytes text2) (line_pos text1 (r_start1 ?ls)) (line_pos text2 (r_start2 ?ls))
      (pieces f) (line_pos text1 (r_end1 ?ls)) (line_pos text2 (r_end2 ?ls))"
    using Cons.prems by (auto simp: frag_ok_def Let_def line_range_offsets_def)
  ultimately have "loose_path (visible policy) (str_bytes text1) (str_bytes text2) (line_pos text1 i) (line_pos text2 j) ([] @ pieces f)
      (line_pos text1 (r_end1 ?ls)) (line_pos text2 (r_end2 ?ls))" by (rule loose_path_append)
  with Cons show ?case by (auto intro: loose_path_append)
qed

section \<open>From blocks to fragments\<close>

lemma loose_path_members:
  "loose_path P xs ys i j cs m n \<Longrightarrow> c \<in> set cs \<Longrightarrow> r_end1 c \<le> m \<and> r_end2 c \<le> n \<and> r_start1 c \<le> r_end1 c \<and> r_start2 c \<le> r_end2 c"
  by (induction cs arbitrary: i j) (auto dest: loose_path_bounds)

lemma runs_with_inner:
  assumes "r_start1 offs \<le> r_end1 offs" "r_start2 offs \<le> r_end2 offs"
  shows "runs (with_inner lines offs (Some frs)) (\<lambda>f. lf_lines f = lines \<and> lf_offsets f = offs \<and> inner_ranges f = map frag_range frs)"
proof (cases "length frs = 1 \<and> df_start1 (frs ! 0) = 0 \<and> df_start2 (frs ! 0) = 0 \<and>
    df_end1 (frs ! 0) = r_end1 offs - r_start1 offs \<and> df_end2 (frs ! 0) = r_end2 offs - r_start2 offs")
  case True
  then obtain g where "frs = [g]" by (cases frs) auto
  with True assms show ?thesis by (simp add: with_inner_def usub_def inner_ranges_def frag_range_def)
next
  case False
  with assms show ?thesis by (auto simp: with_inner_def usub_def inner_ranges_def Let_def)
qed

lemma range_bounds_slice:
  assumes "str_slice text1 a b = Some v1" "str_slice text2 c d = Some v2" "range_bounds v1 v2 r"
    and "r_end1 r \<le> str_len v1" "r_end2 r \<le> str_len v2" "r_start1 r \<le> r_end1 r" "r_start2 r \<le> r_end2 r"
  shows "range_bounds text1 text2 (move_range a c r)"
proof -
  have "a + str_len v1 = b" "c + str_len v2 = d" using assms(1,2) by (auto elim!: str_slice_Some)
  with assms(3-7) boundary_slice [OF assms(1), of "a + r_start1 r"] boundary_slice [OF assms(1), of "a + r_end1 r"]
    boundary_slice [OF assms(2), of "c + r_start2 r"] boundary_slice [OF assms(2), of "c + r_end2 r"]
  show ?thesis by (simp add: range_bounds_def)
qed

text \<open>The fragments of two pieces of text, moved to where they are in the texts.\<close>

lemma fragments_moved:
  assumes v: "str_slice text1 a b = Some v1" "str_slice text2 c d = Some v2" and ok: "fragments_ok policy v1 v2 rs"
  shows "loose_path (visible policy) (str_bytes text1) (str_bytes text2) a c (map (move_range a c) rs) b d"
    "list_all (range_bounds text1 text2) (map (move_range a c) rs)"
proof -
  have le: "a + str_len v1 = b" "c + str_len v2 = d" "a \<le> str_len text1" "c \<le> str_len text2" using v by (auto elim!: str_slice_Some)
  have path: "loose_path (significant policy) (str_bytes v1) (str_bytes v2) 0 0 rs (str_len v1) (str_len v2)"
    using ok by (simp add: fragments_ok_def)
  have "loose_path (visible policy) (str_bytes v1) (str_bytes v2) 0 0 rs (str_len v1) (str_len v2)"
    using path by (rule loose_path_mono) (rule visible_significant)
  from loose_path_slice [OF this [unfolded str_slice_bytes [OF v(1)] str_slice_bytes [OF v(2)]]] le
  show "loose_path (visible policy) (str_bytes text1) (str_bytes text2) a c (map (move_range a c) rs) b d" by simp
  have "list_all (range_bounds v1 v2) rs" using ok by (simp add: fragments_ok_def)
  moreover have "r_end1 r \<le> str_len v1 \<and> r_end2 r \<le> str_len v2 \<and> r_start1 r \<le> r_end1 r \<and> r_start2 r \<le> r_end2 r" if "r \<in> set rs" for r
    using loose_path_members [OF path that] by simp
  ultimately show "list_all (range_bounds text1 text2) (map (move_range a c) rs)"
    using range_bounds_slice [OF v] by (auto simp: list_all_iff)
qed

text \<open>One side of a cut between two blocks: \<open>at_line text L x\<close> says that line \<open>L\<close> starts at offset \<open>x\<close>.\<close>

definition at_line :: "ustr \<Rightarrow> nat \<Rightarrow> nat \<Rightarrow> bool" where
  "at_line text L x \<longleftrightarrow> line_start_at text x \<and> L = count_list (take x (str_bytes text)) 10"

lemma at_line_pos:
  assumes "list_all scalar text" "at_line text L x"
  shows "line_pos text L = x" "L < length (split_lines text)"
  using line_start_count [of "text" x] assms length_line_starts [OF assms(1)] by (auto simp: at_line_def line_pos_def split_lines_def)

lemma at_line_start:
  assumes "list_all scalar text" "k < length (split_lines text)"
  shows "at_line text k (line_pos text k)"
  using assms line_starts_at(1) [of k "text"] line_count_start [of k "text"] length_line_starts [OF assms(1)]
  by (simp add: at_line_def line_pos_def split_lines_def)

lemma count_list_take_mono:
  assumes "a \<le> b"
  shows "count_list (take a xs) x \<le> count_list (take b xs) x"
proof -
  obtain c where "b = a + c" using assms by (auto simp: le_iff_add)
  then show ?thesis by (simp add: take_add)
qed

lemma at_line_le:
  assumes sc: "list_all scalar text" and at: "at_line text L x" and le: "x \<le> line_pos text e" "e \<le> length (split_lines text)"
  shows "L \<le> e"
proof (cases "e = length (split_lines text)")
  case True
  with at_line_pos(2) [OF sc at] show ?thesis by simp
next
  case False
  with le at_line_start [OF sc, of e] have "at_line text e (line_pos text e)" by simp
  with at le(1) count_list_take_mono [of x "line_pos text e" "str_bytes text" 10] show ?thesis by (simp add: at_line_def)
qed

lemma at_line_next:
  assumes at: "at_line text L (p + x)" and sub: "str_slice text p q = Some sub" and "line_start_at text p"
    and y: "line_start_at sub y" "x \<le> y"
  shows "at_line text (L + count_list (between (str_bytes sub) x y) 10) (p + y)"
proof -
  have sub': "p + str_len sub = q" "q \<le> str_len text" using sub by (auto elim!: str_slice_Some)
  have ylen: "y \<le> str_len sub" using y(1) by (auto simp: line_start_at_def)
  have bytes: "str_bytes sub = take (q - p) (drop p (str_bytes text))" by (rule str_slice_bytes [OF sub])
  have "line_start_at text (p + y)"
  proof (cases "y = 0")
    case True
    with assms(3) show ?thesis by simp
  next
    case False
    with y(1) ylen sub' show ?thesis by (auto simp: line_start_at_def bytes)
  qed
  moreover have "take (p + y) (str_bytes text) = take (p + x) (str_bytes text) @ between (str_bytes sub) x y"
  proof -
    have "between (str_bytes sub) x y = between (str_bytes text) (p + x) (p + y)"
      unfolding bytes using ylen sub' by (intro between_slice) simp
    moreover have "take (p + y) (str_bytes text) = take (p + x) (str_bytes text) @ between (str_bytes text) (p + x) (p + y)"
      using y(2) by (simp add: between_def flip: take_add)
    ultimately show ?thesis by simp
  qed
  ultimately show ?thesis using at by (simp add: at_line_def)
qed

lemma slice_slice:
  assumes "str_slice text p q = Some sub" "str_slice sub x y = Some v"
  shows "str_slice text (p + x) (p + y) = Some v"
proof -
  obtain a b where t: "text = a @ sub @ b" "str_len a = p" using assms(1) by (rule str_slice_Some)
  obtain c d where u: "sub = c @ v @ d" "str_len c = x" "x + str_len v = y" using assms(2) by (rule str_slice_Some)
  have "str_slice ((a @ c) @ v @ (d @ b)) (str_len (a @ c)) (str_len (a @ c) + str_len v) = Some v" by (rule str_slice_append)
  with t u show ?thesis by (simp add: add.assoc)
qed

text \<open>The chunk of one block keeps the promise of a fragment.\<close>

lemma runs_block_chunk:
  assumes ls: "l1 \<le> e1" "l2 \<le> e2" "e1 \<le> length (split_lines text1)" "e2 \<le> length (split_lines text2)"
    and pos: "line_pos text1 l1 = p + x1" "line_pos text1 e1 = p + y1" "line_pos text2 l2 = q + x2" "line_pos text2 e2 = q + y2"
    and v: "str_slice text1 (p + x1) (p + y1) = Some v1" "str_slice text2 (q + x2) (q + y2) = Some v2"
    and ok: "fragments_ok policy v1 v2 (map frag_range frs)"
  shows "runs (with_inner (mk_range l1 e1 l2 e2) (mk_range (x1 + p) (y1 + p) (x2 + q) (y2 + q)) (Some frs))
    (\<lambda>f. frag_ok policy text1 text2 f \<and> lf_lines f = mk_range l1 e1 l2 e2)"
proof -
  have le: "x1 \<le> y1" "x2 \<le> y2" using v by (auto elim!: str_slice_Some)
  note moved = fragments_moved [OF v ok]
  have "runs (with_inner (mk_range l1 e1 l2 e2) (mk_range (x1 + p) (y1 + p) (x2 + q) (y2 + q)) (Some frs))
      (\<lambda>f. lf_lines f = mk_range l1 e1 l2 e2 \<and> lf_offsets f = mk_range (x1 + p) (y1 + p) (x2 + q) (y2 + q) \<and> inner_ranges f = map frag_range frs)"
    by (rule runs_with_inner) (use le in auto)
  then show ?thesis
    by (rule runs_mono) (use ls pos moved in \<open>simp add: frag_ok_def Let_def line_range_offsets_def pieces_def add.commute\<close>)
qed

lemma blocks_tile_le: "blocks_tile i j bs m n \<Longrightarrow> i \<le> m \<and> j \<le> n"
  by (induction bs arbitrary: i j) (fastforce simp: range_wf_def)+

lemma runs_block_chunks:
  assumes sc: "list_all scalar text1" "list_all scalar text2"
    and sub: "str_slice text1 p (p + str_len sub1) = Some sub1" "str_slice text2 q (q + str_len sub2) = Some sub2"
    and offs: "r_start1 (lf_offsets f) = p" "r_start2 (lf_offsets f) = q"
    and starts: "line_start_at text1 p" "line_start_at text2 q"
    and ends: "r_end1 (lf_lines f) \<le> length (split_lines text1)" "r_end2 (lf_lines f) \<le> length (split_lines text2)"
      "line_pos text1 (r_end1 (lf_lines f)) = p + str_len sub1" "line_pos text2 (r_end2 (lf_lines f)) = q + str_len sub2"
    and "blocks_tile x1 x2 bs (str_len sub1) (str_len sub2)" "list_all (line_block_ok policy sub1 sub2) bs" "bs \<noteq> []"
    and "at_line text1 l1 (p + x1)" "at_line text2 l2 (q + x2)"
  shows "runs (block_chunks f l1 l2 bs) (\<lambda>fs. frag_path policy text1 text2 l1 l2 fs (r_end1 (lf_lines f)) (r_end2 (lf_lines f)))"
  using assms(13-17)
proof (induction bs arbitrary: x1 x2 l1 l2)
  case (Cons b bs)
  let ?y1 = "r_end1 (lb_offsets b)" and ?y2 = "r_end2 (lb_offsets b)"
  have x: "r_start1 (lb_offsets b) = x1" "r_start2 (lb_offsets b) = x2" "range_wf (lb_offsets b)" and tl: "blocks_tile ?y1 ?y2 bs (str_len sub1) (str_len sub2)"
    and b: "line_block_ok policy sub1 sub2 b" and oks: "list_all (line_block_ok policy sub1 sub2) bs" using Cons.prems by auto
  have xy: "x1 \<le> ?y1" "x2 \<le> ?y2" using x by (auto simp: range_wf_def)
  have ylen: "?y1 \<le> str_len sub1" "?y2 \<le> str_len sub2" using blocks_tile_le [OF tl] by auto
  note at = Cons.prems(4,5) and pos1 = at_line_pos [OF sc(1) Cons.prems(4)] and pos2 = at_line_pos [OF sc(2) Cons.prems(5)]
  obtain v1 v2 where v: "str_slice sub1 x1 ?y1 = Some v1" "str_slice sub2 x2 ?y2 = Some v2" and frs: "fragments_ok policy v1 v2 (map frag_range (lb_fragments b))"
    and corner: "line_corner sub1 sub2 ?y1 ?y2" and nls: "lb_newlines1 b = count_list (between (str_bytes sub1) x1 ?y1) 10"
      "lb_newlines2 b = count_list (between (str_bytes sub2) x2 ?y2) 10"
    using b x by (auto simp: line_block_ok_def Let_def)
  note w = slice_slice [OF sub(1) v(1)] slice_slice [OF sub(2) v(2)]
  let ?chunk = "\<lambda>e1 e2. with_inner (mk_range l1 e1 l2 e2) (mk_range (x1 + p) (?y1 + p) (x2 + q) (?y2 + q)) (Some (lb_fragments b))"
  have offsets: "range_new (x1 + p) (?y1 + p) (x2 + q) (?y2 + q) = Some (mk_range (x1 + p) (?y1 + p) (x2 + q) (?y2 + q))"
    using xy by (simp add: range_new_def dassert_def)
  show ?case
  proof (cases "bs = []")
    case True
    then have y: "?y1 = str_len sub1" "?y2 = str_len sub2" using tl by auto
    have le: "l1 \<le> r_end1 (lf_lines f)" "l2 \<le> r_end2 (lf_lines f)"
      using at_line_le [OF sc(1) at(1) _ ends(1)] at_line_le [OF sc(2) at(2) _ ends(2)] ends(3,4) xy y by auto
    have chunk: "runs (?chunk (r_end1 (lf_lines f)) (r_end2 (lf_lines f)))
        (\<lambda>g. frag_ok policy text1 text2 g \<and> lf_lines g = mk_range l1 (r_end1 (lf_lines f)) l2 (r_end2 (lf_lines f)))"
      by (rule runs_block_chunk [OF le ends(1,2) pos1(1) _ pos2(1) _ w frs]) (use ends y in auto)
    have lines: "range_new l1 (r_end1 (lf_lines f)) l2 (r_end2 (lf_lines f)) = Some (mk_range l1 (r_end1 (lf_lines f)) l2 (r_end2 (lf_lines f)))"
      using le by (simp add: range_new_def dassert_def)
    have "block_chunks f l1 l2 (b # bs) = ?chunk (r_end1 (lf_lines f)) (r_end2 (lf_lines f)) \<bind> (\<lambda>chunk. Some [chunk])"
      using True offsets lines offs x by simp
    also have "runs \<dots> (\<lambda>fs. frag_path policy text1 text2 l1 l2 fs (r_end1 (lf_lines f)) (r_end2 (lf_lines f)))"
      by (rule runs_bindI [OF chunk]) (use pos1(2) pos2(2) ends in simp)
    finally show ?thesis .
  next
    case False
    then obtain c cs where bs: "bs = c # cs" by (cases bs) auto
    have "\<not> (?y1 = str_len sub1 \<and> ?y2 = str_len sub2)"
      using tl blocks_tile_le [of "r_end1 (lb_offsets c)" "r_end2 (lb_offsets c)" cs] unfolding bs
      by (auto simp: range_wf_def range_is_empty_def) (metis antisym)+
    then have lines: "line_start_at sub1 ?y1" "line_start_at sub2 ?y2" using corner by (auto simp: line_corner_def)
    let ?e1 = "l1 + lb_newlines1 b" and ?e2 = "l2 + lb_newlines2 b"
    have here: "at_line text1 ?e1 (p + ?y1)" "at_line text2 ?e2 (q + ?y2)"
      unfolding nls using at_line_next [OF at(1) sub(1) starts(1) lines(1) xy(1)] at_line_next [OF at(2) sub(2) starts(2) lines(2) xy(2)] by auto
    note npos1 = at_line_pos [OF sc(1) here(1)] and npos2 = at_line_pos [OF sc(2) here(2)]
    have chunk: "runs (?chunk ?e1 ?e2) (\<lambda>g. frag_ok policy text1 text2 g \<and> lf_lines g = mk_range l1 ?e1 l2 ?e2)"
      by (rule runs_block_chunk [OF _ _ _ _ pos1(1) npos1(1) pos2(1) npos2(1) w frs]) (use npos1(2) npos2(2) in auto)
    have rest: "runs (block_chunks f ?e1 ?e2 bs) (\<lambda>fs. frag_path policy text1 text2 ?e1 ?e2 fs (r_end1 (lf_lines f)) (r_end2 (lf_lines f)))"
      by (rule Cons.IH [OF tl oks False here])
    have lines: "range_new l1 ?e1 l2 ?e2 = Some (mk_range l1 ?e1 l2 ?e2)" by (simp add: range_new_def dassert_def)
    have "block_chunks f l1 l2 (b # bs) = ?chunk ?e1 ?e2 \<bind> (\<lambda>chunk. block_chunks f ?e1 ?e2 bs \<bind> (\<lambda>chunks. Some (chunk # chunks)))"
      using False offsets lines offs x by simp
    also have "runs \<dots> (\<lambda>fs. frag_path policy text1 text2 l1 l2 fs (r_end1 (lf_lines f)) (r_end2 (lf_lines f)))"
      by (rule runs_bindI [OF chunk], rule runs_bindI [OF rest]) (use pos1(2) pos2(2) in simp)
    finally show ?thesis .
  qed
qed simp

section \<open>Comparing the changed lines by words\<close>

text \<open>A changed range of lines before its words are compared.\<close>

definition plain_fragment :: "ustr \<Rightarrow> ustr \<Rightarrow> range \<Rightarrow> line_fragment" where
  "plain_fragment text1 text2 r = \<lparr>lf_lines = r, lf_offsets = line_range_offsets text1 text2 r, lf_inner = None\<rparr>"

definition line_range_ok :: "ustr \<Rightarrow> ustr \<Rightarrow> range \<Rightarrow> bool" where
  "line_range_ok text1 text2 r \<longleftrightarrow> r_start1 r \<le> r_end1 r \<and> r_start2 r \<le> r_end2 r \<and>
     r_end1 r \<le> length (split_lines text1) \<and> r_end2 r \<le> length (split_lines text2)"

lemma line_fragment_of_plain:
  assumes "list_all scalar text1" "list_all scalar text2" "line_range_ok text1 text2 r"
  shows "line_fragment_of r (line_offsets_new text1) (line_offsets_new text2) = Some (plain_fragment text1 text2 r)"
proof -
  have "r_start1 r \<le> r_end1 r" "r_start2 r \<le> r_end2 r" "r_end1 r \<le> length (line_starts text1)" "r_end2 r \<le> length (line_starts text2)"
    using assms length_line_starts by (auto simp: line_range_ok_def split_lines_def)
  then show ?thesis
    by (simp add: line_fragment_of_def offsets_of_pos range_new_def dassert_def line_pos_mono plain_fragment_def line_range_offsets_def)
qed

lemma line_slices:
  assumes "list_all scalar text1" "list_all scalar text2" "line_range_ok text1 text2 r"
  obtains sub1 sub2 where
    "str_slice text1 (line_pos text1 (r_start1 r)) (line_pos text1 (r_end1 r)) = Some sub1"
    "str_slice text2 (line_pos text2 (r_start2 r)) (line_pos text2 (r_end2 r)) = Some sub2"
  using str_slice_boundary [OF line_boundary [OF assms(1)] line_boundary [OF assms(1)] line_pos_mono [of "r_start1 r" "r_end1 r"]]
    str_slice_boundary [OF line_boundary [OF assms(2)] line_boundary [OF assms(2)] line_pos_mono [of "r_start2 r" "r_end2 r"]]
    assms(3) unfolding line_range_ok_def by metis

lemma whole_piece:
  assumes sc: "list_all scalar text1" "list_all scalar text2" and r: "line_range_ok text1 text2 r"
  shows "frag_ok policy text1 text2 (plain_fragment text1 text2 r)"
  using r line_pos_mono [of "r_start1 r" "r_end1 r" text1] line_pos_mono [of "r_start2 r" "r_end2 r" text2]
    line_boundary [OF sc(1)] line_boundary [OF sc(2)] line_pos_le [of text1] line_pos_le [of text2]
  by (auto simp: frag_ok_def Let_def plain_fragment_def pieces_def inner_ranges_def line_range_ok_def line_range_offsets_def
      move_range_def intro!: ws_same_refl)

lemma no_piece:
  assumes sc: "list_all scalar text1" "list_all scalar text2" and r: "line_range_ok text1 text2 r"
    and sub: "str_slice text1 (line_pos text1 (r_start1 r)) (line_pos text1 (r_end1 r)) = Some sub1"
      "str_slice text2 (line_pos text2 (r_start2 r)) (line_pos text2 (r_end2 r)) = Some sub2"
    and eq: "is_equals sub1 sub2 policy"
  shows "frag_ok policy text1 text2 ((plain_fragment text1 text2 r)\<lparr>lf_inner := Some []\<rparr>)"
proof -
  have "ws_same (visible policy) (str_bytes text1) (str_bytes text2) (line_pos text1 (r_start1 r)) (line_pos text1 (r_end1 r))
      (line_pos text2 (r_start2 r)) (line_pos text2 (r_end2 r))"
    using is_equals_visible [OF eq] str_slice_bytes [OF sub(1)] str_slice_bytes [OF sub(2)] r line_pos_mono line_pos_le
    by (auto simp: ws_same_def between_def line_range_ok_def)
  with r show ?thesis
    by (simp add: frag_ok_def Let_def plain_fragment_def pieces_def inner_ranges_def line_range_ok_def line_range_offsets_def)
qed

text \<open>Two ranges of lines that are both empty text are a pair of equal lines.\<close>

lemma empty_lines:
  assumes sc: "list_all scalar text" and i: "s < e" "e \<le> length (split_lines text)" and pos: "line_pos text s = line_pos text e"
  shows "split_lines text ! s = []"
proof -
  from i sc line_between [OF sc, of s] obtain nl where
    nl: "between (str_bytes text) (line_pos text s) (line_pos text (Suc s)) = str_bytes (split_lines text ! s) @ nl" by auto
  have "line_pos text (Suc s) = line_pos text s"
    using line_pos_mono [of s "Suc s" "text"] line_pos_mono [of "Suc s" e "text"] i(1) pos by simp
  with nl have "str_bytes (split_lines text ! s) = []" by simp
  then show ?thesis by (metis length_0_conv length_str_bytes str_len_0)
qed

lemma split_lines_no_newline: "l \<in> set (split_lines text) \<Longrightarrow> 10 \<notin> set l"
  unfolding split_lines_def by (induction "text" arbitrary: l) (auto split: if_splits list.splits)

text \<open>Words are given up on at most \<open>MAX_BAD_LINES\<close> times, and only when a text is longer than the limit on tokens.\<close>

definition oversize :: "ustr \<Rightarrow> ustr \<Rightarrow> bool" where
  "oversize text1 text2 \<longleftrightarrow> DELTA_THRESHOLD_SIZE < str_len text1 \<or> DELTA_THRESHOLD_SIZE < str_len text2"

definition too_big_ok :: "ustr \<Rightarrow> ustr \<Rightarrow> nat \<Rightarrow> bool" where
  "too_big_ok text1 text2 n \<longleftrightarrow> n \<le> MAX_BAD_LINES \<and> (n = 0 \<or> oversize text1 text2)"

lemma too_big_ok_0 [simp]: "too_big_ok text1 text2 0"
  by (simp add: too_big_ok_def)

lemma too_big_ok_Suc: "n < MAX_BAD_LINES \<Longrightarrow> oversize text1 text2 \<Longrightarrow> too_big_ok text1 text2 (Suc n)"
  by (simp add: too_big_ok_def)

lemma runs_create_inner:
  assumes engine: "engine_ok (\<lambda>_. True) (=) engine" "engine_ok (\<lambda>_. True) (=) char_engine"
    and sc: "list_all scalar text1" "list_all scalar text2" and size: "str_len text1 < ENGINE_TOKEN_LIMIT" "str_len text2 < ENGINE_TOKEN_LIMIT"
    and r: "line_range_ok text1 text2 r"
    and tight: "tight (\<lambda>a b. is_equals a b policy) (split_lines text1) (split_lines text2) r"
  shows "runs (create_inner engine char_engine al (plain_fragment text1 text2 r) text1 text2 policy try_compute) (\<lambda>res. case res of
      Inl _ \<Rightarrow> try_compute \<and> oversize text1 text2
    | Inr fs \<Rightarrow> frag_path policy text1 text2 (r_start1 r) (r_start2 r) fs (r_end1 r) (r_end2 r))"
proof -
  let ?f = "plain_fragment text1 text2 r"
  obtain sub1 sub2 where sub: "str_slice text1 (line_pos text1 (r_start1 r)) (line_pos text1 (r_end1 r)) = Some sub1"
    "str_slice text2 (line_pos text2 (r_start2 r)) (line_pos text2 (r_end2 r)) = Some sub2"
    using line_slices [OF sc r] by blast
  have f: "lf_lines ?f = r" "r_start1 (lf_offsets ?f) = line_pos text1 (r_start1 r)" "r_end1 (lf_offsets ?f) = line_pos text1 (r_end1 r)"
    "r_start2 (lf_offsets ?f) = line_pos text2 (r_start2 r)" "r_end2 (lf_offsets ?f) = line_pos text2 (r_end2 r)"
    by (simp_all add: plain_fragment_def line_range_offsets_def)
  have one: "frag_path policy text1 text2 (r_start1 r) (r_start2 r) [g] (r_end1 r) (r_end2 r)"
    if "frag_ok policy text1 text2 g" "lf_lines g = r" for g using that r by (auto simp: line_range_ok_def)
  show ?thesis
  proof (cases "r_start1 r = r_end1 r \<or> r_start2 r = r_end2 r")
    case True
    let ?g = "?f\<lparr>lf_inner := if is_equals sub1 sub2 policy then Some [] else None\<rparr>"
    have "frag_ok policy text1 text2 ?g" using no_piece [OF sc r sub] whole_piece [OF sc r] by (auto simp: plain_fragment_def)
    moreover have "create_inner engine char_engine al ?f text1 text2 policy try_compute = Some (Inr [?g])"
      using True sub by (simp add: create_inner_def f Let_def)
    ultimately show ?thesis using one [of ?g] f(1) by (simp add: plain_fragment_def)
  next
    case False
    then have lt: "r_start1 r < r_end1 r" "r_start2 r < r_end2 r" using r by (auto simp: line_range_ok_def)
    show ?thesis
    proof (cases try_compute)
      case False
      with lt sub one [OF whole_piece [OF sc r] f(1)] show ?thesis by (simp add: create_inner_def f Let_def)
    next
      case compute: True
      have lens: "line_pos text1 (r_end1 r) = line_pos text1 (r_start1 r) + str_len sub1"
        "line_pos text2 (r_end2 r) = line_pos text2 (r_start2 r) + str_len sub2" using sub by (auto elim!: str_slice_Some)
      have ends: "r_end1 r \<le> length (split_lines text1)" "r_end2 r \<le> length (split_lines text2)" using r by (auto simp: line_range_ok_def)
      have at: "at_line text1 (r_start1 r) (line_pos text1 (r_start1 r))" "at_line text2 (r_start2 r) (line_pos text2 (r_start2 r))"
        using at_line_start [OF sc(1), of "r_start1 r"] at_line_start [OF sc(2), of "r_start2 r"] lt ends by auto
      have split: "runs (compare_and_split engine char_engine al sub1 sub2 policy) (\<lambda>res. case res of
          Inl _ \<Rightarrow> DELTA_THRESHOLD_SIZE < str_len sub1 \<or> DELTA_THRESHOLD_SIZE < str_len sub2
        | Inr bs \<Rightarrow> blocks_tile 0 0 bs (str_len sub1) (str_len sub2) \<and> list_all (line_block_ok policy sub1 sub2) bs)"
        by (rule runs_compare_and_split [OF engine])
          (use scalar_slice [OF sub(1) sc(1)] scalar_slice [OF sub(2) sc(2)] slice_size [OF sub(1)] slice_size [OF sub(2)] size in auto)
      have big: "oversize text1 text2" if "DELTA_THRESHOLD_SIZE < str_len sub1 \<or> DELTA_THRESHOLD_SIZE < str_len sub2"
        using that slice_size [OF sub(1)] slice_size [OF sub(2)] by (auto simp: oversize_def)
      have blocks: "bs \<noteq> []" if "blocks_tile 0 0 bs (str_len sub1) (str_len sub2)" for bs
      proof
        assume "bs = []"
        with that lens have "line_pos text1 (r_start1 r) = line_pos text1 (r_end1 r)" "line_pos text2 (r_start2 r) = line_pos text2 (r_end2 r)" by auto
        with empty_lines [OF sc(1) lt(1) ends(1)] empty_lines [OF sc(2) lt(2) ends(2)]
        have "is_equals (split_lines text1 ! r_start1 r) (split_lines text2 ! r_start2 r) policy" by simp
        with tight lt show False by (simp add: tight_def)
      qed
      have chunks: "runs (block_chunks ?f (r_start1 r) (r_start2 r) bs)
          (\<lambda>fs. frag_path policy text1 text2 (r_start1 r) (r_start2 r) fs (r_end1 r) (r_end2 r))"
        if "blocks_tile 0 0 bs (str_len sub1) (str_len sub2)" "list_all (line_block_ok policy sub1 sub2) bs" for bs
        using runs_block_chunks [OF sc sub [unfolded lens] f(2,4) _ _ _ _ _ _ that blocks [OF that(1)]] at lens ends
        by (simp add: f(1) at_line_def)
      have "create_inner engine char_engine al ?f text1 text2 policy try_compute =
          compare_and_split engine char_engine al sub1 sub2 policy \<bind> (\<lambda>result. case result of
            Inl too_big \<Rightarrow> Some (Inl too_big)
          | Inr blocks \<Rightarrow> dassert (blocks \<noteq> []) \<bind> (\<lambda>_. block_chunks ?f (r_start1 r) (r_start2 r) blocks \<bind> (\<lambda>chunks. Some (Inr chunks))))"
        using lt compute sub by (simp add: create_inner_def f Let_def)
      also have "runs \<dots> (\<lambda>res. case res of Inl _ \<Rightarrow> try_compute \<and> oversize text1 text2
          | Inr fs \<Rightarrow> frag_path policy text1 text2 (r_start1 r) (r_start2 r) fs (r_end1 r) (r_end2 r))"
        by (rule runs_bindI [OF split]) (use compute chunks blocks big in \<open>auto simp: runs_bind runs_dassert split: sum.splits\<close>)
      finally show ?thesis .
    qed
  qed
qed

section \<open>The report before squashing\<close>

abbreviation line_diff :: "ComparisonPolicy \<Rightarrow> ustr \<Rightarrow> ustr \<Rightarrow> bool \<Rightarrow> nat \<Rightarrow> nat \<Rightarrow> range list \<Rightarrow> bool" where
  "line_diff policy text1 text2 s i j cs \<equiv> diff_path (\<lambda>a b. is_equals a b policy) (split_lines text1) (split_lines text2) s i j cs
     (length (split_lines text1)) (length (split_lines text2))"

lemma line_diff_Cons:
  assumes "line_diff policy text1 text2 s i j (c # cs)"
  shows "equal_lines policy text1 text2 i j (r_start1 c) (r_start2 c)" "line_range_ok text1 text2 c"
    "line_diff policy text1 text2 True (r_end1 c) (r_end2 c) cs"
  using assms diff_path_in_bounds [OF assms, of c] by (auto simp: equal_lines_def line_range_ok_def range_wf_def)

lemma line_diff_Nil:
  "line_diff policy text1 text2 s i j [] \<Longrightarrow> equal_lines policy text1 text2 i j (length (split_lines text1)) (length (split_lines text2))"
  by (auto simp: equal_lines_def)

abbreviation whole_path :: "ComparisonPolicy \<Rightarrow> ustr \<Rightarrow> ustr \<Rightarrow> line_fragment list \<Rightarrow> bool" where
  "whole_path policy text1 text2 fs \<equiv> frag_path policy text1 text2 0 0 fs (length (split_lines text1)) (length (split_lines text2))"

lemma plain_path:
  assumes sc: "list_all scalar text1" "list_all scalar text2"
  shows "line_diff policy text1 text2 s i j cs \<Longrightarrow>
    frag_path policy text1 text2 i j (map (plain_fragment text1 text2) cs) (length (split_lines text1)) (length (split_lines text2))"
proof (induction cs arbitrary: s i j)
  case Nil
  then show ?case by (simp add: line_diff_Nil del: diff_path.simps)
next
  case (Cons c cs)
  note c = line_diff_Cons [OF Cons.prems]
  have "lf_lines (plain_fragment text1 text2 c) = c" by (simp add: plain_fragment_def)
  with Cons.IH [OF c(3)] c(1) whole_piece [OF sc c(2)] show ?case by simp
qed

lemma runs_create_inner_fragments:
  assumes engine: "engine_ok (\<lambda>_. True) (=) engine" "engine_ok (\<lambda>_. True) (=) char_engine"
    and sc: "list_all scalar text1" "list_all scalar text2" and size: "str_len text1 < ENGINE_TOKEN_LIMIT" "str_len text2 < ENGINE_TOKEN_LIMIT"
    and diff: "line_diff policy text1 text2 False 0 0 cs"
    and tight: "\<forall>c\<in>set cs. tight (\<lambda>a b. is_equals a b policy) (split_lines text1) (split_lines text2) c"
  shows "runs (create_inner_fragments engine char_engine al (map (plain_fragment text1 text2) cs) text1 text2 policy)
    (\<lambda>u. whole_path policy text1 text2 (ur_fragments u) \<and> too_big_ok text1 text2 (ur_too_big_blocks u))"
proof -
  let ?I = "\<lambda>st cs. too_big_ok text1 text2 (snd st) \<and> (\<forall>c\<in>set cs. tight (\<lambda>a b. is_equals a b policy) (split_lines text1) (split_lines text2) c) \<and>
    (\<exists>s i j. frag_path policy text1 text2 0 0 (fst st) i j \<and> line_diff policy text1 text2 s i j cs)"
  let ?step = "\<lambda>(result, too_big_blocks) fragment. do {
         let try_compute = too_big_blocks < MAX_BAD_LINES;
         inner \<leftarrow> create_inner engine char_engine al fragment text1 text2 policy try_compute;
         Some (case inner of
           Inr inner \<Rightarrow> (result @ inner, too_big_blocks)
         | Inl DiffTooBig \<Rightarrow> (result @ [fragment], too_big_blocks + 1))
       }"
  have step: "runs (?step st (plain_fragment text1 text2 c)) (\<lambda>st'. ?I st' cs)" if I: "?I st (c # cs)" for st c cs
  proof -
    obtain res n where st: "st = (res, n)" by (cases st)
    let ?f = "plain_fragment text1 text2 c"
    obtain s i j where path: "frag_path policy text1 text2 0 0 res i j" and ld: "line_diff policy text1 text2 s i j (c # cs)"
      using I unfolding st by auto
    note c = line_diff_Cons [OF ld]
    have start: "frag_path policy text1 text2 0 0 (res @ []) (r_start1 c) (r_start2 c)"
      by (rule frag_path_append [OF path]) (use c(1) in simp)
    have next_path: "?I (res @ fs, k) cs" if "frag_path policy text1 text2 (r_start1 c) (r_start2 c) fs (r_end1 c) (r_end2 c)" "too_big_ok text1 text2 k" for fs k
      using frag_path_append [OF start that(1)] that(2) c(3) I by (intro conjI exI) auto
    have "lf_lines ?f = c" "r_end1 c \<le> length (split_lines text1)" "r_end2 c \<le> length (split_lines text2)"
      using c(2) by (simp_all add: plain_fragment_def line_range_ok_def)
    with whole_piece [OF sc c(2), of policy] c(2)
    have plain: "frag_path policy text1 text2 (r_start1 c) (r_start2 c) [?f] (r_end1 c) (r_end2 c)" by (simp add: line_range_ok_def)
    have inner: "runs (create_inner engine char_engine al ?f text1 text2 policy (n < MAX_BAD_LINES)) (\<lambda>r. case r of
        Inl _ \<Rightarrow> n < MAX_BAD_LINES \<and> oversize text1 text2
      | Inr fs \<Rightarrow> frag_path policy text1 text2 (r_start1 c) (r_start2 c) fs (r_end1 c) (r_end2 c))"
      by (rule runs_create_inner [OF engine sc size c(2)]) (use I in simp)
    show ?thesis unfolding st prod.case Let_def
    proof (rule runs_bindI [OF inner])
      fix r :: "DiffTooBig + line_fragment list"
      assume "case r of Inl _ \<Rightarrow> n < MAX_BAD_LINES \<and> oversize text1 text2
        | Inr fs \<Rightarrow> frag_path policy text1 text2 (r_start1 c) (r_start2 c) fs (r_end1 c) (r_end2 c)"
      then show "runs (Some (case r of Inr inner \<Rightarrow> (res @ inner, n) | Inl DiffTooBig \<Rightarrow> (res @ [?f], n + 1))) (\<lambda>st'. ?I st' cs)"
        using next_path [OF plain, of "n + 1"] next_path [of _ n] I too_big_ok_Suc [of n text1 text2] unfolding runs_Some st
        by (cases r) (auto split: DiffTooBig.splits simp del: diff_path.simps)
    qed
  qed
  have loop: "runs (for_each (\<lambda>st c. ?step st (plain_fragment text1 text2 c)) ([], 0) cs) (\<lambda>st. ?I st [])"
  proof (rule runs_for_each [where I = ?I])
    have "frag_path policy text1 text2 0 0 [] 0 0" by simp
    with diff tight show "?I ([], 0) cs" unfolding fst_conv snd_conv using too_big_ok_0 by blast
  qed (rule step)
  have final: "whole_path policy text1 text2 (fst st) \<and> too_big_ok text1 text2 (snd st)" if "?I st []" for st
    using that frag_path_append [of policy text1 text2 0 0 "fst st" _ _ "[]"] line_diff_Nil by fastforce
  show ?thesis unfolding create_inner_fragments_def for_each_map
    by (rule runs_bindI [OF loop], drule final) (auto split: prod.splits)
qed

section \<open>Squashing keeps the promise\<close>

text \<open>Pushing a piece, as an operation on the ranges it stands for: two pieces that touch become one.\<close>

definition push_range :: "range list \<Rightarrow> range \<Rightarrow> range list" where
  "push_range cs p =
     (if cs \<noteq> [] \<and> r_end1 (last cs) = r_start1 p \<and> r_end2 (last cs) = r_start2 p
      then butlast cs @ [mk_range (r_start1 (last cs)) (r_end1 p) (r_start2 (last cs)) (r_end2 p)]
      else cs @ [p])"

lemma loose_path_merge:
  "loose_path P xs ys i j (cs @ c # p # ds) m n \<Longrightarrow> r_end1 c = r_start1 p \<Longrightarrow> r_end2 c = r_start2 p \<Longrightarrow>
   loose_path P xs ys i j (cs @ mk_range (r_start1 c) (r_end1 p) (r_start2 c) (r_end2 p) # ds) m n"
  by (induction cs arbitrary: i j) auto

lemma push_range_path:
  assumes "loose_path P xs ys i j (cs @ p # ds) m n"
  shows "loose_path P xs ys i j (push_range cs p @ ds) m n"
proof (cases "cs \<noteq> [] \<and> r_end1 (last cs) = r_start1 p \<and> r_end2 (last cs) = r_start2 p")
  case True
  then have cs: "cs = butlast cs @ [last cs]" by simp
  from assms have "loose_path P xs ys i j (butlast cs @ last cs # p # ds) m n" by (subst (asm) cs) simp
  with True loose_path_merge [OF this] show ?thesis by (simp add: push_range_def)
next
  case False
  with assms show ?thesis by (auto simp: push_range_def)
qed

lemma foldl_push_path: "loose_path P xs ys i j (cs @ ps) m n \<Longrightarrow> loose_path P xs ys i j (foldl push_range cs ps) m n"
  by (induction ps arbitrary: cs) (auto dest: push_range_path)

lemma push_range_bounds:
  assumes "list_all (range_bounds text1 text2) cs" "range_bounds text1 text2 p"
  shows "list_all (range_bounds text1 text2) (push_range cs p)"
proof -
  have "range_bounds text1 text2 (last cs)" if "cs \<noteq> []" using assms(1) that by (simp add: list_all_iff)
  with assms show ?thesis by (auto simp: push_range_def list_all_iff range_bounds_def dest: in_set_butlastD)
qed

lemma foldl_push_bounds:
  "list_all (range_bounds text1 text2) cs \<Longrightarrow> list_all (range_bounds text1 text2) ps \<Longrightarrow> list_all (range_bounds text1 text2) (foldl push_range cs ps)"
  by (induction ps arbitrary: cs) (auto simp: push_range_bounds)

lemma push_piece_ranges:
  "map (\<lambda>f. move_range p q (frag_range f)) (push_piece inner g) = push_range (map (\<lambda>f. move_range p q (frag_range f)) inner) (move_range p q (frag_range g))"
  by (auto simp: push_piece_def push_range_def last_map map_butlast frag_range_def move_range_def)

lemma foldl_push_piece_ranges:
  "map (\<lambda>f. move_range p q (frag_range f)) (foldl (\<lambda>inner g. push_piece inner (sh g)) inner gs) =
   foldl push_range (map (\<lambda>f. move_range p q (frag_range f)) inner) (map (\<lambda>g. move_range p q (frag_range (sh g))) gs)"
  by (induction gs arbitrary: inner) (simp_all add: push_piece_ranges)

text \<open>A group of adjoining fragments.\<close>

lemma group_path:
  assumes "\<forall>f\<in>set fs. frag_ok policy text1 text2 f" "successively is_adjoining fs" "fs \<noteq> []"
  shows "loose_path (visible policy) (str_bytes text1) (str_bytes text2) (r_start1 (lf_offsets (hd fs))) (r_start2 (lf_offsets (hd fs)))
    (concat (map pieces fs)) (r_end1 (lf_offsets (last fs))) (r_end2 (lf_offsets (last fs)))"
    and "r_start1 (lf_lines (hd fs)) \<le> r_end1 (lf_lines (last fs)) \<and> r_start2 (lf_lines (hd fs)) \<le> r_end2 (lf_lines (last fs))"
    and "\<forall>f\<in>set fs. r_start1 (lf_offsets (hd fs)) \<le> r_start1 (lf_offsets f) \<and> r_start2 (lf_offsets (hd fs)) \<le> r_start2 (lf_offsets f)"
proof -
  let ?P = "\<lambda>fs. loose_path (visible policy) (str_bytes text1) (str_bytes text2) (r_start1 (lf_offsets (hd fs))) (r_start2 (lf_offsets (hd fs)))
    (concat (map pieces fs)) (r_end1 (lf_offsets (last fs))) (r_end2 (lf_offsets (last fs))) \<and>
    r_start1 (lf_lines (hd fs)) \<le> r_end1 (lf_lines (last fs)) \<and> r_start2 (lf_lines (hd fs)) \<le> r_end2 (lf_lines (last fs)) \<and>
    (\<forall>f\<in>set fs. r_start1 (lf_offsets (hd fs)) \<le> r_start1 (lf_offsets f) \<and> r_start2 (lf_offsets (hd fs)) \<le> r_start2 (lf_offsets f))"
  have "?P fs" using assms
  proof (induction fs)
    case (Cons f fs)
    let ?o = "lf_offsets f"
    have f: "loose_path (visible policy) (str_bytes text1) (str_bytes text2) (r_start1 ?o) (r_start2 ?o) (pieces f) (r_end1 ?o) (r_end2 ?o)"
      "r_start1 (lf_lines f) \<le> r_end1 (lf_lines f)" "r_start2 (lf_lines f) \<le> r_end2 (lf_lines f)"
      using Cons.prems(1) by (auto simp: frag_ok_def Let_def)
    show ?case
    proof (cases "fs = []")
      case True
      with f show ?thesis by simp
    next
      case False
      then have adj: "is_adjoining f (hd fs)" "successively is_adjoining fs" using Cons.prems(2) by (auto simp: successively_Cons)
      from Cons.IH [OF _ adj(2) False] Cons.prems(1) have IH: "?P fs" by simp
      have "loose_path (visible policy) (str_bytes text1) (str_bytes text2) (r_start1 ?o) (r_start2 ?o) (pieces f @ concat (map pieces fs))
          (r_end1 (lf_offsets (last fs))) (r_end2 (lf_offsets (last fs)))"
        by (rule loose_path_append [OF f(1)]) (use adj(1) IH in \<open>simp add: is_adjoining_def\<close>)
      moreover have "r_start1 ?o \<le> r_end1 ?o" "r_start2 ?o \<le> r_end2 ?o" using loose_path_bounds [OF f(1)] by auto
      ultimately show ?thesis using False IH adj(1) f(2,3) by (fastforce simp: is_adjoining_def)
    qed
  qed simp
  then show "loose_path (visible policy) (str_bytes text1) (str_bytes text2) (r_start1 (lf_offsets (hd fs))) (r_start2 (lf_offsets (hd fs)))
    (concat (map pieces fs)) (r_end1 (lf_offsets (last fs))) (r_end2 (lf_offsets (last fs)))"
    "r_start1 (lf_lines (hd fs)) \<le> r_end1 (lf_lines (last fs)) \<and> r_start2 (lf_lines (hd fs)) \<le> r_end2 (lf_lines (last fs))"
    "\<forall>f\<in>set fs. r_start1 (lf_offsets (hd fs)) \<le> r_start1 (lf_offsets f) \<and> r_start2 (lf_offsets (hd fs)) \<le> r_start2 (lf_offsets f)" by auto
qed

lemma extract_inner_ranges:
  assumes "frag_ok policy text1 text2 f"
  obtains gs where "extract_inner_fragments f = Some gs" "map frag_range gs = inner_ranges f"
proof -
  have "r_start1 (lf_offsets f) \<le> r_end1 (lf_offsets f)" "r_start2 (lf_offsets f) \<le> r_end2 (lf_offsets f)"
    using assms loose_path_bounds by (auto simp: frag_ok_def Let_def)
  then have "\<exists>gs. extract_inner_fragments f = Some gs \<and> map frag_range gs = inner_ranges f"
    by (cases "lf_inner f") (auto simp: extract_inner_fragments_def inner_ranges_def usub_def frag_range_def)
  then show thesis using that by blast
qed

text \<open>The loop of \<open>squash_group\<close>: the pieces of every fragment, relative to the first one.\<close>

lemma runs_squash_pieces:
  assumes "\<forall>f\<in>set fs. frag_ok policy text1 text2 f \<and> p \<le> r_start1 (lf_offsets f) \<and> q \<le> r_start2 (lf_offsets f)"
  shows "runs (for_each (\<lambda>inner fragment. do {
            shift1 \<leftarrow> usub (r_start1 (lf_offsets fragment)) p;
            shift2 \<leftarrow> usub (r_start2 (lf_offsets fragment)) q;
            pieces \<leftarrow> extract_inner_fragments fragment;
            Some (foldl (\<lambda>inner piece. push_piece inner \<lparr>df_start1 = df_start1 piece + shift1, df_end1 = df_end1 piece + shift1,
              df_start2 = df_start2 piece + shift2, df_end2 = df_end2 piece + shift2\<rparr>) inner pieces)
          }) inner fs) (\<lambda>inner'. map (\<lambda>f. move_range p q (frag_range f)) inner' =
    foldl push_range (map (\<lambda>f. move_range p q (frag_range f)) inner) (concat (map pieces fs)))"
  using assms
proof (induction fs arbitrary: inner)
  case (Cons f fs)
  let ?s1 = "r_start1 (lf_offsets f)" and ?s2 = "r_start2 (lf_offsets f)"
  let ?sh = "\<lambda>piece. \<lparr>df_start1 = df_start1 piece + (?s1 - p), df_end1 = df_end1 piece + (?s1 - p),
              df_start2 = df_start2 piece + (?s2 - q), df_end2 = df_end2 piece + (?s2 - q)\<rparr>"
  have f: "frag_ok policy text1 text2 f" "p \<le> ?s1" "q \<le> ?s2" using Cons.prems by auto
  obtain gs where gs: "extract_inner_fragments f = Some gs" "map frag_range gs = inner_ranges f" using extract_inner_ranges [OF f(1)] .
  have "map (\<lambda>g. move_range p q (frag_range (?sh g))) gs = map (move_range ?s1 ?s2) (map frag_range gs)"
    using f(2,3) by (auto simp: frag_range_def move_range_def mk_range_def)
  then have "map (\<lambda>f. move_range p q (frag_range f)) (foldl (\<lambda>inner g. push_piece inner (?sh g)) inner gs) =
      foldl push_range (map (\<lambda>f. move_range p q (frag_range f)) inner) (pieces f)"
    unfolding foldl_push_piece_ranges gs(2) pieces_def by simp
  with Cons.IH [of "foldl (\<lambda>inner g. push_piece inner (?sh g)) inner gs"] Cons.prems f(2,3) gs(1)
  show ?case by (simp add: usub_def)
qed simp

lemma runs_squash_group:
  assumes ok: "\<forall>f\<in>set fs. frag_ok policy text1 text2 f" and adj: "successively is_adjoining fs" and ne: "fs \<noteq> []"
  shows "runs (squash_group fs) (\<lambda>g. frag_ok policy text1 text2 g \<and> lf_lines g =
    mk_range (r_start1 (lf_lines (hd fs))) (r_end1 (lf_lines (last fs))) (r_start2 (lf_lines (hd fs))) (r_end2 (lf_lines (last fs))))"
proof (cases "length fs = 1")
  case True
  then obtain f where "fs = [f]" by (cases fs) auto
  with ok show ?thesis by (simp add: squash_group_def nth_or_panic_def)
next
  case False
  let ?a = "hd fs" and ?b = "last fs"
  note path = group_path [OF ok adj ne]
  let ?p = "r_start1 (lf_offsets ?a)" and ?q = "r_start2 (lf_offsets ?a)"
  have ends: "nth_or_panic fs 0 = Some ?a" "usub (length fs) 1 = Some (length fs - 1)" "nth_or_panic fs (length fs - 1) = Some ?b"
    using ne by (auto simp: nth_or_panic_def usub_def hd_conv_nth last_conv_nth Suc_le_eq)
  have lines: "range_new (r_start1 (lf_lines ?a)) (r_end1 (lf_lines ?b)) (r_start2 (lf_lines ?a)) (r_end2 (lf_lines ?b)) =
      Some (mk_range (r_start1 (lf_lines ?a)) (r_end1 (lf_lines ?b)) (r_start2 (lf_lines ?a)) (r_end2 (lf_lines ?b)))"
    using path(2) by (simp add: range_new_def dassert_def)
  have le: "?p \<le> r_end1 (lf_offsets ?b)" "?q \<le> r_end2 (lf_offsets ?b)" using loose_path_bounds [OF path(1)] by auto
  then have offs: "range_new ?p (r_end1 (lf_offsets ?b)) ?q (r_end2 (lf_offsets ?b)) =
      Some (mk_range ?p (r_end1 (lf_offsets ?b)) ?q (r_end2 (lf_offsets ?b)))"
    by (simp add: range_new_def dassert_def)
  have "list_all (range_bounds text1 text2) (concat (map pieces fs))"
    using ok by (auto simp: list_all_iff frag_ok_def Let_def)
  then have bounds: "list_all (range_bounds text1 text2) (foldl push_range [] (concat (map pieces fs)))" by (simp add: foldl_push_bounds)
  have squashed: "loose_path (visible policy) (str_bytes text1) (str_bytes text2) ?p ?q (foldl push_range [] (concat (map pieces fs)))
      (r_end1 (lf_offsets ?b)) (r_end2 (lf_offsets ?b))"
    by (rule foldl_push_path) (use path(1) in simp)
  have ab: "frag_ok policy text1 text2 ?a" "frag_ok policy text1 text2 ?b" using ok ne by auto
  have result: "runs (with_inner (mk_range (r_start1 (lf_lines ?a)) (r_end1 (lf_lines ?b)) (r_start2 (lf_lines ?a)) (r_end2 (lf_lines ?b)))
        (mk_range ?p (r_end1 (lf_offsets ?b)) ?q (r_end2 (lf_offsets ?b))) (Some inner))
      (\<lambda>g. frag_ok policy text1 text2 g \<and> lf_lines g =
        mk_range (r_start1 (lf_lines ?a)) (r_end1 (lf_lines ?b)) (r_start2 (lf_lines ?a)) (r_end2 (lf_lines ?b)))"
    if inner: "map (\<lambda>f. move_range ?p ?q (frag_range f)) inner = foldl push_range (map (\<lambda>f. move_range ?p ?q (frag_range f)) []) (concat (map pieces fs))" for inner
    by (rule runs_mono [OF runs_with_inner])
      (use le ab path(2) squashed bounds inner in \<open>auto simp: frag_ok_def Let_def pieces_def line_range_offsets_def o_def\<close>)
  have loop: "\<forall>f\<in>set fs. frag_ok policy text1 text2 f \<and> ?p \<le> r_start1 (lf_offsets f) \<and> ?q \<le> r_start2 (lf_offsets f)"
    using ok path(3) by blast
  show ?thesis unfolding squash_group_def if_not_P [OF False] ends bind.simps
    by (rule runs_bindI [OF runs_squash_pieces [OF loop]], unfold lines offs bind.simps) (rule result)
qed

lemma group_frag_path:
  assumes "frag_path policy text1 text2 i j fs m n" "successively is_adjoining fs" "fs \<noteq> []"
  shows "equal_lines policy text1 text2 i j (r_start1 (lf_lines (hd fs))) (r_start2 (lf_lines (hd fs)))"
    "equal_lines policy text1 text2 (r_end1 (lf_lines (last fs))) (r_end2 (lf_lines (last fs))) m n" "\<forall>f\<in>set fs. frag_ok policy text1 text2 f"
proof -
  have "equal_lines policy text1 text2 i j (r_start1 (lf_lines (hd fs))) (r_start2 (lf_lines (hd fs))) \<and>
    equal_lines policy text1 text2 (r_end1 (lf_lines (last fs))) (r_end2 (lf_lines (last fs))) m n \<and> (\<forall>f\<in>set fs. frag_ok policy text1 text2 f)"
    using assms
  proof (induction fs arbitrary: i j)
    case (Cons f fs)
    then show ?case by (cases "fs = []") (auto simp: successively_Cons)
  qed simp
  then show "equal_lines policy text1 text2 i j (r_start1 (lf_lines (hd fs))) (r_start2 (lf_lines (hd fs)))"
    "equal_lines policy text1 text2 (r_end1 (lf_lines (last fs))) (r_end2 (lf_lines (last fs))) m n" "\<forall>f\<in>set fs. frag_ok policy text1 text2 f" by auto
qed

lemma runs_squash_group_path:
  assumes path: "frag_path policy text1 text2 i j fs m n" and adj: "successively is_adjoining fs" and ne: "fs \<noteq> []"
  shows "runs (squash_group fs) (\<lambda>g. frag_path policy text1 text2 i j [g] m n)"
  by (rule runs_mono [OF runs_squash_group [OF group_frag_path(3) [OF assms] adj ne]]) (use group_frag_path(1,2) [OF assms] in simp)

lemma runs_squash:
  assumes "frag_path policy text1 text2 0 0 fs m n"
  shows "runs (squash fs) (\<lambda>gs. frag_path policy text1 text2 0 0 gs m n)"
proof (cases "fs = []")
  case True
  with assms show ?thesis by (simp add: squash_def)
next
  case False
  let ?I = "\<lambda>st rest. successively is_adjoining (snd st) \<and>
    (\<exists>i j k l. frag_path policy text1 text2 0 0 (fst st) i j \<and> frag_path policy text1 text2 i j (snd st) k l \<and> frag_path policy text1 text2 k l rest m n)"
  let ?step = "\<lambda>(result, group) fragment. do {
            (result, group) \<leftarrow> (if group \<noteq> [] \<and> \<not> is_adjoining (last group) fragment
              then do { squashed \<leftarrow> squash_group group; Some (result @ [squashed], []) }
              else Some (result, group));
            Some (result, group @ [fragment])
          }"
  have step: "runs (?step st f) (\<lambda>st'. ?I st' rest)" if I: "?I st (f # rest)" for st f rest
  proof -
    obtain res grp where st: "st = (res, grp)" by (cases st)
    obtain i j k l where path: "frag_path policy text1 text2 0 0 res i j" "frag_path policy text1 text2 i j grp k l"
      "frag_path policy text1 text2 k l (f # rest) m n" and adj: "successively is_adjoining grp" using I unfolding st by auto
    let ?e1 = "r_end1 (lf_lines f)" and ?e2 = "r_end2 (lf_lines f)"
    have f: "frag_path policy text1 text2 k l [f] ?e1 ?e2" "frag_path policy text1 text2 ?e1 ?e2 rest m n"
      using path(3) by (auto simp: frag_ok_def Let_def)
    show ?thesis
    proof (cases "grp \<noteq> [] \<and> \<not> is_adjoining (last grp) f")
      case True
      from runs_squash_group_path [OF path(2) adj] True obtain g where
        g: "squash_group grp = Some g" "frag_path policy text1 text2 i j [g] k l" by (auto simp: runs_iff)
      have "?I (res @ [g], [f]) rest" using frag_path_append [OF path(1) g(2)] f by (intro conjI exI) auto
      with True g(1) show ?thesis unfolding st by simp
    next
      case False
      have "?I (res, grp @ [f]) rest"
        using path(1) frag_path_append [OF path(2) f(1)] f(2) adj False
        by (intro conjI exI) (auto simp: successively_append_iff)
      with False show ?thesis unfolding st by (auto simp del: frag_path.simps)
    qed
  qed
  have loop: "runs (for_each ?step ([], []) fs) (\<lambda>st. ?I st [])"
  proof (rule runs_for_each [where I = ?I])
    have "frag_path policy text1 text2 0 0 [] 0 0" by simp
    with assms show "?I ([], []) fs" unfolding fst_conv snd_conv by (metis successively.simps(1))
  qed (rule step)
  have final: "runs (if grp \<noteq> [] then do { squashed \<leftarrow> squash_group grp; Some (res @ [squashed]) } else Some res)
      (\<lambda>gs. frag_path policy text1 text2 0 0 gs m n)" if I: "?I (res, grp) []" for res grp
  proof -
    obtain i j k l where path: "frag_path policy text1 text2 0 0 res i j" "frag_path policy text1 text2 i j grp k l"
      "frag_path policy text1 text2 k l [] m n" and adj: "successively is_adjoining grp" using I by auto
    have grp: "frag_path policy text1 text2 i j grp m n" using frag_path_append [OF path(2,3)] by simp
    show ?thesis
    proof (cases "grp = []")
      case True
      with frag_path_append [OF path(1) grp] show ?thesis by simp
    next
      case False
      from runs_squash_group_path [OF grp adj False] obtain g where
        "squash_group grp = Some g" "frag_path policy text1 text2 i j [g] m n" by (auto simp: runs_iff)
      with False frag_path_append [OF path(1)] show ?thesis by (simp del: frag_path.simps)
    qed
  qed
  show ?thesis unfolding squash_def if_not_P [OF False]
  proof (rule runs_bindI [OF loop])
    fix st
    assume "?I st []"
    then show "runs (case st of (result, grp) \<Rightarrow>
        if grp \<noteq> [] then do { squashed \<leftarrow> squash_group grp; Some (result @ [squashed]) } else Some result)
      (\<lambda>gs. frag_path policy text1 text2 0 0 gs m n)" using final by (cases st) (simp only: prod.case)
  qed
qed

section \<open>The whole comparison\<close>

lemma tight_lines:
  assumes "tight (\<lambda>a b. line_eq (line_new a policy) (line_new b policy)) (split_lines text1) (split_lines text2) c"
    and "r_end1 c \<le> length (split_lines text1)" "r_end2 c \<le> length (split_lines text2)"
  shows "tight (\<lambda>a b. is_equals a b policy) (split_lines text1) (split_lines text2) c"
proof -
  have eq: "line_eq (line_new (split_lines text1 ! i) policy) (line_new (split_lines text2 ! j) policy)"
    if "is_equals (split_lines text1 ! i) (split_lines text2 ! j) policy" "i < length (split_lines text1)" "j < length (split_lines text2)" for i j
    using that split_lines_no_newline [OF nth_mem] by (blast intro: line_eq_line_new)
  have "r_end1 c - 1 < length (split_lines text1)" "r_end2 c - 1 < length (split_lines text2)" if "r_start1 c < r_end1 c" "r_start2 c < r_end2 c"
    using that assms(2,3) by auto
  with assms eq [of "r_start1 c" "r_start2 c"] eq [of "r_end1 c - 1" "r_end2 c - 1"] show ?thesis unfolding tight_def
    by (meson less_le_trans)
qed

lemma length_split_lines: "length (split_lines text) \<le> Suc (str_len text)"
proof (induction "text")
  case (Cons c cs)
  have "Suc 0 \<le> length (utf8_encode c)" by (simp add: Suc_le_eq)
  moreover have "length (split_lines (c # cs)) \<le> Suc (length (split_lines cs))" by (auto simp: split_lines_def split: list.splits)
  ultimately show ?case using Cons by simp
qed (simp add: split_lines_def)

definition inner_inputs :: "line diff_engine \<Rightarrow> ChunkToken diff_engine \<Rightarrow> uchar diff_engine \<Rightarrow> ustr \<Rightarrow> ustr \<Rightarrow> bool" where
  "inner_inputs line_engine engine char_engine text1 text2 \<longleftrightarrow> engine_ok iw_line line_eq line_engine \<and>
     engine_ok (\<lambda>_. True) (=) engine \<and> engine_ok (\<lambda>_. True) (=) char_engine \<and>
     list_all scalar text1 \<and> list_all scalar text2 \<and> Suc (str_len text1) < ENGINE_TOKEN_LIMIT \<and> Suc (str_len text2) < ENGINE_TOKEN_LIMIT"

lemma runs_unsquashed:
  assumes "inner_inputs line_engine engine char_engine text1 text2"
  shows "runs (compare_lines_inner_unsquashed line_engine engine char_engine al text1 text2 policy highlight)
    (\<lambda>u. whole_path policy text1 text2 (ur_fragments u) \<and> too_big_ok text1 text2 (ur_too_big_blocks u))"
proof (cases "text1 = text2")
  case True
  then show ?thesis by (simp add: compare_lines_inner_unsquashed_def equal_lines_def same_run_def)
next
  case False
  have engines: "engine_ok iw_line line_eq line_engine" "engine_ok (\<lambda>_. True) (=) engine" "engine_ok (\<lambda>_. True) (=) char_engine"
    and sc: "list_all scalar text1" "list_all scalar text2" and size: "str_len text1 < ENGINE_TOKEN_LIMIT" "str_len text2 < ENGINE_TOKEN_LIMIT"
    and lines: "length (split_lines text1) < ENGINE_TOKEN_LIMIT" "length (split_lines text2) < ENGINE_TOKEN_LIMIT"
    using assms length_split_lines [of text1] length_split_lines [of text2] by (auto simp: inner_inputs_def)
  note lines_ok = runs_by_line_compare [OF engines(1) lines, of policy]
  let ?rest = "\<lambda>ch. map_or_panic (\<lambda>r. line_fragment_of r (line_offsets_new text1) (line_offsets_new text2)) (ch_changed ch) \<bind> (\<lambda>fragments.
    case highlight of
      HighlightWords \<Rightarrow> create_inner_fragments engine char_engine al fragments text1 text2 policy
    | HighlightLines \<Rightarrow> Some \<lparr>ur_fragments = fragments, ur_too_big_blocks = 0\<rparr>
    | HighlightNone \<Rightarrow> Some \<lparr>ur_fragments = fragments, ur_too_big_blocks = 0\<rparr>)"
  have rest: "runs (?rest ch) (\<lambda>u. whole_path policy text1 text2 (ur_fragments u) \<and> too_big_ok text1 text2 (ur_too_big_blocks u))"
    if ch: "changes_ok (\<lambda>a b. is_equals a b policy) (split_lines text1) (split_lines text2) ch \<and>
      (\<forall>c\<in>set (ch_changed ch). tight (\<lambda>a b. line_eq (line_new a policy) (line_new b policy)) (split_lines text1) (split_lines text2) c)" for ch
  proof -
    have diff: "line_diff policy text1 text2 False 0 0 (ch_changed ch)" using ch by (simp add: changes_ok_def valid_diff_def)
    have ok: "line_range_ok text1 text2 c" if "c \<in> set (ch_changed ch)" for c
      using diff_path_in_bounds [OF diff that] diff_path_wf [OF diff that] by (auto simp: line_range_ok_def range_wf_def)
    have tight: "\<forall>c\<in>set (ch_changed ch). tight (\<lambda>a b. is_equals a b policy) (split_lines text1) (split_lines text2) c"
      using ch ok tight_lines by (auto simp: line_range_ok_def)
    have frags: "map_or_panic (\<lambda>r. line_fragment_of r (line_offsets_new text1) (line_offsets_new text2)) (ch_changed ch) =
        Some (map (plain_fragment text1 text2) (ch_changed ch))"
      by (rule map_or_panic_Some) (rule line_fragment_of_plain [OF sc ok])
    show ?thesis unfolding frags bind.simps
      using runs_create_inner_fragments [OF engines(2,3) sc size diff tight] plain_path [OF sc diff] by (cases highlight) auto
  qed
  show ?thesis unfolding compare_lines_inner_unsquashed_def if_not_P [OF False] Let_def by (rule runs_bindI [OF lines_ok rest])
qed

lemma runs_report:
  assumes "inner_inputs line_engine engine char_engine text1 text2"
  shows "runs (compare_lines_inner_report line_engine engine char_engine al text1 text2 policy highlight)
    (\<lambda>r. whole_path policy text1 text2 (ldr_fragments r) \<and> too_big_ok text1 text2 (ldr_too_big_blocks r))"
  unfolding compare_lines_inner_report_def
proof (rule runs_bindI [OF runs_unsquashed [OF assms]], elim conjE)
  fix u
  assume path: "whole_path policy text1 text2 (ur_fragments u)" and "too_big_ok text1 text2 (ur_too_big_blocks u)"
  then show "runs (squash (ur_fragments u) \<bind> (\<lambda>fragments. Some \<lparr>ldr_fragments = fragments, ldr_too_big_blocks = ur_too_big_blocks u\<rparr>))
      (\<lambda>r. whole_path policy text1 text2 (ldr_fragments r) \<and> too_big_ok text1 text2 (ldr_too_big_blocks r))"
    by (intro runs_bindI [OF runs_squash [OF path]]) simp
qed

lemma runs_fragments:
  assumes "inner_inputs line_engine engine char_engine text1 text2"
  shows "runs (compare_lines_inner line_engine engine char_engine al text1 text2 policy highlight) (whole_path policy text1 text2)"
  unfolding compare_lines_inner_def by (rule runs_bindI [OF runs_report [OF assms]]) simp

lemma line_pos_ends:
  assumes "list_all scalar text"
  shows "line_pos text 0 = 0" "line_pos text (length (split_lines text)) = str_len text"
  using length_line_starts [OF assms] by (simp_all add: line_pos_def line_starts_def split_lines_def)

lemma split_lines_inject: "split_lines text1 = split_lines text2 \<Longrightarrow> text1 = text2"
proof (induction text1 arbitrary: text2)
  case Nil
  then show ?case by (cases text2) (auto simp: split_lines_def split: if_splits list.splits dest: sym)
next
  case (Cons c cs)
  from Cons.prems obtain d ds where t: "text2 = d # ds" by (cases text2) (auto simp: split_lines_def split: if_splits list.splits)
  with Cons.prems have "c = d" "str_split 10 cs = str_split 10 ds"
    by (auto simp: split_lines_def split: if_splits list.splits)
  with Cons.IH [of ds] t show ?case by (simp add: split_lines_def)
qed

text \<open>Inputs for the witnesses below: the engine that pairs common prefixes, on the three kinds of elements.\<close>

lemma inner_inputs_prefix:
  "list_all scalar text1 \<Longrightarrow> list_all scalar text2 \<Longrightarrow> Suc (str_len text1) < ENGINE_TOKEN_LIMIT \<Longrightarrow> Suc (str_len text2) < ENGINE_TOKEN_LIMIT \<Longrightarrow>
   inner_inputs (prefix_engine line_eq) (prefix_engine (=)) (prefix_engine (=)) text1 text2"
  by (simp add: inner_inputs_def engine_ok_prefix_engine)

section \<open>Properties\<close>



text \<open>
  C4. Replacing every piece of every fragment in the first text by its counterpart gives the second text, up to the bytes the
  policy does not show: line breaks under the default policy (the last line of a text has none), whitespace under the others.
\<close>
theorem compare_lines_inner_patch:
  assumes "inner_inputs line_engine engine char_engine text1 text2"
  shows "runs (compare_lines_inner line_engine engine char_engine is_alphabetic text1 text2 policy highlight)
    (\<lambda>fragments. filter (visible policy) (patch (str_bytes text1) (str_bytes text2) 0 (concat (map pieces fragments))) =
      filter (visible policy) (str_bytes text2))"
proof (rule runs_mono [OF runs_fragments [OF assms]])
  fix fs
  assume path: "whole_path policy text1 text2 fs"
  have sc: "list_all scalar text1" "list_all scalar text2" using assms by (auto simp: inner_inputs_def)
  from frag_path_loose [OF sc path] show "filter (visible policy) (patch (str_bytes text1) (str_bytes text2) 0 (concat (map pieces fs))) =
      filter (visible policy) (str_bytes text2)"
    using loose_path_patch [of "visible policy" "str_bytes text1" "str_bytes text2" 0 0] by (simp add: line_pos_ends sc)
qed

theorem compare_lines_inner_patch_witness:
  "runs (compare_lines_inner (prefix_engine line_eq) (prefix_engine (=)) (prefix_engine (=)) (\<lambda>c. 97 \<le> c \<and> c \<le> 122)
      [97, 10, 98, 40, 99, 41] [97, 10, 98, 32, 40, 100, 41, 10, 98] TrimWhitespaces HighlightWords)
    (\<lambda>fragments. filter (visible TrimWhitespaces) (patch (str_bytes [97, 10, 98, 40, 99, 41]) (str_bytes [97, 10, 98, 32, 40, 100, 41, 10, 98]) 0
        (concat (map pieces fragments))) =
      filter (visible TrimWhitespaces) (str_bytes [97, 10, 98, 32, 40, 100, 41, 10, 98]))"
  by (intro compare_lines_inner_patch inner_inputs_prefix) (simp_all add: sample_size)



text \<open>
  Under the default policy there is no fragment exactly when the texts are the same.
\<close>
theorem compare_lines_inner_empty_iff:
  assumes "inner_inputs line_engine engine char_engine text1 text2"
  shows "compare_lines_inner line_engine engine char_engine is_alphabetic text1 text2 Default highlight = Some [] \<longleftrightarrow> text1 = text2"
proof
  assume "compare_lines_inner line_engine engine char_engine is_alphabetic text1 text2 Default highlight = Some []"
  with runs_fragments [OF assms, of is_alphabetic Default highlight]
  have eq: "equal_lines Default text1 text2 0 0 (length (split_lines text1)) (length (split_lines text2))" by simp
  then have "split_lines text1 = split_lines text2"
    by (auto simp: equal_lines_def same_run_def intro!: nth_equalityI)
  then show "text1 = text2" by (rule split_lines_inject)
qed (simp add: compare_lines_inner_def compare_lines_inner_report_def compare_lines_inner_unsquashed_def squash_def)

theorem compare_lines_inner_empty_iff_witness:
  "compare_lines_inner (prefix_engine line_eq) (prefix_engine (=)) (prefix_engine (=)) (\<lambda>c. 97 \<le> c \<and> c \<le> 122) [97, 32] [97] Default HighlightLines \<noteq> Some []"
proof -
  have "inner_inputs (prefix_engine line_eq) (prefix_engine (=)) (prefix_engine (=)) [97, 32] [97]"
    by (intro inner_inputs_prefix) (simp_all add: sample_size)
  from compare_lines_inner_empty_iff [OF this, of "(\<lambda>c. 97 \<le> c \<and> c \<le> 122)" HighlightLines] show ?thesis by simp
qed

end
