(* ===== verification/Fragment_Lines.thy ===== *)
theory Fragment_Lines
  imports Line_Fragments
begin

text \<open>
  The lines of the fragments. The inner comparison cuts a changed range of lines into chunks that follow each other, and
  squashing joins exactly these chunks again: the fragments of \<open>compare_lines_inner\<close> stand for the ranges of
  \<open>compare_lines\<close>, whatever was highlighted inside.
\<close>

section \<open>The chunks of a range\<close>

text \<open>\<open>touch i j fs m n\<close>: the lines of the chunks follow each other from one pair of lines to another.\<close>

fun touch :: "nat \<Rightarrow> nat \<Rightarrow> line_fragment list \<Rightarrow> nat \<Rightarrow> nat \<Rightarrow> bool" where
  "touch i j [] m n \<longleftrightarrow> i = m \<and> j = n"
| "touch i j (f # fs) m n \<longleftrightarrow> r_start1 (lf_lines f) = i \<and> r_start2 (lf_lines f) = j \<and>
     touch (r_end1 (lf_lines f)) (r_end2 (lf_lines f)) fs m n"

definition cut_of :: "range \<Rightarrow> line_fragment list \<Rightarrow> bool" where
  "cut_of r fs \<longleftrightarrow> fs \<noteq> [] \<and> touch (r_start1 r) (r_start2 r) fs (r_end1 r) (r_end2 r)"

lemma cut_of_single: "lf_lines f = r \<Longrightarrow> cut_of r [f]"
  by (simp add: cut_of_def)

lemma with_inner_lines: "with_inner lines offsets inner = Some f \<Longrightarrow> lf_lines f = lines"
  by (auto simp: with_inner_def Let_def bind_eq_Some_conv)

lemma range_new_Some: "range_new a b c d = Some r \<Longrightarrow> r = mk_range a b c d"
  using runs_range_new [of a b c d "\<lambda>x. x = mk_range a b c d"] by (simp add: range_new_def bind_eq_Some_conv)

lemma block_chunks_touch:
  assumes "block_chunks f i j bs = Some fs" "bs \<noteq> []"
  shows "fs \<noteq> [] \<and> touch i j fs (r_end1 (lf_lines f)) (r_end2 (lf_lines f))"
  using assms
proof (induction bs arbitrary: i j fs)
  case (Cons b bs)
  then show ?case
    by (cases "bs = []") (auto simp: Let_def bind_eq_Some_conv split: prod.splits dest!: with_inner_lines range_new_Some)
qed simp

lemma create_inner_cut:
  assumes "create_inner engine char_engine al f text1 text2 policy try_compute = Some (Inr fs)"
  shows "cut_of (lf_lines f) fs"
proof -
  let ?ls = "lf_lines f" and ?os = "lf_offsets f"
  obtain sub1 sub2 where sub: "str_slice text1 (r_start1 ?os) (r_end1 ?os) = Some sub1" "str_slice text2 (r_start2 ?os) (r_end2 ?os) = Some sub2"
    using assms by (auto simp: create_inner_def Let_def bind_eq_Some_conv)
  show ?thesis
  proof (cases "(r_start1 ?ls = r_end1 ?ls \<or> r_start2 ?ls = r_end2 ?ls) \<or> \<not> try_compute")
    case True
    with assms sub show ?thesis by (auto simp: create_inner_def Let_def cut_of_def split: if_split_asm)
  next
    case False
    then obtain r where "compare_and_split engine char_engine al sub1 sub2 policy = Some r"
      and r: "(case r of Inl too_big \<Rightarrow> Some (Inl too_big) | Inr blocks \<Rightarrow> do {
           dassert (blocks \<noteq> []);
           chunks \<leftarrow> block_chunks f (r_start1 ?ls) (r_start2 ?ls) blocks;
           Some (Inr chunks) }) = Some (Inr fs)"
      using assms sub by (auto simp: create_inner_def Let_def bind_eq_Some_conv)
    then show ?thesis using block_chunks_touch [of f "r_start1 ?ls" "r_start2 ?ls"]
      by (cases r) (auto simp: bind_eq_Some_conv dassert_def cut_of_def split: if_split_asm)
  qed
qed

text \<open>The report before squashing is the list of the chunks of every changed range.\<close>

definition grouped :: "range list \<Rightarrow> line_fragment list \<Rightarrow> bool" where
  "grouped cs fs \<longleftrightarrow> (\<exists>gs. fs = concat gs \<and> list_all2 cut_of cs gs)"

lemma grouped_Nil [simp]: "grouped [] []"
  by (auto simp: grouped_def)

lemma grouped_snoc: "grouped cs fs \<Longrightarrow> cut_of c g \<Longrightarrow> grouped (cs @ [c]) (fs @ g)"
  unfolding grouped_def by (metis concat.simps concat_append append.right_neutral list_all2_appendI list_all2_Cons list.rel_intros(1))

lemma grouped_plain: "grouped (map lf_lines fs) fs"
proof (induction fs rule: rev_induct)
  case (snoc f fs)
  with grouped_snoc [OF snoc cut_of_single [of f "lf_lines f"]] show ?case by simp
qed simp

lemma create_inner_fragments_grouped:
  assumes "create_inner_fragments engine char_engine al fragments text1 text2 policy = Some u"
  shows "grouped (map lf_lines fragments) (ur_fragments u)"
proof -
  let ?step = "\<lambda>(result, too_big_blocks) fragment. do {
         let try_compute = too_big_blocks < MAX_BAD_LINES;
         inner \<leftarrow> create_inner engine char_engine al fragment text1 text2 policy try_compute;
         Some (case inner of
           Inr inner \<Rightarrow> (result @ inner, too_big_blocks)
         | Inl DiffTooBig \<Rightarrow> (result @ [fragment], too_big_blocks + 1))
       }"
  have "for_each ?step (res, n) fs = Some (res', n') \<Longrightarrow> grouped cs res \<Longrightarrow> grouped (cs @ map lf_lines fs) res'" for res n res' n' fs cs
  proof (induction fs arbitrary: res n cs)
    case (Cons f fs)
    from Cons.prems(1) obtain inner where inner: "create_inner engine char_engine al f text1 text2 policy (n < MAX_BAD_LINES) = Some inner"
      and rest: "for_each ?step (case inner of Inr inner \<Rightarrow> (res @ inner, n) | Inl DiffTooBig \<Rightarrow> (res @ [f], n + 1)) fs = Some (res', n')"
      by (auto simp: Let_def bind_eq_Some_conv)
    show ?case
    proof (cases inner)
      case (Inl e)
      with rest Cons.IH [OF _ grouped_snoc [OF Cons.prems(2) cut_of_single [of f "lf_lines f"]]] show ?thesis by (cases e) simp
    next
      case (Inr g)
      with rest inner Cons.IH [OF _ grouped_snoc [OF Cons.prems(2) create_inner_cut]] show ?thesis by simp
    qed
  qed simp
  from this [of "[]" 0 fragments _ _ "[]"] assms show ?thesis by (auto simp: create_inner_fragments_def bind_eq_Some_conv)
qed

lemma map_or_panic_lines:
  "map_or_panic (\<lambda>r. line_fragment_of r o1 o2) cs = Some fs \<Longrightarrow> map lf_lines fs = cs"
  by (induction cs arbitrary: fs) (auto simp: bind_eq_Some_conv line_fragment_of_def)

lemma unsquashed_grouped:
  assumes "compare_lines_inner_unsquashed line_engine engine char_engine al text1 text2 policy highlight = Some u" "text1 \<noteq> text2"
  shows "\<exists>ch. by_line_compare line_engine (split_lines text1) (split_lines text2) policy = Some ch \<and> grouped (ch_changed ch) (ur_fragments u)"
proof -
  obtain ch fs where ch: "by_line_compare line_engine (split_lines text1) (split_lines text2) policy = Some ch"
    and fs: "map_or_panic (\<lambda>r. line_fragment_of r (line_offsets_new text1) (line_offsets_new text2)) (ch_changed ch) = Some fs"
    and u: "(case highlight of
          HighlightWords \<Rightarrow> create_inner_fragments engine char_engine al fs text1 text2 policy
        | HighlightLines \<Rightarrow> Some \<lparr>ur_fragments = fs, ur_too_big_blocks = 0\<rparr>
        | HighlightNone \<Rightarrow> Some \<lparr>ur_fragments = fs, ur_too_big_blocks = 0\<rparr>) = Some u"
    using assms by (auto simp: compare_lines_inner_unsquashed_def Let_def bind_eq_Some_conv)
  have "grouped (map lf_lines fs) (ur_fragments u)"
    using u grouped_plain [of fs] create_inner_fragments_grouped by (cases highlight) auto
  with ch map_or_panic_lines [OF fs] show ?thesis by auto
qed

section \<open>Squashing\<close>

definition squash_step :: "line_fragment list \<times> line_fragment list \<Rightarrow> line_fragment \<Rightarrow> (line_fragment list \<times> line_fragment list) option" where
  "squash_step st fragment = (case st of (result, grp) \<Rightarrow> do {
     (result, grp) \<leftarrow> (if grp \<noteq> [] \<and> \<not> is_adjoining (last grp) fragment
       then do { squashed \<leftarrow> squash_group grp; Some (result @ [squashed], []) }
       else Some (result, grp));
     Some (result, grp @ [fragment])
   })"

definition squash_end :: "line_fragment list \<times> line_fragment list \<Rightarrow> line_fragment list option" where
  "squash_end st = (case st of (result, grp) \<Rightarrow>
     if grp \<noteq> [] then do { squashed \<leftarrow> squash_group grp; Some (result @ [squashed]) } else Some result)"

lemma squash_loop: "squash fs = (if fs = [] then Some fs else for_each squash_step ([], []) fs \<bind> squash_end)"
proof -
  have "(\<lambda>(result, grp) fragment. do {
       (result, grp) \<leftarrow> (if grp \<noteq> [] \<and> \<not> is_adjoining (last grp) fragment
         then do { squashed \<leftarrow> squash_group grp; Some (result @ [squashed], []) }
         else Some (result, grp));
       Some (result, grp @ [fragment]) }) = squash_step"
    by (auto simp: fun_eq_iff squash_step_def)
  then show ?thesis by (simp add: squash_def squash_end_def [abs_def])
qed

lemma squash_step_adjoining:
  "grp \<noteq> [] \<Longrightarrow> successively is_adjoining (last grp # fs) \<Longrightarrow> for_each squash_step (res, grp) fs = Some (res, grp @ fs)"
proof (induction fs arbitrary: grp)
  case (Cons f fs)
  from Cons.prems have "is_adjoining (last grp) f" "successively is_adjoining (last (grp @ [f]) # fs)" by auto
  with Cons.IH [of "grp @ [f]"] Cons.prems(1) show ?case by (simp add: squash_step_def)
qed simp

lemma squash_step_group:
  assumes "g \<noteq> []" "successively is_adjoining g" "grp \<noteq> []" "\<not> is_adjoining (last grp) (hd g)"
  shows "for_each squash_step (res, grp) g = squash_group grp \<bind> (\<lambda>x. Some (res @ [x], g))"
proof -
  obtain f fs where g: "g = f # fs" using assms(1) by (cases g) auto
  with assms squash_step_adjoining [of "[f]" fs] show ?thesis by (cases "squash_group grp") (auto simp: squash_step_def)
qed

definition apart :: "line_fragment list \<Rightarrow> line_fragment list \<Rightarrow> bool" where
  "apart g h \<longleftrightarrow> \<not> is_adjoining (last g) (hd h)"

lemma squash_step_groups:
  assumes "\<forall>g\<in>set gs. g \<noteq> [] \<and> successively is_adjoining g" "successively apart (grp # gs)" "grp \<noteq> []"
  shows "for_each squash_step (res, grp) (concat gs) \<bind> squash_end =
    map_or_panic squash_group (grp # gs) \<bind> (\<lambda>xs. Some (res @ xs))"
  using assms
proof (induction gs arbitrary: res grp)
  case Nil
  then show ?case by (cases "squash_group grp") (auto simp: squash_end_def)
next
  case (Cons g gs)
  have "for_each squash_step (res, grp) g = squash_group grp \<bind> (\<lambda>x. Some (res @ [x], g))"
    by (rule squash_step_group) (use Cons.prems in \<open>auto simp: apart_def\<close>)
  with Cons.IH [of g] Cons.prems show ?case
    by (cases "squash_group grp") (auto simp: for_each_append)
qed

lemma squash_groups:
  assumes "\<forall>g\<in>set gs. g \<noteq> [] \<and> successively is_adjoining g" "successively apart gs"
  shows "squash (concat gs) = map_or_panic squash_group gs"
proof (cases gs)
  case Nil
  then show ?thesis by (simp add: squash_def)
next
  case (Cons g hs)
  with assms obtain f fs where g: "g = f # fs" by (cases g) auto
  have ne: "concat gs \<noteq> []" using Cons g by simp
  have "successively is_adjoining (f # fs)" using assms Cons g by simp
  then have "for_each squash_step ([], []) (concat gs) = for_each squash_step ([], g) (concat hs)"
    using squash_step_adjoining [of "[f]" fs "[]"] unfolding Cons g by (simp add: for_each_append squash_step_def)
  with squash_step_groups [of hs g "[]"] assms Cons g ne show ?thesis by (simp add: squash_loop)
qed

lemma squash_group_lines:
  assumes "squash_group fs = Some f" "touch i j fs m n" "fs \<noteq> []"
  shows "lf_lines f = mk_range i m j n"
proof -
  have ends: "r_start1 (lf_lines (hd fs)) = i" "r_start2 (lf_lines (hd fs)) = j" using assms(2,3) by (cases fs; simp)+
  have last: "touch i j fs m n \<Longrightarrow> fs \<noteq> [] \<Longrightarrow> r_end1 (lf_lines (last fs)) = m \<and> r_end2 (lf_lines (last fs)) = n" for i j
    by (induction fs arbitrary: i j) auto
  show ?thesis
  proof (cases "length fs = 1")
    case True
    then obtain g where "fs = [g]" by (cases fs) auto
    with assms show ?thesis using mk_range_eq [of "lf_lines g"] by (auto simp: squash_group_def nth_or_panic_def)
  next
    case False
    with assms(1,3) obtain lines where "range_new (r_start1 (lf_lines (fs ! 0))) (r_end1 (lf_lines (fs ! (length fs - 1))))
        (r_start2 (lf_lines (fs ! 0))) (r_end2 (lf_lines (fs ! (length fs - 1)))) = Some lines" "lf_lines f = lines"
      by (auto simp: squash_group_def bind_eq_Some_conv nth_or_panic_def usub_def split: if_splits dest: with_inner_lines)
    with ends last [OF assms(2,3)] assms(3) show ?thesis by (auto simp: hd_conv_nth last_conv_nth dest!: range_new_Some)
  qed
qed


section \<open>The fragments stand for the changed ranges\<close>

lemma touch_ends:
  "touch i j fs m n \<Longrightarrow> fs \<noteq> [] \<Longrightarrow> r_start1 (lf_lines (hd fs)) = i \<and> r_end1 (lf_lines (last fs)) = m"
  by (induction fs arbitrary: i j) (auto split: if_splits)

lemma touch_adjoining:
  assumes "touch i j fs m n" "list_all (\<lambda>f. lf_offsets f = line_range_offsets text1 text2 (lf_lines f)) fs"
  shows "successively is_adjoining fs"
  using assms
proof (induction fs arbitrary: i j)
  case (Cons f fs)
  then have "successively is_adjoining fs" by auto
  moreover have "is_adjoining f (hd fs)" if "fs \<noteq> []"
    using that Cons.prems by (cases fs) (auto simp: is_adjoining_def line_range_offsets_def)
  ultimately show ?case by (cases fs) auto
qed simp

lemma frag_path_offsets:
  "frag_path policy text1 text2 i j fs m n \<Longrightarrow> list_all (\<lambda>f. lf_offsets f = line_range_offsets text1 text2 (lf_lines f)) fs"
  by (induction fs arbitrary: i j) (auto simp: frag_ok_def Let_def)

lemma diff_path_apart: "diff_path eq xs ys s i j cs m n \<Longrightarrow> successively (\<lambda>c d. r_end1 c < r_start1 d) cs"
proof (induction cs arbitrary: s i j)
  case (Cons c cs)
  then show ?case by (cases cs) auto
qed simp

lemma squash_grouped:
  assumes "squash fs = Some out" "grouped cs fs" "frag_path policy text1 text2 i j fs m n" "diff_path eq xs ys s i' j' cs m' n'"
  shows "map lf_lines out = cs"
proof -
  obtain gs where gs: "fs = concat gs" "list_all2 cut_of cs gs" using assms(2) by (auto simp: grouped_def)
  have offs: "list_all (\<lambda>f. lf_offsets f = line_range_offsets text1 text2 (lf_lines f)) g" if "g \<in> set gs" for g
    using frag_path_offsets [OF assms(3)] that by (auto simp: gs(1) list_all_iff)
  have cut: "g \<noteq> [] \<and> successively is_adjoining g" if "g \<in> set gs" for g
  proof -
    from that gs(2) obtain c where "cut_of c g" by (metis in_set_conv_nth list_all2_conv_all_nth)
    with touch_adjoining [OF _ offs [OF that]] show ?thesis by (auto simp: cut_of_def)
  qed
  have "successively apart gs" using gs(2) diff_path_apart [OF assms(4)]
  proof (induction rule: list_all2_induct)
    case (Cons c cs g gs)
    show ?case
    proof (cases cs)
      case (Cons d ds)
      with Cons.hyps obtain h hs where gs: "gs = h # hs" "cut_of d h" by (auto simp: list_all2_Cons1)
      with Cons.hyps(1) Cons.prems \<open>cs = d # ds\<close> have "apart g h"
        by (auto simp: apart_def is_adjoining_def cut_of_def dest!: touch_ends)
      with Cons.IH Cons.prems gs \<open>cs = d # ds\<close> show ?thesis by simp
    qed (use Cons.hyps in simp)
  qed simp
  then have "map_or_panic squash_group gs = Some out" using squash_groups [of gs] cut assms(1) gs(1) by simp
  with gs(2) show ?thesis
  proof (induction arbitrary: out rule: list_all2_induct)
    case (Cons c cs g gs)
    from Cons.prems obtain f fs where f: "squash_group g = Some f" "map_or_panic squash_group gs = Some fs" "out = f # fs"
      by (auto simp: bind_eq_Some_conv)
    moreover have "lf_lines f = c" using Cons.hyps(1) squash_group_lines [OF f(1)] mk_range_eq [of c] by (auto simp: cut_of_def)
    ultimately show ?case using Cons.IH by simp
  qed simp
qed

lemma runs_report_lines:
  assumes "inner_inputs line_engine engine char_engine text1 text2"
  shows "runs (compare_lines_inner_report line_engine engine char_engine al text1 text2 policy highlight)
    (\<lambda>r. compare_lines line_engine (split_lines text1) (split_lines text2) policy = Some (map lf_lines (ldr_fragments r)) \<and>
      valid_diff (\<lambda>a b. is_equals a b policy) (split_lines text1) (split_lines text2) (map lf_lines (ldr_fragments r)))"
proof (cases "text1 = text2")
  case True
  then show ?thesis
    by (simp add: compare_lines_inner_report_def compare_lines_inner_unsquashed_def squash_def compare_lines_def valid_diff_def same_run_def)
next
  case False
  have lines: "engine_ok iw_line line_eq line_engine" "length (split_lines text1) < ENGINE_TOKEN_LIMIT" "length (split_lines text2) < ENGINE_TOKEN_LIMIT"
    using assms length_split_lines [of text1] length_split_lines [of text2] by (auto simp: inner_inputs_def)
  obtain u where u: "compare_lines_inner_unsquashed line_engine engine char_engine al text1 text2 policy highlight = Some u"
    "whole_path policy text1 text2 (ur_fragments u)" using runs_unsquashed [OF assms, of al policy highlight] by (auto simp: runs_iff)
  obtain ch where ch: "by_line_compare line_engine (split_lines text1) (split_lines text2) policy = Some ch" "grouped (ch_changed ch) (ur_fragments u)"
    using unsquashed_grouped [OF u(1) False] by blast
  have diff: "valid_diff (\<lambda>a b. is_equals a b policy) (split_lines text1) (split_lines text2) (ch_changed ch)"
    using runs_by_line_compare [OF lines, of policy] ch(1) by (simp add: changes_ok_def)
  obtain out where out: "squash (ur_fragments u) = Some out" using runs_squash [OF u(2)] by (auto simp: runs_iff)
  have "map lf_lines out = ch_changed ch" using squash_grouped [OF out ch(2) u(2)] diff by (auto simp: valid_diff_def)
  with u out ch diff False split_lines_inject show ?thesis by (auto simp: compare_lines_inner_report_def compare_lines_def)
qed

section \<open>Properties\<close>

text \<open>
  C14. Forgetting what is highlighted inside them, the fragments are the changed ranges of the line comparison: for every
  policy and highlighting, the lines of the fragments are what \<open>compare_lines\<close> returns for the lines of the texts.
\<close>
theorem compare_lines_inner_lines:
  assumes "inner_inputs line_engine engine char_engine text1 text2"
  shows "map_option (map lf_lines) (compare_lines_inner line_engine engine char_engine is_alphabetic text1 text2 policy highlight) =
    compare_lines line_engine (split_lines text1) (split_lines text2) policy"
  using runs_report_lines [OF assms, of is_alphabetic policy highlight] by (auto simp: runs_iff compare_lines_inner_def)

theorem compare_lines_inner_lines_witness:
  "map_option (map lf_lines) (compare_lines_inner (prefix_engine line_eq) (prefix_engine (=)) (prefix_engine (=)) (\<lambda>c. 97 \<le> c \<and> c \<le> 122)
      [97, 10, 98, 40, 99, 41] [97, 10, 98, 32, 40, 100, 41, 10, 98] TrimWhitespaces HighlightWords) =
    compare_lines (prefix_engine line_eq) (split_lines [97, 10, 98, 40, 99, 41]) (split_lines [97, 10, 98, 32, 40, 100, 41, 10, 98]) TrimWhitespaces"
  by (intro compare_lines_inner_lines inner_inputs_prefix) (simp_all add: sample_size)

end
