(* ===== verification/Diff_Hunks.thy ===== *)
theory Diff_Hunks
  imports Fragment_Lines
begin

text \<open>
  \<open>src-app/src/diff/engine.rs\<close>: from the fragments of the text comparison to the hunks the diff view shows.

  \<open>str::split('\n')\<close> ends with an empty line when the text ends with a line break (or is empty), \<open>line_spans\<close> has no row for
  it: a fragment that touches this phantom line is moved back to the last real row, and rows that stay unpaired at the end
  become a hunk of their own.
\<close>

record diff_options =
  dop_highlight :: HighlightPolicy
  dop_whitespace :: ComparisonPolicy

definition for_cached_rows :: "diff_options \<Rightarrow> diff_options" where
  "for_cached_rows options = options\<lparr>dop_highlight := HighlightWords\<rparr>"

datatype DiffHunkStatus = HunkAdded | HunkModified | HunkDeleted

datatype ChangeTone = Full | Muted | Plain

text \<open>\<open>std::ops::Range\<close>.\<close>

record span =
  sn_start :: nat
  sn_end :: nat

definition mk_span :: "nat \<Rightarrow> nat \<Rightarrow> span" where
  "mk_span a b = \<lparr>sn_start = a, sn_end = b\<rparr>"

definition span_is_empty :: "span \<Rightarrow> bool" where
  "span_is_empty s \<longleftrightarrow> \<not> sn_start s < sn_end s"

record diff_hunk =
  dh_base_row_range :: span
  dh_new_row_range :: span
  dh_status :: DiffHunkStatus
  dh_tone :: ChangeTone
  dh_base_runs :: "span list list"
  dh_new_runs :: "span list list"

record hunk_report =
  hr_hunks :: "diff_hunk list"
  hr_too_big_blocks :: nat

definition line_runs_at :: "span list list \<Rightarrow> span \<Rightarrow> nat \<Rightarrow> span list" where
  "line_runs_at line_runs rows row = (case checked_sub row (sn_start rows) of
     None \<Rightarrow> []
   | Some off \<Rightarrow> if off < length line_runs then line_runs ! off else [])"

definition base_line_runs :: "diff_hunk \<Rightarrow> nat \<Rightarrow> span list" where
  "base_line_runs h row = line_runs_at (dh_base_runs h) (dh_base_row_range h) row"

definition new_line_runs :: "diff_hunk \<Rightarrow> nat \<Rightarrow> span list" where
  "new_line_runs h row = line_runs_at (dh_new_runs h) (dh_new_row_range h) row"

definition hunk_status :: "span \<Rightarrow> span \<Rightarrow> DiffHunkStatus" where
  "hunk_status base_rows new_rows =
     (if span_is_empty new_rows then HunkDeleted else if span_is_empty base_rows then HunkAdded else HunkModified)"

fun tone_for :: "HighlightPolicy \<Rightarrow> diff_fragment list option \<Rightarrow> ChangeTone" where
  "tone_for HighlightNone inner = Plain"
| "tone_for highlight (Some []) = Muted"
| "tone_for highlight inner = Full"

section \<open>Rows\<close>

text \<open>\<open>str::split_inclusive\<close> and \<open>str::strip_suffix\<close> with a character.\<close>

fun split_inclusive :: "uchar \<Rightarrow> ustr \<Rightarrow> ustr list" where
  "split_inclusive d [] = []"
| "split_inclusive d (c # cs) =
     (if c = d then [c] # split_inclusive d cs
      else case split_inclusive d cs of [] \<Rightarrow> [[c]] | p # ps \<Rightarrow> (c # p) # ps)"

definition strip_suffix :: "uchar \<Rightarrow> ustr \<Rightarrow> ustr option" where
  "strip_suffix c s = (if s \<noteq> [] \<and> last s = c then Some (butlast s) else None)"

definition ends_with :: "uchar \<Rightarrow> ustr \<Rightarrow> bool" where
  "ends_with c s \<longleftrightarrow> s \<noteq> [] \<and> last s = c"

definition segment_content :: "ustr \<Rightarrow> ustr" where
  "segment_content segment = (case strip_suffix 10 segment of
     Some s \<Rightarrow> (case strip_suffix 13 s of Some t \<Rightarrow> t | None \<Rightarrow> s)
   | None \<Rightarrow> segment)"

fun spans_from :: "nat \<Rightarrow> ustr list \<Rightarrow> span list" where
  "spans_from start [] = []"
| "spans_from start (segment # segments) =
     mk_span start (start + str_len (segment_content segment)) # spans_from (start + str_len segment) segments"

definition line_spans :: "ustr \<Rightarrow> span list" where
  "line_spans text = spans_from 0 (split_inclusive 10 text)"

definition real_rows :: "nat \<Rightarrow> nat \<Rightarrow> span list \<Rightarrow> ustr \<Rightarrow> span" where
  "real_rows start end' spans text = (
     let real = length spans;
       has_phantom = (text = [] \<or> ends_with 10 text);
       phantom_only = (has_phantom \<and> start + 1 = real + 1 \<and> end' = real + 1)
     in case (if phantom_only then checked_sub start 1 else None) of
       Some final \<Rightarrow>
         if final < length spans \<and> span_is_empty (spans ! final) then mk_span (as_u32 final) (as_u32 start)
         else let end'' = min end' real; start' = min start end'' in mk_span (as_u32 start') (as_u32 end'')
     | None \<Rightarrow> let end'' = min end' real; start' = min start end'' in mk_span (as_u32 start') (as_u32 end''))"

definition last_row :: "nat \<Rightarrow> span" where
  "last_row count = (let end' = as_u32 count in mk_span (end' - 1) end')"

section \<open>Runs of changed bytes\<close>

text \<open>
  The two inner loops of \<open>side_runs\<close>: \<open>next_piece\<close> moves past the pieces that end before the line, and the pieces from there on
  are clipped as long as they start before its end.
\<close>

definition skip_pieces :: "(nat \<times> nat) list \<Rightarrow> nat \<Rightarrow> nat \<Rightarrow> nat" where
  "skip_pieces ps start next_piece = next_piece + length (takeWhile (\<lambda>p. snd p \<le> start) (drop next_piece ps))"

definition clipped_runs :: "(nat \<times> nat) list \<Rightarrow> span \<Rightarrow> nat \<Rightarrow> span list option" where
  "clipped_runs ps sp next_piece = for_each (\<lambda>out (start, end'). do {
     let clipped_start = max start (sn_start sp);
     let clipped_end = min end' (sn_end sp);
     if clipped_start < clipped_end then do {
       a \<leftarrow> usub clipped_start (sn_start sp);
       b \<leftarrow> usub clipped_end (sn_start sp);
       Some (out @ [mk_span a b])
     } else Some out
   }) [] (takeWhile (\<lambda>p. fst p < sn_end sp) (drop next_piece ps))"

definition side_runs :: "span list \<Rightarrow> span \<Rightarrow> nat \<Rightarrow> (nat \<times> nat) list \<Rightarrow> span list list option" where
  "side_runs spans rows block_start ps = do {
     let ps = map (\<lambda>(start, end'). (block_start + start, block_start + end')) (filter (\<lambda>(start, end'). start < end') ps);
     (result, next_piece) \<leftarrow> for_each (\<lambda>(result, next_piece) row.
       if row < length spans then do {
         let next_piece = skip_pieces ps (sn_start (spans ! row)) next_piece;
         row_runs \<leftarrow> clipped_runs ps (spans ! row) next_piece;
         Some (result @ [row_runs], next_piece)
       } else Some (result @ [[]], next_piece)) ([], 0) [sn_start rows..<sn_end rows];
     Some result
   }"

section \<open>Hunks\<close>

definition hunk_ends :: "diff_hunk list \<Rightarrow> nat \<times> nat" where
  "hunk_ends hunks = (if hunks = [] then (0, 0) else (sn_end (dh_base_row_range (last hunks)), sn_end (dh_new_row_range (last hunks))))"

text \<open>The loop over the fragments: the rows of a fragment, its runs, and the hunk it becomes.\<close>

definition fragment_rows :: "ustr \<Rightarrow> ustr \<Rightarrow> span list \<Rightarrow> span list \<Rightarrow> range \<Rightarrow> span \<times> span \<times> bool" where
  "fragment_rows base new base_spans new_spans lines = (
     let base_rows = real_rows (r_start1 lines) (r_end1 lines) base_spans base;
       new_rows = real_rows (r_start2 lines) (r_end2 lines) new_spans new;
       phantom_only = (span_is_empty base_rows \<and> span_is_empty new_rows)
     in if phantom_only then (last_row (length base_spans), last_row (length new_spans), True) else (base_rows, new_rows, False))"

definition fragment_runs :: "span list \<Rightarrow> span list \<Rightarrow> span \<Rightarrow> span \<Rightarrow> bool \<Rightarrow> line_fragment \<Rightarrow> (span list list \<times> span list list) option" where
  "fragment_runs base_spans new_spans base_rows new_rows phantom_only fragment = (case lf_inner fragment of
     Some inner \<Rightarrow>
       if \<not> phantom_only \<and> inner \<noteq> [] then do {
         base_runs \<leftarrow> side_runs base_spans base_rows (r_start1 (lf_offsets fragment)) (map (\<lambda>piece. (df_start1 piece, df_end1 piece)) inner);
         new_runs \<leftarrow> side_runs new_spans new_rows (r_start2 (lf_offsets fragment)) (map (\<lambda>piece. (df_start2 piece, df_end2 piece)) inner);
         Some (base_runs, new_runs)
       } else Some ([], [])
   | None \<Rightarrow> Some ([], []))"

definition push_fragment :: "ustr \<Rightarrow> ustr \<Rightarrow> span list \<Rightarrow> span list \<Rightarrow> diff_options \<Rightarrow> diff_hunk list \<Rightarrow> line_fragment \<Rightarrow> diff_hunk list option" where
  "push_fragment base new base_spans new_spans options hunks fragment = do {
     let (base_rows, new_rows, phantom_only) = fragment_rows base new base_spans new_spans (lf_lines fragment);
     if span_is_empty base_rows \<and> span_is_empty new_rows then Some hunks
     else do {
       let (previous_base_end, previous_new_end) = hunk_ends hunks;
       if sn_start base_rows < previous_base_end \<or> sn_start new_rows < previous_new_end then Some hunks
       else do {
         base_gap \<leftarrow> usub (sn_start base_rows) previous_base_end;
         new_gap \<leftarrow> usub (sn_start new_rows) previous_new_end;
         let context_lines = min base_gap new_gap;
         base_start \<leftarrow> u32_add previous_base_end context_lines;
         new_start \<leftarrow> u32_add previous_new_end context_lines;
         let base_rows = base_rows\<lparr>sn_start := base_start\<rparr>;
         let new_rows = new_rows\<lparr>sn_start := new_start\<rparr>;
         let status = hunk_status base_rows new_rows;
         let tone = tone_for (dop_highlight options) (lf_inner fragment);
         (base_runs, new_runs) \<leftarrow> fragment_runs base_spans new_spans base_rows new_rows phantom_only fragment;
         Some (hunks @ [\<lparr>dh_base_row_range = base_rows, dh_new_row_range = new_rows, dh_status = status, dh_tone = tone,
           dh_base_runs = base_runs, dh_new_runs = new_runs\<rparr>])
       }
     }
   }"

definition push_unpaired_tail :: "diff_hunk list \<Rightarrow> nat \<Rightarrow> nat \<Rightarrow> HighlightPolicy \<Rightarrow> diff_hunk list option" where
  "push_unpaired_tail hunks base_lines new_lines highlight = do {
     let (base_end, new_end) = hunk_ends hunks;
     base_rest \<leftarrow> usub base_lines base_end;
     new_rest \<leftarrow> usub new_lines new_end;
     let paired = min base_rest new_rest;
     base_start \<leftarrow> u32_add base_end paired;
     new_start \<leftarrow> u32_add new_end paired;
     let base_rows = mk_span base_start base_lines;
     let new_rows = mk_span new_start new_lines;
     if span_is_empty base_rows \<and> span_is_empty new_rows then Some hunks
     else Some (hunks @ [\<lparr>dh_base_row_range = base_rows, dh_new_row_range = new_rows, dh_status = hunk_status base_rows new_rows,
       dh_tone = tone_for highlight None, dh_base_runs = [], dh_new_runs = []\<rparr>])
   }"

definition compute_hunk_report :: "line diff_engine \<Rightarrow> ChunkToken diff_engine \<Rightarrow> uchar diff_engine \<Rightarrow> (uchar \<Rightarrow> bool) \<Rightarrow>
    ustr \<Rightarrow> ustr \<Rightarrow> diff_options \<Rightarrow> hunk_report option" where
  "compute_hunk_report line_engine engine char_engine is_alphabetic base new options =
     (if base = new then Some \<lparr>hr_hunks = [], hr_too_big_blocks = 0\<rparr>
      else do {
        report \<leftarrow> compare_lines_inner_report line_engine engine char_engine is_alphabetic base new
          (dop_whitespace options) (dop_highlight options);
        let base_spans = line_spans base;
        let new_spans = line_spans new;
        hunks \<leftarrow> for_each (push_fragment base new base_spans new_spans options) [] (ldr_fragments report);
        hunks \<leftarrow> push_unpaired_tail hunks (as_u32 (length base_spans)) (as_u32 (length new_spans)) (dop_highlight options);
        Some \<lparr>hr_hunks = hunks, hr_too_big_blocks = ldr_too_big_blocks report\<rparr>
      })"

definition count_hunk :: "nat \<times> nat \<Rightarrow> diff_hunk \<Rightarrow> (nat \<times> nat) option" where
  "count_hunk counts h = (case counts of (added, removed) \<Rightarrow> do {
     plus \<leftarrow> usub (sn_end (dh_new_row_range h)) (sn_start (dh_new_row_range h));
     added \<leftarrow> u32_add added plus;
     minus \<leftarrow> usub (sn_end (dh_base_row_range h)) (sn_start (dh_base_row_range h));
     removed \<leftarrow> u32_add removed minus;
     Some (added, removed)
   })"

definition hunk_line_counts :: "diff_hunk list \<Rightarrow> (nat \<times> nat) option" where
  "hunk_line_counts hunks = for_each count_hunk (0, 0) hunks"

definition line_change_counts :: "line diff_engine \<Rightarrow> ChunkToken diff_engine \<Rightarrow> uchar diff_engine \<Rightarrow> (uchar \<Rightarrow> bool) \<Rightarrow>
    ustr \<Rightarrow> ustr \<Rightarrow> (nat \<times> nat) option" where
  "line_change_counts line_engine engine char_engine is_alphabetic base new = do {
     report \<leftarrow> compute_hunk_report line_engine engine char_engine is_alphabetic base new
       \<lparr>dop_highlight = HighlightNone, dop_whitespace = Default\<rparr>;
     hunk_line_counts (hr_hunks report)
   }"

section \<open>Rows and lines\<close>

text \<open>The rows of a text are its lines without the phantom one.\<close>

definition phantom :: "ustr \<Rightarrow> bool" where
  "phantom text \<longleftrightarrow> text = [] \<or> ends_with 10 text"

definition row_count :: "ustr \<Rightarrow> nat" where
  "row_count text = length (line_spans text)"

definition text_rows :: "ustr \<Rightarrow> ustr list" where
  "text_rows text = take (row_count text) (split_lines text)"

lemma mk_span_sel [simp]: "sn_start (mk_span a b) = a" "sn_end (mk_span a b) = b"
  by (simp_all add: mk_span_def)

lemma span_is_empty_mk [simp]: "span_is_empty (mk_span a b) \<longleftrightarrow> b \<le> a"
  by (auto simp: span_is_empty_def)

lemma length_spans_from [simp]: "length (spans_from start segs) = length segs"
  by (induction segs arbitrary: start) simp_all

lemma length_split_inclusive:
  "length (split_inclusive 10 text) + (if phantom text then 1 else 0) = length (split_lines text)"
proof (induction "text")
  case (Cons c cs)
  have "split_inclusive 10 cs = [] \<longleftrightarrow> cs = []" by (cases cs) (auto split: list.splits)
  with Cons show ?case by (auto simp: phantom_def ends_with_def split_lines_def split: list.splits if_splits)
qed (simp add: phantom_def split_lines_def)

lemma row_count_lines: "length (split_lines text) = row_count text + (if phantom text then 1 else 0)"
  using length_split_inclusive [of "text"] by (simp add: row_count_def line_spans_def)

lemma length_text_rows [simp]: "length (text_rows text) = row_count text"
  using row_count_lines [of "text"] by (simp add: text_rows_def)

lemma text_rows_nth: "k < row_count text \<Longrightarrow> text_rows text ! k = split_lines text ! k"
  by (simp add: text_rows_def)

text \<open>
  The rows of a range of lines: the lines themselves when the phantom line is not among them, and otherwise rows up to the
  end that start at the line or with the last row.
\<close>

lemma real_rows_inside:
  assumes "s \<le> e" "e \<le> row_count text" "row_count text < 2 ^ 32"
  shows "real_rows s e (line_spans text) text = mk_span s e"
  using assms by (auto simp: real_rows_def row_count_def Let_def)

lemma real_rows_end:
  assumes "s \<le> e" "e = length (split_lines text)" "row_count text < 2 ^ 32"
  obtains a where "real_rows s e (line_spans text) text = mk_span a (row_count text)" "a \<le> s" "a \<le> row_count text"
    "a = min s (row_count text) \<or> a = row_count text - 1"
proof -
  let ?n = "row_count text"
  have "real_rows s e (line_spans text) text = mk_span (min s ?n) ?n \<or>
      s = ?n \<and> real_rows s e (line_spans text) text = mk_span (?n - 1) ?n"
    using assms row_count_lines [of "text"]
    by (auto simp: real_rows_def row_count_def [symmetric] Let_def checked_sub_def phantom_def [symmetric] min_def split: if_splits)
  with that [of "min s ?n"] that [of "?n - 1"] show thesis by (auto simp: min_le_iff_disj)
qed

section \<open>What the hunks promise\<close>

text \<open>
  \<open>hunk_path eq xs ys i j hs m n\<close>: the hunks follow each other from the rows \<open>i, j\<close> to the rows \<open>m, n\<close>, none of them is empty, and
  the rows between two hunks, before the first and behind the last are paired one to one and equal.
\<close>

definition context_rows :: "(ustr \<Rightarrow> ustr \<Rightarrow> bool) \<Rightarrow> ustr list \<Rightarrow> ustr list \<Rightarrow> nat \<Rightarrow> nat \<Rightarrow> nat \<Rightarrow> nat \<Rightarrow> bool" where
  "context_rows eq xs ys i j m n \<longleftrightarrow> i \<le> m \<and> j \<le> n \<and> m - i = n - j \<and> same_run eq xs ys i j (m - i)"

definition span_ok :: "span \<Rightarrow> nat \<Rightarrow> bool" where
  "span_ok s n \<longleftrightarrow> sn_start s \<le> sn_end s \<and> sn_end s \<le> n"

fun hunk_path :: "(ustr \<Rightarrow> ustr \<Rightarrow> bool) \<Rightarrow> ustr list \<Rightarrow> ustr list \<Rightarrow> nat \<Rightarrow> nat \<Rightarrow> diff_hunk list \<Rightarrow> nat \<Rightarrow> nat \<Rightarrow> bool" where
  "hunk_path eq xs ys i j [] m n \<longleftrightarrow> context_rows eq xs ys i j m n"
| "hunk_path eq xs ys i j (h # hs) m n \<longleftrightarrow> (let b = dh_base_row_range h; c = dh_new_row_range h in
     context_rows eq xs ys i j (sn_start b) (sn_start c) \<and> span_ok b (length xs) \<and> span_ok c (length ys) \<and>
     \<not> (span_is_empty b \<and> span_is_empty c) \<and> dh_status h = hunk_status b c \<and> hunk_path eq xs ys (sn_end b) (sn_end c) hs m n)"

lemma context_rows_here [simp]: "context_rows eq xs ys i j i j \<longleftrightarrow> i \<le> length xs \<and> j \<le> length ys"
  by (auto simp: context_rows_def)

lemma context_rows_trans:
  assumes "context_rows eq xs ys i j k l" "context_rows eq xs ys k l m n"
  shows "context_rows eq xs ys i j m n"
proof -
  obtain d e where "k = i + d" "l = j + d" "m = i + d + e" "n = j + d + e"
    using assms by (auto simp: context_rows_def) (metis le_add_diff_inverse)
  with assms show ?thesis by (simp add: context_rows_def same_run_add add.assoc)
qed

lemma hunk_path_prepend:
  "context_rows eq xs ys i j k l \<Longrightarrow> hunk_path eq xs ys k l hs m n \<Longrightarrow> hunk_path eq xs ys i j hs m n"
  by (cases hs) (auto simp: Let_def intro: context_rows_trans)

lemma hunk_path_append:
  "hunk_path eq xs ys i j hs k l \<Longrightarrow> hunk_path eq xs ys k l hs' m n \<Longrightarrow> hunk_path eq xs ys i j (hs @ hs') m n"
  by (induction hs arbitrary: i j) (auto simp: Let_def intro: hunk_path_prepend)

lemma hunk_ends_snoc [simp]: "hunk_ends (hs @ [h]) = (sn_end (dh_base_row_range h), sn_end (dh_new_row_range h))"
  by (simp add: hunk_ends_def)

lemma hunk_ends_Nil [simp]: "hunk_ends [] = (0, 0)"
  by (simp add: hunk_ends_def)

section \<open>Runs of changed bytes inside a row\<close>

definition in_runs :: "span list \<Rightarrow> nat \<Rightarrow> bool" where
  "in_runs rs x \<longleftrightarrow> list_ex (\<lambda>r. sn_start r \<le> x \<and> x < sn_end r) rs"

definition in_pieces :: "(nat \<times> nat) list \<Rightarrow> nat \<Rightarrow> bool" where
  "in_pieces ps x \<longleftrightarrow> list_ex (\<lambda>p. fst p \<le> x \<and> x < snd p) ps"

definition span_len :: "span \<Rightarrow> nat" where
  "span_len s = sn_end s - sn_start s"

text \<open>The runs of a row are parts of it, they cover only pieces, and all of them when the pieces are in order.\<close>

definition row_runs_ok :: "(nat \<times> nat) list \<Rightarrow> span \<Rightarrow> span list \<Rightarrow> bool" where
  "row_runs_ok ps sp rs \<longleftrightarrow> list_all (\<lambda>r. sn_start r < sn_end r \<and> sn_end r \<le> span_len sp) rs \<and>
     (\<forall>x. in_runs rs x \<longrightarrow> in_pieces ps (sn_start sp + x)) \<and>
     (sorted_wrt (\<lambda>p q. snd p \<le> fst q) ps \<longrightarrow> (\<forall>x. in_runs rs x \<longleftrightarrow> x < span_len sp \<and> in_pieces ps (sn_start sp + x)))"

lemma clipped_runs_eq:
  "clipped_runs ps sp k = Some (map (\<lambda>p. mk_span (max (fst p) (sn_start sp) - sn_start sp) (min (snd p) (sn_end sp) - sn_start sp))
     (filter (\<lambda>p. max (fst p) (sn_start sp) < min (snd p) (sn_end sp)) (takeWhile (\<lambda>p. fst p < sn_end sp) (drop k ps))))"
proof -
  have "for_each (\<lambda>out (start, end'). do {
       let clipped_start = max start (sn_start sp);
       let clipped_end = min end' (sn_end sp);
       if clipped_start < clipped_end then do {
         a \<leftarrow> usub clipped_start (sn_start sp);
         b \<leftarrow> usub clipped_end (sn_start sp);
         Some (out @ [mk_span a b])
       } else Some out
     }) out xs = Some (out @ map (\<lambda>p. mk_span (max (fst p) (sn_start sp) - sn_start sp) (min (snd p) (sn_end sp) - sn_start sp))
       (filter (\<lambda>p. max (fst p) (sn_start sp) < min (snd p) (sn_end sp)) xs))" for out xs
    by (induction xs arbitrary: out) (auto simp: usub_def Let_def)
  from this [of "[]"] show ?thesis by (simp add: clipped_runs_def)
qed

lemma in_runs_map: "in_runs (map f (filter P xs)) x \<longleftrightarrow> (\<exists>p\<in>set xs. P p \<and> sn_start (f p) \<le> x \<and> x < sn_end (f p))"
  by (induction xs) (auto simp: in_runs_def)

lemma takeWhile_below: "sorted_wrt (\<lambda>p q. fst p \<le> fst q) xs \<Longrightarrow> set (takeWhile (\<lambda>p. fst p < (e :: nat)) xs) = {p \<in> set xs. fst p < e}"
  by (induction xs) auto

lemma clipped_runs_ok:
  assumes "clipped_runs ps sp k = Some rs" "list_all (\<lambda>p. fst p < snd p) ps"
    and "\<forall>p\<in>set (take k ps). snd p \<le> sn_start sp"
  shows "row_runs_ok ps sp rs"
proof -
  let ?s = "sn_start sp" and ?e = "sn_end sp" and ?in = "takeWhile (\<lambda>p. fst p < sn_end sp) (drop k ps)"
  have rs: "rs = map (\<lambda>p. mk_span (max (fst p) ?s - ?s) (min (snd p) ?e - ?s)) (filter (\<lambda>p. max (fst p) ?s < min (snd p) ?e) ?in)"
    using assms(1) by (simp add: clipped_runs_eq)
  have inside: "list_all (\<lambda>r. sn_start r < sn_end r \<and> sn_end r \<le> span_len sp) rs" unfolding rs
    by (auto simp: list_all_iff span_len_def min_def max_def split: if_splits)
  have cover: "in_runs rs x \<longleftrightarrow> x < span_len sp \<and> (\<exists>p\<in>set ?in. fst p \<le> ?s + x \<and> ?s + x < snd p)" for x
  proof -
    have "in_runs rs x \<longleftrightarrow> (\<exists>p\<in>set ?in. max (fst p) ?s < min (snd p) ?e \<and> max (fst p) ?s - ?s \<le> x \<and> x < min (snd p) ?e - ?s)"
      unfolding rs in_runs_map by simp
    moreover have "max a ?s < min b ?e \<and> max a ?s - ?s \<le> x \<and> x < min b ?e - ?s \<longleftrightarrow> x < span_len sp \<and> a \<le> ?s + x \<and> ?s + x < b" for a b
      unfolding span_len_def by linarith
    ultimately show ?thesis by blast
  qed
  have sub: "set ?in \<subseteq> set ps" by (auto dest!: set_takeWhileD in_set_dropD)
  have exact: "(\<exists>p\<in>set ?in. fst p \<le> ?s + x \<and> ?s + x < snd p) \<longleftrightarrow> in_pieces ps (?s + x)"
    if sorted: "sorted_wrt (\<lambda>p q. snd p \<le> fst q) ps" and x: "x < span_len sp" for x
  proof
    assume "in_pieces ps (?s + x)"
    then obtain p where p: "p \<in> set ps" "fst p \<le> ?s + x" "?s + x < snd p" by (auto simp: in_pieces_def list_ex_iff)
    moreover have "set ps = set (take k ps) \<union> set (drop k ps)" by (metis append_take_drop_id set_append)
    ultimately have "p \<in> set (drop k ps)" using assms(3) by fastforce
    moreover have "sorted_wrt (\<lambda>p q. fst p \<le> fst q) ps"
      by (rule sorted_wrt_mono_rel [OF _ sorted]) (use assms(2) in \<open>force simp: list_all_iff\<close>)
    then have "sorted_wrt (\<lambda>p q. fst p \<le> fst q) (drop k ps)" by (rule sorted_wrt_drop)
    ultimately show "\<exists>p\<in>set ?in. fst p \<le> ?s + x \<and> ?s + x < snd p" using p x by (intro bexI [of _ p]) (auto simp: takeWhile_below span_len_def)
  qed (use sub in \<open>auto simp: in_pieces_def list_ex_iff\<close>)
  have "in_pieces ps (?s + x)" if "in_runs rs x" for x
    using that cover sub unfolding in_pieces_def list_ex_iff by blast
  with inside cover exact show ?thesis unfolding row_runs_ok_def by blast
qed

lemma skip_pieces_before:
  assumes "\<forall>p\<in>set (take k ps). snd p \<le> start"
  shows "\<forall>p\<in>set (take (skip_pieces ps start k) ps). snd p \<le> start"
proof -
  let ?w = "takeWhile (\<lambda>p. snd p \<le> start) (drop k ps)"
  have "take (length ?w) (drop k ps) = ?w" by (simp flip: takeWhile_eq_take)
  then have "take (skip_pieces ps start k) ps = take k ps @ ?w" by (simp add: skip_pieces_def take_add)
  with assms show ?thesis by (auto dest: set_takeWhileD)
qed

lemma spans_from_bounds: "sp \<in> set (spans_from start segs) \<Longrightarrow> start \<le> sn_start sp"
  by (induction segs arbitrary: start) fastforce+

lemma spans_from_sorted: "sorted_wrt (\<lambda>a b. sn_start a \<le> sn_start b) (spans_from start segs)"
  by (induction segs arbitrary: start) (auto dest: spans_from_bounds)

lemma runs_side_runs:
  assumes sorted: "sorted_wrt (\<lambda>a b. sn_start a \<le> sn_start b) spans" and rows: "span_ok rows (length spans)"
  shows "runs (side_runs spans rows block_start ps) (\<lambda>rs. length rs = span_len rows \<and>
    (\<forall>k<length rs. row_runs_ok (map (\<lambda>p. (block_start + fst p, block_start + snd p)) (filter (\<lambda>p. fst p < snd p) ps)) (spans ! (sn_start rows + k)) (rs ! k)))"
proof -
  let ?ps = "map (\<lambda>p. (block_start + fst p, block_start + snd p)) (filter (\<lambda>p. fst p < snd p) ps)"
  have ps: "map (\<lambda>(start, end'). (block_start + start, block_start + end')) (filter (\<lambda>(start, end'). start < end') ps) = ?ps"
    by (simp add: split_def)
  have wf: "list_all (\<lambda>p. fst p < snd p) ?ps" by (auto simp: list_all_iff)
  let ?I = "\<lambda>(result, next_piece) rest. \<exists>r. [r..<sn_end rows] = rest \<and> sn_start rows \<le> r \<and> r \<le> sn_end rows \<and> length result = r - sn_start rows \<and>
    (\<forall>k<length result. row_runs_ok ?ps (spans ! (sn_start rows + k)) (result ! k)) \<and>
    (r < sn_end rows \<longrightarrow> (\<forall>p\<in>set (take next_piece ?ps). snd p \<le> sn_start (spans ! r)))"
  let ?step = "\<lambda>(result, next_piece) row.
       if row < length spans then do {
         let next_piece = skip_pieces ?ps (sn_start (spans ! row)) next_piece;
         row_runs \<leftarrow> clipped_runs ?ps (spans ! row) next_piece;
         Some (result @ [row_runs], next_piece)
       } else Some (result @ [[]], next_piece)"
  have "runs (for_each ?step ([], 0) [sn_start rows..<sn_end rows]) (\<lambda>st. ?I st [])"
  proof (rule runs_for_each [where I = ?I])
    show "?I ([], 0) [sn_start rows..<sn_end rows]" using rows by (auto simp: span_ok_def)
  next
    fix st :: "span list list \<times> nat" and row rest
    assume I: "?I st (row # rest)"
    obtain result k where st: "st = (result, k)" by (cases st)
    from I st obtain r where row: "[r..<sn_end rows] = row # rest" and b: "sn_start rows \<le> r" "length result = r - sn_start rows"
      and good: "\<forall>k<length result. row_runs_ok ?ps (spans ! (sn_start rows + k)) (result ! k)"
      and skip: "r < sn_end rows \<longrightarrow> (\<forall>p\<in>set (take k ?ps). snd p \<le> sn_start (spans ! r))" by auto
    have r: "row = r" "r < sn_end rows" "rest = [Suc r..<sn_end rows]" using row by (auto simp: upt_eq_Cons_conv)
    then have len: "r < length spans" using rows by (simp add: span_ok_def)
    let ?k = "skip_pieces ?ps (sn_start (spans ! r)) k"
    obtain rs where rs: "clipped_runs ?ps (spans ! r) ?k = Some rs" by (simp add: clipped_runs_eq)
    have before: "\<forall>p\<in>set (take ?k ?ps). snd p \<le> sn_start (spans ! r)" by (rule skip_pieces_before) (use skip r(2) in blast)
    have "row_runs_ok ?ps (spans ! r) rs" by (rule clipped_runs_ok [OF rs wf before])
    moreover have "\<forall>p\<in>set (take ?k ?ps). snd p \<le> sn_start (spans ! Suc r)" if "Suc r < sn_end rows"
      using before sorted_wrt_nth_less [OF sorted, of r "Suc r"] that rows by (fastforce simp: span_ok_def)
    ultimately have "?I (result @ [rs], ?k) rest" using r b good
      by (auto simp: nth_append less_Suc_eq Suc_diff_le intro!: exI [of _ "Suc r"])
    then show "runs (?step st row) (\<lambda>st. ?I st rest)"
      using rs len r(1) by (simp add: st)
  qed
  then show ?thesis unfolding side_runs_def ps Let_def
    by (rule runs_bindI) (auto simp: span_len_def upt_eq_Nil_conv split: prod.splits)
qed

section \<open>From fragments to hunks\<close>

text \<open>
  \<open>hunk_runs\<close>: a hunk has no runs, or its runs cover exactly the bytes of its rows that lie in pieces of the fragment it
  stands for.
\<close>

definition side_pieces1 :: "line_fragment \<Rightarrow> (nat \<times> nat) list" where
  "side_pieces1 f = filter (\<lambda>p. fst p < snd p) (map (\<lambda>r. (r_start1 r, r_end1 r)) (pieces f))"

definition side_pieces2 :: "line_fragment \<Rightarrow> (nat \<times> nat) list" where
  "side_pieces2 f = filter (\<lambda>p. fst p < snd p) (map (\<lambda>r. (r_start2 r, r_end2 r)) (pieces f))"

definition side_runs_ok :: "span list \<Rightarrow> (nat \<times> nat) list \<Rightarrow> span \<Rightarrow> span list list \<Rightarrow> bool" where
  "side_runs_ok spans ps rows rs \<longleftrightarrow> length rs = span_len rows \<and>
     (\<forall>k < span_len rows. row_runs_ok ps (spans ! (sn_start rows + k)) (rs ! k))"

definition hunk_runs :: "ustr \<Rightarrow> ustr \<Rightarrow> line_fragment list \<Rightarrow> diff_hunk \<Rightarrow> bool" where
  "hunk_runs base new fs h \<longleftrightarrow> dh_base_runs h = [] \<and> dh_new_runs h = [] \<or>
     (\<exists>f\<in>set fs. side_runs_ok (line_spans base) (side_pieces1 f) (dh_base_row_range h) (dh_base_runs h) \<and>
       side_runs_ok (line_spans new) (side_pieces2 f) (dh_new_row_range h) (dh_new_runs h))"

lemma side_pieces_inner:
  assumes "lf_inner f = Some inner"
  shows "side_pieces1 f = map (\<lambda>p. (r_start1 (lf_offsets f) + fst p, r_start1 (lf_offsets f) + snd p))
      (filter (\<lambda>p. fst p < snd p) (map (\<lambda>piece. (df_start1 piece, df_end1 piece)) inner))"
    "side_pieces2 f = map (\<lambda>p. (r_start2 (lf_offsets f) + fst p, r_start2 (lf_offsets f) + snd p))
      (filter (\<lambda>p. fst p < snd p) (map (\<lambda>piece. (df_start2 piece, df_end2 piece)) inner))"
  using assms by (simp_all add: side_pieces1_def side_pieces2_def pieces_def inner_ranges_def frag_range_def filter_map o_def)

lemma runs_fragment_runs:
  assumes "span_ok base_rows (row_count base)" "span_ok new_rows (row_count new)"
  shows "runs (fragment_runs (line_spans base) (line_spans new) base_rows new_rows phantom_only f) (\<lambda>(bs, ns). bs = [] \<and> ns = [] \<or>
    side_runs_ok (line_spans base) (side_pieces1 f) base_rows bs \<and> side_runs_ok (line_spans new) (side_pieces2 f) new_rows ns)"
proof (cases "lf_inner f")
  case (Some inner)
  have sorted: "sorted_wrt (\<lambda>a b. sn_start a \<le> sn_start b) (line_spans text)" for "text" by (simp add: line_spans_def spans_from_sorted)
  note left = runs_side_runs [OF sorted assms(1) [unfolded row_count_def], of "r_start1 (lf_offsets f)" "map (\<lambda>piece. (df_start1 piece, df_end1 piece)) inner",
    folded side_pieces_inner [OF Some]]
  note right = runs_side_runs [OF sorted assms(2) [unfolded row_count_def], of "r_start2 (lf_offsets f)" "map (\<lambda>piece. (df_start2 piece, df_end2 piece)) inner",
    folded side_pieces_inner [OF Some]]
  show ?thesis
    using left right Some by (auto simp: fragment_runs_def runs_iff side_runs_ok_def)
qed (simp add: fragment_runs_def)

lemma runs_push_fragment:
  assumes rows: "fragment_rows base new (line_spans base) (line_spans new) (lf_lines f) = (mk_span a1 b1, mk_span a2 b2, ph)"
    and bounds: "a1 \<le> b1" "b1 \<le> row_count base" "a2 \<le> b2" "b2 \<le> row_count new" "row_count base < 2 ^ 32" "row_count new < 2 ^ 32"
    and path: "hunk_path eq (text_rows base) (text_rows new) 0 0 hs i j" and ends: "hunk_ends hs = (i, j)"
    and ctx: "i \<le> a1 \<Longrightarrow> j \<le> a2 \<Longrightarrow> same_run eq (text_rows base) (text_rows new) i j (min (a1 - i) (a2 - j))"
    and runs: "list_all (hunk_runs base new fs) hs" "f \<in> set fs"
  shows "runs (push_fragment base new (line_spans base) (line_spans new) options hs f) (\<lambda>hs'. list_all (hunk_runs base new fs) hs' \<and>
    (hs' = hs \<and> (a1 = b1 \<and> a2 = b2 \<or> a1 < i \<or> a2 < j) \<or>
     i \<le> a1 \<and> j \<le> a2 \<and> hunk_path eq (text_rows base) (text_rows new) 0 0 hs' b1 b2 \<and> hunk_ends hs' = (b1, b2)))"
proof (cases "a1 = b1 \<and> a2 = b2 \<or> a1 < i \<or> a2 < j")
  case True
  with bounds rows ends runs show ?thesis by (auto simp: push_fragment_def Let_def)
next
  case False
  define c where "c = min (a1 - i) (a2 - j)"
  let ?b = "mk_span (i + c) b1" and ?n = "mk_span (j + c) b2"
  have le: "i \<le> a1" "j \<le> a2" "i + c \<le> a1" "j + c \<le> a2" using False by (auto simp: c_def)
  have ok: "span_ok ?b (row_count base)" "span_ok ?n (row_count new)" using le bounds by (auto simp: span_ok_def)
  have "\<not> (b1 \<le> a1 \<and> b2 \<le> a2)" using False bounds by auto
  then have push: "push_fragment base new (line_spans base) (line_spans new) options hs f =
    fragment_runs (line_spans base) (line_spans new) ?b ?n ph f \<bind> (\<lambda>(bs, ns). Some (hs @ [\<lparr>dh_base_row_range = ?b, dh_new_row_range = ?n,
      dh_status = hunk_status ?b ?n, dh_tone = tone_for (dop_highlight options) (lf_inner f), dh_base_runs = bs, dh_new_runs = ns\<rparr>]))"
    using rows ends le bounds
    by (simp add: push_fragment_def Let_def usub_def u32_add_def c_def [symmetric] not_less) (auto simp: mk_span_def)
  have "context_rows eq (text_rows base) (text_rows new) i j (i + c) (j + c)" using ctx le by (simp add: context_rows_def c_def)
  moreover have "\<not> (span_is_empty ?b \<and> span_is_empty ?n)" using False le bounds by auto
  ultimately have "hunk_path eq (text_rows base) (text_rows new) i j [h] b1 b2"
    if "dh_base_row_range h = ?b" "dh_new_row_range h = ?n" "dh_status h = hunk_status ?b ?n" for h
    using that ok bounds by (auto simp: Let_def)
  from hunk_path_append [OF path this] show ?thesis unfolding push
    by (intro runs_bindI [OF runs_fragment_runs [OF ok]])
      (use runs le in \<open>auto simp: hunk_runs_def simp del: hunk_path.simps split: prod.splits\<close>)
qed

lemma fragment_rows_inside:
  assumes "range_wf c" "r_end1 c \<le> row_count base" "r_end2 c \<le> row_count new" "row_count base < 2 ^ 32" "row_count new < 2 ^ 32"
  shows "fragment_rows base new (line_spans base) (line_spans new) c = (mk_span (r_start1 c) (r_end1 c), mk_span (r_start2 c) (r_end2 c), False)"
  using assms by (auto simp: fragment_rows_def Let_def range_wf_def range_is_empty_def real_rows_inside)

lemma fragment_rows_end:
  assumes "r_start1 c \<le> r_end1 c" "r_start2 c \<le> r_end2 c" "r_end1 c = length (split_lines base)" "r_end2 c = length (split_lines new)"
    and size: "row_count base < 2 ^ 32" "row_count new < 2 ^ 32"
  obtains a1 a2 ph where "fragment_rows base new (line_spans base) (line_spans new) c = (mk_span a1 (row_count base), mk_span a2 (row_count new), ph)"
    "a1 \<le> r_start1 c" "a1 \<le> row_count base" "a1 = min (r_start1 c) (row_count base) \<or> a1 = row_count base - 1"
    "a2 \<le> r_start2 c" "a2 \<le> row_count new" "a2 = min (r_start2 c) (row_count new) \<or> a2 = row_count new - 1"
proof -
  obtain a1 where a1: "real_rows (r_start1 c) (r_end1 c) (line_spans base) base = mk_span a1 (row_count base)"
    "a1 \<le> r_start1 c" "a1 \<le> row_count base" "a1 = min (r_start1 c) (row_count base) \<or> a1 = row_count base - 1"
    using real_rows_end [OF assms(1,3) size(1)] by blast
  obtain a2 where a2: "real_rows (r_start2 c) (r_end2 c) (line_spans new) new = mk_span a2 (row_count new)"
    "a2 \<le> r_start2 c" "a2 \<le> row_count new" "a2 = min (r_start2 c) (row_count new) \<or> a2 = row_count new - 1"
    using real_rows_end [OF assms(2,4) size(2)] by blast
  have row: "last_row (length (line_spans text)) = mk_span (row_count text - 1) (row_count text)" if "row_count text < 2 ^ 32" for "text"
    using that by (simp add: last_row_def row_count_def Let_def)
  show thesis
  proof (cases "row_count base \<le> a1 \<and> row_count new \<le> a2")
    case True
    then show thesis using a1 a2 row size
      by (intro that [of "row_count base - 1" "row_count new - 1" True]) (auto simp: fragment_rows_def Let_def)
  next
    case False
    then show thesis using a1 a2 by (intro that [of a1 a2 False]) (auto simp: fragment_rows_def Let_def)
  qed
qed

lemma rows_same:
  assumes "same_run eq (split_lines base) (split_lines new) i j k" "n \<le> k" "i + n \<le> row_count base" "j + n \<le> row_count new"
  shows "same_run eq (text_rows base) (text_rows new) i j n"
  using assms by (auto simp: same_run_def text_rows_nth)

definition tail_paired :: "(ustr \<Rightarrow> ustr \<Rightarrow> bool) \<Rightarrow> ustr \<Rightarrow> ustr \<Rightarrow> nat \<Rightarrow> nat \<Rightarrow> bool" where
  "tail_paired eq base new i j \<longleftrightarrow> i \<le> row_count base \<and> j \<le> row_count new \<and>
     same_run eq (text_rows base) (text_rows new) i j (min (row_count base - i) (row_count new - j))"

lemma tail_paired_end:
  "i \<le> row_count base \<Longrightarrow> j \<le> row_count new \<Longrightarrow> i = row_count base \<or> j = row_count new \<Longrightarrow> tail_paired eq base new i j"
  by (auto simp: tail_paired_def)

text \<open>After a change the lines go on on both sides, or the change ends both texts.\<close>

lemma diff_path_after:
  assumes "diff_path eq (split_lines base) (split_lines new) True i j cs (length (split_lines base)) (length (split_lines new))"
  shows "(cs = [] \<and> i = length (split_lines base) \<and> j = length (split_lines new)) \<or>
    i \<le> row_count base \<and> j \<le> row_count new \<and> (cs = [] \<longrightarrow> tail_paired eq base new i j)"
proof (cases cs)
  case Nil
  let ?n = "length (split_lines base) - i"
  from assms Nil have run: "same_run eq (split_lines base) (split_lines new) i j ?n" and le: "i \<le> length (split_lines base)" "j \<le> length (split_lines new)"
    "?n = length (split_lines new) - j" by auto
  show ?thesis
  proof (cases "?n = 0")
    case True
    with le Nil show ?thesis by auto
  next
    case False
    with le row_count_lines [of base] row_count_lines [of new] have "i \<le> row_count base" "j \<le> row_count new" by (auto split: if_splits)
    moreover have "same_run eq (text_rows base) (text_rows new) i j (min (row_count base - i) (row_count new - j))"
      by (rule rows_same [OF run]) (use calculation row_count_lines [of base] in auto)
    ultimately show ?thesis by (simp add: tail_paired_def)
  qed
next
  case (Cons d ds)
  with assms have d: "i < r_start1 d" "r_start1 d - i = r_start2 d - j" "j \<le> r_start2 d" "r_start1 d \<le> r_end1 d" "r_start2 d \<le> r_end2 d"
    by (auto simp: range_wf_def)
  moreover have "r_end1 d \<le> length (split_lines base)" "r_end2 d \<le> length (split_lines new)"
    using diff_path_in_bounds [OF assms, of d] Cons by auto
  ultimately show ?thesis using Cons row_count_lines [of base] row_count_lines [of new] by (auto split: if_splits)
qed

lemma runs_push_fragments:
  assumes diff: "diff_path eq (split_lines base) (split_lines new) False 0 0 (map lf_lines fs) (length (split_lines base)) (length (split_lines new))"
    and ne: "fs \<noteq> []" and size: "row_count base < 2 ^ 32" "row_count new < 2 ^ 32"
  shows "runs (for_each (push_fragment base new (line_spans base) (line_spans new) options) [] fs) (\<lambda>hs. list_all (hunk_runs base new fs) hs \<and>
    (\<exists>i j. hunk_ends hs = (i, j) \<and> hunk_path eq (text_rows base) (text_rows new) 0 0 hs i j \<and> tail_paired eq base new i j))"
proof -
  let ?path = "\<lambda>s i j cs. diff_path eq (split_lines base) (split_lines new) s i j cs (length (split_lines base)) (length (split_lines new))"
  let ?at = "\<lambda>hs i j. hunk_ends hs = (i, j) \<and> hunk_path eq (text_rows base) (text_rows new) 0 0 hs i j \<and> i \<le> row_count base \<and> j \<le> row_count new"
  let ?I = "\<lambda>hs rest. list_all (hunk_runs base new fs) hs \<and> set rest \<subseteq> set fs \<and> (\<exists>i j. ?at hs i j \<and>
    (if rest = [] then tail_paired eq base new i j else \<exists>s. ?path s i j (map lf_lines rest)))"
  have "runs (for_each (push_fragment base new (line_spans base) (line_spans new) options) [] fs) (\<lambda>hs. ?I hs [])"
  proof (rule runs_for_each [where I = ?I])
    show "?I [] fs" using diff ne by auto
  next
    fix hs f rest
    assume I: "?I hs (f # rest)"
    then obtain i j s where at: "?at hs i j" and path: "?path s i j (lf_lines f # map lf_lines rest)" by auto
    let ?c = "lf_lines f"
    have c: "i \<le> r_start1 ?c" "j \<le> r_start2 ?c" "r_start1 ?c - i = r_start2 ?c - j" "range_wf ?c"
      and gap: "same_run eq (split_lines base) (split_lines new) i j (r_start1 ?c - i)" and tl: "?path True (r_end1 ?c) (r_end2 ?c) (map lf_lines rest)"
      using path by auto
    have runs_ok: "list_all (hunk_runs base new fs) hs" "f \<in> set fs" using I by auto
    have wf: "r_start1 ?c \<le> r_end1 ?c" "r_start2 ?c \<le> r_end2 ?c" using c(4) by (auto simp: range_wf_def)
    consider (last) "rest = []" "r_end1 ?c = length (split_lines base)" "r_end2 ?c = length (split_lines new)"
      | (inside) "r_end1 ?c \<le> row_count base" "r_end2 ?c \<le> row_count new" "rest = [] \<Longrightarrow> tail_paired eq base new (r_end1 ?c) (r_end2 ?c)"
      using diff_path_after [OF tl] by auto
    then show "runs (push_fragment base new (line_spans base) (line_spans new) options hs f) (\<lambda>hs. ?I hs rest)"
    proof cases
      case inside
      have ctx: "same_run eq (text_rows base) (text_rows new) i j (min (r_start1 ?c - i) (r_start2 ?c - j))"
        by (rule rows_same [OF gap]) (use c inside wf in auto)
      show ?thesis
        by (rule runs_mono [OF runs_push_fragment [OF fragment_rows_inside [OF c(4) inside(1,2) size] wf(1) inside(1) wf(2) inside(2) size _ _ ctx runs_ok]])
          (use at I c inside tl in \<open>auto simp: range_wf_def range_is_empty_def\<close>)
    next
      case last
      obtain a1 a2 ph where rows: "fragment_rows base new (line_spans base) (line_spans new) ?c = (mk_span a1 (row_count base), mk_span a2 (row_count new), ph)"
        and a: "a1 \<le> r_start1 ?c" "a1 \<le> row_count base" "a1 = min (r_start1 ?c) (row_count base) \<or> a1 = row_count base - 1"
          "a2 \<le> r_start2 ?c" "a2 \<le> row_count new" "a2 = min (r_start2 ?c) (row_count new) \<or> a2 = row_count new - 1"
        by (rule fragment_rows_end [OF wf last(2,3) size])
      have ctx: "same_run eq (text_rows base) (text_rows new) i j (min (a1 - i) (a2 - j))" if "i \<le> a1" "j \<le> a2"
        by (rule rows_same [OF gap]) (use a that in auto)
      have skip: "tail_paired eq base new i j" if "a1 = row_count base \<and> a2 = row_count new \<or> a1 < i \<or> a2 < j"
      proof -
        have "i = row_count base \<or> j = row_count new" if "a1 < i \<or> a2 < j"
          using that a at c by (auto simp: min_def split: if_splits)
        moreover have "tail_paired eq base new i j" if "a1 = row_count base" "a2 = row_count new" "i \<le> a1" "j \<le> a2"
          using ctx that by (simp add: tail_paired_def)
        ultimately show ?thesis using that at tail_paired_end [of i base j new] by (metis not_le)
      qed
      show ?thesis
        by (rule runs_mono [OF runs_push_fragment [OF rows a(2) order.refl a(5) order.refl size _ _ ctx runs_ok]])
          (use at I last(1) skip tail_paired_end in auto)
    qed
  qed
  then show ?thesis by (rule runs_mono) auto
qed

lemma runs_push_unpaired_tail:
  assumes "hunk_ends hs = (i, j)" "hunk_path eq (text_rows base) (text_rows new) 0 0 hs i j" "tail_paired eq base new i j"
    and runs: "list_all (hunk_runs base new fs) hs" and size: "row_count base < 2 ^ 32" "row_count new < 2 ^ 32"
  shows "runs (push_unpaired_tail hs (row_count base) (row_count new) highlight) (\<lambda>hs'. list_all (hunk_runs base new fs) hs' \<and>
    hunk_path eq (text_rows base) (text_rows new) 0 0 hs' (row_count base) (row_count new))"
proof -
  define c where "c = min (row_count base - i) (row_count new - j)"
  have le: "i \<le> row_count base" "j \<le> row_count new" "i + c \<le> row_count base" "j + c \<le> row_count new"
    using assms(3) by (auto simp: tail_paired_def c_def)
  have ctx: "context_rows eq (text_rows base) (text_rows new) i j (i + c) (j + c)"
    using assms(3) by (simp add: context_rows_def tail_paired_def c_def)
  show ?thesis
  proof (cases "i + c = row_count base \<and> j + c = row_count new")
    case True
    with ctx have "hunk_path eq (text_rows base) (text_rows new) i j [] (row_count base) (row_count new)" by simp
    from hunk_path_append [OF assms(2) this] True show ?thesis using assms(1) runs le size
      by (simp add: push_unpaired_tail_def Let_def usub_def u32_add_def c_def [symmetric] del: hunk_path.simps)
  next
    case False
    then have "hunk_path eq (text_rows base) (text_rows new) i j [h] (row_count base) (row_count new)"
      if "dh_base_row_range h = mk_span (i + c) (row_count base)" "dh_new_row_range h = mk_span (j + c) (row_count new)"
        "dh_status h = hunk_status (dh_base_row_range h) (dh_new_row_range h)" for h
      using that ctx le by (auto simp: Let_def span_ok_def)
    with hunk_path_append [OF assms(2)] False show ?thesis using assms(1) runs le size
      by (auto simp: push_unpaired_tail_def Let_def usub_def u32_add_def c_def [symmetric] hunk_runs_def simp del: hunk_path.simps)
  qed
qed

lemma runs_compute_hunk_report:
  assumes "inner_inputs line_engine engine char_engine base new"
  shows "runs (compute_hunk_report line_engine engine char_engine al base new options) (\<lambda>r.
    hunk_path (\<lambda>a b. is_equals a b (dop_whitespace options)) (text_rows base) (text_rows new) 0 0 (hr_hunks r) (row_count base) (row_count new) \<and>
    (\<exists>fs. compare_lines_inner line_engine engine char_engine al base new (dop_whitespace options) (dop_highlight options) = Some fs \<and>
      whole_path (dop_whitespace options) base new fs \<and> list_all (hunk_runs base new fs) (hr_hunks r)))"
proof -
  let ?policy = "dop_whitespace options"
  let ?eq = "\<lambda>a b. is_equals a b ?policy"
  have size: "row_count base < 2 ^ 32" "row_count new < 2 ^ 32"
    using assms length_split_lines [of base] length_split_lines [of new] row_count_lines [of base] row_count_lines [of new]
    by (auto simp: inner_inputs_def ENGINE_TOKEN_LIMIT_def split: if_splits)
  obtain r where r: "compare_lines_inner_report line_engine engine char_engine al base new ?policy (dop_highlight options) = Some r"
    "whole_path ?policy base new (ldr_fragments r)" "valid_diff ?eq (split_lines base) (split_lines new) (map lf_lines (ldr_fragments r))"
    using runs_report [OF assms, of al ?policy "dop_highlight options"] runs_report_lines [OF assms, of al ?policy "dop_highlight options"]
    by (auto simp: runs_iff)
  let ?fs = "ldr_fragments r"
  have inner: "compare_lines_inner line_engine engine char_engine al base new ?policy (dop_highlight options) = Some ?fs"
    by (simp add: compare_lines_inner_def r(1))
  show ?thesis
  proof (cases "base = new")
    case True
    with inner r(2) show ?thesis by (simp add: compute_hunk_report_def context_rows_def same_run_def is_equals_refl)
  next
    case False
    have loop: "runs (for_each (push_fragment base new (line_spans base) (line_spans new) options) [] ?fs) (\<lambda>hs. list_all (hunk_runs base new ?fs) hs \<and>
      (\<exists>i j. hunk_ends hs = (i, j) \<and> hunk_path ?eq (text_rows base) (text_rows new) 0 0 hs i j \<and> tail_paired ?eq base new i j))"
    proof (cases "?fs = []")
      case True
      with r(3) have "diff_path ?eq (split_lines base) (split_lines new) True 0 0 [] (length (split_lines base)) (length (split_lines new))"
        unfolding valid_diff_def by simp metis
      from diff_path_after [OF this] have "tail_paired ?eq base new 0 0" by (auto simp: split_lines_def)
      with True show ?thesis by simp
    qed (use runs_push_fragments [OF r(3) [unfolded valid_diff_def] _ size] in blast)
    have counts: "as_u32 (length (line_spans base)) = row_count base" "as_u32 (length (line_spans new)) = row_count new"
      using size by (simp_all add: row_count_def)
    show ?thesis unfolding compute_hunk_report_def if_not_P [OF False] r(1) bind.simps Let_def counts
    proof (rule runs_bindI [OF loop], elim conjE exE)
      fix hs i j
      assume hs: "list_all (hunk_runs base new ?fs) hs" "hunk_ends hs = (i, j)"
        "hunk_path ?eq (text_rows base) (text_rows new) 0 0 hs i j" "tail_paired ?eq base new i j"
      show "runs (push_unpaired_tail hs (row_count base) (row_count new) (dop_highlight options) \<bind>
          (\<lambda>hunks. Some \<lparr>hr_hunks = hunks, hr_too_big_blocks = ldr_too_big_blocks r\<rparr>)) (\<lambda>r.
        hunk_path ?eq (text_rows base) (text_rows new) 0 0 (hr_hunks r) (row_count base) (row_count new) \<and>
        (\<exists>fs. compare_lines_inner line_engine engine char_engine al base new ?policy (dop_highlight options) = Some fs \<and>
          whole_path ?policy base new fs \<and> list_all (hunk_runs base new fs) (hr_hunks r)))"
        by (rule runs_bindI [OF runs_push_unpaired_tail [OF hs(2,3,4,1) size]])
          (use inner r(2) in \<open>simp del: hunk_path.simps frag_path.simps\<close>)
    qed
  qed
qed

lemma loose_path_above: "loose_path P xs ys i j cs m n \<Longrightarrow> c \<in> set cs \<Longrightarrow> i \<le> r_start1 c \<and> j \<le> r_start2 c"
  by (induction cs arbitrary: i j) (fastforce simp: ws_same_def)+

lemma loose_path_sorted:
  "loose_path P xs ys i j cs m n \<Longrightarrow> sorted_wrt (\<lambda>c d. r_end1 c \<le> r_start1 d \<and> r_end2 c \<le> r_start2 d) cs"
  by (induction cs arbitrary: i j) (auto dest: loose_path_above)

lemma side_pieces_sorted:
  assumes "frag_ok policy text1 text2 f"
  shows "sorted_wrt (\<lambda>p q. snd p \<le> fst q) (side_pieces1 f)" "sorted_wrt (\<lambda>p q. snd p \<le> fst q) (side_pieces2 f)"
proof -
  have "sorted_wrt (\<lambda>c d. r_end1 c \<le> r_start1 d \<and> r_end2 c \<le> r_start2 d) (pieces f)"
    using assms by (auto simp: frag_ok_def Let_def intro: loose_path_sorted)
  then show "sorted_wrt (\<lambda>p q. snd p \<le> fst q) (side_pieces1 f)" "sorted_wrt (\<lambda>p q. snd p \<le> fst q) (side_pieces2 f)"
    unfolding side_pieces1_def side_pieces2_def by (auto simp: sorted_wrt_map intro!: sorted_wrt_filter elim: sorted_wrt_mono_rel [rotated])
qed

lemma frag_path_mem: "frag_path policy text1 text2 i j fs m n \<Longrightarrow> f \<in> set fs \<Longrightarrow> frag_ok policy text1 text2 f"
  by (induction fs arbitrary: i j) auto

text \<open>The bytes of a row that its runs mark are exactly the bytes of the row that lie in a piece.\<close>

definition marks :: "span list \<Rightarrow> (nat \<times> nat) list \<Rightarrow> span \<Rightarrow> (nat \<Rightarrow> span list) \<Rightarrow> bool" where
  "marks spans ps rows line_runs \<longleftrightarrow> (\<forall>row\<in>{sn_start rows..<sn_end rows}. \<forall>x.
     in_runs (line_runs row) x \<longleftrightarrow> x < span_len (spans ! row) \<and> in_pieces ps (sn_start (spans ! row) + x))"

lemma side_runs_marks:
  assumes "side_runs_ok spans ps rows rs" "sorted_wrt (\<lambda>p q. snd p \<le> fst q) ps"
  shows "marks spans ps rows (line_runs_at rs rows)"
  unfolding marks_def
proof (intro ballI allI)
  fix row x
  assume "row \<in> {sn_start rows..<sn_end rows}"
  then have row: "row - sn_start rows < length rs" "sn_start rows \<le> row" using assms(1) by (auto simp: side_runs_ok_def span_len_def)
  with assms have "row_runs_ok ps (spans ! row) (rs ! (row - sn_start rows))" by (auto simp: side_runs_ok_def)
  with row assms(2) show "in_runs (line_runs_at rs rows row) x \<longleftrightarrow> x < span_len (spans ! row) \<and> in_pieces ps (sn_start (spans ! row) + x)"
    by (simp add: line_runs_at_def checked_sub_def row_runs_ok_def)
qed

definition hunk_marks :: "ustr \<Rightarrow> ustr \<Rightarrow> line_fragment list \<Rightarrow> diff_hunk \<Rightarrow> bool" where
  "hunk_marks base new fs h \<longleftrightarrow> (\<forall>row. base_line_runs h row = [] \<and> new_line_runs h row = []) \<or>
     (\<exists>f\<in>set fs. marks (line_spans base) (side_pieces1 f) (dh_base_row_range h) (base_line_runs h) \<and>
       marks (line_spans new) (side_pieces2 f) (dh_new_row_range h) (new_line_runs h))"

lemma hunk_runs_marks:
  assumes "whole_path policy base new fs" "hunk_runs base new fs h"
  shows "hunk_marks base new fs h"
  using assms(2) unfolding hunk_runs_def
proof (elim disjE bexE conjE)
  fix f
  assume f: "f \<in> set fs" "side_runs_ok (line_spans base) (side_pieces1 f) (dh_base_row_range h) (dh_base_runs h)"
    "side_runs_ok (line_spans new) (side_pieces2 f) (dh_new_row_range h) (dh_new_runs h)"
  note sorted = side_pieces_sorted [OF frag_path_mem [OF assms(1) f(1)]]
  from side_runs_marks [OF f(2) sorted(1)] side_runs_marks [OF f(3) sorted(2)] f(1) show ?thesis
    unfolding hunk_marks_def base_line_runs_def [abs_def] new_line_runs_def [abs_def] by blast
qed (simp add: hunk_marks_def base_line_runs_def new_line_runs_def line_runs_at_def split: option.splits)

text \<open>Counting the rows of the hunks.\<close>

lemma hunk_counts:
  assumes "hunk_path eq xs ys i j hs m n" "a + (n - j) < 2 ^ 32" "r + (m - i) < 2 ^ 32"
  shows "runs (for_each count_hunk (a, r) hs) (\<lambda>(a', r'). a \<le> a' \<and> r \<le> r' \<and> n + i + r' + a = m + j + a' + r \<and> (a' = a \<and> r' = r \<longrightarrow> hs = []))"
  using assms
proof (induction hs arbitrary: i j a r)
  case Nil
  then show ?case by (auto simp: context_rows_def)
next
  case (Cons h hs)
  let ?b = "dh_base_row_range h" and ?c = "dh_new_row_range h"
  have path: "hunk_path eq xs ys (sn_end ?b) (sn_end ?c) hs m n" and ctx: "context_rows eq xs ys i j (sn_start ?b) (sn_start ?c)"
    and ok: "sn_start ?b \<le> sn_end ?b" "sn_start ?c \<le> sn_end ?c" "sn_start ?b < sn_end ?b \<or> sn_start ?c < sn_end ?c"
    using Cons.prems(1) by (auto simp: Let_def span_ok_def span_is_empty_def)
  have le: "i \<le> sn_start ?b" "j \<le> sn_start ?c" "sn_start ?b - i = sn_start ?c - j" using ctx by (auto simp: context_rows_def)
  have "hunk_path eq xs ys i' j' hs m n \<Longrightarrow> i' \<le> m \<and> j' \<le> n" for i' j'
    by (induction hs arbitrary: i' j') (fastforce simp: Let_def context_rows_def span_ok_def)+
  from this [OF path] have ends: "sn_end ?b \<le> m" "sn_end ?c \<le> n" by auto
  let ?a = "a + (sn_end ?c - sn_start ?c)" and ?r = "r + (sn_end ?b - sn_start ?b)"
  have "?a + (n - sn_end ?c) < 2 ^ 32" "?r + (m - sn_end ?b) < 2 ^ 32" using Cons.prems(2,3) ok ends le by auto
  note IH = Cons.IH [OF path this]
  have small: "a + (sn_end ?c - sn_start ?c) < 2 ^ 32" "r + (sn_end ?b - sn_start ?b) < 2 ^ 32"
    using Cons.prems(2,3) ok ends le by auto
  have sums: "n + i + r' + a = m + j + a' + r \<and> a \<le> a' \<and> r \<le> r' \<and> \<not> (a' = a \<and> r' = r)"
    if "?a \<le> a'" "?r \<le> r'" "n + sn_end ?b + r' + ?a = m + sn_end ?c + a' + ?r" for a' r'
    using that ok le by auto
  from ok(1,2) small have "count_hunk (a, r) h = Some (?a, ?r)" by (simp add: count_hunk_def usub_def u32_add_def)
  then have step: "for_each count_hunk (a, r) (h # hs) = for_each count_hunk (?a, ?r) hs" by simp
  show ?case unfolding step by (rule runs_mono [OF IH]) (use sums in auto)
qed

section \<open>Properties\<close>

text \<open>
  C7. For any two texts and options the hunks are computed without a panic. They are in order and within the texts, none of them
  is empty, and every row outside them is paired with a row of the other text that is equal under the policy: between two
  hunks, before the first and behind the last as many rows lie on one side as on the other.
\<close>
theorem compute_hunk_report_paired:
  assumes "inner_inputs line_engine engine char_engine base new"
  shows "runs (compute_hunk_report line_engine engine char_engine is_alphabetic base new options) (\<lambda>report.
    hunk_path (\<lambda>a b. is_equals a b (dop_whitespace options)) (text_rows base) (text_rows new) 0 0 (hr_hunks report)
      (length (text_rows base)) (length (text_rows new)))"
  by (rule runs_mono [OF runs_compute_hunk_report [OF assms]]) simp

theorem compute_hunk_report_paired_witness:
  "runs (compute_hunk_report (prefix_engine line_eq) (prefix_engine (=)) (prefix_engine (=)) (\<lambda>c. 97 \<le> c \<and> c \<le> 122)
      [97, 10, 98, 32, 99, 10] [97, 10, 98, 32, 100] \<lparr>dop_highlight = HighlightWords, dop_whitespace = Default\<rparr>) (\<lambda>report.
    hunk_path (\<lambda>a b. is_equals a b Default) (text_rows [97, 10, 98, 32, 99, 10]) (text_rows [97, 10, 98, 32, 100]) 0 0 (hr_hunks report)
      (length (text_rows [97, 10, 98, 32, 99, 10])) (length (text_rows [97, 10, 98, 32, 100]))) \<and>
   map_option hr_hunks (compute_hunk_report (prefix_engine line_eq) (prefix_engine (=)) (prefix_engine (=)) (\<lambda>c. 97 \<le> c \<and> c \<le> 122)
      [97, 10, 98, 32, 99, 10] [97, 10, 98, 32, 100] \<lparr>dop_highlight = HighlightWords, dop_whitespace = Default\<rparr>) =
     Some [\<lparr>dh_base_row_range = mk_span 1 2, dh_new_row_range = mk_span 1 2, dh_status = HunkModified, dh_tone = Full,
       dh_base_runs = [[mk_span 2 3]], dh_new_runs = [[mk_span 2 3]]\<rparr>]"
proof
  have "inner_inputs (prefix_engine line_eq) (prefix_engine (=)) (prefix_engine (=)) [97, 10, 98, 32, 99, 10] [97, 10, 98, 32, 100]"
    by (intro inner_inputs_prefix) (simp_all add: sample_size)
  from compute_hunk_report_paired [OF this, of "\<lambda>c. 97 \<le> c \<and> c \<le> 122" "\<lparr>dop_highlight = HighlightWords, dop_whitespace = Default\<rparr>"]
  show "runs (compute_hunk_report (prefix_engine line_eq) (prefix_engine (=)) (prefix_engine (=)) (\<lambda>c. 97 \<le> c \<and> c \<le> 122)
      [97, 10, 98, 32, 99, 10] [97, 10, 98, 32, 100] \<lparr>dop_highlight = HighlightWords, dop_whitespace = Default\<rparr>) (\<lambda>report.
    hunk_path (\<lambda>a b. is_equals a b Default) (text_rows [97, 10, 98, 32, 99, 10]) (text_rows [97, 10, 98, 32, 100]) 0 0 (hr_hunks report)
      (length (text_rows [97, 10, 98, 32, 99, 10])) (length (text_rows [97, 10, 98, 32, 100])))" by (simp del: hunk_path.simps)
  show "map_option hr_hunks (compute_hunk_report (prefix_engine line_eq) (prefix_engine (=)) (prefix_engine (=)) (\<lambda>c. 97 \<le> c \<and> c \<le> 122)
      [97, 10, 98, 32, 99, 10] [97, 10, 98, 32, 100] \<lparr>dop_highlight = HighlightWords, dop_whitespace = Default\<rparr>) =
     Some [\<lparr>dh_base_row_range = mk_span 1 2, dh_new_row_range = mk_span 1 2, dh_status = HunkModified, dh_tone = Full,
       dh_base_runs = [[mk_span 2 3]], dh_new_runs = [[mk_span 2 3]]\<rparr>]"
  proof -
    have "compare_lines_inner_report (prefix_engine line_eq) (prefix_engine (=)) (prefix_engine (=)) (\<lambda>c. 97 \<le> c \<and> c \<le> 122)
        [97, 10, 98, 32, 99, 10] [97, 10, 98, 32, 100] Default HighlightWords =
      Some \<lparr>ldr_fragments = [\<lparr>lf_lines = mk_range 1 3 1 2, lf_offsets = mk_range 2 6 2 5,
        lf_inner = Some [\<lparr>df_start1 = 2, df_end1 = 4, df_start2 = 2, df_end2 = 3\<rparr>]\<rparr>], ldr_too_big_blocks = 0\<rparr>"
      by code_simp
    moreover have "line_spans [97, 10, 98, 32, 99, 10] = [mk_span 0 1, mk_span 2 5]" "line_spans [97, 10, 98, 32, 100] = [mk_span 0 1, mk_span 2 5]"
      by code_simp+
    ultimately show ?thesis
      by (simp add: compute_hunk_report_def Let_def push_fragment_def fragment_rows_def real_rows_def ends_with_def as_u32_def checked_sub_def
        hunk_ends_def usub_def u32_add_def hunk_status_def fragment_runs_def side_runs_def clipped_runs_def skip_pieces_def upt_rec
        push_unpaired_tail_def span_is_empty_def mk_span_def)
  qed
qed



text \<open>
  The counts of added and removed lines are computed without a panic, they explain the difference between the numbers of
  rows, and they are both zero only when the rows of the texts are the same.
\<close>
theorem line_change_counts_balance:
  assumes "inner_inputs line_engine engine char_engine base new"
  shows "\<exists>added removed. line_change_counts line_engine engine char_engine is_alphabetic base new = Some (added, removed) \<and>
    length (text_rows base) + added = length (text_rows new) + removed \<and>
    (added + removed > 0 \<or> text_rows base = text_rows new)"
proof -
  let ?options = "\<lparr>dop_highlight = HighlightNone, dop_whitespace = Default\<rparr>"
  obtain r where r: "compute_hunk_report line_engine engine char_engine is_alphabetic base new ?options = Some r"
    and path: "hunk_path (\<lambda>a b. is_equals a b Default) (text_rows base) (text_rows new) 0 0 (hr_hunks r) (row_count base) (row_count new)"
    using runs_compute_hunk_report [OF assms, of is_alphabetic ?options] by (auto simp: runs_iff)
  have size: "row_count base < 2 ^ 32" "row_count new < 2 ^ 32"
    using assms length_split_lines [of base] length_split_lines [of new] row_count_lines [of base] row_count_lines [of new]
    by (auto simp: inner_inputs_def ENGINE_TOKEN_LIMIT_def split: if_splits)
  obtain a d where counts: "hunk_line_counts (hr_hunks r) = Some (a, d)" "row_count new + d = row_count base + a" "a = 0 \<and> d = 0 \<longrightarrow> hr_hunks r = []"
    using hunk_counts [OF path, of 0 0] size by (auto simp: hunk_line_counts_def runs_iff)
  have "text_rows base = text_rows new" if "hr_hunks r = []"
    using path that by (auto simp: context_rows_def same_run_def intro!: nth_equalityI)
  with r counts show ?thesis by (auto simp: line_change_counts_def)
qed

theorem line_change_counts_balance_witness:
  "\<exists>added removed. line_change_counts (prefix_engine line_eq) (prefix_engine (=)) (prefix_engine (=)) (\<lambda>c. 97 \<le> c \<and> c \<le> 122) [97, 10, 98, 32, 99, 10] [97, 10, 98, 32, 100] = Some (added, removed) \<and>
    length (text_rows [97, 10, 98, 32, 99, 10]) + added = length (text_rows [97, 10, 98, 32, 100]) + removed \<and>
    (added + removed > 0 \<or> text_rows [97, 10, 98, 32, 99, 10] = text_rows [97, 10, 98, 32, 100])"
  by (intro line_change_counts_balance inner_inputs_prefix) (simp_all add: sample_size)

end
