(* ===== verification/Diff_Align.thy ===== *)
theory Diff_Align
  imports Diff_Hunks
begin

text \<open>
  \<open>src-app/src/diff/align.rs\<close>: the rows of the side-by-side view. Context rows pair a line of the base with a line of the new
  text, and a hunk is padded with phantom cells on its shorter side.
\<close>

datatype CellKind = CellContext | CellAdded | CellRemoved | CellPhantom

record cell =
  ce_kind :: CellKind
  ce_line :: "nat option"

record aligned_row =
  ar_left :: cell
  ar_right :: cell

definition PHANTOM :: cell where
  "PHANTOM = \<lparr>ce_kind = CellPhantom, ce_line = None\<rparr>"

definition context_cell :: "nat \<Rightarrow> cell" where
  "context_cell line = \<lparr>ce_kind = CellContext, ce_line = Some line\<rparr>"

text \<open>The loop \<open>while nc < .. && bc < ..\<close> that pairs lines.\<close>

definition context_pairs :: "nat \<Rightarrow> nat \<Rightarrow> nat \<Rightarrow> nat \<Rightarrow> aligned_row list" where
  "context_pairs bc nc base_end new_end =
     map (\<lambda>k. \<lparr>ar_left = context_cell (bc + k), ar_right = context_cell (nc + k)\<rparr>) [0..<min (base_end - bc) (new_end - nc)]"

definition hunk_pairs :: "diff_hunk \<Rightarrow> aligned_row list option" where
  "hunk_pairs h = do {
     let rem_start = sn_start (dh_base_row_range h);
     let add_start = sn_start (dh_new_row_range h);
     rem_len \<leftarrow> usub (sn_end (dh_base_row_range h)) rem_start;
     add_len \<leftarrow> usub (sn_end (dh_new_row_range h)) add_start;
     Some (map (\<lambda>k. \<lparr>
         ar_left = (if k < rem_len then \<lparr>ce_kind = CellRemoved, ce_line = Some (rem_start + k)\<rparr> else PHANTOM),
         ar_right = (if k < add_len then \<lparr>ce_kind = CellAdded, ce_line = Some (add_start + k)\<rparr> else PHANTOM)\<rparr>)
       [0..<max rem_len add_len])
   }"

definition align_rows :: "diff_hunk list \<Rightarrow> nat \<Rightarrow> nat \<Rightarrow> aligned_row list option" where
  "align_rows hunks base_line_count new_line_count = do {
     (rows, bc, nc) \<leftarrow> for_each (\<lambda>(rows, bc, nc) h. do {
         let rows = rows @ context_pairs bc nc (sn_start (dh_base_row_range h)) (sn_start (dh_new_row_range h));
         pairs \<leftarrow> hunk_pairs h;
         Some (rows @ pairs, sn_end (dh_base_row_range h), sn_end (dh_new_row_range h))
       }) ([], 0, 0) hunks;
     Some (rows @ context_pairs bc nc base_line_count new_line_count)
   }"

section \<open>The rows of a path of hunks\<close>

text \<open>The same rows as a function of the hunks, for hunks that do not panic.\<close>

definition pair_row :: "nat \<Rightarrow> nat \<Rightarrow> nat \<Rightarrow> nat \<Rightarrow> nat \<Rightarrow> aligned_row" where
  "pair_row rem_start rem_len add_start add_len k = \<lparr>
     ar_left = (if k < rem_len then \<lparr>ce_kind = CellRemoved, ce_line = Some (rem_start + k)\<rparr> else PHANTOM),
     ar_right = (if k < add_len then \<lparr>ce_kind = CellAdded, ce_line = Some (add_start + k)\<rparr> else PHANTOM)\<rparr>"

definition changed_pairs :: "diff_hunk \<Rightarrow> aligned_row list" where
  "changed_pairs h = (let b = dh_base_row_range h; c = dh_new_row_range h in
     map (pair_row (sn_start b) (span_len b) (sn_start c) (span_len c)) [0..<max (span_len b) (span_len c)])"

fun all_pairs :: "nat \<Rightarrow> nat \<Rightarrow> diff_hunk list \<Rightarrow> nat \<Rightarrow> nat \<Rightarrow> aligned_row list" where
  "all_pairs i j [] m n = context_pairs i j m n"
| "all_pairs i j (h # hs) m n = context_pairs i j (sn_start (dh_base_row_range h)) (sn_start (dh_new_row_range h)) @ changed_pairs h @
     all_pairs (sn_end (dh_base_row_range h)) (sn_end (dh_new_row_range h)) hs m n"

lemma hunk_pairs_changed:
  "sn_start (dh_base_row_range h) \<le> sn_end (dh_base_row_range h) \<Longrightarrow> sn_start (dh_new_row_range h) \<le> sn_end (dh_new_row_range h) \<Longrightarrow>
   hunk_pairs h = Some (changed_pairs h)"
  by (simp add: hunk_pairs_def changed_pairs_def usub_def span_len_def pair_row_def [abs_def] Let_def)

lemma hunk_path_spans:
  "hunk_path eq xs ys i j hs m n \<Longrightarrow> h \<in> set hs \<Longrightarrow>
   sn_start (dh_base_row_range h) \<le> sn_end (dh_base_row_range h) \<and> sn_start (dh_new_row_range h) \<le> sn_end (dh_new_row_range h)"
  by (induction hs arbitrary: i j) (auto simp: Let_def span_ok_def)

lemma align_rows_pairs:
  assumes "hunk_path eq xs ys 0 0 hs m n"
  shows "align_rows hs m n = Some (all_pairs 0 0 hs m n)"
proof -
  let ?step = "\<lambda>(rows, bc, nc) h. do {
         let rows = rows @ context_pairs bc nc (sn_start (dh_base_row_range h)) (sn_start (dh_new_row_range h));
         pairs \<leftarrow> hunk_pairs h;
         Some (rows @ pairs, sn_end (dh_base_row_range h), sn_end (dh_new_row_range h)) }"
  have "for_each ?step (rows, i, j) hs \<bind> (\<lambda>(rows, bc, nc). Some (rows @ context_pairs bc nc m n)) = Some (rows @ all_pairs i j hs m n)"
    if "hunk_path eq xs ys i j hs m n" for rows i j
    using that
  proof (induction hs arbitrary: rows i j)
    case (Cons h hs)
    from hunk_path_spans [OF Cons.prems, of h] have "hunk_pairs h = Some (changed_pairs h)" by (simp add: hunk_pairs_changed)
    with Cons show ?case by (simp add: Let_def)
  qed simp
  from this [OF assms] show ?thesis by (simp add: align_rows_def)
qed

text \<open>The line numbers of a column, and what a row may look like.\<close>

definition column_lines :: "(aligned_row \<Rightarrow> cell) \<Rightarrow> aligned_row list \<Rightarrow> nat list" where
  "column_lines col rows = List.map_filter (\<lambda>r. ce_line (col r)) rows"

definition row_ok :: "(ustr \<Rightarrow> ustr \<Rightarrow> bool) \<Rightarrow> ustr list \<Rightarrow> ustr list \<Rightarrow> aligned_row \<Rightarrow> bool" where
  "row_ok eq xs ys r = (case (ce_kind (ar_left r), ce_line (ar_left r), ce_kind (ar_right r), ce_line (ar_right r)) of
     (CellContext, Some i, CellContext, Some j) \<Rightarrow> eq (xs ! i) (ys ! j)
   | (CellRemoved, Some i, CellAdded, Some j) \<Rightarrow> True
   | (CellRemoved, Some i, CellPhantom, None) \<Rightarrow> True
   | (CellPhantom, None, CellAdded, Some j) \<Rightarrow> True
   | _ \<Rightarrow> False)"

lemma column_lines_append [simp]: "column_lines col (rs @ ss) = column_lines col rs @ column_lines col ss"
  by (simp add: column_lines_def map_filter_def)

lemma map_add_upt_shift: "map (\<lambda>k. a + k) [0..<n] = [a..<a + n]"
  by (simp add: add.commute map_add_upt)

lemma context_pairs_lines:
  assumes "i \<le> m" "j \<le> n" "m - i = n - j"
  shows "column_lines ar_left (context_pairs i j m n) = [i..<m]" "column_lines ar_right (context_pairs i j m n) = [j..<n]"
proof -
  have "m = i + (m - i)" "n = j + (n - j)" using assms by auto
  moreover have "column_lines ar_left (context_pairs i j m n) = map (\<lambda>k. i + k) [0..<m - i]"
    "column_lines ar_right (context_pairs i j m n) = map (\<lambda>k. j + k) [0..<n - j]"
    using assms by (simp_all add: column_lines_def context_pairs_def context_cell_def map_filter_def o_def)
  ultimately show "column_lines ar_left (context_pairs i j m n) = [i..<m]" "column_lines ar_right (context_pairs i j m n) = [j..<n]"
    unfolding map_add_upt_shift by metis+
qed

lemma filter_upt_below: "l \<le> n \<Longrightarrow> filter (\<lambda>k. k < l) [0..<n] = [0..<l]"
  by (induction n) (auto simp: le_Suc_eq intro: filter_True)

lemma pairs_column:
  "List.map_filter (\<lambda>k. if k < l then Some (s + k) else None) [0..<max l n] = [s..<s + l]"
proof -
  have "filter (\<lambda>k. k < l) [0..<max l n] = [0..<l]" by (rule filter_upt_below) simp
  moreover have "List.map_filter (\<lambda>k. if k < l then Some (s + k) else None) ks = map (\<lambda>k. s + k) (filter (\<lambda>k. k < l) ks)" for ks
    by (induction ks) (auto simp: map_filter_def)
  ultimately show ?thesis by (simp add: map_add_upt_shift)
qed

lemma changed_pairs_lines:
  assumes "sn_start (dh_base_row_range h) \<le> sn_end (dh_base_row_range h)" "sn_start (dh_new_row_range h) \<le> sn_end (dh_new_row_range h)"
  shows "column_lines ar_left (changed_pairs h) = [sn_start (dh_base_row_range h)..<sn_end (dh_base_row_range h)]"
    "column_lines ar_right (changed_pairs h) = [sn_start (dh_new_row_range h)..<sn_end (dh_new_row_range h)]"
proof -
  have line: "ce_line (ar_left (pair_row a b c d k)) = (if k < b then Some (a + k) else None)"
    "ce_line (ar_right (pair_row a b c d k)) = (if k < d then Some (c + k) else None)" for a b c d k
    by (simp_all add: pair_row_def PHANTOM_def)
  have mf: "List.map_filter f (map g ks) = List.map_filter (\<lambda>k. f (g k)) ks" for f :: "'b \<Rightarrow> 'c option" and g :: "'a \<Rightarrow> 'b" and ks
    by (simp add: map_filter_def filter_map o_def)
  show "column_lines ar_left (changed_pairs h) = [sn_start (dh_base_row_range h)..<sn_end (dh_base_row_range h)]"
    using pairs_column [of "span_len (dh_base_row_range h)" _ "span_len (dh_new_row_range h)"] assms
    by (simp add: column_lines_def changed_pairs_def Let_def mf line) (simp add: span_len_def)
  show "column_lines ar_right (changed_pairs h) = [sn_start (dh_new_row_range h)..<sn_end (dh_new_row_range h)]"
    using pairs_column [of "span_len (dh_new_row_range h)" _ "span_len (dh_base_row_range h)"] assms
    by (simp add: column_lines_def changed_pairs_def Let_def mf line max.commute) (simp add: span_len_def max.commute)
qed

lemma context_pairs_ok: "context_rows eq xs ys i j m n \<Longrightarrow> list_all (row_ok eq xs ys) (context_pairs i j m n)"
  by (auto simp: context_pairs_def context_rows_def same_run_def list_all_iff row_ok_def context_cell_def)

lemma changed_pairs_ok: "list_all (row_ok eq xs ys) (changed_pairs h)"
  by (auto simp: changed_pairs_def Let_def list_all_iff row_ok_def pair_row_def PHANTOM_def)

lemma all_pairs_ok:
  "hunk_path eq xs ys i j hs m n \<Longrightarrow> list_all (row_ok eq xs ys) (all_pairs i j hs m n)"
  by (induction hs arbitrary: i j) (auto simp: Let_def context_pairs_ok changed_pairs_ok)

lemma hunk_path_le: "hunk_path eq xs ys i j hs m n \<Longrightarrow> i \<le> m \<and> j \<le> n"
  by (induction hs arbitrary: i j) (fastforce simp: Let_def context_rows_def span_ok_def)+

lemma all_pairs_lines:
  "hunk_path eq xs ys i j hs m n \<Longrightarrow>
   column_lines ar_left (all_pairs i j hs m n) = [i..<m] \<and> column_lines ar_right (all_pairs i j hs m n) = [j..<n]"
proof (induction hs arbitrary: i j)
  case Nil
  then show ?case by (simp add: context_rows_def context_pairs_lines)
next
  case (Cons h hs)
  let ?b = "dh_base_row_range h" and ?c = "dh_new_row_range h"
  have path: "hunk_path eq xs ys (sn_end ?b) (sn_end ?c) hs m n" and ctx: "i \<le> sn_start ?b" "j \<le> sn_start ?c" "sn_start ?b - i = sn_start ?c - j"
    and ok: "sn_start ?b \<le> sn_end ?b" "sn_start ?c \<le> sn_end ?c"
    using Cons.prems by (auto simp: Let_def context_rows_def span_ok_def)
  have "[i..<m] = [i..<sn_start ?b] @ [sn_start ?b..<sn_end ?b] @ [sn_end ?b..<m]"
    "[j..<n] = [j..<sn_start ?c] @ [sn_start ?c..<sn_end ?c] @ [sn_end ?c..<n]"
    using ctx ok hunk_path_le [OF path] by (metis le_trans le_add_diff_inverse upt_add_eq_append)+
  with Cons.IH [OF path] context_pairs_lines [OF ctx] changed_pairs_lines [OF ok] show ?case by simp
qed

section \<open>Properties\<close>

text \<open>
  C13. The rows of the side-by-side view of two texts are computed without a panic. The left column shows every line of the base
  exactly once and in order, the right column every line of the new text; a context row pairs two lines that are equal under
  the policy, and a row of a hunk has a line on at least one side.
\<close>
theorem align_rows_complete:
  assumes "inner_inputs line_engine engine char_engine base new"
  shows "runs (compute_hunk_report line_engine engine char_engine is_alphabetic base new options \<bind> (\<lambda>report.
      align_rows (hr_hunks report) (length (text_rows base)) (length (text_rows new)))) (\<lambda>rows.
    column_lines ar_left rows = [0..<length (text_rows base)] \<and> column_lines ar_right rows = [0..<length (text_rows new)] \<and>
    list_all (row_ok (\<lambda>a b. is_equals a b (dop_whitespace options)) (text_rows base) (text_rows new)) rows)"
proof (rule runs_bindI [OF runs_compute_hunk_report [OF assms]], elim conjE)
  fix r
  assume "hunk_path (\<lambda>a b. is_equals a b (dop_whitespace options)) (text_rows base) (text_rows new) 0 0 (hr_hunks r) (row_count base) (row_count new)"
  then show "runs (align_rows (hr_hunks r) (length (text_rows base)) (length (text_rows new))) (\<lambda>rows.
      column_lines ar_left rows = [0..<length (text_rows base)] \<and> column_lines ar_right rows = [0..<length (text_rows new)] \<and>
      list_all (row_ok (\<lambda>a b. is_equals a b (dop_whitespace options)) (text_rows base) (text_rows new)) rows)"
    by (simp add: align_rows_pairs all_pairs_ok all_pairs_lines)
qed

theorem align_rows_complete_witness:
  "runs (compute_hunk_report (prefix_engine line_eq) (prefix_engine (=)) (prefix_engine (=)) (\<lambda>c. 97 \<le> c \<and> c \<le> 122)
      [97, 10, 98] [97, 10, 99, 10, 100] \<lparr>dop_highlight = HighlightLines, dop_whitespace = IgnoreWhitespaces\<rparr> \<bind> (\<lambda>report.
      align_rows (hr_hunks report) (length (text_rows [97, 10, 98])) (length (text_rows [97, 10, 99, 10, 100])))) (\<lambda>rows.
    column_lines ar_left rows = [0..<length (text_rows [97, 10, 98])] \<and>
    column_lines ar_right rows = [0..<length (text_rows [97, 10, 99, 10, 100])] \<and>
    list_all (row_ok (\<lambda>a b. is_equals a b IgnoreWhitespaces) (text_rows [97, 10, 98]) (text_rows [97, 10, 99, 10, 100])) rows)"
proof -
  have "inner_inputs (prefix_engine line_eq) (prefix_engine (=)) (prefix_engine (=)) [97, 10, 98] [97, 10, 99, 10, 100]"
    by (intro inner_inputs_prefix) (simp_all add: sample_size)
  from align_rows_complete [OF this, of "\<lambda>c. 97 \<le> c \<and> c \<le> 122" "\<lparr>dop_highlight = HighlightLines, dop_whitespace = IgnoreWhitespaces\<rparr>"]
  show ?thesis by (simp del: is_equals.simps)
qed

end
