(* ===== verification/Diff_Rows.thy ===== *)
theory Diff_Rows
  imports Diff_Align
begin

text \<open>
  \<open>src-app/src/diff/rows.rs\<close>: the rows of the diff view, in one column or side by side, with long runs of context folded away
  and a cap on the number of rows.

  A colour is an opaque value \<open>'c\<close>. Line numbers are natural numbers here: a text whose lines do not fit in 32 bits is refused
  by the comparison before. Where the code subtracts, the model panics as the code does.
\<close>

datatype RowKind = FileHeader | RowContext | RowAdded | RowRemoved | Binary | Truncated | Fold

record header_parts =
  hp_dir_prefix :: ustr
  hp_basename :: ustr
  hp_added :: nat
  hp_removed :: nat

datatype 'c display_row = DisplayRow (dr_kind: RowKind) (dr_text: ustr) (dr_old_no: "nat option") (dr_new_no: "nat option")
  (dr_syntax_runs: "(span \<times> 'c) list") (dr_change_runs: "span list") (dr_tone: ChangeTone) (dr_header: "header_parts option")
  (dr_fold_key: "ustr option") (dr_fold_base_start: "nat option") (dr_fold_new_start: "nat option") (dr_fold_count: nat)
  (dr_folded_rows: "'c display_row list")

datatype 't fold_block = FoldBlock (fb_key: ustr) (fb_text: ustr) (fb_base_start: nat) (fb_new_start: nat) (fb_count: nat) (fb_rows: "'t list")

record 'c half_cell =
  hc_kind :: CellKind
  hc_no :: "nat option"
  hc_text :: ustr
  hc_syntax_runs :: "(span \<times> 'c) list"
  hc_change_runs :: "span list"
  hc_tone :: ChangeTone

datatype 'c split_row = SplitHeader header_parts | SplitNote ustr | SplitFold "'c split_row fold_block" | SplitPair "'c half_cell" "'c half_cell"

record 'c file_row_cache =
  frc_syn_old :: "(span \<times> 'c) list list"
  frc_syn_new :: "(span \<times> 'c) list list"

datatype FileChange = FileAdded | FileModified | FileDeleted | FileRenamed | FileTypeChanged

record file_diff =
  fd_path :: ustr
  fd_change :: FileChange
  fd_old_path :: "ustr option"
  fd_base_text :: ustr
  fd_new_text :: ustr
  fd_hunks :: "diff_hunk list"
  fd_is_binary :: bool

definition MAX_FULL_SPLIT_ALIGN_LINES :: nat where
  "MAX_FULL_SPLIT_ALIGN_LINES = 20000"

definition MAX_DISPLAY_ROWS :: nat where
  "MAX_DISPLAY_ROWS = 10000"

definition CONTEXT_LINES :: nat where
  "CONTEXT_LINES = 3"

section \<open>Text of the rows\<close>

text \<open>Literals, \<open>format!\<close> of a number, and \<open>str::lines\<close>.\<close>

definition lit :: "string \<Rightarrow> ustr" where
  "lit s = map of_char s"

fun show_nat :: "nat \<Rightarrow> ustr" where
  "show_nat n = (if n < 10 then [48 + n] else show_nat (n div 10) @ [48 + n mod 10])"

declare show_nat.simps [simp del]

definition str_lines :: "ustr \<Rightarrow> ustr list" where
  "str_lines text = map segment_content (split_inclusive 10 text)"

definition split_header_path :: "ustr \<Rightarrow> ustr \<times> ustr" where
  "split_header_path shown_path =
     (let base = rev (takeWhile (\<lambda>c. c \<noteq> 47) (rev shown_path)) in (take (length shown_path - length base) shown_path, base))"

definition shown_path_of :: "file_diff \<Rightarrow> ustr" where
  "shown_path_of file = (case (fd_change file, fd_old_path file) of
     (FileRenamed, Some old) \<Rightarrow> old @ [32, 8594, 32] @ fd_path file
   | _ \<Rightarrow> fd_path file)"

definition clip_runs :: "span list \<Rightarrow> nat \<Rightarrow> span list" where
  "clip_runs rs text_len = filter (\<lambda>r. sn_start r < sn_end r)
     (map (\<lambda>r. mk_span (min (sn_start r) text_len) (min (sn_end r) text_len)) rs)"

definition line_at :: "ustr list \<Rightarrow> nat \<Rightarrow> ustr" where
  "line_at lines idx = (if idx < length lines then lines ! idx else [])"

definition line_syntax :: "(span \<times> 'c) list list \<Rightarrow> nat \<Rightarrow> (span \<times> 'c) list" where
  "line_syntax side idx = (if idx < length side then side ! idx else [])"

definition content_row :: "ustr list \<Rightarrow> nat \<Rightarrow> RowKind \<Rightarrow> nat option \<Rightarrow> nat option \<Rightarrow> (span \<times> 'c) list \<Rightarrow> span list \<Rightarrow> ChangeTone \<Rightarrow> 'c display_row" where
  "content_row lines idx kind old_no new_no syntax_runs change_runs tone =
     (let text' = line_at lines idx in
      DisplayRow kind text' old_no new_no syntax_runs (clip_runs change_runs (str_len text')) tone None None None None 0 [])"

definition context_row :: "ustr list \<Rightarrow> nat \<Rightarrow> nat option \<Rightarrow> nat option \<Rightarrow> (span \<times> 'c) list \<Rightarrow> 'c display_row" where
  "context_row lines idx old_no new_no syntax_runs = content_row lines idx RowContext old_no new_no syntax_runs [] Full"

definition fold_label :: "nat \<Rightarrow> ustr" where
  "fold_label n = (if n = 1 then lit ''1 unmodified line'' else show_nat n @ lit '' unmodified lines'')"

definition fold_key :: "ustr \<Rightarrow> nat \<Rightarrow> nat \<Rightarrow> nat \<Rightarrow> ustr" where
  "fold_key path base_start new_start count =
     path @ lit '':'' @ show_nat base_start @ lit '':'' @ show_nat new_start @ lit '':'' @ show_nat count"

definition folded_display_row :: "ustr \<Rightarrow> nat \<Rightarrow> nat \<Rightarrow> nat \<Rightarrow> 'c display_row" where
  "folded_display_row path base_start new_start count =
     DisplayRow Fold (fold_label count) None None [] [] Full None (Some (fold_key path base_start new_start count))
       (Some base_start) (Some new_start) count []"

definition folded_split_row :: "ustr \<Rightarrow> nat \<Rightarrow> nat \<Rightarrow> nat \<Rightarrow> 'c split_row" where
  "folded_split_row path base_start new_start count =
     SplitFold (FoldBlock (fold_key path base_start new_start count) (fold_label count) base_start new_start count [])"

definition truncated_text :: "nat \<Rightarrow> ustr" where
  "truncated_text dropped = lit ''diff truncated - '' @ show_nat dropped @ lit '' more lines not shown''"

definition truncated_display_row :: "nat \<Rightarrow> 'c display_row" where
  "truncated_display_row dropped = DisplayRow Truncated (truncated_text dropped) None None [] [] Full None None None None 0 []"

definition truncated_split_note :: "nat \<Rightarrow> 'c split_row" where
  "truncated_split_note dropped = SplitNote (truncated_text dropped)"

text \<open>\<open>push_display_capped\<close>, \<open>push_split_capped\<close> and the closures of the builders that do the same.\<close>

definition push_capped :: "'r list \<times> nat \<Rightarrow> 'r \<Rightarrow> 'r list \<times> nat" where
  "push_capped st row = (case st of (rows, dropped) \<Rightarrow>
     if length rows \<ge> MAX_DISPLAY_ROWS then (rows, dropped + 1) else (rows @ [row], dropped))"

definition extend_capped :: "'r list \<times> nat \<Rightarrow> 'r list \<Rightarrow> 'r list \<times> nat" where
  "extend_capped st rows = foldl push_capped st rows"

definition header_of :: "file_diff \<Rightarrow> (nat \<times> nat) \<Rightarrow> header_parts" where
  "header_of file counts = (let (dir_prefix, basename) = split_header_path (shown_path_of file) in
     \<lparr>hp_dir_prefix = dir_prefix, hp_basename = basename, hp_added = fst counts, hp_removed = snd counts\<rparr>)"

definition cache_at :: "'c file_row_cache list \<Rightarrow> nat \<Rightarrow> 'c file_row_cache" where
  "cache_at caches idx = (if idx < length caches then caches ! idx else \<lparr>frc_syn_old = [], frc_syn_new = []\<rparr>)"

section \<open>One column\<close>

definition unified_context :: "ustr list \<Rightarrow> (span \<times> 'c) list list \<Rightarrow> nat \<Rightarrow> nat \<Rightarrow> 'c display_row" where
  "unified_context new_lines syn_new bi ni = context_row new_lines ni (Some (bi + 1)) (Some (ni + 1)) (line_syntax syn_new ni)"

definition unified_hunk :: "ustr list \<Rightarrow> ustr list \<Rightarrow> 'c file_row_cache \<Rightarrow> diff_hunk \<Rightarrow> 'c display_row list" where
  "unified_hunk base_lines new_lines cache h =
     map (\<lambda>r. content_row base_lines r RowRemoved (Some (r + 1)) None (line_syntax (frc_syn_old cache) r) (base_line_runs h r) (dh_tone h))
       [sn_start (dh_base_row_range h)..<sn_end (dh_base_row_range h)] @
     map (\<lambda>r. content_row new_lines r RowAdded None (Some (r + 1)) (line_syntax (frc_syn_new cache) r) (new_line_runs h r) (dh_tone h))
       [sn_start (dh_new_row_range h)..<sn_end (dh_new_row_range h)]"

definition unified_step :: "file_diff \<Rightarrow> ustr list \<Rightarrow> ustr list \<Rightarrow> 'c file_row_cache \<Rightarrow>
    ('c display_row list \<times> nat) \<times> nat \<times> nat \<times> bool \<Rightarrow> diff_hunk \<Rightarrow> (('c display_row list \<times> nat) \<times> nat \<times> nat \<times> bool) option" where
  "unified_step file base_lines new_lines cache state h = (case state of (st, bc, nc, first_gap) \<Rightarrow> do {
     gap \<leftarrow> usub (sn_start (dh_new_row_range h)) nc;
     let lead = (if first_gap then 0 else min CONTEXT_LINES gap);
     let trail = min CONTEXT_LINES (gap - lead);
     let hidden = gap - lead - trail;
     let ctx = unified_context new_lines (frc_syn_new cache);
     let st = extend_capped st (map (\<lambda>k. ctx (bc + k) (nc + k)) [0..<lead]);
     let st = (if hidden > 0 then push_capped st (folded_display_row (fd_path file) (bc + lead) (nc + lead) hidden) else st);
     let st = extend_capped st (map (\<lambda>k. let off = lead + hidden + k in ctx (bc + off) (nc + off)) [0..<trail]);
     let st = extend_capped st (unified_hunk base_lines new_lines cache h);
     Some (st, sn_end (dh_base_row_range h), sn_end (dh_new_row_range h), False)
   })"

definition unified_file_rows :: "file_diff \<Rightarrow> 'c file_row_cache \<Rightarrow> 'c display_row list \<times> nat \<Rightarrow> ('c display_row list \<times> nat) option" where
  "unified_file_rows file cache st = do {
     let base_lines = str_lines (fd_base_text file);
     let new_lines = str_lines (fd_new_text file);
     (st, bc, nc, first_gap) \<leftarrow> for_each (unified_step file base_lines new_lines cache) (st, 0, 0, True) (fd_hunks file);
     tail \<leftarrow> usub (as_u32 (length new_lines)) nc;
     let lead = min CONTEXT_LINES tail;
     let st = extend_capped st (map (\<lambda>k. unified_context new_lines (frc_syn_new cache) (bc + k) (nc + k)) [0..<lead]);
     let hidden = tail - lead;
     Some (if hidden > 0 then push_capped st (folded_display_row (fd_path file) (bc + lead) (nc + lead) hidden) else st)
   }"

definition unified_file :: "'c file_row_cache list \<Rightarrow> 'c display_row list \<times> nat \<Rightarrow> nat \<times> file_diff \<Rightarrow> ('c display_row list \<times> nat) option" where
  "unified_file caches st item = (case (st, item) of ((rows, dropped), (file_idx, file)) \<Rightarrow>
     if length rows \<ge> MAX_DISPLAY_ROWS then Some (rows, dropped + 1)
     else do {
       counts \<leftarrow> hunk_line_counts (fd_hunks file);
       let header = DisplayRow FileHeader (shown_path_of file @ lit ''   +'' @ show_nat (fst counts) @ lit '' -'' @ show_nat (snd counts))
         None None [] [] Full (Some (header_of file counts)) None None None 0 [];
       if fd_is_binary file
       then Some (rows @ [header, DisplayRow Binary (lit ''Diff not shown (binary or large file)'') None None [] [] Full None None None None 0 []], dropped)
       else unified_file_rows file (cache_at caches file_idx) (rows @ [header], dropped)
     })"

definition build_display_rows_with_caches :: "file_diff list \<Rightarrow> 'c file_row_cache list \<Rightarrow> ('c display_row list \<times> nat) option" where
  "build_display_rows_with_caches files caches = do {
     (rows, dropped) \<leftarrow> for_each (unified_file caches) ([], 0) (enumerate 0 files);
     Some (if dropped > 0 then rows @ [truncated_display_row dropped] else rows, dropped)
   }"

text \<open>The rows behind a fold.\<close>

definition unified_fold_rows :: "file_diff \<Rightarrow> 'c file_row_cache \<Rightarrow> nat \<Rightarrow> nat \<Rightarrow> nat \<Rightarrow> 'c display_row list" where
  "unified_fold_rows file cache base_start new_start count =
     map (\<lambda>k. unified_context (str_lines (fd_new_text file)) (frc_syn_new cache) (base_start + k) (new_start + k)) [0..<count]"

section \<open>Side by side\<close>

definition hunk_for_base_line :: "diff_hunk list \<Rightarrow> nat \<Rightarrow> diff_hunk option" where
  "hunk_for_base_line hunks line = (
     let index = length (takeWhile (\<lambda>h. sn_end (dh_base_row_range h) \<le> line) hunks)
     in if index < length hunks \<and> sn_start (dh_base_row_range (hunks ! index)) \<le> line \<and> line < sn_end (dh_base_row_range (hunks ! index))
        then Some (hunks ! index) else None)"

definition hunk_for_new_line :: "diff_hunk list \<Rightarrow> nat \<Rightarrow> diff_hunk option" where
  "hunk_for_new_line hunks line = (
     let index = length (takeWhile (\<lambda>h. sn_end (dh_new_row_range h) \<le> line) hunks)
     in if index < length hunks \<and> sn_start (dh_new_row_range (hunks ! index)) \<le> line \<and> line < sn_end (dh_new_row_range (hunks ! index))
        then Some (hunks ! index) else None)"

definition resolve_half :: "cell \<Rightarrow> ustr list \<Rightarrow> (span \<times> 'c) list list \<Rightarrow> (span list \<times> ChangeTone) option \<Rightarrow> 'c half_cell" where
  "resolve_half c lines syntax change =
     (if ce_kind c = CellPhantom
      then \<lparr>hc_kind = CellPhantom, hc_no = None, hc_text = [], hc_syntax_runs = [], hc_change_runs = [], hc_tone = Full\<rparr>
      else let idx = (case ce_line c of Some line \<Rightarrow> line | None \<Rightarrow> 0);
          text' = line_at lines idx;
          (rs, tone) = (case change of Some c \<Rightarrow> c | None \<Rightarrow> ([], Full))
        in \<lparr>hc_kind = ce_kind c, hc_no = Some (idx + 1), hc_text = text', hc_syntax_runs = line_syntax syntax idx,
             hc_change_runs = clip_runs rs (str_len text'), hc_tone = tone\<rparr>)"

definition split_pair_row :: "ustr list \<Rightarrow> ustr list \<Rightarrow> 'c file_row_cache \<Rightarrow> diff_hunk list \<Rightarrow> aligned_row \<Rightarrow> 'c split_row" where
  "split_pair_row base_lines new_lines cache hunks a = (
     let left = ar_left a; right = ar_right a;
       left_change = (case (ce_kind left, ce_line left) of
           (CellRemoved, Some line) \<Rightarrow> map_option (\<lambda>h. (base_line_runs h line, dh_tone h)) (hunk_for_base_line hunks line)
         | _ \<Rightarrow> None);
       right_change = (case (ce_kind right, ce_line right) of
           (CellAdded, Some line) \<Rightarrow> map_option (\<lambda>h. (new_line_runs h line, dh_tone h)) (hunk_for_new_line hunks line)
         | _ \<Rightarrow> None)
     in SplitPair (resolve_half left base_lines (frc_syn_old cache) left_change) (resolve_half right new_lines (frc_syn_new cache) right_change))"

definition is_ctx :: "aligned_row \<Rightarrow> bool" where
  "is_ctx a \<longleftrightarrow> ce_kind (ar_left a) = CellContext \<and> ce_kind (ar_right a) = CellContext"

definition aligned_fold :: "ustr \<Rightarrow> aligned_row list \<Rightarrow> 'c split_row list" where
  "aligned_fold path hidden_rows = (case hidden_rows of
     [] \<Rightarrow> []
   | first # _ \<Rightarrow> [folded_split_row path (case ce_line (ar_left first) of Some l \<Rightarrow> l | None \<Rightarrow> 0)
       (case ce_line (ar_right first) of Some l \<Rightarrow> l | None \<Rightarrow> 0) (length hidden_rows)])"

text \<open>
  The loop over the aligned rows. \<open>at_start\<close> is \<open>i == 0\<close> and the list holds the rows from \<open>i\<close> on, so that \<open>j == total\<close> holds
  when no row is left behind the run of context. The rows are collected in the order in which they are pushed.
\<close>

function split_loop :: "(aligned_row \<Rightarrow> 'c split_row) \<Rightarrow> ustr \<Rightarrow> bool \<Rightarrow> aligned_row list \<Rightarrow> 'c split_row list" where
  "split_loop pair path at_start [] = []"
| "split_loop pair path at_start (a # aligned) =
     (if is_ctx a then
        let ctx = takeWhile is_ctx (a # aligned);
          rest = dropWhile is_ctx (a # aligned);
          run = length ctx;
          lead = (if at_start then 0 else min CONTEXT_LINES run);
          trail = (if rest = [] then 0 else min CONTEXT_LINES (run - lead));
          hidden = run - lead - trail
        in map pair (take lead ctx) @ (if hidden > 0 then aligned_fold path (take hidden (drop lead ctx)) else []) @
           map pair (drop (lead + hidden) ctx) @ split_loop pair path False rest
      else pair a # split_loop pair path False aligned)"
  by pat_completeness auto
termination
  by (relation "measure (\<lambda>(pair, path, at_start, aligned). length aligned)") (auto simp: less_Suc_eq_le length_dropWhile_le)

declare split_loop.simps(2) [simp del]

definition split_aligned_rows :: "file_diff \<Rightarrow> 'c file_row_cache \<Rightarrow> 'c split_row list \<times> nat \<Rightarrow> ('c split_row list \<times> nat) option" where
  "split_aligned_rows file cache st = do {
     let base_lines = str_lines (fd_base_text file);
     let new_lines = str_lines (fd_new_text file);
     aligned \<leftarrow> align_rows (fd_hunks file) (as_u32 (length base_lines)) (as_u32 (length new_lines));
     Some (extend_capped st (split_loop (split_pair_row base_lines new_lines cache (fd_hunks file)) (fd_path file) True aligned))
   }"

text \<open>The windows around the hunks of a long file.\<close>

record window =
  wi_first_hunk :: nat
  wi_last_hunk_exclusive :: nat
  wi_base_start :: nat
  wi_base_end :: nat
  wi_new_start :: nat
  wi_new_end :: nat

definition add_window :: "nat \<Rightarrow> nat \<Rightarrow> window list \<Rightarrow> nat \<times> diff_hunk \<Rightarrow> window list" where
  "add_window base_count new_count windows item = (case item of (hunk_index, h) \<Rightarrow>
     let base_start = sn_start (dh_base_row_range h) - CONTEXT_LINES;
       base_end = min (sn_end (dh_base_row_range h) + CONTEXT_LINES) base_count;
       new_start = sn_start (dh_new_row_range h) - CONTEXT_LINES;
       new_end = min (sn_end (dh_new_row_range h) + CONTEXT_LINES) new_count
     in if windows \<noteq> [] \<and> base_start \<le> wi_base_end (last windows) \<and> new_start \<le> wi_new_end (last windows)
        then butlast windows @ [(last windows)\<lparr>wi_last_hunk_exclusive := hunk_index + 1,
          wi_base_end := max (wi_base_end (last windows)) base_end, wi_new_end := max (wi_new_end (last windows)) new_end\<rparr>]
        else windows @ [\<lparr>wi_first_hunk = hunk_index, wi_last_hunk_exclusive = hunk_index + 1, wi_base_start = base_start,
          wi_base_end = base_end, wi_new_start = new_start, wi_new_end = new_end\<rparr>])"

definition context_range :: "nat \<Rightarrow> nat \<Rightarrow> nat \<Rightarrow> aligned_row list" where
  "context_range base_start base_end new_start =
     map (\<lambda>k. \<lparr>ar_left = context_cell (base_start + k), ar_right = context_cell (new_start + k)\<rparr>) [0..<base_end - base_start]"

definition window_fold :: "ustr \<Rightarrow> nat \<Rightarrow> nat \<Rightarrow> nat \<Rightarrow> 'c split_row list" where
  "window_fold path base_start new_start n = (if n = 0 then [] else [folded_split_row path base_start new_start n])"

definition window_hunk :: "aligned_row list \<times> nat \<times> nat \<Rightarrow> diff_hunk \<Rightarrow> (aligned_row list \<times> nat \<times> nat) option" where
  "window_hunk state h = (case state of (rows, context_base, context_new) \<Rightarrow> do {
     pairs \<leftarrow> hunk_pairs h;
     Some (rows @ context_range context_base (sn_start (dh_base_row_range h)) context_new @ pairs,
       sn_end (dh_base_row_range h), sn_end (dh_new_row_range h))
   })"

definition window_rows :: "(aligned_row \<Rightarrow> 'c split_row) \<Rightarrow> ustr \<Rightarrow> diff_hunk list \<Rightarrow> 'c split_row list \<times> nat \<times> nat \<Rightarrow> window \<Rightarrow>
    ('c split_row list \<times> nat \<times> nat) option" where
  "window_rows pair path hunks state w = (case state of (rows, bc, nc) \<Rightarrow> do {
     let fold = window_fold path bc nc (min (wi_base_start w - bc) (wi_new_start w - nc));
     shown \<leftarrow> slice_or_panic hunks (wi_first_hunk w) (wi_last_hunk_exclusive w);
     (pairs, context_base, context_new) \<leftarrow> for_each window_hunk ([], max (wi_base_start w) bc, max (wi_new_start w) nc) shown;
     Some (rows @ fold @ map pair (pairs @ context_range context_base (wi_base_end w) context_new), wi_base_end w, wi_new_end w)
   })"

definition build_split_rows_from_hunk_windows :: "file_diff \<Rightarrow> 'c file_row_cache \<Rightarrow> 'c split_row list \<times> nat \<Rightarrow> ('c split_row list \<times> nat) option" where
  "build_split_rows_from_hunk_windows file cache st = do {
     let base_lines = str_lines (fd_base_text file);
     let new_lines = str_lines (fd_new_text file);
     let windows = foldl (add_window (as_u32 (length base_lines)) (as_u32 (length new_lines))) [] (enumerate 0 (fd_hunks file));
     (rows, bc, nc) \<leftarrow> for_each (window_rows (split_pair_row base_lines new_lines cache (fd_hunks file)) (fd_path file) (fd_hunks file)) ([], 0, 0) windows;
     let remaining = min (as_u32 (length base_lines) - bc) (as_u32 (length new_lines) - nc);
     Some (extend_capped st (rows @ window_fold (fd_path file) bc nc remaining))
   }"

definition split_file :: "'c file_row_cache list \<Rightarrow> 'c split_row list \<times> nat \<Rightarrow> nat \<times> file_diff \<Rightarrow> ('c split_row list \<times> nat) option" where
  "split_file caches st item = (case (st, item) of ((rows, dropped), (file_idx, file)) \<Rightarrow>
     if length rows \<ge> MAX_DISPLAY_ROWS then Some (rows, dropped + 1)
     else do {
       counts \<leftarrow> hunk_line_counts (fd_hunks file);
       let header = SplitHeader (header_of file counts);
       if fd_is_binary file then Some (rows @ [header, SplitNote (lit ''Diff not shown (binary or large file)'')], dropped)
       else if length (str_lines (fd_base_text file)) + length (str_lines (fd_new_text file)) > MAX_FULL_SPLIT_ALIGN_LINES
       then build_split_rows_from_hunk_windows file (cache_at caches file_idx) (rows @ [header], dropped)
       else split_aligned_rows file (cache_at caches file_idx) (rows @ [header], dropped)
     })"

definition build_split_rows_with_caches :: "file_diff list \<Rightarrow> 'c file_row_cache list \<Rightarrow> ('c split_row list \<times> nat) option" where
  "build_split_rows_with_caches files caches = do {
     (rows, dropped) \<leftarrow> for_each (split_file caches) ([], 0) (enumerate 0 files);
     Some (if dropped > 0 then rows @ [truncated_split_note dropped] else rows, dropped)
   }"

definition split_fold_rows :: "file_diff \<Rightarrow> 'c file_row_cache \<Rightarrow> nat \<Rightarrow> nat \<Rightarrow> nat \<Rightarrow> 'c split_row list" where
  "split_fold_rows file cache base_start new_start count =
     map (\<lambda>k. split_pair_row (str_lines (fd_base_text file)) (str_lines (fd_new_text file)) cache (fd_hunks file)
       \<lparr>ar_left = context_cell (base_start + k), ar_right = context_cell (new_start + k)\<rparr>) [0..<count]"

section \<open>The rows of a gap between hunks\<close>

text \<open>
  Both ways to build the rows of the side-by-side view show the same rows: \<open>split_items\<close>, a function of the hunks alone.
\<close>

definition ctx_pair :: "nat \<Rightarrow> nat \<Rightarrow> aligned_row" where
  "ctx_pair i j = \<lparr>ar_left = context_cell i, ar_right = context_cell j\<rparr>"

definition ctx_items :: "(aligned_row \<Rightarrow> 'c split_row) \<Rightarrow> nat \<Rightarrow> nat \<Rightarrow> nat \<Rightarrow> nat \<Rightarrow> 'c split_row list" where
  "ctx_items pair i j a b = map (\<lambda>k. pair (ctx_pair (i + k) (j + k))) [a..<b]"

definition gap_items :: "(aligned_row \<Rightarrow> 'c split_row) \<Rightarrow> ustr \<Rightarrow> bool \<Rightarrow> bool \<Rightarrow> nat \<Rightarrow> nat \<Rightarrow> nat \<Rightarrow> 'c split_row list" where
  "gap_items pair path at_start at_end i j len = (
     let lead = (if at_start then 0 else min CONTEXT_LINES len);
       trail = (if at_end then 0 else min CONTEXT_LINES (len - lead));
       hidden = len - lead - trail
     in ctx_items pair i j 0 lead @ window_fold path (i + lead) (j + lead) hidden @ ctx_items pair i j (lead + hidden) len)"

fun split_items :: "(aligned_row \<Rightarrow> 'c split_row) \<Rightarrow> ustr \<Rightarrow> bool \<Rightarrow> nat \<Rightarrow> nat \<Rightarrow> diff_hunk list \<Rightarrow> nat \<Rightarrow> nat \<Rightarrow> 'c split_row list" where
  "split_items pair path at_start i j [] m n = gap_items pair path at_start True i j (m - i)"
| "split_items pair path at_start i j (h # hs) m n =
     gap_items pair path at_start False i j (sn_start (dh_base_row_range h) - i) @ map pair (changed_pairs h) @
     split_items pair path False (sn_end (dh_base_row_range h)) (sn_end (dh_new_row_range h)) hs m n"

lemma ctx_items_append: "a \<le> b \<Longrightarrow> b \<le> c \<Longrightarrow> ctx_items pair i j a b @ ctx_items pair i j b c = ctx_items pair i j a c"
  using upt_add_eq_append [of a b "c - b"] by (simp add: ctx_items_def flip: map_append)

lemma ctx_items_same [simp]: "ctx_items pair i j a a = []"
  by (simp add: ctx_items_def)

lemma context_range_items: "map pair (context_range (i + a) (i + b) (j + a)) = ctx_items pair i j a b"
  by (rule nth_equalityI) (auto simp: context_range_def ctx_items_def ctx_pair_def ac_simps)

lemma context_pairs_range:
  assumes "i \<le> m" "j \<le> n" "m - i = n - j"
  shows "context_pairs i j m n = map (\<lambda>k. ctx_pair (i + k) (j + k)) [0..<m - i]"
  using assms by (simp add: context_pairs_def ctx_pair_def)

subsection \<open>The loop over all aligned rows\<close>

lemma is_ctx_pair [simp]: "is_ctx (ctx_pair i j)"
  by (simp add: is_ctx_def ctx_pair_def context_cell_def)

lemma changed_pairs_not_ctx: "a \<in> set (changed_pairs h) \<Longrightarrow> \<not> is_ctx a"
  by (auto simp: changed_pairs_def Let_def pair_row_def is_ctx_def PHANTOM_def split: if_splits)

lemma split_loop_changed:
  "\<forall>a\<in>set D. \<not> is_ctx a \<Longrightarrow> D \<noteq> [] \<Longrightarrow> split_loop pair path s (D @ rest) = map pair D @ split_loop pair path False rest"
proof (induction D arbitrary: s)
  case (Cons a D)
  then show ?case by (cases "D = []") (auto simp: split_loop.simps(2))
qed simp

lemma split_loop_run:
  assumes "xs \<noteq> []" "is_ctx (hd xs)" "takeWhile is_ctx xs = ctx" "dropWhile is_ctx xs = rest"
    and "lead = (if s then 0 else min CONTEXT_LINES (length ctx))"
    and "hidden = length ctx - lead - (if rest = [] then 0 else min CONTEXT_LINES (length ctx - lead))"
  shows "split_loop pair path s xs = map pair (take lead ctx) @ (if hidden > 0 then aligned_fold path (take hidden (drop lead ctx)) else []) @
    map pair (drop (lead + hidden) ctx) @ split_loop pair path False rest"
proof (cases xs)
  case (Cons a aligned)
  with assms(2) have "is_ctx a" by simp
  then show ?thesis using assms(3,4) unfolding Cons split_loop.simps(2) Let_def assms(5,6) by (simp only: if_True)
qed (use assms(1) in simp)

lemma split_loop_context:
  fixes pair :: "aligned_row \<Rightarrow> 'c split_row"
  assumes "0 < len" "rest = [] \<or> \<not> is_ctx (hd rest)"
  shows "split_loop pair path s (map (\<lambda>k. ctx_pair (i + k) (j + k)) [0..<len] @ rest) =
    gap_items pair path s (rest = []) i j len @ split_loop pair path False rest"
proof -
  let ?C = "map (\<lambda>k. ctx_pair (i + k) (j + k)) [0..<len]"
  have while: "takeWhile is_ctx (?C @ rest) = ?C" "dropWhile is_ctx (?C @ rest) = rest"
    using assms(2) by (cases rest; auto simp: takeWhile_append takeWhile_eq_Nil_iff dropWhile_append)+
  have start: "?C @ rest \<noteq> []" "is_ctx (hd (?C @ rest))" using assms(1) by (auto simp: hd_append hd_map)
  define lead where "lead = (if s then 0 else min CONTEXT_LINES len)"
  define hidden where "hidden = len - lead - (if rest = [] then 0 else min CONTEXT_LINES (len - lead))"
  have le: "lead + hidden \<le> len" by (auto simp: lead_def hidden_def)
  have "split_loop pair path s (?C @ rest) = map pair (take lead ?C) @ (if hidden > 0 then aligned_fold path (take hidden (drop lead ?C)) else []) @
      map pair (drop (lead + hidden) ?C) @ split_loop pair path False rest"
    by (rule split_loop_run [OF start while]) (simp_all add: lead_def hidden_def)
  moreover have "map pair (take lead ?C) = ctx_items pair i j 0 lead" "map pair (drop (lead + hidden) ?C) = ctx_items pair i j (lead + hidden) len"
    using le by (simp_all add: ctx_items_def take_map drop_map take_upt drop_upt o_def)
  moreover have "(if hidden > 0 then aligned_fold path (take hidden (drop lead ?C)) else []) = (window_fold path (i + lead) (j + lead) hidden :: 'c split_row list)"
  proof (cases hidden)
    case (Suc k)
    have "take hidden (drop lead ?C) = map (\<lambda>k. ctx_pair (i + k) (j + k)) [lead..<lead + hidden]"
      using le by (simp add: take_map drop_map take_upt drop_upt del: upt_Suc)
    moreover have "[lead..<lead + hidden] = lead # [Suc lead..<lead + hidden]" using Suc by (simp add: upt_conv_Cons del: upt_Suc)
    ultimately have "take hidden (drop lead ?C) = ctx_pair (i + lead) (j + lead) # map (\<lambda>k. ctx_pair (i + k) (j + k)) [Suc lead..<lead + hidden]"
      by simp
    with Suc show ?thesis by (auto simp: aligned_fold_def window_fold_def ctx_pair_def context_cell_def Suc_le_eq)
  qed (simp add: window_fold_def)
  moreover have "gap_items pair path s (rest = []) i j len =
      ctx_items pair i j 0 lead @ window_fold path (i + lead) (j + lead) hidden @ ctx_items pair i j (lead + hidden) len"
    unfolding gap_items_def Let_def lead_def hidden_def ..
  ultimately show ?thesis by (simp only: append_assoc)
qed

lemma gap_items_0 [simp]: "gap_items pair path s e i j 0 = []"
  by (simp add: gap_items_def window_fold_def Let_def)

lemma split_loop_items:
  "hunk_path eq xs ys i j hs m n \<Longrightarrow> split_loop pair path s (all_pairs i j hs m n) = split_items pair path s i j hs m n"
proof (induction hs arbitrary: s i j)
  case Nil
  then have "i \<le> m" "j \<le> n" "m - i = n - j" by (auto simp: context_rows_def)
  then show ?case using split_loop_context [of "m - i" "[]" pair path s i j] by (cases "m - i = 0") (auto simp: context_pairs_range)
next
  case (Cons h hs)
  let ?b = "dh_base_row_range h" and ?c = "dh_new_row_range h"
  let ?rest = "changed_pairs h @ all_pairs (sn_end ?b) (sn_end ?c) hs m n"
  have path: "hunk_path eq xs ys (sn_end ?b) (sn_end ?c) hs m n" and ctx: "i \<le> sn_start ?b" "j \<le> sn_start ?c" "sn_start ?b - i = sn_start ?c - j"
    and ne: "\<not> (span_is_empty ?b \<and> span_is_empty ?c)"
    using Cons.prems by (auto simp: Let_def context_rows_def)
  have changed: "changed_pairs h \<noteq> []" using ne by (auto simp: changed_pairs_def span_len_def span_is_empty_def Let_def max_def split: if_splits)
  then have hd: "\<not> is_ctx (hd ?rest)" using changed_pairs_not_ctx [of "hd (changed_pairs h)" h] by (simp add: hd_append)
  have tail: "split_loop pair path s ?rest = map pair (changed_pairs h) @ split_items pair path False (sn_end ?b) (sn_end ?c) hs m n" for s
    using changed changed_pairs_not_ctx Cons.IH [OF path] by (subst split_loop_changed) auto
  show ?case
  proof (cases "sn_start ?b - i = 0")
    case True
    then have "context_pairs i j (sn_start ?b) (sn_start ?c) = []" by (simp add: context_pairs_def)
    with True tail show ?thesis by simp
  next
    case False
    then show ?thesis using split_loop_context [of "sn_start ?b - i" ?rest pair path s i j] hd tail changed
      by (simp add: context_pairs_range [OF ctx])
  qed
qed

subsection \<open>The windows around the hunks\<close>

text \<open>\<open>prefix_items\<close>: the rows up to the last of some hunks.\<close>

fun prefix_items :: "(aligned_row \<Rightarrow> 'c split_row) \<Rightarrow> ustr \<Rightarrow> bool \<Rightarrow> nat \<Rightarrow> nat \<Rightarrow> diff_hunk list \<Rightarrow> 'c split_row list" where
  "prefix_items pair path at_start i j [] = []"
| "prefix_items pair path at_start i j (h # hs) =
     gap_items pair path at_start False i j (sn_start (dh_base_row_range h) - i) @ map pair (changed_pairs h) @
     prefix_items pair path False (sn_end (dh_base_row_range h)) (sn_end (dh_new_row_range h)) hs"

fun path_ends :: "nat \<Rightarrow> nat \<Rightarrow> diff_hunk list \<Rightarrow> nat \<times> nat" where
  "path_ends i j [] = (i, j)"
| "path_ends i j (h # hs) = path_ends (sn_end (dh_base_row_range h)) (sn_end (dh_new_row_range h)) hs"

lemma split_items_prefix:
  "split_items pair path s i j hs m n = prefix_items pair path s i j hs @
     (case path_ends i j hs of (k, l) \<Rightarrow> gap_items pair path (s \<and> hs = []) True k l (m - k))"
  by (induction hs arbitrary: s i j) (auto split: prod.splits)

lemma prefix_items_snoc:
  "prefix_items pair path s i j (hs @ [h]) = prefix_items pair path s i j hs @
     (case path_ends i j hs of (k, l) \<Rightarrow> gap_items pair path (s \<and> hs = []) False k l (sn_start (dh_base_row_range h) - k)) @ map pair (changed_pairs h)"
  by (induction hs arbitrary: s i j) (auto split: prod.splits)

lemma path_ends_snoc: "path_ends i j (hs @ [h]) = (sn_end (dh_base_row_range h), sn_end (dh_new_row_range h))"
  by (induction hs arbitrary: i j) auto

text \<open>The rows of a gap, in terms of ranges of context.\<close>

lemma gap_items_short:
  assumes "len \<le> 2 * CONTEXT_LINES"
  shows "gap_items pair path False False i j len = map pair (context_range i (i + len) j)"
proof -
  have "len - min CONTEXT_LINES len - min CONTEXT_LINES (len - min CONTEXT_LINES len) = 0" using assms by (auto simp: min_def)
  then show ?thesis using context_range_items [of pair i 0 len j] ctx_items_append [of 0 "min CONTEXT_LINES len" len pair i j]
    by (simp add: gap_items_def Let_def window_fold_def)
qed

lemma gap_items_long:
  assumes "2 * CONTEXT_LINES < len"
  shows "gap_items pair path False False i j len = map pair (context_range i (i + CONTEXT_LINES) j) @
    window_fold path (i + CONTEXT_LINES) (j + CONTEXT_LINES) (len - 2 * CONTEXT_LINES) @
    map pair (context_range (i + len - CONTEXT_LINES) (i + len) (j + len - CONTEXT_LINES))"
  using assms context_range_items [of pair i 0 CONTEXT_LINES j] context_range_items [of pair i "len - CONTEXT_LINES" len j]
  by (auto simp: gap_items_def Let_def min_def add.assoc mult_2)

lemma gap_items_first:
  "gap_items pair path True False i j len = window_fold path i j (len - CONTEXT_LINES) @
    map pair (context_range (i + (len - CONTEXT_LINES)) (i + len) (j + (len - CONTEXT_LINES)))"
  using context_range_items [of pair i "len - CONTEXT_LINES" len j]
  by (auto simp: gap_items_def Let_def min_def)

lemma gap_items_last:
  "gap_items pair path False True i j len = map pair (context_range i (i + min CONTEXT_LINES len) j) @
    window_fold path (i + min CONTEXT_LINES len) (j + min CONTEXT_LINES len) (len - CONTEXT_LINES)"
  using context_range_items [of pair i 0 "min CONTEXT_LINES len" j]
  by (auto simp: gap_items_def Let_def min_def)

lemma gap_items_only: "gap_items pair path True True i j len = window_fold path i j len"
  by (simp add: gap_items_def Let_def)

text \<open>
  \<open>windows_ok\<close>: after the first hunks of a file the windows have shown the rows up to the last of these hunks, and the last window
  is still open: the next hunk extends it or starts a new one.
\<close>

definition windows_ok :: "(aligned_row \<Rightarrow> 'c split_row) \<Rightarrow> ustr \<Rightarrow> diff_hunk list \<Rightarrow> nat \<Rightarrow> nat \<Rightarrow> nat \<Rightarrow> window list \<Rightarrow> bool" where
  "windows_ok pair path H B N k ws \<longleftrightarrow> (\<exists>ws' w R bc nc pairs e1 e2. ws = ws' @ [w] \<and> for_each (window_rows pair path H) ([], 0, 0) ws' = Some (R, bc, nc) \<and>
     path_ends 0 0 (take k H) = (e1, e2) \<and> wi_first_hunk w \<le> k \<and> wi_last_hunk_exclusive w = k \<and>
     wi_base_end w = min (e1 + CONTEXT_LINES) B \<and> wi_new_end w = min (e2 + CONTEXT_LINES) N \<and>
     for_each window_hunk ([], max (wi_base_start w) bc, max (wi_new_start w) nc) (take (k - wi_first_hunk w) (drop (wi_first_hunk w) H)) = Some (pairs, e1, e2) \<and>
     prefix_items pair path True 0 0 (take k H) = R @ window_fold path bc nc (min (wi_base_start w - bc) (wi_new_start w - nc)) @ map pair pairs)"

lemma windows_ok_rows:
  assumes "windows_ok pair path H B N k ws" "k \<le> length H" "path_ends 0 0 (take k H) = (e1, e2)"
  shows "for_each (window_rows pair path H) ([], 0, 0) ws = Some (prefix_items pair path True 0 0 (take k H) @
      map pair (context_range e1 (min (e1 + CONTEXT_LINES) B) e2), min (e1 + CONTEXT_LINES) B, min (e2 + CONTEXT_LINES) N)"
  using assms by (auto simp: windows_ok_def for_each_append window_rows_def Let_def slice_or_panic_def)

lemma window_hunk_ok:
  assumes "sn_start (dh_base_row_range h) \<le> sn_end (dh_base_row_range h)" "sn_start (dh_new_row_range h) \<le> sn_end (dh_new_row_range h)"
  shows "window_hunk (rows, a, b) h = Some (rows @ context_range a (sn_start (dh_base_row_range h)) b @ changed_pairs h,
    sn_end (dh_base_row_range h), sn_end (dh_new_row_range h))"
  using hunk_pairs_changed [OF assms] by (simp add: window_hunk_def)

lemma hunk_path_nth:
  assumes "hunk_path eq xs ys i j H m n" "k < length H" "path_ends i j (take k H) = (e1, e2)"
  shows "e1 \<le> sn_start (dh_base_row_range (H ! k))" "e2 \<le> sn_start (dh_new_row_range (H ! k))"
    "sn_start (dh_base_row_range (H ! k)) - e1 = sn_start (dh_new_row_range (H ! k)) - e2"
    "sn_start (dh_base_row_range (H ! k)) \<le> sn_end (dh_base_row_range (H ! k))" "sn_start (dh_new_row_range (H ! k)) \<le> sn_end (dh_new_row_range (H ! k))"
    "sn_end (dh_base_row_range (H ! k)) \<le> length xs" "sn_end (dh_new_row_range (H ! k)) \<le> length ys"
proof -
  have "e1 \<le> sn_start (dh_base_row_range (H ! k)) \<and> e2 \<le> sn_start (dh_new_row_range (H ! k)) \<and>
    sn_start (dh_base_row_range (H ! k)) - e1 = sn_start (dh_new_row_range (H ! k)) - e2 \<and>
    span_ok (dh_base_row_range (H ! k)) (length xs) \<and> span_ok (dh_new_row_range (H ! k)) (length ys)"
    using assms
  proof (induction H arbitrary: i j k)
    case (Cons h H)
    then show ?case by (cases k) (auto simp: Let_def context_rows_def)
  qed simp
  then show "e1 \<le> sn_start (dh_base_row_range (H ! k))" "e2 \<le> sn_start (dh_new_row_range (H ! k))"
    "sn_start (dh_base_row_range (H ! k)) - e1 = sn_start (dh_new_row_range (H ! k)) - e2"
    "sn_start (dh_base_row_range (H ! k)) \<le> sn_end (dh_base_row_range (H ! k))" "sn_start (dh_new_row_range (H ! k)) \<le> sn_end (dh_new_row_range (H ! k))"
    "sn_end (dh_base_row_range (H ! k)) \<le> length xs" "sn_end (dh_new_row_range (H ! k)) \<le> length ys" by (auto simp: span_ok_def)
qed

lemma take_drop_snoc: "f \<le> k \<Longrightarrow> k < length H \<Longrightarrow> take (Suc k - f) (drop f H) = take (k - f) (drop f H) @ [H ! k]"
  by (simp add: Suc_diff_le take_Suc_conv_app_nth)

lemma windows_first:
  assumes "hunk_path eq xs ys 0 0 H (length xs) (length ys)" "0 < length H"
  shows "windows_ok pair path H (length xs) (length ys) 1 (add_window (length xs) (length ys) [] (0, H ! 0))"
proof -
  obtain h hs where H: "H = h # hs" using assms(2) by (cases H) auto
  let ?b = "dh_base_row_range h" and ?c = "dh_new_row_range h"
  have h: "sn_start ?b = sn_start ?c" "sn_start ?b \<le> sn_end ?b" "sn_start ?c \<le> sn_end ?c"
    using hunk_path_nth [OF assms(1), of 0] H by auto
  show ?thesis unfolding windows_ok_def add_window_def H
    using gap_items_first [of pair path 0 0 "sn_start ?c"] window_hunk_ok [OF h(2,3)] h(1)
    by (auto simp: Let_def intro!: exI [of _ "[]"])
qed

lemma windows_step:
  assumes path: "hunk_path eq xs ys 0 0 H (length xs) (length ys)" and ok: "windows_ok pair path H (length xs) (length ys) k ws"
    and k: "0 < k" "k < length H"
  shows "windows_ok pair path H (length xs) (length ys) (Suc k) (add_window (length xs) (length ys) ws (k, H ! k))"
proof -
  let ?b = "dh_base_row_range (H ! k)" and ?c = "dh_new_row_range (H ! k)" and ?B = "length xs" and ?N = "length ys"
  obtain ws' w R bc nc pairs e1 e2 where ws: "ws = ws' @ [w]" "for_each (window_rows pair path H) ([], 0, 0) ws' = Some (R, bc, nc)"
    and ends: "path_ends 0 0 (take k H) = (e1, e2)" and w: "wi_first_hunk w \<le> k" "wi_last_hunk_exclusive w = k"
      "wi_base_end w = min (e1 + CONTEXT_LINES) ?B" "wi_new_end w = min (e2 + CONTEXT_LINES) ?N"
    and hs: "for_each window_hunk ([], max (wi_base_start w) bc, max (wi_new_start w) nc) (take (k - wi_first_hunk w) (drop (wi_first_hunk w) H)) = Some (pairs, e1, e2)"
    and items: "prefix_items pair path True 0 0 (take k H) = R @ window_fold path bc nc (min (wi_base_start w - bc) (wi_new_start w - nc)) @ map pair pairs"
    using ok unfolding windows_ok_def by blast
  note h = hunk_path_nth [OF path k(2) ends]
  define g where "g = sn_start ?b - e1"
  have start: "sn_start ?b = e1 + g" "sn_start ?c = e2 + g" using h(1-3) by (auto simp: g_def)
  have take: "take (Suc k) H = take k H @ [H ! k]" by (rule take_Suc_conv_app_nth [OF k(2)])
  have ends': "path_ends 0 0 (take (Suc k) H) = (sn_end ?b, sn_end ?c)" by (simp add: take path_ends_snoc)
  have items': "prefix_items pair path True 0 0 (take (Suc k) H) = prefix_items pair path True 0 0 (take k H) @
      gap_items pair path False False e1 e2 g @ map pair (changed_pairs (H ! k))"
  proof -
    have "take k H \<noteq> []" using k by (cases H) auto
    then show ?thesis using ends by (simp add: take prefix_items_snoc start del: take_eq_Nil take_eq_Nil2)
  qed
  have merge: "sn_start ?b - CONTEXT_LINES \<le> wi_base_end w \<and> sn_start ?c - CONTEXT_LINES \<le> wi_new_end w \<longleftrightarrow> g \<le> 2 * CONTEXT_LINES"
    using h start w by (auto simp: min_def)
  show ?thesis
  proof (cases "g \<le> 2 * CONTEXT_LINES")
    case True
    let ?w = "w\<lparr>wi_last_hunk_exclusive := k + 1, wi_base_end := min (sn_end ?b + CONTEXT_LINES) ?B, wi_new_end := min (sn_end ?c + CONTEXT_LINES) ?N\<rparr>"
    have "max (wi_base_end w) (min (sn_end ?b + CONTEXT_LINES) ?B) = min (sn_end ?b + CONTEXT_LINES) ?B"
      "max (wi_new_end w) (min (sn_end ?c + CONTEXT_LINES) ?N) = min (sn_end ?c + CONTEXT_LINES) ?N"
      using h start w by (auto simp: min_def max_def)
    then have add: "add_window ?B ?N ws (k, H ! k) = ws' @ [?w]" using merge True ws(1) by (simp add: add_window_def Let_def)
    show ?thesis unfolding windows_ok_def add
      using ws w ends' hs items items' gap_items_short [OF True, of pair path e1 e2] window_hunk_ok [OF h(4,5)] k(2) take_drop_snoc [OF w(1) k(2)] start
      by (intro exI [of _ ws'] exI [of _ ?w]) (auto simp: for_each_append)
  next
    case False
    let ?w = "\<lparr>wi_first_hunk = k, wi_last_hunk_exclusive = k + 1, wi_base_start = sn_start ?b - CONTEXT_LINES,
      wi_base_end = min (sn_end ?b + CONTEXT_LINES) ?B, wi_new_start = sn_start ?c - CONTEXT_LINES, wi_new_end = min (sn_end ?c + CONTEXT_LINES) ?N\<rparr>"
    have add: "add_window ?B ?N ws (k, H ! k) = ws @ [?w]" using merge False by (auto simp: add_window_def Let_def ws(1))
    have be: "min (e1 + CONTEXT_LINES) ?B = e1 + CONTEXT_LINES" "min (e2 + CONTEXT_LINES) ?N = e2 + CONTEXT_LINES"
      using False h start by auto
    have fold: "min (e1 + g - CONTEXT_LINES - (e1 + CONTEXT_LINES)) (e2 + g - CONTEXT_LINES - (e2 + CONTEXT_LINES)) = g - 2 * CONTEXT_LINES"
      "max (e1 + g - CONTEXT_LINES) (e1 + CONTEXT_LINES) = e1 + g - CONTEXT_LINES" "max (e2 + g - CONTEXT_LINES) (e2 + CONTEXT_LINES) = e2 + g - CONTEXT_LINES"
      using False by auto
    have rows: "for_each (window_rows pair path H) ([], 0, 0) ws = Some (prefix_items pair path True 0 0 (take k H) @
        map pair (context_range e1 (e1 + CONTEXT_LINES) e2), e1 + CONTEXT_LINES, e2 + CONTEXT_LINES)"
      using windows_ok_rows [OF ok _ ends] k(2) be by simp
    show ?thesis unfolding windows_ok_def add
      by (rule exI [of _ ws], rule exI [of _ ?w])
        (use rows ends' items' gap_items_long [of g pair path e1 e2] False window_hunk_ok [OF h(4,5)] start fold take_drop_snoc [of k k H] k(2) in auto)
  qed
qed

lemma windows_all:
  assumes path: "hunk_path eq xs ys 0 0 H (length xs) (length ys)" and "0 < k" "k \<le> length H"
  shows "windows_ok pair path H (length xs) (length ys) k (foldl (add_window (length xs) (length ys)) [] (enumerate 0 (take k H)))"
  using assms(2,3)
proof (induction k)
  case (Suc k)
  then have "enumerate 0 (take (Suc k) H) = enumerate 0 (take k H) @ [(k, H ! k)]"
    by (simp add: take_Suc_conv_app_nth enumerate_append_eq)
  with Suc windows_step [OF path, of pair path k] windows_first [OF path, of pair path] show ?case by (cases "k = 0"; cases H) auto
qed simp

text \<open>The rows of a file whose hunks are paired, by either way.\<close>

definition file_ok :: "file_diff \<Rightarrow> bool" where
  "file_ok file \<longleftrightarrow> row_count (fd_base_text file) < 2 ^ 32 \<and> row_count (fd_new_text file) < 2 ^ 32 \<and>
     (\<exists>eq. hunk_path eq (text_rows (fd_base_text file)) (text_rows (fd_new_text file)) 0 0 (fd_hunks file)
       (row_count (fd_base_text file)) (row_count (fd_new_text file)))"

definition split_file_items :: "file_diff \<Rightarrow> 'c file_row_cache \<Rightarrow> 'c split_row list" where
  "split_file_items file cache = split_items (split_pair_row (str_lines (fd_base_text file)) (str_lines (fd_new_text file)) cache (fd_hunks file))
     (fd_path file) True 0 0 (fd_hunks file) (row_count (fd_base_text file)) (row_count (fd_new_text file))"

lemma length_str_lines [simp]: "length (str_lines text) = row_count text"
  by (simp add: str_lines_def row_count_def line_spans_def)

lemma split_aligned_rows_items:
  assumes "file_ok file"
  shows "split_aligned_rows file cache st = Some (extend_capped st (split_file_items file cache))"
proof -
  obtain eq where path: "hunk_path eq (text_rows (fd_base_text file)) (text_rows (fd_new_text file)) 0 0 (fd_hunks file)
      (row_count (fd_base_text file)) (row_count (fd_new_text file))" using assms by (auto simp: file_ok_def)
  show ?thesis using assms
    by (simp add: split_aligned_rows_def Let_def file_ok_def align_rows_pairs [OF path] split_loop_items [OF path] split_file_items_def)
qed

lemma windows_items:
  assumes path: "hunk_path eq xs ys 0 0 H (length xs) (length ys)"
  shows "for_each (window_rows pair path H) ([], 0, 0) (foldl (add_window (length xs) (length ys)) [] (enumerate 0 H)) \<bind>
      (\<lambda>(rows, bc, nc). Some (rows @ window_fold path bc nc (min (length xs - bc) (length ys - nc)))) =
    Some (split_items pair path True 0 0 H (length xs) (length ys))"
proof (cases "H = []")
  case True
  with path have "length xs = length ys" by (auto simp: context_rows_def)
  with True show ?thesis by (simp add: gap_items_only)
next
  case False
  obtain e1 e2 where ends: "path_ends 0 0 H = (e1, e2)" by fastforce
  have "hunk_path eq xs ys i j H m n \<Longrightarrow> path_ends i j H = (e1, e2) \<Longrightarrow> e1 \<le> m \<and> e2 \<le> n \<and> m - e1 = n - e2" for i j m n
    by (induction H arbitrary: i j) (auto simp: Let_def context_rows_def)
  from this [OF path ends] have tail: "e1 \<le> length xs" "e2 \<le> length ys" "length xs - e1 = length ys - e2" by auto
  have rows: "for_each (window_rows pair path H) ([], 0, 0) (foldl (add_window (length xs) (length ys)) [] (enumerate 0 H)) =
      Some (prefix_items pair path True 0 0 H @ map pair (context_range e1 (min (e1 + CONTEXT_LINES) (length xs)) e2),
        min (e1 + CONTEXT_LINES) (length xs), min (e2 + CONTEXT_LINES) (length ys))"
    using windows_ok_rows [OF windows_all [OF path, of "length H" pair path], of e1 e2] False ends by simp
  let ?t = "length xs - e1"
  have "min (e1 + CONTEXT_LINES) (length xs) = e1 + min CONTEXT_LINES ?t" "min (e2 + CONTEXT_LINES) (length ys) = e2 + min CONTEXT_LINES ?t"
    "min (length xs - (e1 + min CONTEXT_LINES ?t)) (length ys - (e2 + min CONTEXT_LINES ?t)) = ?t - CONTEXT_LINES"
    using tail by auto
  then show ?thesis using False ends by (simp add: rows split_items_prefix gap_items_last)
qed

lemma hunk_windows_items:
  assumes "file_ok file"
  shows "build_split_rows_from_hunk_windows file cache st = Some (extend_capped st (split_file_items file cache))"
proof -
  let ?xs = "text_rows (fd_base_text file)" and ?ys = "text_rows (fd_new_text file)"
  obtain eq where path: "hunk_path eq ?xs ?ys 0 0 (fd_hunks file) (length ?xs) (length ?ys)" using assms by (auto simp: file_ok_def)
  let ?pair = "split_pair_row (str_lines (fd_base_text file)) (str_lines (fd_new_text file)) cache (fd_hunks file)"
  have size: "as_u32 (length (str_lines (fd_base_text file))) = length ?xs" "as_u32 (length (str_lines (fd_new_text file))) = length ?ys"
    using assms by (simp_all add: file_ok_def)
  obtain rows bc nc where rows: "for_each (window_rows ?pair (fd_path file) (fd_hunks file)) ([], 0, 0)
      (foldl (add_window (length ?xs) (length ?ys)) [] (enumerate 0 (fd_hunks file))) = Some (rows, bc, nc)"
    "rows @ window_fold (fd_path file) bc nc (min (length ?xs - bc) (length ?ys - nc)) = split_file_items file cache"
    using windows_items [OF path, of ?pair "fd_path file"] by (auto simp: bind_eq_Some_conv split_file_items_def)
  show ?thesis unfolding build_split_rows_from_hunk_windows_def Let_def size rows(1) using rows(2) by simp
qed

section \<open>The rows of one column\<close>

lemma extend_capped_append: "extend_capped (extend_capped st rs) ss = extend_capped st (rs @ ss)"
  by (simp add: extend_capped_def)

lemma push_capped_extend: "push_capped st r = extend_capped st [r]"
  by (simp add: extend_capped_def)

lemma extend_capped_Nil [simp]: "extend_capped st [] = st"
  by (simp add: extend_capped_def)

lemma extend_capped_length: "length (fst st) \<le> m \<Longrightarrow> MAX_DISPLAY_ROWS \<le> m \<Longrightarrow> length (fst (extend_capped st rs)) \<le> m"
  by (induction rs arbitrary: st) (auto simp: extend_capped_def push_capped_def split: prod.splits)

lemma extend_capped_mono: "snd st \<le> snd (extend_capped st rs)"
proof (induction rs arbitrary: st)
  case (Cons r rs)
  have "snd st \<le> snd (push_capped st r)" by (auto simp: push_capped_def split: prod.splits)
  with Cons [of "push_capped st r"] show ?case by (simp add: extend_capped_def)
qed simp

lemma extend_capped_dropped: "snd (extend_capped st rs) = 0 \<Longrightarrow> extend_capped st rs = (fst st @ rs, 0)"
proof (induction rs arbitrary: st)
  case (Cons r rs)
  have "snd (push_capped st r) = 0" using Cons.prems extend_capped_mono [of "push_capped st r" rs] by (simp add: extend_capped_def)
  then have "push_capped st r = (fst st @ [r], 0)" by (auto simp: push_capped_def split: prod.splits if_splits)
  with Cons.IH [of "(fst st @ [r], 0)"] Cons.prems show ?case by (simp add: extend_capped_def)
qed (simp add: prod_eq_iff)

text \<open>The rows a file pushes, and the same rows with every fold replaced by the rows behind it.\<close>

definition unified_gap :: "file_diff \<Rightarrow> 'c file_row_cache \<Rightarrow> bool \<Rightarrow> bool \<Rightarrow> nat \<Rightarrow> nat \<Rightarrow> nat \<Rightarrow> 'c display_row list" where
  "unified_gap file cache at_start at_end i j len = (
     let ctx = unified_context (str_lines (fd_new_text file)) (frc_syn_new cache);
       lead = (if at_start then 0 else min CONTEXT_LINES len);
       trail = (if at_end then 0 else min CONTEXT_LINES (len - lead));
       hidden = len - lead - trail
     in map (\<lambda>k. ctx (i + k) (j + k)) [0..<lead] @ (if hidden > 0 then [folded_display_row (fd_path file) (i + lead) (j + lead) hidden] else []) @
        map (\<lambda>k. ctx (i + k) (j + k)) [lead + hidden..<len])"

fun unified_items :: "file_diff \<Rightarrow> 'c file_row_cache \<Rightarrow> bool \<Rightarrow> nat \<Rightarrow> nat \<Rightarrow> diff_hunk list \<Rightarrow> nat \<Rightarrow> 'c display_row list" where
  "unified_items file cache at_start i j [] n = unified_gap file cache False True i j (n - j)"
| "unified_items file cache at_start i j (h # hs) n = unified_gap file cache at_start False i j (sn_start (dh_new_row_range h) - j) @
     unified_hunk (str_lines (fd_base_text file)) (str_lines (fd_new_text file)) cache h @
     unified_items file cache False (sn_end (dh_base_row_range h)) (sn_end (dh_new_row_range h)) hs n"

definition open_fold :: "file_diff \<Rightarrow> 'c file_row_cache \<Rightarrow> 'c display_row \<Rightarrow> 'c display_row list" where
  "open_fold file cache row = (case (dr_kind row, dr_fold_base_start row, dr_fold_new_start row) of
     (Fold, Some base_start, Some new_start) \<Rightarrow> unified_fold_rows file cache base_start new_start (dr_fold_count row)
   | _ \<Rightarrow> [row])"

lemma upt_shift: "map (\<lambda>k. f (a + k)) [0..<n] = map f [a..<a + n]"
  by (rule nth_equalityI) auto

lemma unified_step_items:
  assumes "nc \<le> sn_start (dh_new_row_range h)"
  shows "unified_step file (str_lines (fd_base_text file)) (str_lines (fd_new_text file)) cache (st, bc, nc, s) h =
    Some (extend_capped st (unified_gap file cache s False bc nc (sn_start (dh_new_row_range h) - nc) @
        unified_hunk (str_lines (fd_base_text file)) (str_lines (fd_new_text file)) cache h),
      sn_end (dh_base_row_range h), sn_end (dh_new_row_range h), False)"
proof -
  let ?len = "sn_start (dh_new_row_range h) - nc" and ?ctx = "unified_context (str_lines (fd_new_text file)) (frc_syn_new cache)"
  define lead where "lead = (if s then 0 else min CONTEXT_LINES ?len)"
  define trail where "trail = min CONTEXT_LINES (?len - lead)"
  define hidden where "hidden = ?len - lead - trail"
  have le: "lead + hidden + trail = ?len" unfolding lead_def hidden_def trail_def by (auto simp: min_def)
  have shift: "map (\<lambda>k. let off = lead + hidden + k in ?ctx (bc + off) (nc + off)) [0..<trail] = map (\<lambda>k. ?ctx (bc + k) (nc + k)) [lead + hidden..<?len]"
    unfolding Let_def le [symmetric] by (rule upt_shift)
  have step: "unified_step file (str_lines (fd_base_text file)) (str_lines (fd_new_text file)) cache (st, bc, nc, s) h =
    Some (extend_capped (extend_capped (let st = extend_capped st (map (\<lambda>k. ?ctx (bc + k) (nc + k)) [0..<lead])
          in if hidden > 0 then push_capped st (folded_display_row (fd_path file) (bc + lead) (nc + lead) hidden) else st)
        (map (\<lambda>k. let off = lead + hidden + k in ?ctx (bc + off) (nc + off)) [0..<trail]))
      (unified_hunk (str_lines (fd_base_text file)) (str_lines (fd_new_text file)) cache h),
      sn_end (dh_base_row_range h), sn_end (dh_new_row_range h), False)"
  proof -
    have "usub (sn_start (dh_new_row_range h)) nc = Some ?len" using assms by (simp add: usub_def)
    then show ?thesis unfolding unified_step_def Let_def lead_def hidden_def trail_def by (simp only: prod.case bind.simps)
  qed
  have gap: "unified_gap file cache s False bc nc ?len = map (\<lambda>k. ?ctx (bc + k) (nc + k)) [0..<lead] @
      (if hidden > 0 then [folded_display_row (fd_path file) (bc + lead) (nc + lead) hidden] else []) @ map (\<lambda>k. ?ctx (bc + k) (nc + k)) [lead + hidden..<?len]"
    unfolding unified_gap_def Let_def lead_def hidden_def trail_def by (simp only: if_False)
  show ?thesis unfolding step shift gap by (simp add: Let_def push_capped_extend extend_capped_append)
qed

lemma unified_loop_items:
  assumes "hunk_path eq xs ys i j hs m n"
  shows "for_each (unified_step file (str_lines (fd_base_text file)) (str_lines (fd_new_text file)) cache) (st, i, j, s) hs \<bind> (\<lambda>(st, bc, nc, first_gap). do {
       tail \<leftarrow> usub n nc;
       let lead = min CONTEXT_LINES tail;
       let st = extend_capped st (map (\<lambda>k. unified_context (str_lines (fd_new_text file)) (frc_syn_new cache) (bc + k) (nc + k)) [0..<lead]);
       let hidden = tail - lead;
       Some (if hidden > 0 then push_capped st (folded_display_row (fd_path file) (bc + lead) (nc + lead) hidden) else st)
     }) = Some (extend_capped st (unified_items file cache s i j hs n))"
  using assms
proof (induction hs arbitrary: st i j s)
  case Nil
  then have "j \<le> n" by (simp add: context_rows_def)
  then show ?case by (simp add: usub_def Let_def unified_gap_def push_capped_extend extend_capped_append)
next
  case (Cons h hs)
  then have "j \<le> sn_start (dh_new_row_range h)" "hunk_path eq xs ys (sn_end (dh_base_row_range h)) (sn_end (dh_new_row_range h)) hs m n"
    by (auto simp: Let_def context_rows_def)
  with Cons.IH show ?case by (simp add: unified_step_items extend_capped_append)
qed

lemma unified_file_rows_items:
  assumes "file_ok file"
  shows "unified_file_rows file cache st = Some (extend_capped st (unified_items file cache True 0 0 (fd_hunks file) (row_count (fd_new_text file))))"
proof -
  obtain eq where path: "hunk_path eq (text_rows (fd_base_text file)) (text_rows (fd_new_text file)) 0 0 (fd_hunks file)
      (row_count (fd_base_text file)) (row_count (fd_new_text file))" using assms by (auto simp: file_ok_def)
  have size: "as_u32 (length (str_lines (fd_new_text file))) = row_count (fd_new_text file)" using assms by (simp add: file_ok_def)
  show ?thesis unfolding unified_file_rows_def Let_def size by (simp only: unified_loop_items [OF path, unfolded Let_def])
qed

text \<open>
  \<open>lines_shown\<close>: rows that show the lines \<open>i..<m\<close> of the old text and \<open>j..<n\<close> of the new text, each once and in order, a
  line that is on both sides as the new text has it.
\<close>

definition lines_shown :: "file_diff \<Rightarrow> nat \<Rightarrow> nat \<Rightarrow> nat \<Rightarrow> nat \<Rightarrow> 'c display_row list \<Rightarrow> bool" where
  "lines_shown file i j m n rows \<longleftrightarrow> i \<le> m \<and> j \<le> n \<and>
     map dr_old_no (filter (\<lambda>r. dr_old_no r \<noteq> None) rows) = map (\<lambda>k. Some (k + 1)) [i..<m] \<and>
     map dr_new_no (filter (\<lambda>r. dr_new_no r \<noteq> None) rows) = map (\<lambda>k. Some (k + 1)) [j..<n] \<and>
     map dr_text (filter (\<lambda>r. dr_new_no r \<noteq> None) rows) = map (line_at (str_lines (fd_new_text file))) [j..<n] \<and>
     list_all (\<lambda>r. dr_old_no r = None \<or> dr_new_no r \<noteq> None \<or>
       dr_kind r = RowRemoved \<and> dr_text r = line_at (str_lines (fd_base_text file)) (the (dr_old_no r) - 1)) rows"

lemma lines_shown_append:
  assumes "lines_shown file i j k l rs" "lines_shown file k l m n ss"
  shows "lines_shown file i j m n (rs @ ss)"
proof -
  have "[i..<m] = [i..<k] @ [k..<m]" "[j..<n] = [j..<l] @ [l..<n]"
    using assms upt_add_eq_append [of i k "m - k"] upt_add_eq_append [of j l "n - l"] by (simp_all add: lines_shown_def)
  with assms show ?thesis unfolding lines_shown_def by auto
qed

lemma unified_context_sel [simp]:
  "dr_old_no (unified_context ls syn i j) = Some (i + 1)" "dr_new_no (unified_context ls syn i j) = Some (j + 1)"
  "dr_text (unified_context ls syn i j) = line_at ls j" "dr_kind (unified_context ls syn i j) = RowContext"
  by (simp_all add: unified_context_def context_row_def content_row_def Let_def)

lemma lines_shown_context:
  "lines_shown file i j (i + len) (j + len) (map (\<lambda>k. unified_context (str_lines (fd_new_text file)) syn (i + k) (j + k)) [0..<len])"
  using upt_shift [of "\<lambda>k. Some (k + 1)" i len] upt_shift [of "\<lambda>k. Some (k + 1)" j len] upt_shift [of "line_at (str_lines (fd_new_text file))" j len]
  by (auto simp: lines_shown_def list_all_iff filter_map o_def)

lemma lines_shown_hunk:
  assumes "sn_start (dh_base_row_range h) \<le> sn_end (dh_base_row_range h)" "sn_start (dh_new_row_range h) \<le> sn_end (dh_new_row_range h)"
  shows "lines_shown file (sn_start (dh_base_row_range h)) (sn_start (dh_new_row_range h)) (sn_end (dh_base_row_range h)) (sn_end (dh_new_row_range h))
    (unified_hunk (str_lines (fd_base_text file)) (str_lines (fd_new_text file)) cache h)"
  using assms by (auto simp: lines_shown_def list_all_iff unified_hunk_def content_row_def Let_def filter_map o_def)

text \<open>Opening the folds of a file.\<close>

definition open_folds :: "file_diff \<Rightarrow> 'c file_row_cache \<Rightarrow> 'c display_row list \<Rightarrow> 'c display_row list" where
  "open_folds file cache rows = concat (map (open_fold file cache) rows)"

lemma open_folds_append [simp]: "open_folds file cache (rs @ ss) = open_folds file cache rs @ open_folds file cache ss"
  by (simp add: open_folds_def)

lemma open_folds_plain: "\<forall>r\<in>set rows. dr_kind r \<noteq> Fold \<Longrightarrow> open_folds file cache rows = rows"
  by (induction rows) (auto simp: open_folds_def open_fold_def split: RowKind.splits)

lemma open_folds_context: "open_folds file cache (map (\<lambda>k. unified_context ls syn (f k) (g k)) ks) = map (\<lambda>k. unified_context ls syn (f k) (g k)) ks"
  by (rule open_folds_plain) auto

lemma open_folds_hunk: "open_folds file cache (unified_hunk bs ns c h) = unified_hunk bs ns c h"
  by (rule open_folds_plain) (auto simp: unified_hunk_def content_row_def Let_def)

lemma open_folds_fold: "open_folds file cache [folded_display_row path i j n] = unified_fold_rows file cache i j n"
  by (simp add: open_folds_def open_fold_def folded_display_row_def)

lemma open_folds_gap:
  "open_folds file cache (unified_gap file cache s e i j len) =
     map (\<lambda>k. unified_context (str_lines (fd_new_text file)) (frc_syn_new cache) (i + k) (j + k)) [0..<len]"
proof -
  let ?ctx = "\<lambda>k. unified_context (str_lines (fd_new_text file)) (frc_syn_new cache) (i + k) (j + k)"
  define lead where "lead = (if s then 0 else min CONTEXT_LINES len)"
  define hidden where "hidden = len - lead - (if e then 0 else min CONTEXT_LINES (len - lead))"
  have le: "lead + hidden \<le> len" by (auto simp: lead_def hidden_def)
  have gap: "unified_gap file cache s e i j len = map ?ctx [0..<lead] @
      (if hidden > 0 then [folded_display_row (fd_path file) (i + lead) (j + lead) hidden] else []) @ map ?ctx [lead + hidden..<len]"
    unfolding unified_gap_def Let_def lead_def hidden_def ..
  have behind: "open_folds file cache (if hidden > 0 then [folded_display_row (fd_path file) (i + lead) (j + lead) hidden] else []) = map ?ctx [lead..<lead + hidden]"
    using upt_shift [of ?ctx lead hidden] by (cases "hidden > 0") (simp_all add: open_folds_fold unified_fold_rows_def add.assoc, simp add: open_folds_def)
  have "[0..<len] = [0..<lead] @ [lead..<lead + hidden] @ [lead + hidden..<len]"
    using le upt_add_eq_append [of 0 lead "len - lead"] upt_add_eq_append [of lead "lead + hidden" "len - (lead + hidden)"] by simp
  then show ?thesis unfolding gap open_folds_append behind open_folds_context by simp
qed

lemma lines_shown_items:
  "hunk_path eq xs ys i j hs m n \<Longrightarrow> lines_shown file i j m n (open_folds file cache (unified_items file cache s i j hs n))"
proof (induction hs arbitrary: s i j)
  case Nil
  then have "m = i + (n - j)" "n = j + (n - j)" by (auto simp: context_rows_def)
  then show ?case using lines_shown_context [of "file" i j "n - j" "frc_syn_new cache"] by (simp add: open_folds_gap)
next
  case (Cons h hs)
  let ?b = "dh_base_row_range h" and ?c = "dh_new_row_range h"
  have path: "hunk_path eq xs ys (sn_end ?b) (sn_end ?c) hs m n" and len: "sn_start ?b = i + (sn_start ?c - j)" "sn_start ?c = j + (sn_start ?c - j)"
    and h: "sn_start ?b \<le> sn_end ?b" "sn_start ?c \<le> sn_end ?c"
    using Cons.prems by (auto simp: Let_def context_rows_def span_ok_def)
  have "lines_shown file i j (sn_start ?b) (sn_start ?c) (open_folds file cache (unified_gap file cache s False i j (sn_start ?c - j)))"
    using lines_shown_context [of "file" i j "sn_start ?c - j" "frc_syn_new cache"] len by (simp add: open_folds_gap)
  from lines_shown_append [OF this lines_shown_append [OF lines_shown_hunk [OF h] Cons.IH [OF path]]]
  show ?case by (simp add: open_folds_hunk)
qed

lemma map_line_at: "map (line_at ls) [0..<length ls] = ls"
  by (rule nth_equalityI) (auto simp: line_at_def)

section \<open>The cap\<close>

lemma for_each_keeps:
  assumes "for_each f st xs = Some st'" "P st" "\<And>st x st'. P st \<Longrightarrow> f st x = Some st' \<Longrightarrow> P st'"
  shows "P st'"
  using assms
proof (induction xs arbitrary: st)
  case (Cons x xs)
  then obtain st1 where "f st x = Some st1" "for_each f st1 xs = Some st'" by (auto simp: bind_eq_Some_conv)
  with Cons show ?case by metis
qed simp

lemma unified_step_length:
  assumes "unified_step file bs ns cache st h = Some st'" "length (fst (fst st)) \<le> m" "MAX_DISPLAY_ROWS \<le> m"
  shows "length (fst (fst st')) \<le> m"
  using assms by (cases st) (auto simp: unified_step_def Let_def push_capped_extend bind_eq_Some_conv intro!: extend_capped_length)

lemma unified_file_rows_length:
  assumes "unified_file_rows file cache st = Some st'" "length (fst st) \<le> m" "MAX_DISPLAY_ROWS \<le> m"
  shows "length (fst st') \<le> m"
proof -
  obtain st1 bc nc s where loop: "for_each (unified_step file (str_lines (fd_base_text file)) (str_lines (fd_new_text file)) cache) (st, 0, 0, True) (fd_hunks file) = Some (st1, bc, nc, s)"
    using assms(1) by (auto simp: unified_file_rows_def Let_def bind_eq_Some_conv)
  have "length (fst st1) \<le> m"
    using for_each_keeps [OF loop, of "\<lambda>st. length (fst (fst st)) \<le> m"] unified_step_length assms(2,3) by fastforce
  then show ?thesis using assms(1,3) loop
    by (auto simp: unified_file_rows_def Let_def bind_eq_Some_conv push_capped_extend intro!: extend_capped_length split: if_splits)
qed

lemma unified_file_length:
  assumes "unified_file caches st item = Some st'" "length (fst st) \<le> MAX_DISPLAY_ROWS + 1"
  shows "length (fst st') \<le> MAX_DISPLAY_ROWS + 1"
  using assms unified_file_rows_length [of _ _ _ st' "MAX_DISPLAY_ROWS + 1"]
  by (cases st; cases item) (fastforce simp: unified_file_def Let_def bind_eq_Some_conv split: if_splits)

lemma split_file_length:
  assumes "split_file caches st item = Some st'" "length (fst st) \<le> MAX_DISPLAY_ROWS + 1"
  shows "length (fst st') \<le> MAX_DISPLAY_ROWS + 1"
  using assms
  by (cases st; cases item) (auto simp: split_file_def split_aligned_rows_def build_split_rows_from_hunk_windows_def Let_def bind_eq_Some_conv
      intro!: extend_capped_length split: if_splits)

section \<open>Properties\<close>

lemma report_file_ok:
  assumes "inner_inputs line_engine engine char_engine (fd_base_text file) (fd_new_text file)"
    and "compute_hunk_report line_engine engine char_engine is_alphabetic (fd_base_text file) (fd_new_text file) options = Some report"
    and "fd_hunks file = hr_hunks report"
  shows "file_ok file"
proof -
  have "row_count (fd_base_text file) < 2 ^ 32" "row_count (fd_new_text file) < 2 ^ 32"
    using assms(1) length_split_lines [of "fd_base_text file"] length_split_lines [of "fd_new_text file"]
      row_count_lines [of "fd_base_text file"] row_count_lines [of "fd_new_text file"]
    by (auto simp: inner_inputs_def ENGINE_TOKEN_LIMIT_def split: if_splits)
  then show ?thesis using runs_compute_hunk_report [OF assms(1), of is_alphabetic options] assms(2,3) by (auto simp: file_ok_def runs_iff)
qed

lemma report_exists:
  "inner_inputs line_engine engine char_engine base new \<Longrightarrow>
    \<exists>report. compute_hunk_report line_engine engine char_engine is_alphabetic base new options = Some report"
  using runs_compute_hunk_report [of line_engine engine char_engine base new is_alphabetic options] by (auto simp: runs_iff)

text \<open>
  C10. The two ways to build the side-by-side rows of a file agree. With the hunks the comparison reports for its texts, the
  windows around the hunks, which the view takes for a long file, give the rows that the full alignment gives, with the
  same folds and cut at the same row, and neither of them panics.
\<close>
theorem split_windows_equal:
  assumes "inner_inputs line_engine engine char_engine (fd_base_text file) (fd_new_text file)"
    and "compute_hunk_report line_engine engine char_engine is_alphabetic (fd_base_text file) (fd_new_text file) options = Some report"
    and "fd_hunks file = hr_hunks report"
  shows "build_split_rows_from_hunk_windows file cache st = split_aligned_rows file cache st \<and> split_aligned_rows file cache st \<noteq> None"
  using report_file_ok [OF assms] by (simp add: split_aligned_rows_items hunk_windows_items)

theorem split_windows_equal_witness:
  "\<exists>report. compute_hunk_report (prefix_engine line_eq) (prefix_engine (=)) (prefix_engine (=)) (\<lambda>c. 97 \<le> c \<and> c \<le> 122)
      [97, 10, 98, 32, 99, 10] [97, 10, 98, 32, 100] \<lparr>dop_highlight = HighlightWords, dop_whitespace = Default\<rparr> = Some report \<and>
    (let file = \<lparr>fd_path = [102], fd_change = FileModified, fd_old_path = None, fd_base_text = [97, 10, 98, 32, 99, 10],
        fd_new_text = [97, 10, 98, 32, 100], fd_hunks = hr_hunks report, fd_is_binary = False\<rparr>
     in build_split_rows_from_hunk_windows file \<lparr>frc_syn_old = [[]], frc_syn_new = [[(mk_span 0 1, ())]]\<rparr> ([], 0) =
          split_aligned_rows file \<lparr>frc_syn_old = [[]], frc_syn_new = [[(mk_span 0 1, ())]]\<rparr> ([], 0) \<and>
        split_aligned_rows file \<lparr>frc_syn_old = [[]], frc_syn_new = [[(mk_span 0 1, ())]]\<rparr> ([], 0) \<noteq> None)"
proof -
  have inputs: "inner_inputs (prefix_engine line_eq) (prefix_engine (=)) (prefix_engine (=)) [97, 10, 98, 32, 99, 10] [97, 10, 98, 32, 100]"
    by (intro inner_inputs_prefix) (simp_all add: sample_size)
  obtain report where report: "compute_hunk_report (prefix_engine line_eq) (prefix_engine (=)) (prefix_engine (=)) (\<lambda>c. 97 \<le> c \<and> c \<le> 122)
      [97, 10, 98, 32, 99, 10] [97, 10, 98, 32, 100] \<lparr>dop_highlight = HighlightWords, dop_whitespace = Default\<rparr> = Some report"
    using report_exists [OF inputs] by blast
  show ?thesis unfolding Let_def
    by (rule exI [of _ report], rule conjI [OF report], rule split_windows_equal) (use inputs report in simp_all)
qed



text \<open>
  C16. The views stay bounded however long the diff is: neither view holds more than ten thousand rows, one row of a header or
  note that was pushed at the limit, and the row that tells how many are not shown, which is there exactly when some are not.
\<close>
theorem display_rows_capped:
  "(build_display_rows_with_caches files caches = Some (rows, dropped) \<longrightarrow>
      length rows \<le> MAX_DISPLAY_ROWS + 2 \<and> (0 < dropped \<longrightarrow> last rows = truncated_display_row dropped)) \<and>
   (build_split_rows_with_caches files caches = Some (rows', dropped') \<longrightarrow>
      length rows' \<le> MAX_DISPLAY_ROWS + 2 \<and> (0 < dropped' \<longrightarrow> last rows' = truncated_split_note dropped'))"
proof -
  have unified: "length rs \<le> MAX_DISPLAY_ROWS + 1" if "for_each (unified_file caches) ([], 0) (enumerate 0 files) = Some (rs, d)" for rs d
    using for_each_keeps [OF that, of "\<lambda>st. length (fst st) \<le> MAX_DISPLAY_ROWS + 1"] unified_file_length [of caches] by auto
  have split: "length rs \<le> MAX_DISPLAY_ROWS + 1" if "for_each (split_file caches) ([], 0) (enumerate 0 files) = Some (rs, d)" for rs d
    using for_each_keeps [OF that, of "\<lambda>st. length (fst st) \<le> MAX_DISPLAY_ROWS + 1"] split_file_length [of caches] by auto
  have "build_display_rows_with_caches files caches = Some (rows, dropped) \<Longrightarrow>
      length rows \<le> MAX_DISPLAY_ROWS + 2 \<and> (0 < dropped \<longrightarrow> last rows = truncated_display_row dropped)"
    using unified by (fastforce simp: build_display_rows_with_caches_def bind_eq_Some_conv split: if_splits)
  moreover have "build_split_rows_with_caches files caches = Some (rows', dropped') \<Longrightarrow>
      length rows' \<le> MAX_DISPLAY_ROWS + 2 \<and> (0 < dropped' \<longrightarrow> last rows' = truncated_split_note dropped')"
    using split by (fastforce simp: build_split_rows_with_caches_def bind_eq_Some_conv split: if_splits)
  ultimately show ?thesis by blast
qed

theorem display_rows_capped_witness:
  "let file = \<lparr>fd_path = [102], fd_change = FileAdded, fd_old_path = None, fd_base_text = [], fd_new_text = [0], fd_hunks = [], fd_is_binary = True\<rparr>;
     rows = [DisplayRow FileHeader (lit ''f   +0 -0'') None None [] [] Full (Some (header_of file (0, 0))) None None None 0 [],
       DisplayRow Binary (lit ''Diff not shown (binary or large file)'') None None [] [] Full None None None None 0 []];
     rows' = [SplitHeader (header_of file (0, 0)), SplitNote (lit ''Diff not shown (binary or large file)'')]
   in build_display_rows_with_caches [file] [] = Some (rows :: unit display_row list, 0) \<and> length rows \<le> MAX_DISPLAY_ROWS + 2 \<and>
     build_split_rows_with_caches [file] [] = Some (rows' :: unit split_row list, 0) \<and> length rows' \<le> MAX_DISPLAY_ROWS + 2"
proof -
  let ?file = "\<lparr>fd_path = [102], fd_change = FileAdded, fd_old_path = None, fd_base_text = [], fd_new_text = [0], fd_hunks = [], fd_is_binary = True\<rparr>"
  let ?rows = "[DisplayRow FileHeader (lit ''f   +0 -0'') None None [] [] Full (Some (header_of ?file (0, 0))) None None None 0 [],
       DisplayRow Binary (lit ''Diff not shown (binary or large file)'') None None [] [] Full None None None None 0 []] :: unit display_row list"
  let ?rows' = "[SplitHeader (header_of ?file (0, 0)), SplitNote (lit ''Diff not shown (binary or large file)'')] :: unit split_row list"
  have "build_display_rows_with_caches [?file] [] = Some (?rows, 0)"
    by (simp add: build_display_rows_with_caches_def unified_file_def MAX_DISPLAY_ROWS_def hunk_line_counts_def shown_path_of_def lit_def show_nat.simps Let_def)
  moreover have "build_split_rows_with_caches [?file] [] = Some (?rows', 0)"
    by (simp add: build_split_rows_with_caches_def split_file_def MAX_DISPLAY_ROWS_def hunk_line_counts_def Let_def)
  ultimately show ?thesis unfolding Let_def using display_rows_capped [of "[?file]" "[]" ?rows 0 ?rows' 0] by blast
qed

end
