(* ===== verification/Diff_Revert.thy ===== *)
theory Diff_Revert
  imports Diff_Rows
begin

text \<open>
  \<open>src-app/src/app/diff_dock/revert.rs\<close> and \<open>normalize_git_text\<close> of \<open>src-app/src/diff/git.rs\<close>: which hunk a row of the diff
  view offers to revert, and the text that is written when a hunk is reverted.

  The diff is computed on normalized texts, in which every line break is a line feed; the text on disk keeps its own. Reading
  and writing of the file, and the messages, are not modelled.
\<close>

section \<open>Lines with their terminators\<close>

fun replace_crlf :: "ustr \<Rightarrow> ustr" where
  "replace_crlf [] = []"
| "replace_crlf (c # cs) = (if c = 13 \<and> cs \<noteq> [] \<and> hd cs = 10 then replace_crlf cs else c # replace_crlf cs)"

definition normalize_git_text :: "ustr \<Rightarrow> ustr" where
  "normalize_git_text text = (if 13 \<in> set text then map (\<lambda>c. if c = 13 then 10 else c) (replace_crlf text) else text)"

text \<open>The loop of \<open>split_lines\<close>; \<open>content\<close> is the text from \<open>start\<close> to \<open>index\<close>.\<close>

fun lines_from :: "ustr \<Rightarrow> ustr \<Rightarrow> (ustr \<times> ustr) list" where
  "lines_from content [] = (if content = [] then [] else [(content, [])])"
| "lines_from content (c # cs) =
     (if c = 10 then (content, [10]) # lines_from [] cs
      else if c = 13 \<and> cs \<noteq> [] \<and> hd cs = 10 then (content, [13, 10]) # lines_from [] (tl cs)
      else if c = 13 then (content, [13]) # lines_from [] cs
      else lines_from (content @ [c]) cs)"

definition terminated_lines :: "ustr \<Rightarrow> (ustr \<times> ustr) list" where
  "terminated_lines text = lines_from [] text"

definition ends_with_newline :: "ustr \<Rightarrow> bool" where
  "ends_with_newline text \<longleftrightarrow> ends_with 10 text \<or> ends_with 13 text"

fun count_crlf :: "ustr \<Rightarrow> nat" where
  "count_crlf [] = 0"
| "count_crlf (c # cs) = (if c = 13 \<and> cs \<noteq> [] \<and> hd cs = 10 then 1 + count_crlf cs else count_crlf cs)"

definition dominant_terminator :: "ustr \<Rightarrow> ustr" where
  "dominant_terminator text = (let crlf = count_crlf text; lf = count_list text 10 - crlf in if crlf > lf then [13, 10] else [10])"

definition spliced_line :: "ustr \<Rightarrow> (ustr \<times> ustr) list \<Rightarrow> nat \<times> ustr \<times> ustr \<Rightarrow> ustr \<times> ustr" where
  "spliced_line terminator replaced item = (case item of (k, content, _) \<Rightarrow>
     (content, if k < length replaced \<and> snd (replaced ! k) \<in> {[10], [13, 10]} then snd (replaced ! k) else terminator))"

definition splice_base_lines :: "ustr \<Rightarrow> ustr \<Rightarrow> diff_hunk \<Rightarrow> ustr" where
  "splice_base_lines new_text base_text hunk = (
     let terminator = dominant_terminator new_text;
       new_lines = terminated_lines new_text;
       base_lines = terminated_lines base_text;
       start = min (sn_start (dh_new_row_range hunk)) (length new_lines);
       end' = min (max start (sn_end (dh_new_row_range hunk))) (length new_lines);
       base_start = min (sn_start (dh_base_row_range hunk)) (length base_lines);
       base_end = min (max base_start (sn_end (dh_base_row_range hunk))) (length base_lines);
       replaced = take (end' - start) (drop start new_lines);
       lines = take start new_lines @
         map (spliced_line terminator replaced) (enumerate 0 (take (base_end - base_start) (drop base_start base_lines))) @ drop end' new_lines;
       lines = (if end' = length new_lines \<and> lines \<noteq> []
         then butlast lines @ [(fst (last lines),
           if \<not> ends_with_newline base_text then [] else if snd (last lines) = [] then terminator else snd (last lines))]
         else lines)
     in concat (map (\<lambda>(content, ending). content @ ending) lines))"

section \<open>The hunk of a row\<close>

record revert_target =
  rt_file :: nat
  rt_hunk :: nat
  rt_chip_row :: nat

definition revertable_file :: "(ustr \<times> nat) list \<Rightarrow> file_diff list \<Rightarrow> nat \<Rightarrow> nat option" where
  "revertable_file anchors files row = do {
     (path, header) \<leftarrow> List.find (\<lambda>(path, header). header \<le> row) (rev anchors);
     let index = length (takeWhile (\<lambda>file. fd_path file \<noteq> path) files);
     if index < length files \<and> fd_change (files ! index) \<in> {FileModified, FileTypeChanged} \<and> \<not> fd_is_binary (files ! index)
     then Some index else None
   }"

text \<open>\<open>hunk_index\<close> looks for the hunk itself, by its address: the place at which the search for the line found it.\<close>

definition hunk_for_new_no :: "diff_hunk list \<Rightarrow> nat option \<Rightarrow> nat option" where
  "hunk_for_new_no hunks no = do {
     n \<leftarrow> no;
     line \<leftarrow> usub n 1;
     h \<leftarrow> hunk_for_new_line hunks line;
     Some (length (takeWhile (\<lambda>h. sn_end (dh_new_row_range h) \<le> line) hunks))
   }"

definition hunk_for_base_no :: "diff_hunk list \<Rightarrow> nat option \<Rightarrow> nat option" where
  "hunk_for_base_no hunks no = do {
     n \<leftarrow> no;
     line \<leftarrow> usub n 1;
     h \<leftarrow> hunk_for_base_line hunks line;
     Some (length (takeWhile (\<lambda>h. sn_end (dh_base_row_range h) \<le> line) hunks))
   }"

definition first_row_of_run :: "nat \<Rightarrow> (nat \<Rightarrow> bool) \<Rightarrow> nat option" where
  "first_row_of_run row is_changed = (let run = takeWhile is_changed (rev [0..<row + 1]) in if run = [] then None else Some (last run))"

definition is_changed_row :: "'c display_row \<Rightarrow> bool" where
  "is_changed_row row \<longleftrightarrow> dr_kind row = RowAdded \<or> dr_kind row = RowRemoved"

definition unified_revert_target :: "'c display_row list \<Rightarrow> (ustr \<times> nat) list \<Rightarrow> file_diff list \<Rightarrow> nat \<Rightarrow> revert_target option" where
  "unified_revert_target rows anchors files row = (if row < length rows then do {
       file \<leftarrow> revertable_file anchors files row;
       let hunks = fd_hunks (files ! file);
       hunk \<leftarrow> (case dr_kind (rows ! row) of
           RowAdded \<Rightarrow> hunk_for_new_no hunks (dr_new_no (rows ! row))
         | RowRemoved \<Rightarrow> hunk_for_base_no hunks (dr_old_no (rows ! row))
         | _ \<Rightarrow> None);
       chip_row \<leftarrow> first_row_of_run row (\<lambda>r. is_changed_row (rows ! r));
       Some \<lparr>rt_file = file, rt_hunk = hunk, rt_chip_row = chip_row\<rparr>
     } else None)"

definition is_changed_pair :: "'c split_row \<Rightarrow> bool" where
  "is_changed_pair row = (case row of SplitPair left right \<Rightarrow> hc_kind left \<noteq> CellContext \<or> hc_kind right \<noteq> CellContext | _ \<Rightarrow> False)"

definition split_revert_target :: "'c split_row list \<Rightarrow> (ustr \<times> nat) list \<Rightarrow> file_diff list \<Rightarrow> nat \<Rightarrow> revert_target option" where
  "split_revert_target rows anchors files row = (if row < length rows then (case rows ! row of
       SplitPair left right \<Rightarrow> do {
         file \<leftarrow> revertable_file anchors files row;
         let hunks = fd_hunks (files ! file);
         hunk \<leftarrow> (if hc_kind right = CellAdded then hunk_for_new_no hunks (hc_no right)
           else if hc_kind left = CellRemoved then hunk_for_base_no hunks (hc_no left)
           else None);
         chip_row \<leftarrow> first_row_of_run row (\<lambda>r. is_changed_pair (rows ! r));
         Some \<lparr>rt_file = file, rt_hunk = hunk, rt_chip_row = chip_row\<rparr>
       }
     | _ \<Rightarrow> None) else None)"

section \<open>Texts as lists of lines\<close>

text \<open>
  \<open>join\<close> puts a text together again. The lines of a text whose line breaks are line feeds, with or without a carriage return,
  and that ends with one, are \<open>whole\<close>; \<open>render\<close> is such a text with line feeds alone.
\<close>

definition join :: "(ustr \<times> ustr) list \<Rightarrow> ustr" where
  "join lines = concat (map (\<lambda>(content, ending). content @ ending) lines)"

definition whole :: "(ustr \<times> ustr) list \<Rightarrow> bool" where
  "whole lines \<longleftrightarrow> list_all (\<lambda>(content, ending). 10 \<notin> set content \<and> 13 \<notin> set content \<and> ending \<in> {[10], [13, 10]}) lines"

definition render :: "ustr list \<Rightarrow> ustr" where
  "render rows = concat (map (\<lambda>row. row @ [10]) rows)"

fun no_lone_cr :: "ustr \<Rightarrow> bool" where
  "no_lone_cr [] \<longleftrightarrow> True"
| "no_lone_cr (c # cs) \<longleftrightarrow> (c = 13 \<longrightarrow> cs \<noteq> [] \<and> hd cs = 10) \<and> no_lone_cr cs"

lemma join_simps [simp]: "join [] = []" "join ((c, e) # lines) = c @ e @ join lines" "join (xs @ ys) = join xs @ join ys"
  by (simp_all add: join_def)

lemma render_simps [simp]: "render [] = []" "render (r # rs) = r @ 10 # render rs"
  by (simp_all add: render_def)

lemma whole_simps [simp]: "whole []" "whole (xs @ ys) \<longleftrightarrow> whole xs \<and> whole ys"
  "whole ((c, e) # lines) \<longleftrightarrow> 10 \<notin> set c \<and> 13 \<notin> set c \<and> (e = [10] \<or> e = [13, 10]) \<and> whole lines"
  by (simp_all add: whole_def)

lemma join_lines_from: "join (lines_from content cs) = content @ cs"
  by (induction content cs rule: lines_from.induct) (auto simp: neq_Nil_conv)

lemma lines_from_content: "10 \<notin> set c \<Longrightarrow> 13 \<notin> set c \<Longrightarrow> lines_from content (c @ cs) = lines_from (content @ c) cs"
  by (induction c arbitrary: content) auto

lemma terminated_lines_join: "whole lines \<Longrightarrow> terminated_lines (join lines) = lines"
  unfolding terminated_lines_def
proof (induction lines)
  case (Cons l lines)
  then show ?case by (cases l) (auto simp: lines_from_content)
qed simp

lemma whole_lines_from:
  "no_lone_cr cs \<Longrightarrow> 10 \<notin> set content \<Longrightarrow> 13 \<notin> set content \<Longrightarrow> (if cs = [] then content = [] else last cs = 10) \<Longrightarrow> whole (lines_from content cs)"
proof (induction content cs rule: lines_from.induct)
  case (2 content c cs)
  show ?case
  proof (cases "c = 13")
    case True
    with 2 obtain ds where "cs = 10 # ds" by (cases cs) auto
    with 2 True show ?thesis by (auto split: if_splits)
  qed (use 2 in \<open>auto split: if_splits\<close>)
qed (simp split: if_splits)

lemma whole_text:
  assumes "no_lone_cr text" "ends_with 10 text"
  shows "whole (terminated_lines text)" "join (terminated_lines text) = text"
  using assms whole_lines_from [of "text" "[]"] by (auto simp: terminated_lines_def ends_with_def join_lines_from)

lemma replace_crlf_content: "13 \<notin> set c \<Longrightarrow> replace_crlf (c @ cs) = c @ replace_crlf cs"
  by (induction c) auto

lemma replace_crlf_join: "whole lines \<Longrightarrow> replace_crlf (join lines) = render (map fst lines)"
proof (induction lines)
  case (Cons l lines)
  then show ?case by (cases l) (auto simp: replace_crlf_content)
qed simp

lemma render_no_cr: "whole lines \<Longrightarrow> 13 \<notin> set (render (map fst lines))"
  by (induction lines) auto

lemma normalize_join:
  assumes "whole lines"
  shows "normalize_git_text (join lines) = render (map fst lines)"
proof (cases "13 \<in> set (join lines)")
  case True
  have "map (\<lambda>c. if c = 13 then 10 else c) (render (map fst lines)) = render (map fst lines)"
    using render_no_cr [OF assms] by (intro map_idI) auto
  with True show ?thesis by (simp add: normalize_git_text_def replace_crlf_join [OF assms])
next
  case False
  have "whole ls \<Longrightarrow> 13 \<notin> set (join ls) \<Longrightarrow> join ls = render (map fst ls)" for ls
    by (induction ls) auto
  with False assms show ?thesis by (simp add: normalize_git_text_def)
qed

lemma join_render: "join (map (\<lambda>r. (r, [10])) rows) = render rows"
  by (induction rows) simp_all

text \<open>The rows of a text that is rendered from rows are these rows.\<close>

lemma str_split_content: "d \<notin> set c \<Longrightarrow> str_split d (c @ d # cs) = c # str_split d cs"
  by (induction c) (auto split: list.splits)

lemma text_rows_render:
  assumes "list_all (\<lambda>r. 10 \<notin> set r) rows"
  shows "text_rows (render rows) = rows"
proof -
  have lines: "split_lines (render rows) = rows @ [[]]"
    using assms unfolding split_lines_def by (induction rows) (simp_all add: str_split_content)
  have "phantom (render rows)" by (cases rows rule: rev_cases) (auto simp: phantom_def ends_with_def render_def)
  then have "row_count (render rows) = length rows" using row_count_lines [of "render rows"] lines by simp
  then show ?thesis by (simp add: text_rows_def lines)
qed

lemma rows_of_join: "whole lines \<Longrightarrow> text_rows (normalize_git_text (join lines)) = map fst lines"
  by (simp add: normalize_join, rule text_rows_render) (auto simp: whole_def list_all_iff)

lemma no_cr: "13 \<notin> set text \<Longrightarrow> no_lone_cr text"
  by (induction "text") auto

lemma text_render:
  assumes "13 \<notin> set text" "ends_with 10 text"
  shows "render (text_rows text) = text" "terminated_lines text = map (\<lambda>r. (r, [10])) (text_rows text)"
proof -
  note lines = whole_text [OF no_cr [OF assms(1)] assms(2)]
  have "normalize_git_text text = text" using assms(1) by (simp add: normalize_git_text_def)
  then have rows: "text_rows text = map fst (terminated_lines text)" using rows_of_join [OF lines(1)] lines(2) by simp
  with normalize_join [OF lines(1)] lines(2) \<open>normalize_git_text text = text\<close> show "render (text_rows text) = text" by simp
  have "whole ls \<Longrightarrow> 13 \<notin> set (join ls) \<Longrightarrow> ls = map (\<lambda>r. (r, [10])) (map fst ls)" for ls
    by (induction ls) auto
  from this [OF lines(1)] lines(2) assms(1) rows show "terminated_lines text = map (\<lambda>r. (r, [10])) (text_rows text)" by simp
qed

section \<open>Reverting\<close>

definition sub_rows :: "span \<Rightarrow> 'a list \<Rightarrow> 'a list" where
  "sub_rows s xs = take (sn_end s - sn_start s) (drop (sn_start s) xs)"

definition replace_rows :: "diff_hunk \<Rightarrow> 'a list \<Rightarrow> 'a list \<Rightarrow> 'a list" where
  "replace_rows h base new = take (sn_start (dh_new_row_range h)) new @ sub_rows (dh_base_row_range h) base @ drop (sn_end (dh_new_row_range h)) new"

lemma dominant_terminator_cases: "dominant_terminator text \<in> {[10], [13, 10]}"
  by (simp add: dominant_terminator_def Let_def)

lemma spliced_lines:
  assumes "t \<in> {[10], [13, 10]}" "list_all (\<lambda>r. 10 \<notin> set r \<and> 13 \<notin> set r) rows"
  shows "whole (map (spliced_line t replaced) (enumerate n (map (\<lambda>r. (r, e)) rows)))"
    and "map fst (map (spliced_line t replaced) (enumerate n (map (\<lambda>r. (r, e)) rows))) = rows"
  using assms by (induction rows arbitrary: n) (auto simp: spliced_line_def)

lemma keep_last:
  assumes "whole ls" nl
  shows "(if at_end \<and> ls \<noteq> [] then butlast ls @ [(fst (last ls), if \<not> nl then [] else if snd (last ls) = [] then t else snd (last ls))] else ls) = ls"
proof (cases "ls = []")
  case False
  with assms(1) have "snd (last ls) \<noteq> []" by (cases ls rule: rev_cases) (auto simp: whole_def)
  with False assms(2) show ?thesis by simp
qed simp

lemma splice_whole:
  assumes lines: "whole lines" and base: "13 \<notin> set base" "ends_with 10 base"
    and h: "span_ok (dh_new_row_range h) (length lines)" "span_ok (dh_base_row_range h) (length (text_rows base))"
  obtains lines' where "splice_base_lines (join lines) base h = join lines'" "whole lines'"
    "map fst lines' = replace_rows h (text_rows base) (map fst lines)"
proof -
  let ?b = "dh_base_row_range h" and ?c = "dh_new_row_range h" and ?t = "dominant_terminator (join lines)"
  let ?old = "take (sn_end ?c - sn_start ?c) (drop (sn_start ?c) lines)" and ?rows = "sub_rows ?b (text_rows base)"
  let ?mid = "map (spliced_line ?t ?old) (enumerate 0 (map (\<lambda>r. (r, [10])) ?rows))"
  let ?lines = "take (sn_start ?c) lines @ ?mid @ drop (sn_end ?c) lines"
  have "list_all (\<lambda>r. 10 \<notin> set r \<and> 13 \<notin> set r) (text_rows base)"
    using whole_text(1) [OF no_cr base(2)] text_render(2) [OF base] base by (auto simp: whole_def list_all_iff)
  then have rows: "list_all (\<lambda>r. 10 \<notin> set r \<and> 13 \<notin> set r) ?rows"
    by (auto simp: sub_rows_def list_all_iff dest!: in_set_takeD in_set_dropD)
  note mid = spliced_lines [OF dominant_terminator_cases rows, of "join lines" ?old 0 "[10]"]
  have parts: "whole (take (sn_start ?c) lines)" "whole (drop (sn_end ?c) lines)"
    using lines by (auto simp: whole_def list_all_iff dest!: in_set_takeD in_set_dropD)
  then have whole: "whole ?lines" using mid(1) by simp
  have nl: "ends_with_newline base" using base by (simp add: ends_with_newline_def)
  have "splice_base_lines (join lines) base h = join ?lines"
  proof -
    have clamp: "min (sn_start ?c) (length lines) = sn_start ?c" "min (max (sn_start ?c) (sn_end ?c)) (length lines) = sn_end ?c"
      "min (sn_start ?b) (length (text_rows base)) = sn_start ?b" "min (max (sn_start ?b) (sn_end ?b)) (length (text_rows base)) = sn_end ?b"
      using h by (auto simp: span_ok_def)
    have rows: "take (sn_end ?b - sn_start ?b) (drop (sn_start ?b) (map (\<lambda>r. (r, [10])) (text_rows base))) = map (\<lambda>r. (r, [10])) ?rows"
      by (simp add: sub_rows_def take_map drop_map)
    have "splice_base_lines (join lines) base h = join (if sn_end ?c = length lines \<and> ?lines \<noteq> []
        then butlast ?lines @ [(fst (last ?lines), if \<not> ends_with_newline base then [] else if snd (last ?lines) = [] then ?t else snd (last ?lines))] else ?lines)"
      unfolding splice_base_lines_def Let_def join_def [symmetric] terminated_lines_join [OF lines] text_render(2) [OF base] length_map clamp rows ..
    then show ?thesis unfolding keep_last [OF whole nl] .
  qed
  with whole mid(2) show thesis by (intro that [of ?lines]) (simp_all add: replace_rows_def take_map drop_map)
qed

text \<open>Reverting the hunks from the last to the first leaves the rows before the first of them and takes the others from the base.\<close>

lemma context_rows_drop:
  assumes "context_rows (\<lambda>a b. is_equals a b Default) ys xs i j k l" "k \<le> length ys" "l \<le> length xs"
  shows "take l xs @ drop k ys = take j xs @ drop i ys"
proof -
  define d where "d = k - i"
  have kl: "k = i + d" "l = j + d" and same: "\<And>n. n < d \<Longrightarrow> ys ! (i + n) = xs ! (j + n)"
    using assms(1) by (auto simp: context_rows_def same_run_def d_def)
  have "take d (drop i ys) = take d (drop j xs)" using same assms(2,3) kl by (intro nth_equalityI) auto
  moreover have "drop i ys = take d (drop i ys) @ drop k ys" using append_take_drop_id [of d "drop i ys"] by (simp add: kl add.commute)
  moreover have "take l xs = take j xs @ take d (drop j xs)" by (simp add: kl take_add)
  ultimately show ?thesis by simp
qed

lemma revert_hunks_lines:
  assumes "whole lines" "13 \<notin> set base" "ends_with 10 base"
    and "hunk_path (\<lambda>a b. is_equals a b Default) (text_rows base) (map fst lines) i j hs (length (text_rows base)) (length lines)"
  shows "\<exists>lines'. foldr (\<lambda>h text. splice_base_lines text base h) hs (join lines) = join lines' \<and> whole lines' \<and>
    map fst lines' = take j (map fst lines) @ drop i (text_rows base)"
  using assms(4)
proof (induction hs arbitrary: i j)
  case Nil
  then show ?case using assms(1) context_rows_drop [of "text_rows base" "map fst lines" i j "length (text_rows base)" "length lines"] by auto
next
  case (Cons h hs)
  let ?b = "dh_base_row_range h" and ?c = "dh_new_row_range h" and ?X = "map fst lines" and ?Y = "text_rows base"
  have path: "hunk_path (\<lambda>a b. is_equals a b Default) ?Y ?X (sn_end ?b) (sn_end ?c) hs (length ?Y) (length lines)"
    and ctx: "context_rows (\<lambda>a b. is_equals a b Default) ?Y ?X i j (sn_start ?b) (sn_start ?c)"
    and ok: "span_ok ?b (length ?Y)" "span_ok ?c (length lines)"
    using Cons.prems by (auto simp: Let_def)
  obtain ls where ls: "foldr (\<lambda>h text. splice_base_lines text base h) hs (join lines) = join ls" "whole ls" "map fst ls = take (sn_end ?c) ?X @ drop (sn_end ?b) ?Y"
    using Cons.IH [OF path] by blast
  have "length (map fst ls) \<ge> sn_end ?c" unfolding ls(3) using ok by (simp add: span_ok_def) arith
  then have "span_ok ?c (length ls)" using ok by (simp add: span_ok_def)
  from splice_whole [OF ls(2) assms(2,3) this ok(1)] obtain ls' where ls': "splice_base_lines (join ls) base h = join ls'" "whole ls'"
    "map fst ls' = replace_rows h ?Y (map fst ls)" by metis
  have "replace_rows h ?Y (map fst ls) = take (sn_start ?c) ?X @ sub_rows ?b ?Y @ drop (sn_end ?b) ?Y"
    using ok unfolding ls(3) by (simp add: replace_rows_def span_ok_def min_absorb1)
  also have "sub_rows ?b ?Y @ drop (sn_end ?b) ?Y = drop (sn_start ?b) ?Y"
    using ok append_take_drop_id [of "sn_end ?b - sn_start ?b" "drop (sn_start ?b) ?Y"] by (simp add: sub_rows_def span_ok_def)
  also have "take (sn_start ?c) ?X @ drop (sn_start ?b) ?Y = take j ?X @ drop i ?Y"
    by (rule context_rows_drop [OF ctx]) (use ok in \<open>auto simp: span_ok_def\<close>)
  finally show ?case using ls ls' by auto
qed

lemma hunk_path_mem: "hunk_path eq xs ys i j hs m n \<Longrightarrow> h \<in> set hs \<Longrightarrow> span_ok (dh_base_row_range h) (length xs) \<and> span_ok (dh_new_row_range h) (length ys)"
  by (induction hs arbitrary: i j) (auto simp: Let_def)

lemma disk_lines:
  assumes "no_lone_cr current" "ends_with 10 current"
  obtains lines where "current = join lines" "whole lines" "map fst lines = text_rows (normalize_git_text current)"
  using whole_text [OF assms] rows_of_join [of "terminated_lines current"] by (metis that)

section \<open>The row that is clicked\<close>

definition run_start :: "(nat \<Rightarrow> bool) \<Rightarrow> nat \<Rightarrow> nat \<Rightarrow> bool" where
  "run_start is_changed row chip \<longleftrightarrow> chip \<le> row \<and> (\<forall>r\<in>{chip..row}. is_changed r) \<and> (0 < chip \<longrightarrow> \<not> is_changed (chip - 1))"

definition in_span :: "span \<Rightarrow> nat option \<Rightarrow> bool" where
  "in_span s no = (case no of Some n \<Rightarrow> sn_start s < n \<and> n \<le> sn_end s | None \<Rightarrow> False)"

definition hunk_of :: "file_diff list \<Rightarrow> revert_target \<Rightarrow> diff_hunk" where
  "hunk_of files t = fd_hunks (files ! rt_file t) ! rt_hunk t"

definition target_hunk :: "file_diff list \<Rightarrow> revert_target \<Rightarrow> bool" where
  "target_hunk files t \<longleftrightarrow> rt_file t < length files \<and> fd_change (files ! rt_file t) \<in> {FileModified, FileTypeChanged} \<and>
     \<not> fd_is_binary (files ! rt_file t) \<and> rt_hunk t < length (fd_hunks (files ! rt_file t))"

lemma first_row_of_runD:
  assumes "first_row_of_run row is_changed = Some chip"
  shows "run_start is_changed row chip"
  unfolding run_start_def
proof (intro conjI impI)
  define xs where "xs = rev [0..<row + 1]"
  define n where "n = length (takeWhile is_changed xs)"
  have xs: "length xs = row + 1" "\<And>k. k \<le> row \<Longrightarrow> xs ! k = row - k" by (auto simp: xs_def rev_nth simp del: upt_Suc)
  have n: "0 < n" "n \<le> row + 1" and chip: "chip = last (takeWhile is_changed xs)"
    using assms length_takeWhile_le [of is_changed xs] xs(1) unfolding first_row_of_run_def Let_def xs_def [symmetric] n_def by (auto split: if_splits)
  have nth: "takeWhile is_changed xs ! k = row - k" if "k < n" for k
    using that n xs(2) [of k] takeWhile_nth [of k is_changed xs] by (simp add: n_def)
  have chip': "chip = row - (n - 1)" using nth [of "n - 1"] n chip last_conv_nth [of "takeWhile is_changed xs"] unfolding n_def by fastforce
  show "chip \<le> row" using chip' by simp
  show "\<forall>r\<in>{chip..row}. is_changed r"
  proof
    fix r assume r: "r \<in> {chip..row}"
    then have "row - r < n" "row - (row - r) = r" using chip' n by auto
    then have "r \<in> set (takeWhile is_changed xs)" using nth [of "row - r"] nth_mem [of "row - r" "takeWhile is_changed xs"] by (simp add: n_def)
    then show "is_changed r" by (rule set_takeWhileD [THEN conjunct2])
  qed
  assume "0 < chip"
  then have "n < length xs" "xs ! n = chip - 1" using chip' n xs by auto
  then show "\<not> is_changed (chip - 1)" using nth_length_takeWhile [of is_changed xs] by (metis n_def)
qed

lemma hunk_for_new_noD:
  "hunk_for_new_no hunks no = Some k \<Longrightarrow> k < length hunks \<and> in_span (dh_new_row_range (hunks ! k)) no"
  by (auto simp: hunk_for_new_no_def hunk_for_new_line_def usub_def in_span_def Let_def bind_eq_Some_conv split: if_splits)

lemma hunk_for_base_noD:
  "hunk_for_base_no hunks no = Some k \<Longrightarrow> k < length hunks \<and> in_span (dh_base_row_range (hunks ! k)) no"
  by (auto simp: hunk_for_base_no_def hunk_for_base_line_def usub_def in_span_def Let_def bind_eq_Some_conv split: if_splits)

lemma revertable_fileD:
  "revertable_file anchors files row = Some k \<Longrightarrow> k < length files \<and> fd_change (files ! k) \<in> {FileModified, FileTypeChanged} \<and> \<not> fd_is_binary (files ! k)"
  by (auto simp: revertable_file_def Let_def bind_eq_Some_conv split: if_splits)

lemmas revert_dests = first_row_of_runD hunk_for_new_noD hunk_for_base_noD revertable_fileD

lemma unified_target:
  assumes "unified_revert_target rows anchors files row = Some t"
  shows "row < length rows \<and> target_hunk files t \<and>
    (dr_kind (rows ! row) = RowAdded \<and> in_span (dh_new_row_range (hunk_of files t)) (dr_new_no (rows ! row)) \<or>
     dr_kind (rows ! row) = RowRemoved \<and> in_span (dh_base_row_range (hunk_of files t)) (dr_old_no (rows ! row))) \<and>
    run_start (\<lambda>r. is_changed_row (rows ! r)) row (rt_chip_row t)"
  using assms by (cases "dr_kind (rows ! row)") (auto simp: unified_revert_target_def target_hunk_def hunk_of_def Let_def bind_eq_Some_conv
      dest!: revert_dests split: if_splits)

lemma split_target:
  assumes "split_revert_target rows anchors files row = Some t"
  shows "row < length rows \<and> target_hunk files t \<and>
    (\<exists>left right. rows ! row = SplitPair left right \<and>
      (hc_kind right = CellAdded \<and> in_span (dh_new_row_range (hunk_of files t)) (hc_no right) \<or>
       hc_kind left = CellRemoved \<and> in_span (dh_base_row_range (hunk_of files t)) (hc_no left))) \<and>
    run_start (\<lambda>r. is_changed_pair (rows ! r)) row (rt_chip_row t)"
  using assms by (auto simp: split_revert_target_def target_hunk_def hunk_of_def Let_def bind_eq_Some_conv
      dest!: revert_dests split: if_splits split_row.splits)

section \<open>Properties\<close>




lemma sample_disk:
  "normalize_git_text [97, 13, 10, 98, 32, 100, 13, 10] = [97, 10, 98, 32, 100, 10]" "no_lone_cr [97, 13, 10, 98, 32, 100, 13, 10]"
  "ends_with 10 [97, 13, 10, 98, 32, 100, 13, 10]" "13 \<notin> set [97, 10, 98, 32, 99, 10 :: uchar]" "ends_with 10 [97, 10, 98, 32, 99, 10]"
  by (simp_all add: normalize_git_text_def ends_with_def)

lemma sample_inputs:
  "inner_inputs (prefix_engine line_eq) (prefix_engine (=)) (prefix_engine (=)) [97, 10, 98, 32, 99, 10] (normalize_git_text [97, 13, 10, 98, 32, 100, 13, 10])"
  unfolding sample_disk by (intro inner_inputs_prefix) (simp_all add: sample_size)





end
