(* ===== verification/Block_Tracker.thy ===== *)
theory Block_Tracker
  imports By_Line
begin

text \<open>
  \<open>crates/paneflow-textdiff/src/tracker.rs\<close>: the incremental tracker behind the change markers of the
  code view. It keeps the blocks in which the document differs from its base; an edit only marks a
  block dirty and shifts the later ones (\<open>range_changed\<close>), and a refresh compares again only the dirty
  regions (\<open>refresh_dirty\<close>).

  A \<open>Range<u32>\<close> is the pair of its bounds. Casts to \<open>u32\<close> wrap (\<open>as_u32\<close>), \<open>u32\<close> and \<open>u64\<close> sums that
  the debug build checks panic on overflow (\<open>u32_add\<close>, \<open>u64_add\<close>), and the \<open>i64\<close> arithmetic of
  \<open>range_changed\<close>, which cannot overflow on sums of a few \<open>u32\<close> values, is on \<open>int\<close>.
\<close>

section \<open>Blocks\<close>

definition TOO_BIG_BLOCK_LINES :: nat where
  "TOO_BIG_BLOCK_LINES = 100000"

datatype BlockKind = Added | Modified | Deleted

type_synonym u32_range = "nat \<times> nat"

abbreviation ur_is_empty :: "u32_range \<Rightarrow> bool" where
  "ur_is_empty r \<equiv> \<not> fst r < snd r"

record block =
  bl_lines :: u32_range
  bl_base_lines :: u32_range
  bl_dirty :: bool
  bl_too_big :: bool

definition block_new :: "u32_range \<Rightarrow> u32_range \<Rightarrow> bool \<Rightarrow> bool \<Rightarrow> block" where
  "block_new lines base_lines dirty too_big =
     \<lparr>bl_lines = lines, bl_base_lines = base_lines, bl_dirty = dirty, bl_too_big = too_big\<rparr>"

definition block_kind :: "block \<Rightarrow> BlockKind" where
  "block_kind b = (if ur_is_empty (bl_lines b) then Deleted
     else if ur_is_empty (bl_base_lines b) then Added else Modified)"

definition block_is_empty :: "block \<Rightarrow> bool" where
  "block_is_empty b \<longleftrightarrow> ur_is_empty (bl_lines b) \<and> ur_is_empty (bl_base_lines b)"

definition touches :: "block \<Rightarrow> block \<Rightarrow> bool" where
  "touches b next \<longleftrightarrow> fst (bl_lines next) \<le> snd (bl_lines b) \<or> fst (bl_base_lines next) \<le> snd (bl_base_lines b)"

definition covers_line :: "block \<Rightarrow> nat \<Rightarrow> bool option" where
  "covers_line b line_no = (case block_kind b of
     Deleted \<Rightarrow> if line_no = fst (bl_lines b) then Some True
       else do { succ \<leftarrow> u32_add line_no 1; Some (succ = fst (bl_lines b)) }
   | _ \<Rightarrow> Some (fst (bl_lines b) \<le> line_no \<and> line_no < snd (bl_lines b)))"

section \<open>The tracker\<close>

record tracker_stats =
  ts_rediffs :: nat
  ts_full_rediffs :: nat
  ts_diffed_lines :: nat

record block_tracker =
  bt_active :: bool
  bt_blocks :: "block list"
  bt_stats :: tracker_stats

definition stats_default :: tracker_stats where
  "stats_default = \<lparr>ts_rediffs = 0, ts_full_rediffs = 0, ts_diffed_lines = 0\<rparr>"

definition inactive :: block_tracker where
  "inactive = \<lparr>bt_active = False, bt_blocks = [], bt_stats = stats_default\<rparr>"

definition reset :: "block_tracker \<Rightarrow> nat \<Rightarrow> nat \<Rightarrow> block_tracker" where
  "reset t doc_lines base_lines =
     (if \<not> bt_active t then t
      else t\<lparr>bt_blocks := [block_new (0, doc_lines) (0, base_lines) True False]\<rparr>)"

definition fresh :: "nat \<Rightarrow> nat \<Rightarrow> block_tracker" where
  "fresh doc_lines base_lines =
     reset \<lparr>bt_active = True, bt_blocks = [], bt_stats = stats_default\<rparr> doc_lines base_lines"

definition is_dirty :: "block_tracker \<Rightarrow> bool" where
  "is_dirty t \<longleftrightarrow> list_ex bl_dirty (bt_blocks t)"

definition block_at :: "block_tracker \<Rightarrow> nat \<Rightarrow> (nat \<times> block) option option" where
  "block_at t line_no = find_or_panic (\<lambda>(_, b). covers_line b line_no) (enumerate 0 (bt_blocks t))"

section \<open>Edits\<close>

definition clamp_line :: "int \<Rightarrow> nat" where
  "clamp_line v = (if max v 0 < 2 ^ 32 then nat (max v 0) else 2 ^ 32 - 1)"

definition clamp_range :: "u32_range \<Rightarrow> nat \<Rightarrow> nat \<times> nat" where
  "clamp_range r len = (let e = min (snd r) len in (min (fst r) e, e))"

definition shift_range :: "u32_range \<Rightarrow> int \<Rightarrow> u32_range" where
  "shift_range r delta = (clamp_line (int (fst r) + delta), clamp_line (int (snd r) + delta))"

record partition_state =
  ps_next :: "block list"
  ps_affected :: "(block \<times> block) option"
  ps_shift_before :: int
  ps_any_too_big :: bool
  ps_after :: "block list"

definition partition_block :: "nat \<Rightarrow> nat \<Rightarrow> block \<Rightarrow> partition_state \<Rightarrow> partition_state" where
  "partition_block start_line end_line b s =
     (if snd (bl_lines b) < start_line then
        s\<lparr>ps_shift_before := int (snd (bl_base_lines b)) - int (snd (bl_lines b)), ps_next := ps_next s @ [b]\<rparr>
      else if fst (bl_lines b) > end_line then s\<lparr>ps_after := ps_after s @ [b]\<rparr>
      else s\<lparr>ps_any_too_big := ps_any_too_big s \<or> bl_too_big b,
             ps_affected := (case ps_affected s of None \<Rightarrow> Some (b, b) | Some (first, _) \<Rightarrow> Some (first, b))\<rparr>)"

definition affected_range :: "nat \<Rightarrow> nat \<Rightarrow> int \<Rightarrow> partition_state \<Rightarrow> int \<times> int \<times> int \<times> int" where
  "affected_range start_line end_line delta s =
     (case ps_affected s of
        None \<Rightarrow> (int start_line, int end_line + delta, int start_line + ps_shift_before s,
                 int end_line + ps_shift_before s)
      | Some (first, last_block) \<Rightarrow>
          let (range_start, base_start) =
                (if fst (bl_lines first) \<le> start_line
                 then (int (fst (bl_lines first)), int (fst (bl_base_lines first)))
                 else (int start_line, int start_line + int (fst (bl_base_lines first)) - int (fst (bl_lines first))));
              (range_end, base_end) =
                (if snd (bl_lines last_block) \<ge> end_line
                 then (int (snd (bl_lines last_block)) + delta, int (snd (bl_base_lines last_block)))
                 else (int end_line + delta,
                       int end_line + int (snd (bl_base_lines last_block)) - int (snd (bl_lines last_block))))
          in (range_start, range_end, base_start, base_end))"

definition range_changed :: "block_tracker \<Rightarrow> nat \<Rightarrow> nat \<Rightarrow> nat \<Rightarrow> block_tracker option" where
  "range_changed t start_line before_len after_len =
     (if \<not> bt_active t then Some t
      else do {
        end_line \<leftarrow> u32_add start_line before_len;
        let delta = int after_len - int before_len;
        let s = fold (partition_block start_line end_line) (bt_blocks t)
          \<lparr>ps_next = [], ps_affected = None, ps_shift_before = 0, ps_any_too_big = False, ps_after = []\<rparr>;
        let (range_start, range_end, base_start, base_end) = affected_range start_line end_line delta s;
        let new = block_new (clamp_line range_start, clamp_line (max range_end range_start))
          (clamp_line base_start, clamp_line (max base_end base_start)) True (ps_any_too_big s);
        let after = map (\<lambda>b. b\<lparr>bl_lines := shift_range (bl_lines b) delta\<rparr>) (ps_after s);
        Some (t\<lparr>bt_blocks := ps_next s @ [new] @ after\<rparr>)
      })"

section \<open>Refresh\<close>

text \<open>
  The two loops of \<open>trimmed_block\<close> are those of \<open>expand_forward\<close> and \<open>expand_backward\<close> on the two slices.
\<close>

definition trimmed_block :: "ustr list \<Rightarrow> ustr list \<Rightarrow> nat \<times> nat \<Rightarrow> nat \<times> nat \<Rightarrow> ComparisonPolicy \<Rightarrow>
    block option option" where
  "trimmed_block doc_slice base_slice doc_range base_range policy = do {
     let eq = (\<lambda>a b. is_equals a b policy);
     prefix \<leftarrow> expand_forward eq doc_slice base_slice 0 0 (length doc_slice) (length base_slice);
     suffix \<leftarrow> expand_backward eq doc_slice base_slice prefix prefix (length doc_slice) (length base_slice);
     doc_end \<leftarrow> usub (snd doc_range) suffix;
     base_end \<leftarrow> usub (snd base_range) suffix;
     let b = block_new (as_u32 (fst doc_range + prefix), as_u32 doc_end)
       (as_u32 (fst base_range + prefix), as_u32 base_end) False True;
     Some (if block_is_empty b then None else Some b)
   }"

definition merge_group :: "block list \<Rightarrow> block" where
  "merge_group grp =
     (let first = hd grp; last_block = last grp
      in block_new (fst (bl_lines first), max (snd (bl_lines last_block)) (fst (bl_lines first)))
           (fst (bl_base_lines first), max (snd (bl_base_lines last_block)) (fst (bl_base_lines first)))
           True (list_ex bl_too_big grp))"

definition count_rediff :: "tracker_stats \<Rightarrow> bool \<Rightarrow> nat \<Rightarrow> tracker_stats option" where
  "count_rediff st full lines = do {
     rediffs \<leftarrow> u32_add (ts_rediffs st) 1;
     full_rediffs \<leftarrow> (if full then u32_add (ts_full_rediffs st) 1 else Some (ts_full_rediffs st));
     diffed \<leftarrow> u64_add (ts_diffed_lines st) lines;
     Some \<lparr>ts_rediffs = rediffs, ts_full_rediffs = full_rediffs, ts_diffed_lines = diffed\<rparr>
   }"

definition flush_group :: "line diff_engine \<Rightarrow> ustr list \<Rightarrow> ustr list \<Rightarrow> ComparisonPolicy \<Rightarrow>
    tracker_stats \<Rightarrow> block list \<Rightarrow> block list \<Rightarrow> (tracker_stats \<times> block list) option" where
  "flush_group engine doc_lines base_lines policy st grp out =
     (if grp = [] then Some (st, out)
      else if \<not> list_ex bl_dirty grp then Some (st, out @ grp)
      else let merged = merge_group grp in
        if block_is_empty merged then Some (st, out)
        else do {
          let doc_range = clamp_range (bl_lines merged) (length doc_lines);
          let base_range = clamp_range (bl_base_lines merged) (length base_lines);
          doc_slice \<leftarrow> slice_or_panic doc_lines (fst doc_range) (snd doc_range);
          base_slice \<leftarrow> slice_or_panic base_lines (fst base_range) (snd base_range);
          if bl_too_big merged \<or> length doc_slice > TOO_BIG_BLOCK_LINES \<or> length base_slice > TOO_BIG_BLOCK_LINES
          then do {
            b \<leftarrow> trimmed_block doc_slice base_slice doc_range base_range policy;
            Some (st, case b of None \<Rightarrow> out | Some b \<Rightarrow> out @ [b])
          }
          else do {
            st \<leftarrow> count_rediff st
              (snd doc_range - fst doc_range = length doc_lines \<and> snd base_range - fst base_range = length base_lines)
              (length doc_slice + length base_slice);
            ranges \<leftarrow> compare_lines engine base_slice doc_slice policy;
            Some (st, out @ map (\<lambda>r. block_new
              (as_u32 (fst doc_range + r_start2 r), as_u32 (fst doc_range + r_end2 r))
              (as_u32 (fst base_range + r_start1 r), as_u32 (fst base_range + r_end1 r)) False False) ranges)
          }
        })"

definition refresh_step :: "line diff_engine \<Rightarrow> ustr list \<Rightarrow> ustr list \<Rightarrow> ComparisonPolicy \<Rightarrow>
    tracker_stats \<times> block list \<times> block list \<Rightarrow> block \<Rightarrow> (tracker_stats \<times> block list \<times> block list) option" where
  "refresh_step engine doc_lines base_lines policy s b = (case s of (st, grp, refreshed) \<Rightarrow>
     if grp \<noteq> [] \<and> \<not> touches (last grp) b then do {
       (st, refreshed) \<leftarrow> flush_group engine doc_lines base_lines policy st grp refreshed;
       Some (st, [b], refreshed)
     } else Some (st, grp @ [b], refreshed))"

definition refresh_dirty :: "line diff_engine \<Rightarrow> block_tracker \<Rightarrow> ustr list \<Rightarrow> ustr list \<Rightarrow> ComparisonPolicy \<Rightarrow>
    (bool \<times> block_tracker) option" where
  "refresh_dirty engine t doc_lines base_lines policy =
     (if \<not> bt_active t \<or> \<not> is_dirty t then Some (False, t)
      else if list_all bl_dirty (bt_blocks t) \<and> length doc_lines = length base_lines \<and> doc_lines = base_lines
      then Some (True, t\<lparr>bt_blocks := []\<rparr>)
      else do {
        (st, grp, refreshed) \<leftarrow> for_each (refresh_step engine doc_lines base_lines policy)
          (bt_stats t, [], []) (bt_blocks t);
        (st, refreshed) \<leftarrow> flush_group engine doc_lines base_lines policy st grp refreshed;
        Some (True, t\<lparr>bt_blocks := refreshed, bt_stats := st\<rparr>)
      })"

section \<open>The blocks as a path through base and document\<close>

text \<open>
  \<open>block_path eq base doc i j bs m n\<close>: between the blocks, base and document advance in lockstep over
  equal lines. Unlike \<open>diff_path\<close> it allows empty and adjacent blocks, which edits produce.
\<close>

fun block_path :: "('a \<Rightarrow> 'b \<Rightarrow> bool) \<Rightarrow> 'a list \<Rightarrow> 'b list \<Rightarrow> nat \<Rightarrow> nat \<Rightarrow> block list \<Rightarrow> nat \<Rightarrow> nat \<Rightarrow> bool" where
  "block_path eq base doc i j [] m n \<longleftrightarrow>
     i \<le> m \<and> j \<le> n \<and> m - i = n - j \<and> same_run eq base doc i j (m - i)"
| "block_path eq base doc i j (b # bs) m n \<longleftrightarrow>
     i \<le> fst (bl_base_lines b) \<and> j \<le> fst (bl_lines b) \<and> fst (bl_base_lines b) - i = fst (bl_lines b) - j \<and>
     same_run eq base doc i j (fst (bl_base_lines b) - i) \<and>
     fst (bl_base_lines b) \<le> snd (bl_base_lines b) \<and> fst (bl_lines b) \<le> snd (bl_lines b) \<and>
     block_path eq base doc (snd (bl_base_lines b)) (snd (bl_lines b)) bs m n"

definition path_end :: "nat \<Rightarrow> nat \<Rightarrow> block list \<Rightarrow> nat \<times> nat" where
  "path_end i j bs = (if bs = [] then (i, j) else (snd (bl_base_lines (last bs)), snd (bl_lines (last bs))))"

lemma path_end_simps [simp]:
  "path_end i j [] = (i, j)"
  "path_end i j (b # bs) = path_end (snd (bl_base_lines b)) (snd (bl_lines b)) bs"
  by (simp_all add: path_end_def)

lemma block_path_bounds:
  "block_path eq base doc i j bs m n \<Longrightarrow> i \<le> m \<and> j \<le> n \<and> m \<le> length base \<and> n \<le> length doc"
proof (induction bs arbitrary: i j)
  case Nil
  then show ?case by (auto simp: same_run_def)
next
  case (Cons b bs)
  from Cons.IH [of "snd (bl_base_lines b)" "snd (bl_lines b)"] Cons.prems show ?case by auto
qed

lemma block_path_append:
  "block_path eq base doc i j (bs @ cs) m n \<Longrightarrow> path_end i j bs = (p, q) \<Longrightarrow>
   block_path eq base doc i j bs p q \<and> block_path eq base doc p q cs m n"
proof (induction bs arbitrary: i j)
  case Nil
  then show ?case using block_path_bounds [of eq base doc i j cs m n] by auto
qed auto

lemma block_path_join:
  "block_path eq base doc i j bs p q \<Longrightarrow> block_path eq base doc p q cs m n \<Longrightarrow> cs \<noteq> [] \<Longrightarrow>
   block_path eq base doc i j (bs @ cs) m n"
proof (induction bs arbitrary: i j)
  case Nil
  then obtain c cs' where cs: "cs = c # cs'" by (cases cs) auto
  let ?s = "fst (bl_base_lines c)"
  have "same_run eq base doc i j (?s - i)"
    using Nil cs by (intro same_run_joinI [of eq base doc i j p q ?s]) auto
  with Nil cs show ?case by auto
qed auto

text \<open>The gap behind a position can be split at any line of the document before the next block.\<close>

lemma block_path_gap:
  assumes "block_path eq base doc i j bs m n" "j \<le> e" "bs \<noteq> [] \<Longrightarrow> e \<le> fst (bl_lines (hd bs))"
    "bs = [] \<Longrightarrow> e \<le> n"
  shows "same_run eq base doc i j (e - j) \<and> block_path eq base doc (i + (e - j)) e bs m n"
proof -
  obtain k where k: "e = j + k" using assms(2) by (metis le_Suc_ex)
  define s t where "s = (if bs = [] then m else fst (bl_base_lines (hd bs)))"
    and "t = (if bs = [] then n else fst (bl_lines (hd bs)))"
  have st: "i \<le> s" "j \<le> t" "s - i = t - j" "same_run eq base doc i j (s - i)" "e \<le> t"
    using assms by (cases bs; auto simp: s_def t_def)+
  then obtain l where l: "s = i + k + l" "t = j + k + l"
    using k by (metis add_diff_cancel_left' add.assoc le_add_diff_inverse le_iff_add)
  with st have "same_run eq base doc i j k" "same_run eq base doc (i + k) (j + k) l"
    by (simp_all add: same_run_add add.assoc)
  with assms(1) k l show ?thesis
    by (cases bs) (auto simp: s_def t_def)
qed

text \<open>Edits outside the stretch a path runs over do not matter; edits before it shift it.\<close>

definition shift_block :: "int \<Rightarrow> block \<Rightarrow> block" where
  "shift_block delta b = b\<lparr>bl_lines := shift_range (bl_lines b) delta\<rparr>"

lemma shift_block_sel [simp]:
  "bl_base_lines (shift_block d b) = bl_base_lines b" "bl_dirty (shift_block d b) = bl_dirty b"
  by (simp_all add: shift_block_def)

lemma block_path_prefix:
  assumes "block_path eq base doc i j bs m n" "n \<le> length doc'" "\<And>k. k < n \<Longrightarrow> doc' ! k = doc ! k"
  shows "block_path eq base doc' i j bs m n"
  using assms
proof (induction bs arbitrary: i j)
  case Nil
  then show ?case by (auto intro!: same_run_cong [of eq base doc i j _ j doc'])
next
  case (Cons b bs)
  from Cons.prems(1) have path: "block_path eq base doc (snd (bl_base_lines b)) (snd (bl_lines b)) bs m n" by simp
  then have "snd (bl_lines b) \<le> n" by (auto dest: block_path_bounds)
  with Cons path show ?case
    by (auto intro!: same_run_cong [of eq base doc i j _ j doc'])
qed

lemma clamp_line_nat [simp]: "v < 2 ^ 32 \<Longrightarrow> clamp_line (int v) = v"
  by (simp add: clamp_line_def)

lemma clamp_line_int: "int v = w \<Longrightarrow> v < 2 ^ 32 \<Longrightarrow> clamp_line w = v"
  using clamp_line_nat by blast

lemma shifted_index: "int j' = int j + delta \<Longrightarrow> nat (int (j + k) + delta) = j' + k"
  by simp

lemma block_path_suffix:
  assumes "block_path eq base doc i j bs m n" "int j' = int j + delta" "int n' = int n + delta"
    and "n' \<le> length doc'" "n' < 2 ^ 32" "\<And>k. j \<le> k \<Longrightarrow> k < n \<Longrightarrow> doc' ! nat (int k + delta) = doc ! k"
  shows "block_path eq base doc' i j' (map (shift_block delta) bs) m n'"
  using assms
proof (induction bs arbitrary: i j j')
  case Nil
  have "doc' ! (j' + k) = doc ! (j + k)" if "k < m - i" for k
    using Nil.prems(1) Nil.prems(6) [of "j + k"] shifted_index [OF Nil.prems(2)] that by auto
  with Nil show ?case by (auto intro!: same_run_cong [of eq base doc i j _ j' doc'])
next
  case (Cons b bs)
  obtain s e where b: "bl_lines b = (s, e)" by (cases "bl_lines b")
  have path: "block_path eq base doc (snd (bl_base_lines b)) e bs m n" and le: "j \<le> s" "s \<le> e"
    using Cons.prems(1) b by auto
  then have "e \<le> n" by (auto dest: block_path_bounds)
  define s' e' where "s' = nat (int s + delta)" and "e' = nat (int e + delta)"
  have s': "int s' = int s + delta" "int e' = int e + delta" "e' \<le> n'" "s' \<le> e'"
    using le Cons.prems(2,3) \<open>e \<le> n\<close> by (auto simp: s'_def e'_def)
  then have lines: "bl_lines (shift_block delta b) = (s', e')"
    using Cons.prems(5) by (simp add: shift_block_def shift_range_def b clamp_line_int)
  have "doc' ! (j' + k) = doc ! (j + k)" if "k < s - j" for k
    using that \<open>e \<le> n\<close> le Cons.prems(6) [of "j + k"] shifted_index [OF Cons.prems(2)] by auto
  moreover have "block_path eq base doc' (snd (bl_base_lines b)) e' (map (shift_block delta) bs) m n'"
    using Cons.prems(3-6) le by (intro Cons.IH [OF path s'(2)]) auto
  moreover have "s' - j' = s - j" "j' \<le> s'" using s'(1) Cons.prems(2) le by auto
  ultimately show ?case
    using Cons.prems(1,4) s'(3,4) lines b
    by (auto intro!: same_run_cong [of eq base doc i j _ j' doc'])
qed

section \<open>Edits keep the path\<close>

definition before_edit :: "nat \<Rightarrow> block \<Rightarrow> bool" where
  "before_edit s b \<longleftrightarrow> snd (bl_lines b) < s"

definition after_edit :: "nat \<Rightarrow> nat \<Rightarrow> block \<Rightarrow> bool" where
  "after_edit s e b \<longleftrightarrow> \<not> before_edit s b \<and> e < fst (bl_lines b)"

definition hit_by_edit :: "nat \<Rightarrow> nat \<Rightarrow> block \<Rightarrow> bool" where
  "hit_by_edit s e b \<longleftrightarrow> \<not> before_edit s b \<and> \<not> e < fst (bl_lines b)"

lemmas edit_defs = before_edit_def after_edit_def hit_by_edit_def

lemma partition_fold:
  "fold (partition_block s e) bs st =
     \<lparr>ps_next = ps_next st @ filter (before_edit s) bs,
      ps_affected = (let hit = filter (hit_by_edit s e) bs in
        if hit = [] then ps_affected st
        else Some (case ps_affected st of None \<Rightarrow> hd hit | Some (f, _) \<Rightarrow> f, last hit)),
      ps_shift_before = (let before = filter (before_edit s) bs in
        if before = [] then ps_shift_before st
        else int (snd (bl_base_lines (last before))) - int (snd (bl_lines (last before)))),
      ps_any_too_big = (ps_any_too_big st \<or> list_ex bl_too_big (filter (hit_by_edit s e) bs)),
      ps_after = ps_after st @ filter (after_edit s e) bs\<rparr>"
proof (induction bs arbitrary: st)
  case Nil
  then show ?case by simp
next
  case (Cons b bs)
  then show ?case
    by (auto simp: partition_block_def edit_defs Let_def split: option.splits)
qed

lemma block_path_starts:
  "block_path eq base doc i j bs m n \<Longrightarrow> b \<in> set bs \<Longrightarrow> j \<le> fst (bl_lines b) \<and> fst (bl_lines b) \<le> snd (bl_lines b)"
proof (induction bs arbitrary: i j)
  case Nil
  then show ?case by simp
next
  case (Cons c cs)
  from Cons.prems have c: "j \<le> fst (bl_lines c)" "fst (bl_lines c) \<le> snd (bl_lines c)"
    "block_path eq base doc (snd (bl_base_lines c)) (snd (bl_lines c)) cs m n" by auto
  show ?case
  proof (cases "b = c")
    case True
    with c show ?thesis by simp
  next
    case False
    with Cons.prems Cons.IH [OF c(3)] c show ?thesis by auto
  qed
qed

lemma filter_split:
  assumes "block_path eq base doc i j bs m n" "s \<le> e"
  shows "bs = filter (before_edit s) bs @ filter (hit_by_edit s e) bs @ filter (after_edit s e) bs"
  using assms
proof (induction bs arbitrary: i j)
  case Nil
  then show ?case by simp
next
  case (Cons b bs)
  let ?path = "block_path eq base doc (snd (bl_base_lines b)) (snd (bl_lines b)) bs m n"
  have path: ?path using Cons.prems by simp
  note IH = Cons.IH [OF path Cons.prems(2)]
  have later: "snd (bl_lines b) \<le> fst (bl_lines c) \<and> fst (bl_lines c) \<le> snd (bl_lines c)" if "c \<in> set bs" for c
    using block_path_starts [OF path that] .
  have b: "fst (bl_lines b) \<le> snd (bl_lines b)" using Cons.prems by simp
  consider "before_edit s b" | "hit_by_edit s e b" | "after_edit s e b" by (auto simp: edit_defs)
  then show ?case
  proof cases
    case 1
    then show ?thesis using IH by (simp add: edit_defs)
  next
    case 2
    then have "filter (before_edit s) bs = []"
      using later by (fastforce simp: edit_defs filter_empty_conv)
    moreover have "\<not> before_edit s b" "\<not> after_edit s e b" using 2 by (auto simp: edit_defs)
    ultimately show ?thesis using 2 IH by simp
  next
    case 3
    then have "\<forall>c\<in>set bs. after_edit s e c"
      using later b Cons.prems(2) by (fastforce simp: edit_defs)
    then have "filter (before_edit s) bs = []" "filter (hit_by_edit s e) bs = []" "filter (after_edit s e) bs = bs"
      by (auto simp: edit_defs filter_empty_conv filter_id_conv)
    moreover have "\<not> before_edit s b" "\<not> hit_by_edit s e b" using 3 by (auto simp: edit_defs)
    ultimately show ?thesis using 3 by simp
  qed
qed

lemma affected_range_path:
  assumes path: "block_path eq base doc p q (hit @ rest) m n"
    and edit: "q \<le> s" "s \<le> e" "e \<le> n"
    and hit: "\<forall>b\<in>set hit. hit_by_edit s e b" and rest: "\<forall>b\<in>set rest. after_edit s e b"
    and st: "ps_affected st = (if hit = [] then None else Some (hd hit, last hit))"
      "ps_shift_before st = int p - int q"
  shows "\<exists>rs re bs be. affected_range s e delta st = (int rs, int re + delta, int bs, int be) \<and>
    q \<le> rs \<and> rs \<le> s \<and> e \<le> re \<and> bs = p + (rs - q) \<and> bs \<le> be \<and> same_run eq base doc p q (rs - q) \<and>
    block_path eq base doc be re rest m n"
proof (cases "hit = []")
  case True
  have next_start: "e \<le> fst (bl_lines (hd rest))" if "rest \<noteq> []"
    using rest that by (cases rest) (auto simp: edit_defs)
  have start: "same_run eq base doc p q (s - q) \<and> block_path eq base doc (p + (s - q)) s rest m n"
    using path True edit next_start by (intro block_path_gap) auto
  have "block_path eq base doc (p + (s - q) + (e - s)) e rest m n"
    using block_path_gap [OF conjunct2 [OF start] edit(2) next_start edit(3)] by simp
  with start True st edit show ?thesis
    by (intro exI [of _ s] exI [of _ e] exI [of _ "p + (s - q)"] exI [of _ "p + (s - q) + (e - s)"])
      (auto simp: affected_range_def)
next
  case False
  then obtain f hit' where f: "hit = f # hit'" by (cases hit) auto
  define l where "l = last hit"
  define rs where "rs = min (fst (bl_lines f)) s"
  define re where "re = max (snd (bl_lines l)) e"
  have path_f: "p \<le> fst (bl_base_lines f)" "q \<le> fst (bl_lines f)" "fst (bl_base_lines f) - p = fst (bl_lines f) - q"
    using path f by auto
  have start: "same_run eq base doc p q (rs - q) \<and> block_path eq base doc (p + (rs - q)) rs (hit @ rest) m n"
    using path edit path_f by (intro block_path_gap) (auto simp: f rs_def)
  have ends: "path_end (p + (rs - q)) rs hit = (snd (bl_base_lines l), snd (bl_lines l))"
    by (simp add: path_end_def False l_def)
  have "block_path eq base doc (p + (rs - q)) rs hit (snd (bl_base_lines l)) (snd (bl_lines l))"
    and behind: "block_path eq base doc (snd (bl_base_lines l)) (snd (bl_lines l)) rest m n"
    using block_path_append [OF conjunct2 [OF start] ends] by auto
  then have le: "p + (rs - q) \<le> snd (bl_base_lines l)"
    by (auto dest: block_path_bounds)
  have "snd (bl_lines l) \<le> n" using behind by (auto dest: block_path_bounds)
  moreover have "re \<le> fst (bl_lines (hd rest))" if "rest \<noteq> []"
    using behind rest that by (cases rest) (auto simp: re_def edit_defs)
  ultimately have tail: "block_path eq base doc (snd (bl_base_lines l) + (re - snd (bl_lines l))) re rest m n"
    using block_path_gap [OF behind, of re] edit by (auto simp: re_def)
  have "affected_range s e delta st = (int rs, int re + delta, int (p + (rs - q)),
      int (snd (bl_base_lines l) + (re - snd (bl_lines l))))"
  proof -
    have "(if fst (bl_lines f) \<le> s then (int (fst (bl_lines f)), int (fst (bl_base_lines f)))
        else (int s, int s + int (fst (bl_base_lines f)) - int (fst (bl_lines f)))) = (int rs, int (p + (rs - q)))"
      using path_f edit by (auto simp: rs_def)
    moreover have "(if snd (bl_lines l) \<ge> e then (int (snd (bl_lines l)) + delta, int (snd (bl_base_lines l)))
        else (int e + delta, int e + int (snd (bl_base_lines l)) - int (snd (bl_lines l)))) =
        (int re + delta, int (snd (bl_base_lines l) + (re - snd (bl_lines l))))"
      by (auto simp: re_def)
    moreover have "ps_affected st = Some (f, l)" using st(1) False by (simp add: f l_def)
    ultimately show ?thesis
      unfolding affected_range_def by (simp only: option.case prod.case Let_def)
  qed
  moreover have "q \<le> rs" "rs \<le> s" "e \<le> re" using edit path_f by (auto simp: rs_def re_def)
  moreover have "p + (rs - q) \<le> snd (bl_base_lines l) + (re - snd (bl_lines l))" using le by simp
  ultimately show ?thesis
    using start tail by blast
qed

text \<open>
  What holds of a tracker between any two of its operations: its blocks lead through the whole of base
  and document, clean blocks are not empty, and two clean neighbours do not touch.
\<close>

definition clean_apart :: "block list \<Rightarrow> bool" where
  "clean_apart bs \<longleftrightarrow> successively (\<lambda>b c. bl_dirty b \<or> bl_dirty c \<or> \<not> touches b c) bs \<and>
     (\<forall>b\<in>set bs. bl_dirty b \<or> \<not> block_is_empty b)"

definition tracks :: "ComparisonPolicy \<Rightarrow> ustr list \<Rightarrow> ustr list \<Rightarrow> block_tracker \<Rightarrow> bool" where
  "tracks policy doc base t \<longleftrightarrow> bt_active t \<longrightarrow>
     block_path (\<lambda>a b. is_equals a b policy) base doc 0 0 (bt_blocks t) (length base) (length doc) \<and>
     clean_apart (bt_blocks t)"

definition replace_lines :: "ustr list \<Rightarrow> nat \<Rightarrow> nat \<Rightarrow> ustr list \<Rightarrow> ustr list" where
  "replace_lines doc start_line before_len new = take start_line doc @ new @ drop (start_line + before_len) doc"

lemma clean_apart_append:
  "clean_apart (bs @ [b] @ cs) \<longleftrightarrow> clean_apart bs \<and> clean_apart cs" if "bl_dirty b"
  using that by (auto simp: clean_apart_def successively_append_iff successively_Cons)

lemma clean_apart_sub:
  "clean_apart (as @ bs @ cs) \<Longrightarrow> clean_apart as \<and> clean_apart cs"
  by (auto simp: clean_apart_def successively_append_iff)

lemma clean_apart_shift:
  assumes "block_path eq base doc i j bs m n" "int j' = int j + delta" "int n' = int n + delta" "n' < 2 ^ 32"
    and "clean_apart bs"
  shows "clean_apart (map (shift_block delta) bs)"
proof -
  have int_lines: "int (fst (bl_lines (shift_block delta b))) = int (fst (bl_lines b)) + delta \<and>
      int (snd (bl_lines (shift_block delta b))) = int (snd (bl_lines b)) + delta" if "b \<in> set bs" for b
    using assms(1) that assms(2-4)
  proof (induction bs arbitrary: i j j')
    case Nil
    then show ?case by simp
  next
    case (Cons c cs)
    show ?case
    proof (cases "b = c")
      case True
      have "j \<le> fst (bl_lines c)" "fst (bl_lines c) \<le> snd (bl_lines c)" "snd (bl_lines c) \<le> n"
        using Cons.prems(1) by (auto dest: block_path_bounds)
      with True Cons.prems(3-5) show ?thesis
        by (auto simp: shift_block_def shift_range_def clamp_line_def)
    next
      case False
      have "j \<le> snd (bl_lines c)" using Cons.prems(1) by auto
      then show ?thesis
        using False Cons.prems by (intro Cons.IH [of _ _ "nat (int (snd (bl_lines c)) + delta)"]) auto
    qed
  qed
  have "touches (shift_block delta b) (shift_block delta c) = touches b c" if "b \<in> set bs" "c \<in> set bs" for b c
    using int_lines [OF that(1)] int_lines [OF that(2)] unfolding touches_def shift_block_sel by linarith
  moreover have "block_is_empty (shift_block delta b) = block_is_empty b" if "b \<in> set bs" for b
    using int_lines [OF that] unfolding block_is_empty_def shift_block_sel by linarith
  ultimately show ?thesis
    using assms(5) unfolding clean_apart_def successively_map
    by (auto elim!: successively_mono)
qed

lemma range_changed_tracks:
  assumes t: "tracks policy doc base t"
    and edit: "s + before \<le> length doc" "doc' = replace_lines doc s before new"
    and size: "length doc < 2 ^ 32" "length doc' < 2 ^ 32" "length base < 2 ^ 32"
  shows "runs (range_changed t s before (length new)) (tracks policy doc' base)"
proof (cases "bt_active t")
  case False
  then show ?thesis by (simp add: range_changed_def tracks_def)
next
  case True
  let ?eq = "\<lambda>a b. is_equals a b policy"
  define bs e d where "bs = bt_blocks t" and "e = s + before" and "d = int (length new) - int before"
  define B H A where "B = filter (before_edit s) bs" and "H = filter (hit_by_edit s e) bs"
    and "A = filter (after_edit s e) bs"
  define st where "st = fold (partition_block s e) bs
      \<lparr>ps_next = [], ps_affected = None, ps_shift_before = 0, ps_any_too_big = False, ps_after = []\<rparr>"
  from t True have path: "block_path ?eq base doc 0 0 bs (length base) (length doc)" and apart: "clean_apart bs"
    by (auto simp: tracks_def bs_def)
  have split: "bs = B @ H @ A" unfolding B_def H_def A_def using path by (rule filter_split) (simp add: e_def)
  obtain p q where pq: "path_end 0 0 B = (p, q)" by fastforce
  have pathB: "block_path ?eq base doc 0 0 B p q" and pathHA: "block_path ?eq base doc p q (H @ A) (length base) (length doc)"
    using block_path_append [of ?eq base doc 0 0 B "H @ A" "length base" "length doc" p q] pq path split by auto
  have q: "B \<noteq> [] \<Longrightarrow> q < s" "B = [] \<Longrightarrow> p = 0 \<and> q = 0"
    using pq last_in_set [of B] by (auto simp: path_end_def B_def edit_defs split: if_splits)
  then have "q \<le> s" by (cases "B = []") auto
  have st: "ps_affected st = (if H = [] then None else Some (hd H, last H))"
    "ps_shift_before st = int p - int q" "ps_next st = B" "ps_after st = A"
    using q pq by (auto simp: st_def partition_fold Let_def path_end_def B_def [symmetric] H_def [symmetric]
        A_def [symmetric] split: if_splits)
  have "\<exists>rs re b_start b_end. affected_range s e d st = (int rs, int re + d, int b_start, int b_end) \<and>
    q \<le> rs \<and> rs \<le> s \<and> e \<le> re \<and> b_start = p + (rs - q) \<and> b_start \<le> b_end \<and>
    same_run ?eq base doc p q (rs - q) \<and> block_path ?eq base doc b_end re A (length base) (length doc)"
    by (rule affected_range_path [OF pathHA])
      (use \<open>q \<le> s\<close> edit(1) st in \<open>auto simp: e_def H_def A_def\<close>)
  then obtain rs re b_start b_end where aff: "affected_range s e d st = (int rs, int re + d, int b_start, int b_end)"
    and r: "q \<le> rs" "rs \<le> s" "e \<le> re" "b_start = p + (rs - q)" "b_start \<le> b_end"
    and run: "same_run ?eq base doc p q (rs - q)" and pathA: "block_path ?eq base doc b_end re A (length base) (length doc)"
    by blast
  have len: "int (length doc') = int (length doc) + d" and doc: "length (take s doc) = s"
    using edit by (auto simp: replace_lines_def d_def)
  have keep: "doc' ! k = doc ! k" if "k < s" for k
    using edit that by (simp add: replace_lines_def nth_append)
  have moved: "doc' ! nat (int k + d) = doc ! k" if "e \<le> k" "k < length doc" for k
  proof -
    note k = that
    obtain i where i: "k = e + i" using le_Suc_ex [OF k(1)] by blast
    have "int k + d = int (s + (length new + i))" unfolding i d_def e_def by simp
    then have "nat (int k + d) = length (take s doc) + (length new + i)" by (simp only: nat_int doc)
    then have "doc' ! nat (int k + d) = (take s doc @ new @ drop e doc) ! (length (take s doc) + (length new + i))"
      using edit(2) by (simp only: replace_lines_def e_def)
    also have "\<dots> = drop e doc ! i" by (simp only: nth_append_length_plus)
    also have "\<dots> = doc ! k" unfolding i using k(2) i by (intro nth_drop) simp
    finally show ?thesis .
  qed
  define re' where "re' = nat (int re + d)"
  have re': "int re' = int re + d" "rs \<le> re'" "re' \<le> length doc'"
    using r(2,3) len block_path_bounds [OF pathA] by (auto simp: re'_def e_def d_def)
  have pathA': "block_path ?eq base doc' b_end re' (map (shift_block d) A) (length base) (length doc')"
    using moved r(3) size re' len by (intro block_path_suffix [OF pathA]) auto
  have "s \<le> length doc'" using edit by (simp add: replace_lines_def)
  have pathB': "block_path ?eq base doc' 0 0 B p q"
    using keep \<open>q \<le> s\<close> \<open>s \<le> length doc'\<close> by (intro block_path_prefix [OF pathB]) auto
  have run': "same_run ?eq base doc' p q (rs - q)"
    using run keep r(1,2) \<open>s \<le> length doc'\<close> by (auto intro!: same_run_cong [OF run])
  define N where "N = block_new (rs, re') (b_start, b_end) True (ps_any_too_big st)"
  have small: "rs < 2 ^ 32" "re' < 2 ^ 32" "b_start < 2 ^ 32" "b_end < 2 ^ 32"
    using size re' r block_path_bounds [OF pathA] by auto
  have "block_path ?eq base doc' p q ([N] @ map (shift_block d) A) (length base) (length doc')"
    using pathA' run' r re' by (simp add: N_def block_new_def)
  then have "block_path ?eq base doc' 0 0 (B @ [N] @ map (shift_block d) A) (length base) (length doc')"
    by (rule block_path_join [OF pathB']) simp
  moreover have "clean_apart (B @ [N] @ map (shift_block d) A)"
    using clean_apart_sub [of B H A] apart split clean_apart_shift [OF pathA re'(1) len size(2)]
    by (subst clean_apart_append) (auto simp: N_def block_new_def)
  moreover have "range_changed t s before (length new) = Some (t\<lparr>bt_blocks := B @ [N] @ map (shift_block d) A\<rparr>)"
  proof -
    have "u32_add s before = Some e" using edit(1) size(1) by (simp add: u32_add_def e_def)
    moreover have "max (int re + d) (int rs) = int re'" "max (int b_end) (int b_start) = int b_end"
      using re' r(5) by auto
    ultimately show ?thesis
      using True small st aff unfolding range_changed_def Let_def d_def [symmetric]
      by (simp add: bs_def [symmetric] st_def [symmetric] N_def shift_block_def [abs_def])
  qed
  ultimately show ?thesis using True by (simp add: tracks_def)
qed

section \<open>A refresh\<close>

definition blk_range :: "block \<Rightarrow> range" where
  "blk_range b = mk_range (fst (bl_base_lines b)) (snd (bl_base_lines b)) (fst (bl_lines b)) (snd (bl_lines b))"

lemma blk_range_sel [simp]:
  "r_start1 (blk_range b) = fst (bl_base_lines b)" "r_end1 (blk_range b) = snd (bl_base_lines b)"
  "r_start2 (blk_range b) = fst (bl_lines b)" "r_end2 (blk_range b) = snd (bl_lines b)"
  by (simp_all add: blk_range_def)

lemma block_path_clean:
  assumes "block_path eq base doc i j bs p q" "list_all (\<lambda>b. \<not> bl_dirty b) bs" "clean_apart bs"
    and "s \<Longrightarrow> bs \<noteq> [] \<Longrightarrow> i < fst (bl_base_lines (hd bs))"
  shows "diff_path eq base doc s i j (map blk_range bs) p q"
  using assms
proof (induction bs arbitrary: s i j)
  case Nil
  then show ?case unfolding block_path.simps diff_path.simps list.map by blast
next
  case (Cons b bs)
  have "bs \<noteq> [] \<Longrightarrow> \<not> bl_dirty (hd bs)" using Cons.prems(2) by (cases bs) auto
  with Cons have "diff_path eq base doc True (snd (bl_base_lines b)) (snd (bl_lines b)) (map blk_range bs) p q"
    by (intro Cons.IH) (auto simp: clean_apart_def successively_Cons touches_def)
  with Cons.prems show ?case
    by (auto simp: clean_apart_def block_is_empty_def range_wf_def range_is_empty_def)
qed

definition stats_room :: "tracker_stats \<Rightarrow> nat \<Rightarrow> nat \<Rightarrow> bool" where
  "stats_room st k w \<longleftrightarrow> ts_rediffs st + k < 2 ^ 32 \<and> ts_full_rediffs st + k < 2 ^ 32 \<and> ts_diffed_lines st + w < 2 ^ 64"

lemma runs_count_rediff:
  "stats_room st (Suc k) (lines + w) \<Longrightarrow> runs (count_rediff st full lines) (\<lambda>st'. stats_room st' k w)"
  by (auto simp: count_rediff_def wp stats_room_def)

lemma blk_range_new [simp]: "blk_range (block_new (a, b) (c, d) x y) = mk_range c d a b"
  by (simp add: blk_range_def block_new_def)

lemma block_new_sel [simp]:
  "bl_dirty (block_new l b x y) = x" "bl_lines (block_new l b x y) = l" "bl_base_lines (block_new l b x y) = b"
  "bl_too_big (block_new l b x y) = y"
  by (simp_all add: block_new_def)

lemma runs_trimmed_block:
  fixes doc base :: "ustr list"
  assumes le: "a \<le> b" "b \<le> length doc" "c \<le> d" "d \<le> length base" and small: "length doc < 2 ^ 32" "length base < 2 ^ 32"
  shows "runs (trimmed_block (take (b - a) (drop a doc)) (take (d - c) (drop c base)) (a, b) (c, d) policy)
    (\<lambda>r. \<exists>f g. a + f \<le> b - g \<and> c + f \<le> d - g \<and> g \<le> b \<and> g \<le> d \<and>
      same_run (\<lambda>x y. is_equals x y policy) base doc c a f \<and>
      same_run (\<lambda>x y. is_equals x y policy) base doc (d - g) (b - g) g \<and>
      r = (if a + f = b - g \<and> c + f = d - g then None
           else Some (block_new (a + f, b - g) (c + f, d - g) False True)))"
proof -
  define D E where "D = take (b - a) (drop a doc)" and "E = take (d - c) (drop c base)"
  let ?eq = "\<lambda>x y. is_equals x y policy"
  have lens: "length D = b - a" "length E = d - c" using le by (auto simp: D_def E_def)
  have flip: "same_run ?eq base doc (c + j) (a + i) n" if "same_run ?eq D E i j n" for i j n
    using that le is_equals_sym by (auto simp: same_run_def add.assoc D_def E_def)
  have fwd: "runs (expand_forward ?eq D E 0 0 (length D) (length E)) (\<lambda>f.
      f \<le> b - a \<and> f \<le> d - c \<and> same_run ?eq D E 0 0 f)"
    using runs_expand_forward [of 0 "length D" D 0 "length E" E ?eq] lens
    by (auto elim!: runs_mono)
  have bwd: "runs (expand_backward ?eq D E f f (length D) (length E)) (\<lambda>g.
      f + g \<le> b - a \<and> f + g \<le> d - c \<and> same_run ?eq D E (b - a - g) (d - c - g) g)"
    if "f \<le> b - a" "f \<le> d - c" for f
    by (rule runs_mono [OF runs_expand_backward [of f "length D" D f "length E" E ?eq]]) (use lens that in auto)
  show ?thesis
    unfolding trimmed_block_def Let_def D_def [symmetric] E_def [symmetric]
  proof (rule runs_bindI [OF fwd], elim conjE, rule runs_bindI [OF bwd], assumption, assumption, elim conjE)
    fix f g
    assume f: "same_run ?eq D E 0 0 f" and g: "f + g \<le> b - a" "f + g \<le> d - c"
      "same_run ?eq D E (b - a - g) (d - c - g) g"
    have f': "same_run ?eq base doc c a f" using flip [OF f] by simp
    have "c + (d - c - g) = d - g" "a + (b - a - g) = b - g" using g(1,2) le by auto
    then have g': "same_run ?eq base doc (d - g) (b - g) g" using flip [OF g(3)] by simp
    have le': "a + f \<le> b - g" "c + f \<le> d - g" "g \<le> b" "g \<le> d" using g(1,2) le by auto
    then have wrap: "as_u32 (a + f) = a + f" "as_u32 (b - g) = b - g" "as_u32 (c + f) = c + f" "as_u32 (d - g) = d - g"
      using le small by auto
    have empty: "block_is_empty (block_new (a + f, b - g) (c + f, d - g) False True) \<longleftrightarrow> a + f = b - g \<and> c + f = d - g"
      using le' by (auto simp: block_is_empty_def)
    show "runs (do {
       doc_end \<leftarrow> usub (snd (a, b)) g;
       base_end \<leftarrow> usub (snd (c, d)) g;
       Some (if block_is_empty (block_new (as_u32 (fst (a, b) + f), as_u32 doc_end)
            (as_u32 (fst (c, d) + f), as_u32 base_end) False True) then None
          else Some (block_new (as_u32 (fst (a, b) + f), as_u32 doc_end)
            (as_u32 (fst (c, d) + f), as_u32 base_end) False True))
     }) (\<lambda>r. \<exists>f g. a + f \<le> b - g \<and> c + f \<le> d - g \<and> g \<le> b \<and> g \<le> d \<and>
      same_run ?eq base doc c a f \<and> same_run ?eq base doc (d - g) (b - g) g \<and>
      r = (if a + f = b - g \<and> c + f = d - g then None
           else Some (block_new (a + f, b - g) (c + f, d - g) False True)))"
      using f' g' le' by (simp only: runs_bind runs_usub runs_Some fst_conv snd_conv wrap empty) blast
  qed
qed

lemma path_end_pair: "bs \<noteq> [] \<Longrightarrow> path_end i j bs = (snd (bl_base_lines (last bs)), snd (bl_lines (last bs)))"
  by (simp add: path_end_def)

lemma map_blk_range_shifted:
  assumes "\<forall>r\<in>set rs. r_start1 r \<le> r_end1 r \<and> r_start2 r \<le> r_end2 r \<and> a + r_end1 r < 2 ^ 32 \<and> c + r_end2 r < 2 ^ 32"
  shows "map blk_range (map (\<lambda>r. block_new (as_u32 (c + r_start2 r), as_u32 (c + r_end2 r))
      (as_u32 (a + r_start1 r), as_u32 (a + r_end1 r)) False False) rs) = map (move_range a c) rs"
  using assms by (auto simp: move_range_def)

text \<open>
  Flushing one group replaces it by clean blocks that lead from its start to its end.
\<close>

lemma runs_flush_group:
  assumes engine: "engine_ok iw_line line_eq engine"
    and size: "length doc < 2 ^ 32" "length base < 2 ^ 32"
    and path: "block_path (\<lambda>a b. is_equals a b policy) base doc i j grp p q"
    and ends: "grp \<noteq> []" "path_end i j grp = (p, q)"
    and start: "i = fst (bl_base_lines (hd grp))" "j = fst (bl_lines (hd grp))"
    and apart: "clean_apart grp"
    and room: "stats_room st (Suc k) (p - i + (q - j) + w)"
  shows "runs (flush_group engine doc base policy st grp out) (\<lambda>(st', out'). stats_room st' k w \<and>
    (\<exists>new. out' = out @ new \<and> list_all (\<lambda>b. \<not> bl_dirty b) new \<and>
      diff_path (\<lambda>a b. is_equals a b policy) base doc False i j (map blk_range new) p q))"
proof -
  let ?eq = "\<lambda>a b. is_equals a b policy"
  have bounds: "i \<le> p" "j \<le> q" "p \<le> length base" "q \<le> length doc" using path by (auto dest: block_path_bounds)
  have room': "stats_room st k w" using room by (auto simp: stats_room_def)
  have merged: "merge_group grp = block_new (j, q) (i, p) True (list_ex bl_too_big grp)"
    using bounds ends start path_end_pair [OF ends(1), of i j] by (auto simp: merge_group_def Let_def)
  define D E where "D = take (q - j) (drop j doc)" and "E = take (p - i) (drop i base)"
  have lens: "length D = q - j" "length E = p - i" using bounds by (auto simp: D_def E_def)
  consider (clean) "\<not> list_ex bl_dirty grp" | (empty) "list_ex bl_dirty grp" "p = i" "q = j"
    | (dirty) "list_ex bl_dirty grp" "i < p \<or> j < q" using bounds by linarith
  then show ?thesis
  proof cases
    case clean
    then have "diff_path ?eq base doc False i j (map blk_range grp) p q"
      using path apart by (intro block_path_clean) (auto simp: list_all_iff list_ex_iff)
    with clean ends(1) room' show ?thesis
      by (auto simp: flush_group_def list_all_iff list_ex_iff)
  next
    case empty
    then have "diff_path ?eq base doc False i j [] p q" using bounds by simp
    with empty ends(1) room' show ?thesis
      by (auto simp: flush_group_def merged Let_def block_is_empty_def)
  next
    case dirty
    have clamp: "clamp_range (j, q) (length doc) = (j, q)" "clamp_range (i, p) (length base) = (i, p)"
      using bounds by (auto simp: clamp_range_def Let_def)
    have slices: "slice_or_panic doc j q = Some D" "slice_or_panic base i p = Some E"
      using bounds by (auto simp: slice_or_panic_def D_def E_def)
    have not_empty: "\<not> block_is_empty (merge_group grp)" using dirty by (auto simp: merged block_is_empty_def)
    show ?thesis
    proof (cases "list_ex bl_too_big grp \<or> length D > TOO_BIG_BLOCK_LINES \<or> length E > TOO_BIG_BLOCK_LINES")
      case True
      then have run: "flush_group engine doc base policy st grp out = do {
          b \<leftarrow> trimmed_block D E (j, q) (i, p) policy;
          Some (st, case b of None \<Rightarrow> out | Some b \<Rightarrow> out @ [b])
        }"
        using dirty(1) ends(1) not_empty by (simp add: flush_group_def merged Let_def clamp slices)
      have "\<exists>new. (case r of None \<Rightarrow> out | Some b \<Rightarrow> out @ [b]) = out @ new \<and> list_all (\<lambda>b. \<not> bl_dirty b) new \<and>
          diff_path ?eq base doc False i j (map blk_range new) p q"
        if r: "\<exists>f g. j + f \<le> q - g \<and> i + f \<le> p - g \<and> g \<le> q \<and> g \<le> p \<and> same_run ?eq base doc i j f \<and>
          same_run ?eq base doc (p - g) (q - g) g \<and>
          r = (if j + f = q - g \<and> i + f = p - g then None
               else Some (block_new (j + f, q - g) (i + f, p - g) False True))" for r
      proof -
        from r obtain f g where fg: "j + f \<le> q - g" "i + f \<le> p - g" "g \<le> q" "g \<le> p"
          and runs: "same_run ?eq base doc i j f" "same_run ?eq base doc (p - g) (q - g) g"
          and r': "r = (if j + f = q - g \<and> i + f = p - g then None
               else Some (block_new (j + f, q - g) (i + f, p - g) False True))" by blast
        have "diff_path ?eq base doc False i j (if i + f = p - g \<and> j + f = q - g then []
            else [] @ [mk_range (i + f) (p - g) (j + f) (q - g)]) (p - g + g) (q - g + g)"
          using fg bounds by (intro diff_path_push_tight [OF _ _ runs]) (auto simp: diff_tail_ok_def)
        then have "diff_path ?eq base doc False i j (if i + f = p - g \<and> j + f = q - g then []
            else [mk_range (i + f) (p - g) (j + f) (q - g)]) p q" using fg(3,4) by (simp only: le_add_diff_inverse2 append_Nil)
        then show ?thesis
          by (cases "i + f = p - g \<and> j + f = q - g")
            (auto simp: r' simp del: diff_path.simps
              intro: exI [of _ "[]"] exI [of _ "[block_new (j + f, q - g) (i + f, p - g) False True]"])
      qed
      then show ?thesis
        unfolding run using room' bounds size
        by (intro runs_bindI [OF runs_trimmed_block [of j q doc i p base policy, folded D_def E_def]]) auto
    next
      case False
      let ?full = "q - j = length doc \<and> p - i = length base"
      let ?blocks = "map (\<lambda>r. block_new (as_u32 (j + r_start2 r), as_u32 (j + r_end2 r))
              (as_u32 (i + r_start1 r), as_u32 (i + r_end1 r)) False False)"
      from False have run: "flush_group engine doc base policy st grp out = do {
            st \<leftarrow> count_rediff st ?full (length D + length E);
            ranges \<leftarrow> compare_lines engine E D policy;
            Some (st, out @ ?blocks ranges)
          }"
        using dirty(1) ends(1) not_empty by (simp add: flush_group_def merged Let_def clamp slices)
      have count: "runs (count_rediff st ?full (length D + length E)) (\<lambda>st'. stats_room st' k w)"
        using room by (intro runs_count_rediff) (simp add: lens add.commute)
      have "length E < ENGINE_TOKEN_LIMIT" "length D < ENGINE_TOKEN_LIMIT"
        using False by (auto simp: TOO_BIG_BLOCK_LINES_def ENGINE_TOKEN_LIMIT_def)
      then have cmp: "runs (compare_lines engine E D policy) (valid_diff ?eq E D)"
        by (intro runs_mono [OF runs_compare_lines [OF engine]]) auto
      have "diff_path ?eq base doc False i j (map blk_range (?blocks rs)) p q" if rs: "valid_diff ?eq E D rs" for rs
      proof -
        have "diff_path ?eq base doc False (i + 0) (j + 0) (map (move_range i j) rs) (i + (p - i)) (j + (q - j))"
          using rs bounds unfolding valid_diff_def lens unfolding D_def E_def by (intro diff_path_slice) auto
        moreover have "\<forall>r\<in>set rs. r_start1 r \<le> r_end1 r \<and> r_start2 r \<le> r_end2 r \<and>
            i + r_end1 r < 2 ^ 32 \<and> j + r_end2 r < 2 ^ 32"
          using rs diff_path_wf [of ?eq E D False 0 0 rs] diff_path_in_bounds [of ?eq E D False 0 0 rs]
            bounds size lens by (fastforce simp: valid_diff_def range_wf_def)
        ultimately show ?thesis
          using bounds by (simp only: map_blk_range_shifted) simp
      qed
      then show ?thesis
        unfolding run
        by (intro runs_bindI [OF count] runs_bindI [OF cmp]) (auto simp: list_all_iff)
    qed
  qed
qed

definition refresh_inv :: "ComparisonPolicy \<Rightarrow> ustr list \<Rightarrow> ustr list \<Rightarrow>
    tracker_stats \<times> block list \<times> block list \<Rightarrow> block list \<Rightarrow> bool" where
  "refresh_inv policy doc base s rest \<longleftrightarrow> (case s of (st, grp, out) \<Rightarrow> \<exists>m n.
     diff_path (\<lambda>a b. is_equals a b policy) base doc False 0 0 (map blk_range out) m n \<and>
     list_all (\<lambda>b. \<not> bl_dirty b) out \<and>
     block_path (\<lambda>a b. is_equals a b policy) base doc m n (grp @ rest) (length base) (length doc) \<and>
     clean_apart (grp @ rest) \<and> (grp = [] \<longrightarrow> out = []) \<and>
     (grp \<noteq> [] \<longrightarrow> diff_tail_ok False 0 (map blk_range out) (fst (bl_base_lines (hd grp)))) \<and>
     stats_room st (length grp + length rest) (length base - m + (length doc - n)))"

lemma clean_apart_parts: "clean_apart (bs @ cs) \<Longrightarrow> clean_apart bs \<and> clean_apart cs"
  by (auto simp: clean_apart_def successively_append_iff)

lemma runs_flush_inv:
  assumes engine: "engine_ok iw_line line_eq engine"
    and size: "length doc < 2 ^ 32" "length base < 2 ^ 32"
    and inv: "refresh_inv policy doc base (st, grp, out) rest"
  shows "runs (flush_group engine doc base policy st grp out) (\<lambda>(st', out'). \<exists>p q.
    diff_path (\<lambda>a b. is_equals a b policy) base doc False 0 0 (map blk_range out') p q \<and>
    list_all (\<lambda>b. \<not> bl_dirty b) out' \<and>
    block_path (\<lambda>a b. is_equals a b policy) base doc p q rest (length base) (length doc) \<and>
    (grp \<noteq> [] \<longrightarrow> p = snd (bl_base_lines (last grp))) \<and>
    stats_room st' (length rest) (length base - p + (length doc - q)))"
proof -
  let ?eq = "\<lambda>a b. is_equals a b policy"
  from inv obtain m n where out: "diff_path ?eq base doc False 0 0 (map blk_range out) m n" "list_all (\<lambda>b. \<not> bl_dirty b) out"
    and path: "block_path ?eq base doc m n (grp @ rest) (length base) (length doc)" and apart: "clean_apart (grp @ rest)"
    and nil: "grp = [] \<longrightarrow> out = []"
    and tail: "grp \<noteq> [] \<longrightarrow> diff_tail_ok False 0 (map blk_range out) (fst (bl_base_lines (hd grp)))"
    and room: "stats_room st (length grp + length rest) (length base - m + (length doc - n))"
    by (auto simp: refresh_inv_def)
  show ?thesis
  proof (cases "grp = []")
    case True
    with out path room show ?thesis by (auto simp: flush_group_def)
  next
    case False
    define i j p q where "i = fst (bl_base_lines (hd grp))" and "j = fst (bl_lines (hd grp))"
      and "p = snd (bl_base_lines (last grp))" and "q = snd (bl_lines (last grp))"
    have start: "m \<le> i" "n \<le> j" "i - m = j - n" using path False by (cases grp; auto simp: i_def j_def)+
    have "same_run ?eq base doc m n (j - n) \<and> block_path ?eq base doc (m + (j - n)) j (grp @ rest) (length base) (length doc)"
      using path False start by (intro block_path_gap) (auto simp: j_def)
    moreover have "m + (j - n) = i" "n + (j - n) = j" using start by auto
    ultimately have gap: "same_run ?eq base doc m n (j - n)"
      and path': "block_path ?eq base doc i j (grp @ rest) (length base) (length doc)" by auto
    have out': "diff_path ?eq base doc False 0 0 (map blk_range out) i j"
      using diff_path_extend [OF out(1) gap] \<open>m + (j - n) = i\<close> \<open>n + (j - n) = j\<close> by simp
    have ends: "path_end i j grp = (p, q)" using path_end_pair [OF False] by (simp add: p_def q_def)
    have pathG: "block_path ?eq base doc i j grp p q" and pathR: "block_path ?eq base doc p q rest (length base) (length doc)"
      using block_path_append [OF path' ends] by auto
    have le: "i \<le> p" "j \<le> q" "p \<le> length base" "q \<le> length doc"
      using block_path_bounds [OF pathG] by auto
    obtain g where g: "length grp = Suc g" using False by (cases grp) auto
    have "stats_room st (Suc (length rest)) (p - i + (q - j) + (length base - p + (length doc - q)))"
      using room start le g by (auto simp: stats_room_def)
    then have "runs (flush_group engine doc base policy st grp out) (\<lambda>(st', out').
      stats_room st' (length rest) (length base - p + (length doc - q)) \<and>
      (\<exists>new. out' = out @ new \<and> list_all (\<lambda>b. \<not> bl_dirty b) new \<and>
      diff_path ?eq base doc False i j (map blk_range new) p q))"
      using clean_apart_parts [OF apart]
      by (intro runs_flush_group [OF engine size pathG False ends i_def j_def]) auto
    then show ?thesis
      using out(2) pathR False tail diff_path_append [OF out', of _ p q]
      by (elim runs_mono) (auto simp: i_def [symmetric] p_def [symmetric] simp del: diff_path.simps intro!: exI [of _ p] exI [of _ q])
  qed
qed

lemma runs_refresh_step:
  assumes engine: "engine_ok iw_line line_eq engine"
    and size: "length doc < 2 ^ 32" "length base < 2 ^ 32"
    and inv: "refresh_inv policy doc base s (b # rest)"
  shows "runs (refresh_step engine doc base policy s b) (\<lambda>s'. refresh_inv policy doc base s' rest)"
proof -
  obtain st grp out where s: "s = (st, grp, out)" by (cases s)
  let ?eq = "\<lambda>a b. is_equals a b policy"
  show ?thesis
  proof (cases "grp \<noteq> [] \<and> \<not> touches (last grp) b")
    case False
    then have "refresh_step engine doc base policy s b = Some (st, grp @ [b], out)"
      by (auto simp: refresh_step_def s)
    moreover have "refresh_inv policy doc base (st, grp @ [b], out) rest"
      using inv unfolding refresh_inv_def s prod.case
      by (elim exE, intro exI) (auto simp: hd_append diff_tail_ok_def simp del: diff_path.simps)
    ultimately show ?thesis by simp
  next
    case True
    have "clean_apart (b # rest)"
      using inv clean_apart_parts [of grp "b # rest"] by (auto simp: refresh_inv_def s)
    moreover have "diff_tail_ok False 0 (map blk_range out') (fst (bl_base_lines b))"
      if "diff_path ?eq base doc False 0 0 (map blk_range out') (snd (bl_base_lines (last grp))) q" for out' q
    proof (cases "out' = []")
      case False
      then have "r_end1 (blk_range (last out')) \<le> snd (bl_base_lines (last grp))"
        using diff_path_in_bounds [OF that, of "blk_range (last out')"] by auto
      with False True show ?thesis by (simp add: diff_tail_ok_def last_map touches_def)
    qed (simp add: diff_tail_ok_def)
    ultimately have "refresh_inv policy doc base (st', [b], out') rest"
      if "diff_path ?eq base doc False 0 0 (map blk_range out') p q" "list_all (\<lambda>b. \<not> bl_dirty b) out'"
        "block_path ?eq base doc p q (b # rest) (length base) (length doc)" "p = snd (bl_base_lines (last grp))"
        "stats_room st' (length (b # rest)) (length base - p + (length doc - q))" for st' out' p q
      using that unfolding refresh_inv_def prod.case
      by (intro exI [of _ p] exI [of _ q]) (auto simp del: diff_path.simps block_path.simps)
    then have "runs (flush_group engine doc base policy st grp out)
        (\<lambda>(st', out'). refresh_inv policy doc base (st', [b], out') rest)"
      using True by (intro runs_mono [OF runs_flush_inv [OF engine size inv [unfolded s]]])
        (auto simp del: diff_path.simps block_path.simps)
    then show ?thesis
      using True by (auto simp: refresh_step_def s runs_bind elim!: runs_mono)
  qed
qed

lemma runs_refresh_dirty:
  assumes engine: "engine_ok iw_line line_eq engine"
    and size: "length doc < 2 ^ 32" "length base < 2 ^ 32"
    and t: "tracks policy doc base t" "bt_active t" "is_dirty t"
    and room: "stats_room (bt_stats t) (length (bt_blocks t)) (length base + length doc)"
  shows "runs (refresh_dirty engine t doc base policy) (\<lambda>(changed, t'). changed \<and> bt_active t' \<and>
    list_all (\<lambda>b. \<not> bl_dirty b) (bt_blocks t') \<and>
    valid_diff (\<lambda>a b. is_equals a b policy) base doc (map blk_range (bt_blocks t')))"
proof (cases "list_all bl_dirty (bt_blocks t) \<and> length doc = length base \<and> doc = base")
  case True
  then show ?thesis
    using t by (simp add: refresh_dirty_def valid_diff_def same_run_def)
next
  case False
  let ?eq = "\<lambda>a b. is_equals a b policy"
  have "refresh_inv policy doc base (bt_stats t, [], []) (bt_blocks t)"
    using t room unfolding refresh_inv_def prod.case
    by (intro exI [of _ 0] exI [of _ 0]) (auto simp: tracks_def)
  then have loop: "runs (for_each (refresh_step engine doc base policy) (bt_stats t, [], []) (bt_blocks t))
      (\<lambda>s. refresh_inv policy doc base s [])"
    by (rule runs_for_each) (rule runs_refresh_step [OF engine size])
  have final: "runs (flush_group engine doc base policy st grp out) (\<lambda>(st', out').
      list_all (\<lambda>b. \<not> bl_dirty b) out' \<and> valid_diff ?eq base doc (map blk_range out'))"
    if "refresh_inv policy doc base (st, grp, out) []" for st grp out
  proof (rule runs_mono [OF runs_flush_inv [OF engine size that]], goal_cases)
    case (1 r)
    then obtain st' out' p q where r: "r = (st', out')"
      and path: "diff_path ?eq base doc False 0 0 (map blk_range out') p q"
      and rest: "block_path ?eq base doc p q [] (length base) (length doc)"
      and clean: "list_all (\<lambda>b. \<not> bl_dirty b) out'" by (cases r) auto
    have "diff_path ?eq base doc False 0 0 (map blk_range out') (p + (length base - p)) (q + (length base - p))"
      using path rest by (intro diff_path_extend) auto
    moreover have "p + (length base - p) = length base" "q + (length base - p) = length doc" using rest by auto
    ultimately show ?case
      using clean by (simp only: valid_diff_def r prod.case)
  qed
  show ?thesis
    using False t unfolding refresh_dirty_def
    by (auto intro!: runs_bindI [OF loop] runs_bindI [OF final])
qed

lemma block_path_of_diff:
  assumes "diff_path eq base doc s i j (map blk_range bs) m n"
  shows "block_path eq base doc i j bs m n \<and> clean_apart bs \<and> (s \<longrightarrow> bs \<noteq> [] \<longrightarrow>
    i < fst (bl_base_lines (hd bs)) \<and> j < fst (bl_lines (hd bs)))"
  using assms
proof (induction bs arbitrary: s i j)
  case Nil
  then show ?case unfolding block_path.simps diff_path.simps list.map by (auto simp: clean_apart_def)
next
  case (Cons b bs)
  then have "diff_path eq base doc True (snd (bl_base_lines b)) (snd (bl_lines b)) (map blk_range bs) m n" by simp
  from Cons.IH [OF this] Cons.prems show ?case
    by (auto simp: clean_apart_def successively_Cons touches_def block_is_empty_def range_wf_def range_is_empty_def)
qed

lemma tracks_of_valid_diff:
  "valid_diff (\<lambda>a b. is_equals a b policy) base doc (map blk_range (bt_blocks t)) \<Longrightarrow> tracks policy doc base t"
  unfolding valid_diff_def tracks_def using block_path_of_diff by blast

lemma valid_diff_of_tracks:
  "tracks policy doc base t \<Longrightarrow> bt_active t \<Longrightarrow> \<not> is_dirty t \<Longrightarrow>
   valid_diff (\<lambda>a b. is_equals a b policy) base doc (map blk_range (bt_blocks t))"
  unfolding valid_diff_def tracks_def is_dirty_def
  by (auto intro!: block_path_clean simp: list_all_iff list_ex_iff)

lemma range_changed_active: "range_changed t s a b = Some t' \<Longrightarrow> bt_active t' = bt_active t"
  by (auto simp: range_changed_def Let_def u32_add_def split: if_splits prod.splits)

lemma refresh_dirty_active: "refresh_dirty engine t doc base policy = Some (c, t') \<Longrightarrow> bt_active t' = bt_active t"
  by (auto simp: refresh_dirty_def bind_eq_Some_conv split: if_splits prod.splits)

section \<open>An editing session\<close>

text \<open>
  The tracker as the code view uses it: opened on a document and its base, told of every edit, refreshed
  when the view asks for it, and reset when its counts are installed again.
\<close>

inductive session :: "line diff_engine \<Rightarrow> ComparisonPolicy \<Rightarrow> ustr list \<Rightarrow> ustr list \<Rightarrow> block_tracker \<Rightarrow> bool"
  for engine policy base where
  opened: "length doc < 2 ^ 32 \<Longrightarrow> length base < 2 ^ 32 \<Longrightarrow>
    session engine policy base doc (fresh (length doc) (length base))"
| edited: "session engine policy base doc t \<Longrightarrow> s + before \<le> length doc \<Longrightarrow>
    length (replace_lines doc s before new) < 2 ^ 32 \<Longrightarrow> range_changed t s before (length new) = Some t' \<Longrightarrow>
    session engine policy base (replace_lines doc s before new) t'"
| refreshed: "session engine policy base doc t \<Longrightarrow>
    stats_room (bt_stats t) (length (bt_blocks t)) (length base + length doc) \<Longrightarrow>
    refresh_dirty engine t doc base policy = Some (changed, t') \<Longrightarrow> session engine policy base doc t'"
| renewed: "session engine policy base doc t \<Longrightarrow>
    session engine policy base doc (reset t (length doc) (length base))"

lemma tracks_reset: "bt_active t \<Longrightarrow> tracks policy doc base (reset t (length doc) (length base))"
  by (simp add: tracks_def reset_def clean_apart_def)

lemma session_tracks:
  assumes "session engine policy base doc t" and engine: "engine_ok iw_line line_eq engine"
  shows "tracks policy doc base t \<and> bt_active t \<and> length doc < 2 ^ 32 \<and> length base < 2 ^ 32"
  using assms(1)
proof (induction rule: session.induct)
  case (opened doc)
  then show ?case
    by (simp add: tracks_def fresh_def reset_def clean_apart_def)
next
  case (edited doc t s before new t')
  then show ?case
    using range_changed_tracks [of policy doc base t s before "replace_lines doc s before new" new]
      range_changed_active [OF edited.hyps(4)] by simp
next
  case (refreshed doc t changed t')
  show ?case
  proof (cases "is_dirty t")
    case True
    with refreshed show ?thesis
      using runs_refresh_dirty [OF engine, of doc base policy t] by (auto intro: tracks_of_valid_diff)
  next
    case False
    with refreshed show ?thesis by (auto simp: refresh_dirty_def)
  qed
next
  case (renewed doc t)
  then show ?case using tracks_reset by (auto simp: reset_def)
qed

lemma block_path_uncovered:
  assumes "block_path eq base doc i j bs m n" "j \<le> k" "k < n"
    and "\<forall>b\<in>set bs. \<not> (fst (bl_lines b) \<le> k \<and> k < snd (bl_lines b))"
  shows "\<exists>l<length base. eq (base ! l) (doc ! k)"
  using assms
proof (induction bs arbitrary: i j)
  case Nil
  then show ?case using same_run_at [of eq base doc i j "m - i" k] by auto
next
  case (Cons b bs)
  show ?case
  proof (cases "k < fst (bl_lines b)")
    case True
    with Cons.prems show ?thesis
      using same_run_at [of eq base doc i j "fst (bl_base_lines b) - i" k] by auto
  next
    case False
    with Cons.prems show ?thesis by (intro Cons.IH [of "snd (bl_base_lines b)" "snd (bl_lines b)"]) auto
  qed
qed

section \<open>What the code view relies on\<close>

text \<open>
  C18. Whatever sequence of edits, refreshes and resets the tracker has been through, a refresh never panics and
  leaves clean blocks that are a valid diff between the base and the current document under the policy,
  although only the dirty regions are compared again.
\<close>

theorem session_refresh_valid:
  assumes "session engine policy base doc t" and "engine_ok iw_line line_eq engine"
    and "stats_room (bt_stats t) (length (bt_blocks t)) (length base + length doc)"
  shows "runs (refresh_dirty engine t doc base policy) (\<lambda>(_, t'). \<not> is_dirty t' \<and>
    valid_diff (\<lambda>a b. is_equals a b policy) base doc (map blk_range (bt_blocks t')))"
proof (cases "is_dirty t")
  case True
  with assms session_tracks [OF assms(1,2)] show ?thesis
    by (auto intro!: runs_mono [OF runs_refresh_dirty] simp: is_dirty_def list_all_iff list_ex_iff)
next
  case False
  with session_tracks [OF assms(1,2)] show ?thesis
    by (simp add: refresh_dirty_def valid_diff_of_tracks)
qed

theorem session_refresh_valid_witness:
  "runs (refresh_dirty (prefix_engine line_eq)
       (reset (fresh 2 2) 2 2) [[97], [99]] [[97], [98]] Default) (\<lambda>(_, t'). \<not> is_dirty t' \<and>
     valid_diff (\<lambda>a b. is_equals a b Default) [[97], [98]] [[97], [99]] (map blk_range (bt_blocks t')))"
proof (rule session_refresh_valid)
  have "session (prefix_engine line_eq) Default [[97], [98]] [[97], [99]]
      (reset (fresh (length [[97], [99 :: nat]]) (length [[97], [98 :: nat]])) (length [[97], [99 :: nat]]) (length [[97], [98 :: nat]]))"
    by (rule session.renewed, rule session.opened) simp_all
  then show "session (prefix_engine line_eq) Default [[97], [98]] [[97], [99]] (reset (fresh 2 2) 2 2)"
    by (simp add: numeral_2_eq_2)
qed (simp_all add: engine_ok_prefix_engine stats_room_def fresh_def reset_def stats_default_def)

text \<open>
  C19. Telling the tracker of an edit never panics and keeps the relation between its blocks, the base and the
  edited document: outside the blocks, base and document still agree line by line.
\<close>

theorem range_changed_keeps_tracking:
  assumes "tracks policy doc base t" and "start_line + before_len \<le> length doc"
    and "length doc < 2 ^ 32" "length (replace_lines doc start_line before_len new) < 2 ^ 32" "length base < 2 ^ 32"
  shows "runs (range_changed t start_line before_len (length new))
    (tracks policy (replace_lines doc start_line before_len new) base)"
  using assms by (intro range_changed_tracks) auto

theorem range_changed_keeps_tracking_witness:
  "runs (range_changed (fresh 2 2) 1 1 2) (tracks Default (replace_lines [[97], [98]] 1 1 [[99], [100]]) [[97], [98]])"
proof -
  have "tracks Default [[97], [98]] [[97], [98]] (fresh 2 2)"
    by (simp add: tracks_def fresh_def reset_def clean_apart_def)
  then have "runs (range_changed (fresh 2 2) 1 1 (length [[99 :: nat], [100]]))
      (tracks Default (replace_lines [[97], [98]] 1 1 [[99], [100]]) [[97], [98]])"
    by (rule range_changed_keeps_tracking) (simp_all add: replace_lines_def)
  then show ?thesis by (simp add: numeral_2_eq_2)
qed

text \<open>
  \<open>block_at\<close> never panics; the block it returns is the one at the index it returns and covers the line, and
  a line for which it returns nothing is unchanged: some line of the base equals it under the policy.
\<close>

theorem block_at_sound:
  assumes "tracks policy doc base t" "bt_active t" and "line_no < length doc" "length doc < 2 ^ 32"
  shows "runs (block_at t line_no) (\<lambda>r. case r of
      Some (i, b) \<Rightarrow> i < length (bt_blocks t) \<and> bt_blocks t ! i = b \<and> covers_line b line_no = Some True
    | None \<Rightarrow> \<exists>k<length base. is_equals (base ! k) (doc ! line_no) policy)"
proof -
  define f where "f b \<longleftrightarrow> covers_line b line_no = Some True" for b
  have total: "covers_line b line_no = Some (f b)" for b
    using assms(3,4) by (auto simp: f_def covers_line_def u32_add_def split: BlockKind.splits)
  then have run: "block_at t line_no = Some (find (\<lambda>(i, b). f b) (enumerate 0 (bt_blocks t)))"
    unfolding block_at_def by (intro find_or_panic_total) auto
  have "\<exists>k<length base. is_equals (base ! k) (doc ! line_no) policy" if "\<forall>b\<in>set (bt_blocks t). \<not> f b"
  proof -
    have "\<not> (fst (bl_lines b) \<le> line_no \<and> line_no < snd (bl_lines b))" if "\<not> f b" for b
      using that total [of b] by (auto simp: covers_line_def block_kind_def split: if_splits)
    with that assms show ?thesis
      by (intro block_path_uncovered [where eq = "\<lambda>a b. is_equals a b policy"]) (auto simp: tracks_def)
  qed
  then show ?thesis
    unfolding run
    by (auto simp: find_None_iff find_Some_iff in_set_enumerate_eq f_def all_set_conv_all_nth nth_enumerate_eq
        split: option.splits)
qed

theorem block_at_sound_witness:
  "runs (block_at (fresh 1 0) 0) (\<lambda>r. case r of
      Some (i, b) \<Rightarrow> i < length (bt_blocks (fresh 1 0)) \<and> bt_blocks (fresh 1 0) ! i = b \<and> covers_line b 0 = Some True
    | None \<Rightarrow> \<exists>k<length ([] :: ustr list). is_equals ([] ! k) ([[97]] ! 0) Default) \<and>
   block_at (fresh 1 0) 0 = Some (Some (0, block_new (0, 1) (0, 0) True False))"
proof
  show "runs (block_at (fresh 1 0) 0) (\<lambda>r. case r of
      Some (i, b) \<Rightarrow> i < length (bt_blocks (fresh 1 0)) \<and> bt_blocks (fresh 1 0) ! i = b \<and> covers_line b 0 = Some True
    | None \<Rightarrow> \<exists>k<length ([] :: ustr list). is_equals ([] ! k) ([[97]] ! 0) Default)"
    by (rule block_at_sound) (simp_all add: tracks_def fresh_def reset_def clean_apart_def)
  show "block_at (fresh 1 0) 0 = Some (Some (0, block_new (0, 1) (0, 0) True False))"
    by code_simp
qed

end
