(* ===== verification/Output_Tail.thy ===== *)
theory Output_Tail
  imports Prelude "HOL-Library.Sublist"
begin

text \<open>
  The output log of a session in \<open>crates/paneflow-host/src\<close>: \<open>tail.rs\<close>, the bounded tail of the bytes a
  terminal has written, addressed by the offset in the whole output, and \<open>stream.rs\<close>, the stream that
  publishes it to its readers.

  Offsets are \<open>u64\<close>: their sums panic on overflow in the model, and the theorems ask for an output of
  less than \<open>2 ^ 64\<close> bytes. The specification of both is the whole history of the bytes appended. It is
  stated once as the locale \<open>byte_log\<close>, in which what a reader that follows the log sees is proved, and
  both the tail and the stream are instances of it.
\<close>

type_synonym byte = nat

section \<open>The tail\<close>

record tail_evicted =
  te_requested :: nat
  te_tail_start :: nat
  te_tail_end :: nat

text \<open>\<open>ot_allocated\<close> is the capacity of the deque: 0 when new, and exactly what \<open>reserve_exact\<close> asks for.\<close>

record output_tail =
  ot_capacity :: nat
  ot_start :: nat
  ot_bytes :: "byte list"
  ot_allocated :: nat

definition tail_new :: "nat \<Rightarrow> output_tail" where
  "tail_new capacity = \<lparr>ot_capacity = capacity, ot_start = 0, ot_bytes = [], ot_allocated = 0\<rparr>"

definition tail_end_offset :: "output_tail \<Rightarrow> nat option" where
  "tail_end_offset t = u64_add (ot_start t) (length (ot_bytes t))"

definition reserve_exact_for :: "output_tail \<Rightarrow> nat \<Rightarrow> output_tail option" where
  "reserve_exact_for t additional = do {
     let needed = length (ot_bytes t) + additional;
     if needed > ot_allocated t then do {
       let target = min (max needed (ot_allocated t * 2)) (ot_capacity t);
       extra \<leftarrow> usub target (length (ot_bytes t));
       Some (t\<lparr>ot_allocated := max (ot_allocated t) (length (ot_bytes t) + extra)\<rparr>)
     } else Some t
   }"

definition tail_append :: "output_tail \<Rightarrow> byte list \<Rightarrow> output_tail option" where
  "tail_append t chunk =
     (if length chunk \<ge> ot_capacity t then do {
        let keep = drop (length chunk - ot_capacity t) chunk;
        end_offset \<leftarrow> tail_end_offset t;
        start \<leftarrow> u64_add end_offset (length chunk - length keep);
        t \<leftarrow> reserve_exact_for (t\<lparr>ot_start := start, ot_bytes := []\<rparr>) (length keep);
        Some (t\<lparr>ot_bytes := ot_bytes t @ keep\<rparr>)
      }
      else do {
        let excess = length (ot_bytes t) + length chunk - ot_capacity t;
        t \<leftarrow> (if excess > 0 then do {
            dassert (excess \<le> length (ot_bytes t));
            start \<leftarrow> u64_add (ot_start t) excess;
            Some (t\<lparr>ot_bytes := drop excess (ot_bytes t), ot_start := start\<rparr>)
          } else Some t);
        t \<leftarrow> reserve_exact_for t (length chunk);
        Some (t\<lparr>ot_bytes := ot_bytes t @ chunk\<rparr>)
      })"

definition read_from :: "output_tail \<Rightarrow> nat \<Rightarrow> nat \<Rightarrow> (tail_evicted + nat \<times> byte list) option" where
  "read_from t offset maximum = do {
     end_offset \<leftarrow> tail_end_offset t;
     if offset < ot_start t \<or> offset > end_offset then
       Some (Inl \<lparr>te_requested = offset, te_tail_start = ot_start t, te_tail_end = end_offset\<rparr>)
     else do {
       skip \<leftarrow> usub offset (ot_start t);
       left \<leftarrow> usub (length (ot_bytes t)) skip;
       Some (Inr (offset, take (min left maximum) (drop skip (ot_bytes t))))
     }
   }"

section \<open>The stream\<close>

datatype StreamWait = Published | Ended | Deadline

record stream_state =
  ss_tail :: "output_tail option"
  ss_end_offset :: nat
  ss_live :: bool
  ss_publications :: nat

record stream_status =
  st_end_offset :: nat
  st_live :: bool
  st_retained_bytes :: nat
  st_allocated_bytes :: nat

record output_slice =
  os_offset :: nat
  os_data :: "byte list"
  os_end_offset :: nat
  os_live :: bool

definition stream_new :: "nat \<Rightarrow> stream_state" where
  "stream_new capacity =
     \<lparr>ss_tail = Some (tail_new capacity), ss_end_offset = 0, ss_live = True, ss_publications = 0\<rparr>"

definition publish_one :: "stream_state \<Rightarrow> stream_state option" where
  "publish_one s = do { n \<leftarrow> u64_add (ss_publications s) 1; Some (s\<lparr>ss_publications := n\<rparr>) }"

definition stream_append :: "stream_state \<Rightarrow> byte list \<Rightarrow> (nat \<times> stream_state) option" where
  "stream_append s chunk = do {
     s \<leftarrow> (case ss_tail s of
         Some tail \<Rightarrow> do {
           tail \<leftarrow> tail_append tail chunk;
           end_offset \<leftarrow> tail_end_offset tail;
           Some (s\<lparr>ss_tail := Some tail, ss_end_offset := end_offset\<rparr>)
         }
       | None \<Rightarrow> Some s);
     s \<leftarrow> publish_one s;
     Some (ss_end_offset s, s)
   }"

definition status :: "stream_state \<Rightarrow> stream_status" where
  "status s = \<lparr>st_end_offset = ss_end_offset s, st_live = ss_live s,
     st_retained_bytes = (case ss_tail s of None \<Rightarrow> 0 | Some t \<Rightarrow> length (ot_bytes t)),
     st_allocated_bytes = (case ss_tail s of None \<Rightarrow> 0 | Some t \<Rightarrow> ot_allocated t)\<rparr>"

definition finish :: "stream_state \<Rightarrow> stream_state option" where
  "finish s = publish_one (s\<lparr>ss_live := False\<rparr>)"

definition release :: "stream_state \<Rightarrow> stream_state option" where
  "release s = publish_one (s\<lparr>ss_live := False, ss_tail := None\<rparr>)"

definition wake :: "stream_state \<Rightarrow> stream_state option" where
  "wake s = publish_one s"

definition stream_read :: "stream_state \<Rightarrow> nat \<Rightarrow> nat \<Rightarrow> (tail_evicted + output_slice) option" where
  "stream_read s from_offset maximum = do {
     let end_offset = ss_end_offset s;
     r \<leftarrow> (case ss_tail s of
         Some tail \<Rightarrow> read_from tail from_offset maximum
       | None \<Rightarrow> Some (if from_offset = end_offset then Inr (from_offset, [])
           else Inl \<lparr>te_requested = from_offset, te_tail_start = end_offset, te_tail_end = end_offset\<rparr>));
     Some (case r of Inl e \<Rightarrow> Inl e
       | Inr (offset, data) \<Rightarrow>
           Inr \<lparr>os_offset = offset, os_data = data, os_end_offset = end_offset, os_live = ss_live s\<rparr>)
   }"

text \<open>
  \<open>wait_past\<close> looks at the state each time it holds the lock. The list is the sequence of those looks:
  the state and the clock at the start, and at every return from the condition variable. \<open>None\<close> is a
  wait that has not returned after them.
\<close>

fun wait_past :: "(stream_state \<times> nat) list \<Rightarrow> nat \<Rightarrow> nat \<Rightarrow> StreamWait option" where
  "wait_past [] offset deadline = None"
| "wait_past ((s, now) # looks) offset deadline =
     (if ss_end_offset s > offset then Some Published
      else if \<not> ss_live s then Some Ended
      else if now \<ge> deadline then Some Deadline
      else wait_past looks offset deadline)"

section \<open>The specification: a log of bytes\<close>

text \<open>
  \<open>follow\<close> is a reader that looks at a sequence of states of a log, each read starting where the last one
  ended. \<open>holds t h\<close>: the log \<open>t\<close> stands for the history \<open>h\<close>. Appending adds to the history; a read at an offset
  that is still kept returns the bytes of the history from there on, at most as many as asked for, and
  never none when there are some; any other read reports the bounds of what is kept.
\<close>

definition evicted_ok :: "byte list \<Rightarrow> nat \<Rightarrow> tail_evicted \<Rightarrow> bool" where
  "evicted_ok h offset e \<longleftrightarrow> te_requested e = offset \<and> te_tail_end e = length h \<and>
     te_tail_start e \<le> te_tail_end e \<and> (offset < te_tail_start e \<or> te_tail_end e < offset)"

fun follow :: "('t \<Rightarrow> nat \<Rightarrow> nat \<Rightarrow> (tail_evicted + nat \<times> byte list) option) \<Rightarrow> 't list \<Rightarrow> nat \<Rightarrow> nat \<Rightarrow>
    byte list option" where
  "follow rd [] offset maximum = Some []"
| "follow rd (t # ts) offset maximum = do {
     r \<leftarrow> rd t offset maximum;
     case r of Inl e \<Rightarrow> None
     | Inr (_, data) \<Rightarrow> do {
         rest \<leftarrow> follow rd ts (offset + length data) maximum;
         Some (data @ rest)
       }
   }"

locale log_reader =
  fixes holds :: "'t \<Rightarrow> byte list \<Rightarrow> bool"
    and read_log :: "'t \<Rightarrow> nat \<Rightarrow> nat \<Rightarrow> (tail_evicted + nat \<times> byte list) option"
  assumes read_holds: "holds t h \<Longrightarrow> runs (read_log t offset maximum) (\<lambda>r. case r of
        Inl e \<Rightarrow> evicted_ok h offset e
      | Inr (o', data) \<Rightarrow> o' = offset \<and> offset \<le> length h \<and> data = take maximum (drop offset h))"
begin

text \<open>
  Such a reader sees the history without a gap or a repetition, however much was appended in between.
\<close>

lemma follow_contiguous:
  assumes "list_all2 holds ts hs" "\<forall>h\<in>set hs. prefix h final" "follow read_log ts offset maximum = Some data"
    and "offset \<le> length final"
  shows "data = take (length data) (drop offset final)"
  using assms
proof (induction ts hs arbitrary: offset data rule: list_all2_induct)
  case Nil
  then show ?case by simp
next
  case (Cons t ts h hs)
  obtain g where g: "final = h @ g" using Cons.prems by (auto simp: prefix_def)
  from Cons.prems(2) obtain o' d rest where r: "read_log t offset maximum = Some (Inr (o', d))"
    and rest: "follow read_log ts (offset + length d) maximum = Some rest" and data: "data = d @ rest"
  proof (cases "read_log t offset maximum")
    case (Some r)
    with Cons.prems(2) that show thesis by (cases r) (auto simp: bind_eq_Some_conv)
  qed simp
  have d: "offset \<le> length h" "d = take maximum (drop offset h)"
    using read_holds [OF Cons.hyps(1), of offset maximum] r by auto
  then have "offset + length d \<le> length final" using g by auto
  with Cons.IH [OF _ rest] Cons.prems(1) have tail: "rest = take (length rest) (drop (offset + length d) final)" by simp
  have "d = take (length d) (drop offset final)" using d g by (auto simp: min_def)
  with tail data show ?case
    by (metis add.commute drop_drop length_append take_add)
qed

end

locale byte_log = log_reader holds read_log
  for holds :: "'t \<Rightarrow> byte list \<Rightarrow> bool" and read_log +
  fixes append_log :: "'t \<Rightarrow> byte list \<Rightarrow> 't option"
    and room :: "'t \<Rightarrow> nat \<Rightarrow> bool"
  assumes append_holds: "holds t h \<Longrightarrow> room t (Suc n) \<Longrightarrow> length h + length chunk < 2 ^ 64 \<Longrightarrow>
      runs (append_log t chunk) (\<lambda>t'. holds t' (h @ chunk) \<and> room t' n)"
begin

lemma append_all_holds:
  assumes "holds t h" "room t (length chunks)" "length h + length (concat chunks) < 2 ^ 64"
  shows "runs (for_each append_log t chunks) (\<lambda>t'. holds t' (h @ concat chunks))"
  using assms
proof (induction chunks arbitrary: t h)
  case Nil
  then show ?case by simp
next
  case (Cons c cs)
  then have "runs (append_log t c) (\<lambda>t'. holds t' (h @ c) \<and> room t' (length cs))"
    by (intro append_holds) auto
  then show ?case
    unfolding for_each.simps
  proof (rule runs_bindI, elim conjE)
    fix t'
    assume "holds t' (h @ c)" "room t' (length cs)"
    then have "runs (for_each append_log t' cs) (\<lambda>t'. holds t' ((h @ c) @ concat cs))"
      using Cons.prems(3) by (intro Cons.IH) auto
    then show "runs (for_each append_log t' cs) (\<lambda>t'. holds t' (h @ concat (c # cs)))" by simp
  qed
qed

end

section \<open>The tail is such a log\<close>

definition tail_holds :: "output_tail \<Rightarrow> byte list \<Rightarrow> bool" where
  "tail_holds t h \<longleftrightarrow> length h < 2 ^ 64 \<and> ot_start t = length h - ot_capacity t \<and>
     ot_bytes t = drop (ot_start t) h \<and> length (ot_bytes t) \<le> ot_allocated t \<and> ot_allocated t \<le> ot_capacity t"

lemma tail_holds_new: "tail_holds (tail_new capacity) []"
  by (simp add: tail_holds_def tail_new_def)

lemma tail_holds_end: "tail_holds t h \<Longrightarrow> tail_end_offset t = Some (length h)"
  by (auto simp: tail_holds_def tail_end_offset_def u64_add_def)

lemma runs_reserve_exact_for:
  assumes "length (ot_bytes t) + n \<le> ot_capacity t" "ot_allocated t \<le> ot_capacity t"
  shows "runs (reserve_exact_for t n) (\<lambda>t'. \<exists>a. t' = t\<lparr>ot_allocated := a\<rparr> \<and>
    length (ot_bytes t) + n \<le> a \<and> a \<le> ot_capacity t)"
proof (cases "length (ot_bytes t) + n > ot_allocated t")
  case True
  let ?target = "min (max (length (ot_bytes t) + n) (ot_allocated t * 2)) (ot_capacity t)"
  have "length (ot_bytes t) \<le> ?target" "length (ot_bytes t) + n \<le> ?target" "?target \<le> ot_capacity t"
    using assms by auto
  with True assms show ?thesis
    unfolding reserve_exact_for_def Let_def by (auto simp: wp intro!: exI [of _ ?target] max_absorb2)
next
  case False
  with assms show ?thesis
    unfolding reserve_exact_for_def Let_def by (auto intro!: exI [of _ "ot_allocated t"])
qed

lemma tail_append_holds:
  assumes t: "tail_holds t h" and size: "length h + length chunk < 2 ^ 64"
  shows "runs (tail_append t chunk) (\<lambda>t'. tail_holds t' (h @ chunk) \<and> ot_capacity t' = ot_capacity t)"
proof (cases "length chunk \<ge> ot_capacity t")
  case True
  let ?keep = "drop (length chunk - ot_capacity t) chunk"
  let ?t = "t\<lparr>ot_start := length h + (length chunk - ot_capacity t), ot_bytes := []\<rparr>"
  have len: "length chunk - length ?keep = length chunk - ot_capacity t" "length ?keep = ot_capacity t"
    using True by auto
  have "runs (reserve_exact_for ?t (length ?keep)) (\<lambda>t'. \<exists>a. t' = ?t\<lparr>ot_allocated := a\<rparr> \<and>
      length (ot_bytes ?t) + length ?keep \<le> a \<and> a \<le> ot_capacity ?t)"
    using t len by (intro runs_reserve_exact_for) (auto simp: tail_holds_def)
  with True t size len show ?thesis
    unfolding tail_append_def Let_def tail_holds_end [OF t]
    by (auto simp: wp tail_holds_def elim!: runs_mono)
next
  case False
  define excess where "excess = length (ot_bytes t) + length chunk - ot_capacity t"
  let ?t = "t\<lparr>ot_bytes := drop excess (ot_bytes t), ot_start := ot_start t + excess\<rparr>"
  have ex: "excess \<le> length (ot_bytes t)" "ot_start t + excess < 2 ^ 64" "ot_start t + excess = length h + length chunk - ot_capacity t"
    using t size False by (auto simp: excess_def tail_holds_def)
  have "length (ot_bytes t) \<le> ot_capacity t" using t by (auto simp: tail_holds_def)
  then have fits: "length (ot_bytes t) - excess + length chunk \<le> ot_capacity t"
    using False unfolding excess_def by linarith
  have drain: "(if excess > 0 then do {
      dassert (excess \<le> length (ot_bytes t));
      start \<leftarrow> u64_add (ot_start t) excess;
      Some (t\<lparr>ot_bytes := drop excess (ot_bytes t), ot_start := start\<rparr>)
    } else Some t) = Some ?t"
    using ex by (auto simp: dassert_def u64_add_def)
  have "runs (reserve_exact_for ?t (length chunk)) (\<lambda>t'. \<exists>a. t' = ?t\<lparr>ot_allocated := a\<rparr> \<and>
      length (ot_bytes ?t) + length chunk \<le> a \<and> a \<le> ot_capacity ?t)"
    using t fits by (intro runs_reserve_exact_for) (auto simp: tail_holds_def)
  with False t ex size show ?thesis
    unfolding tail_append_def Let_def excess_def [symmetric] drain
    by (auto simp: runs_bind tail_holds_def add.commute elim!: runs_mono) linarith
qed

lemma tail_read_holds:
  assumes t: "tail_holds t h"
  shows "runs (read_from t offset maximum) (\<lambda>r. case r of
      Inl e \<Rightarrow> evicted_ok h offset e
    | Inr (o', data) \<Rightarrow> o' = offset \<and> offset \<le> length h \<and> data = take maximum (drop offset h))"
  using t unfolding read_from_def tail_holds_end [OF t]
  by (auto simp: wp tail_holds_def evicted_ok_def min_def)

interpretation tail_log: byte_log tail_holds read_from tail_append "\<lambda>_ _. True"
proof
  fix t h offset maximum
  assume "tail_holds t h"
  then show "runs (read_from t offset maximum) (\<lambda>r. case r of
      Inl e \<Rightarrow> evicted_ok h offset e
    | Inr (o', data) \<Rightarrow> o' = offset \<and> offset \<le> length h \<and> data = take maximum (drop offset h))"
    by (rule tail_read_holds)
next
  fix t and h chunk :: "byte list" and n :: nat
  assume "tail_holds t h" "length h + length chunk < 2 ^ 64"
  then show "runs (tail_append t chunk) (\<lambda>t'. tail_holds t' (h @ chunk) \<and> True)"
    using tail_append_holds by (fastforce elim: runs_mono)
qed

section \<open>So is the stream\<close>

text \<open>
  A released stream has dropped its tail. It still stands for its history, of which nothing is kept: a
  reader at the end gets nothing more, any other reader is told that its offset is gone.
\<close>

definition stream_holds :: "stream_state \<Rightarrow> byte list \<Rightarrow> bool" where
  "stream_holds s h \<longleftrightarrow> ss_end_offset s = length h \<and>
     (case ss_tail s of None \<Rightarrow> \<not> ss_live s | Some t \<Rightarrow> tail_holds t h)"

definition open_stream_holds :: "stream_state \<Rightarrow> byte list \<Rightarrow> bool" where
  "open_stream_holds s h \<longleftrightarrow> stream_holds s h \<and> ss_tail s \<noteq> None"

definition stream_room :: "stream_state \<Rightarrow> nat \<Rightarrow> bool" where
  "stream_room s n \<longleftrightarrow> ss_publications s + n < 2 ^ 64"

definition slice_pair :: "tail_evicted + output_slice \<Rightarrow> tail_evicted + nat \<times> byte list" where
  "slice_pair r = map_sum id (\<lambda>sl. (os_offset sl, os_data sl)) r"

definition read_pair :: "stream_state \<Rightarrow> nat \<Rightarrow> nat \<Rightarrow> (tail_evicted + nat \<times> byte list) option" where
  "read_pair s offset maximum = map_option slice_pair (stream_read s offset maximum)"

definition append_state :: "stream_state \<Rightarrow> byte list \<Rightarrow> stream_state option" where
  "append_state s chunk = map_option snd (stream_append s chunk)"

lemma stream_read_holds:
  assumes "stream_holds s h"
  shows "runs (read_pair s offset maximum) (\<lambda>r. case r of
      Inl e \<Rightarrow> evicted_ok h offset e
    | Inr (o', data) \<Rightarrow> o' = offset \<and> offset \<le> length h \<and> data = take maximum (drop offset h))"
proof (cases "ss_tail s")
  case None
  with assms show ?thesis
    by (auto simp: read_pair_def stream_read_def stream_holds_def slice_pair_def evicted_ok_def Let_def)
next
  case (Some t)
  with assms have "tail_holds t h" by (simp add: stream_holds_def)
  moreover have "read_pair s offset maximum = read_from t offset maximum"
  proof (cases "read_from t offset maximum")
    case (Some r)
    with \<open>ss_tail s = Some t\<close> show ?thesis
      by (cases r) (auto simp: read_pair_def stream_read_def slice_pair_def Let_def)
  qed (simp add: read_pair_def stream_read_def \<open>ss_tail s = Some t\<close>)
  ultimately show ?thesis using tail_read_holds by simp
qed

interpretation stream_reader: log_reader stream_holds read_pair
  by unfold_locales (rule stream_read_holds)

lemma stream_append_holds:
  assumes "open_stream_holds s h" "ss_publications s + 1 < 2 ^ 64" "length h + length chunk < 2 ^ 64"
  shows "runs (stream_append s chunk) (\<lambda>(e, s'). e = length (h @ chunk) \<and> open_stream_holds s' (h @ chunk) \<and>
    ss_publications s' = Suc (ss_publications s) \<and> ss_live s' = ss_live s)"
proof -
  obtain t where t: "ss_tail s = Some t" "tail_holds t h"
    using assms(1) by (auto simp: open_stream_holds_def stream_holds_def)
  from tail_append_holds [OF t(2) assms(3)] assms(2) show ?thesis
    unfolding stream_append_def t(1) option.case publish_one_def
    by (auto simp: wp open_stream_holds_def stream_holds_def tail_holds_end elim!: runs_mono)
qed

interpretation stream_log: byte_log open_stream_holds
  read_pair append_state stream_room
proof
  fix s h offset maximum
  assume "open_stream_holds s h"
  then show "runs (read_pair s offset maximum) (\<lambda>r. case r of
      Inl e \<Rightarrow> evicted_ok h offset e
    | Inr (o', data) \<Rightarrow> o' = offset \<and> offset \<le> length h \<and> data = take maximum (drop offset h))"
    by (intro stream_read_holds) (simp add: open_stream_holds_def)
next
  fix s and h chunk :: "byte list" and n
  assume "open_stream_holds s h" "stream_room s (Suc n)" "length h + length chunk < 2 ^ 64"
  then have "runs (stream_append s chunk) (\<lambda>(e, s'). e = length (h @ chunk) \<and> open_stream_holds s' (h @ chunk) \<and>
    ss_publications s' = Suc (ss_publications s) \<and> ss_live s' = ss_live s)" and "ss_publications s + Suc n < 2 ^ 64"
    using stream_append_holds [of s h chunk] by (auto simp: stream_room_def)
  then show "runs (append_state s chunk) (\<lambda>s'. open_stream_holds s' (h @ chunk) \<and> stream_room s' n)"
    by (auto simp: append_state_def runs_iff stream_room_def)
qed

section \<open>What the readers rely on\<close>

text \<open>
  C20. After any sequence of appends to a new tail, a read never panics: at an offset among the last
  \<open>capacity\<close> bytes of the output, its end included, it returns exactly the bytes written from there on, at
  most as many as asked for, and for every other offset it reports the bounds of what is kept.
\<close>

theorem tail_reads_history:
  assumes "length (concat chunks) < 2 ^ 64"
  shows "runs (do { t \<leftarrow> for_each tail_append (tail_new capacity) chunks; read_from t offset maximum }) (\<lambda>r.
    let h = concat chunks in
    if length h - capacity \<le> offset \<and> offset \<le> length h then r = Inr (offset, take maximum (drop offset h))
    else r = Inl \<lparr>te_requested = offset, te_tail_start = length h - capacity, te_tail_end = length h\<rparr>)"
proof -
  let ?h = "concat chunks"
  have "runs (for_each tail_append t cs) (\<lambda>t'. ot_capacity t' = ot_capacity t \<and> tail_holds t' (h @ concat cs))"
    if "tail_holds t h" "length h + length (concat cs) < 2 ^ 64" for t h cs
    using that
  proof (induction cs arbitrary: t h)
    case (Cons c cs)
    from tail_append_holds [of t h c] Cons.prems obtain t' where t': "tail_append t c = Some t'"
      "tail_holds t' (h @ c)" "ot_capacity t' = ot_capacity t" by (auto simp: runs_iff)
    with Cons.IH [of t' "h @ c"] Cons.prems(2) show ?case by simp
  qed simp
  from this [OF tail_holds_new, of chunks capacity] assms have "runs (for_each tail_append (tail_new capacity) chunks)
      (\<lambda>t. ot_capacity t = capacity \<and> tail_holds t ?h)" by (simp add: tail_new_def)
  then show ?thesis
  proof (rule runs_bindI, elim conjE)
    fix t
    assume t: "ot_capacity t = capacity" "tail_holds t ?h"
    then have "ot_start t = length ?h - capacity" by (simp add: tail_holds_def)
    with t show "runs (read_from t offset maximum) (\<lambda>r. let h = concat chunks in
      if length h - capacity \<le> offset \<and> offset \<le> length h then r = Inr (offset, take maximum (drop offset h))
      else r = Inl \<lparr>te_requested = offset, te_tail_start = length h - capacity, te_tail_end = length h\<rparr>)"
      unfolding read_from_def tail_holds_end [OF t(2)]
      by (auto simp: wp tail_holds_def Let_def min_def)
  qed
qed

theorem tail_reads_history_witness:
  "length (concat [[1, 2], [3 :: nat]]) < 2 ^ 64 \<and>
   (do { t \<leftarrow> for_each tail_append (tail_new 2) [[1, 2], [3]]; read_from t 1 5 }) = Some (Inr (1, [2, 3]))"
  using tail_reads_history [of "[[1, 2], [3]]" 2 1 5] by (auto simp: runs_iff Let_def)

text \<open>
  The tail never keeps, nor allocates room for, more bytes than its capacity.
\<close>

theorem tail_bounded:
  assumes "length (concat chunks) < 2 ^ 64"
  shows "runs (for_each tail_append (tail_new capacity) chunks)
    (\<lambda>t. length (ot_bytes t) \<le> ot_allocated t \<and> ot_allocated t \<le> ot_capacity t \<and>
      length (ot_bytes t) = min (ot_capacity t) (length (concat chunks)))"
  using tail_log.append_all_holds [OF tail_holds_new, of chunks capacity] assms
  by (auto simp: tail_holds_def elim!: runs_mono)

theorem tail_bounded_witness:
  "runs (for_each tail_append (tail_new 2) [[1, 2], [3]])
    (\<lambda>t. length (ot_bytes t) \<le> ot_allocated t \<and> ot_allocated t \<le> ot_capacity t \<and>
      length (ot_bytes t) = min (ot_capacity t) (length (concat [[1, 2], [3 :: nat]])))"
  by (rule tail_bounded) simp

text \<open>
  The operations of a stream in any order, and what they have written: appends to a released stream are
  dropped.
\<close>

datatype stream_op = Append "byte list" | Finish | Release | Wake

fun run_op :: "stream_state \<Rightarrow> stream_op \<Rightarrow> stream_state option" where
  "run_op s (Append chunk) = append_state s chunk"
| "run_op s Finish = finish s"
| "run_op s Release = release s"
| "run_op s Wake = wake s"

fun written :: "stream_op list \<Rightarrow> byte list" where
  "written [] = []"
| "written (Append chunk # ops) = chunk @ written ops"
| "written (Release # ops) = []"
| "written (Finish # ops) = written ops"
| "written (Wake # ops) = written ops"

lemma run_released:
  assumes "stream_holds s h" "ss_tail s = None" "stream_room s (length ops)"
  shows "runs (for_each run_op s ops) (\<lambda>s'. stream_holds s' h)"
  using assms
proof (induction ops arbitrary: s)
  case Nil
  then show ?case by simp
next
  case (Cons op ops)
  have "runs (run_op s op) (\<lambda>s'. stream_holds s' h \<and> ss_tail s' = None \<and> stream_room s' (length ops))"
    using Cons.prems
    by (cases op) (auto simp: append_state_def stream_append_def finish_def release_def wake_def publish_one_def
        u64_add_def stream_holds_def stream_room_def)
  then show ?case using Cons.IH by (auto intro: runs_bindI)
qed

lemma run_open:
  assumes "open_stream_holds s h" "stream_room s (length ops)" "length h + length (written ops) < 2 ^ 64"
  shows "runs (for_each run_op s ops) (\<lambda>s'. stream_holds s' (h @ written ops))"
  using assms
proof (induction ops arbitrary: s h rule: written.induct)
  case 1
  then show ?case by (simp add: open_stream_holds_def)
next
  case (2 chunk ops)
  have "runs (append_state s chunk) (\<lambda>s'. open_stream_holds s' (h @ chunk) \<and> stream_room s' (length ops))"
    using 2 by (intro stream_log.append_holds) auto
  moreover have "runs (for_each run_op s' ops) (\<lambda>s'. stream_holds s' ((h @ chunk) @ written ops))"
    if "open_stream_holds s' (h @ chunk)" "stream_room s' (length ops)" for s'
    using that "2.prems"(3) by (intro "2.IH") auto
  ultimately show ?case by (auto intro!: runs_bindI [of "append_state s chunk"])
next
  case (3 ops)
  have "runs (release s) (\<lambda>s'. stream_holds s' h \<and> ss_tail s' = None \<and> stream_room s' (length ops))"
    using 3 by (auto simp: release_def publish_one_def u64_add_def open_stream_holds_def stream_holds_def stream_room_def)
  then show ?case using run_released by (auto intro!: runs_bindI [of "release s"])
next
  case (4 ops)
  have "runs (finish s) (\<lambda>s'. open_stream_holds s' h \<and> stream_room s' (length ops))"
    using 4 by (auto simp: finish_def publish_one_def u64_add_def open_stream_holds_def stream_holds_def stream_room_def)
  then show ?case using 4 by (auto intro!: runs_bindI [of "finish s"])
next
  case (5 ops)
  have "runs (wake s) (\<lambda>s'. open_stream_holds s' h \<and> stream_room s' (length ops))"
    using 5 by (auto simp: wake_def publish_one_def u64_add_def open_stream_holds_def stream_holds_def stream_room_def)
  then show ?case using 5 by (auto intro!: runs_bindI [of "wake s"])
qed

lemma stream_run_holds:
  assumes "length ops < 2 ^ 64" "length (written ops) < 2 ^ 64"
  shows "runs (for_each run_op (stream_new capacity) ops) (\<lambda>s. stream_holds s (written ops))"
  using run_open [of "stream_new capacity" "[]" ops] assms tail_holds_new [of capacity]
  by (simp add: open_stream_holds_def stream_holds_def stream_new_def stream_room_def)

lemma prefix_written: "prefix ops ops' \<Longrightarrow> prefix (written ops) (written ops')"
proof (induction ops arbitrary: ops' rule: written.induct)
  case (2 chunk ops)
  then show ?case by (cases ops') auto
next
  case (4 ops)
  then show ?case by (cases ops') auto
next
  case (5 ops)
  then show ?case by (cases ops') auto
qed auto

text \<open>
  C21. Whatever operations a stream goes through, a subscriber that looks at it at any moments in order, each
  read starting where the last one ended, receives a gapless and repetition-free piece of what was written:
  the bytes from its first offset on.
\<close>

theorem stream_follow_contiguous:
  assumes "length ops < 2 ^ 64" "length (written ops) < 2 ^ 64"
    and "list_all2 (\<lambda>s past. prefix past ops \<and> for_each run_op (stream_new capacity) past = Some s) states pasts"
    and "follow read_pair states offset maximum = Some data" "offset \<le> length (written ops)"
  shows "data = take (length data) (drop offset (written ops))"
proof (rule stream_reader.follow_contiguous [OF _ _ assms(4,5)])
  have "stream_holds s (written past)" if "prefix past ops" "for_each run_op (stream_new capacity) past = Some s" for s past
  proof -
    have "length past < 2 ^ 64" "length (written past) < 2 ^ 64"
      using prefix_length_le [OF that(1)] prefix_length_le [OF prefix_written [OF that(1)]] assms(1,2) by auto
    from stream_run_holds [OF this, of capacity] that(2) show ?thesis by simp
  qed
  with assms(3) show "list_all2 stream_holds states (map written pasts)"
    by (auto simp: list_all2_map2 elim!: list_all2_mono)
  show "\<forall>h\<in>set (map written pasts). prefix h (written ops)"
    using assms(3) prefix_written by (fastforce simp: list_all2_conv_all_nth in_set_conv_nth)
qed

lemmas stream_eval = append_state_def stream_append_def stream_new_def tail_new_def tail_append_def
  tail_end_offset_def reserve_exact_for_def publish_one_def finish_def u64_add_def usub_def dassert_def Let_def
  read_pair_def stream_read_def read_from_def slice_pair_def

theorem stream_follow_contiguous_witness:
  "\<exists>s0 s1. for_each run_op (stream_new 4) [Append [1, 2, 3]] = Some s0 \<and>
     for_each run_op (stream_new 4) [Append [1, 2, 3], Append [4, 5], Finish] = Some s1 \<and>
     follow read_pair [s0, s1] 1 9 = Some [2, 3, 4, 5] \<and>
     [2, 3, 4, 5] = take (length [2, 3, 4, 5 :: nat]) (drop 1 (written [Append [1, 2, 3], Append [4, 5], Finish]))"
proof -
  let ?past = "[Append [1, 2, 3]]" and ?ops = "[Append [1, 2, 3], Append [4, 5], Finish]"
  define s0 s1 where "s0 = \<lparr>ss_tail = Some \<lparr>ot_capacity = 4, ot_start = 0, ot_bytes = [1, 2, 3], ot_allocated = 3\<rparr>,
      ss_end_offset = 3, ss_live = True, ss_publications = 1\<rparr>"
    and "s1 = \<lparr>ss_tail = Some \<lparr>ot_capacity = 4, ot_start = 1, ot_bytes = [2, 3, 4, 5], ot_allocated = 4\<rparr>,
      ss_end_offset = 5, ss_live = False, ss_publications = 3\<rparr>"
  have run: "for_each run_op (stream_new 4) ?past = Some s0" "for_each run_op (stream_new 4) ?ops = Some s1"
    by (simp_all add: stream_eval s0_def s1_def)
  have read: "follow read_pair [s0, s1] 1 9 = Some [2, 3, 4, 5]"
    by (simp add: stream_eval s0_def s1_def)
  have "[2, 3, 4, 5] = take (length [2, 3, 4, 5 :: nat]) (drop 1 (written ?ops))"
    by (rule stream_follow_contiguous [OF _ _ _ read, where pasts = "[?past, ?ops]" and capacity = 4])
      (use run in \<open>simp_all del: for_each.simps\<close>)
  with run read show ?thesis by blast
qed

text \<open>
  C22. A wait returns: once it has looked at the stream at its deadline or later, or after the stream has ended or
  moved past the offset, it has an answer, and the answer is true of the state it looked at last.
\<close>

theorem wait_past_answers:
  assumes "(s, now) \<in> set looks" "ss_end_offset s > offset \<or> \<not> ss_live s \<or> now \<ge> deadline"
  shows "\<exists>s' now' w. (s', now') \<in> set looks \<and> wait_past looks offset deadline = Some w \<and>
    (case w of Published \<Rightarrow> ss_end_offset s' > offset
     | Ended \<Rightarrow> \<not> ss_live s' \<and> ss_end_offset s' \<le> offset
     | Deadline \<Rightarrow> ss_live s' \<and> ss_end_offset s' \<le> offset \<and> now' \<ge> deadline)"
  using assms
proof (induction looks)
  case (Cons look looks)
  obtain s' now' where look: "look = (s', now')" by (cases look)
  show ?case
  proof (cases "ss_end_offset s' > offset \<or> \<not> ss_live s' \<or> now' \<ge> deadline")
    case True
    then show ?thesis by (intro exI [of _ s'] exI [of _ now']) (auto simp: look)
  next
    case False
    with Cons show ?thesis by (auto simp: look)
  qed
qed simp

theorem wait_past_answers_witness:
  "\<exists>s' now' w. (s', now') \<in> set [(stream_new 4, 0), (stream_new 4, 9 :: nat)] \<and>
    wait_past [(stream_new 4, 0), (stream_new 4, 9)] 0 9 = Some w \<and>
    (case w of Published \<Rightarrow> ss_end_offset s' > 0
     | Ended \<Rightarrow> \<not> ss_live s' \<and> ss_end_offset s' \<le> 0
     | Deadline \<Rightarrow> ss_live s' \<and> ss_end_offset s' \<le> 0 \<and> now' \<ge> 9)"
  by (rule wait_past_answers [of "stream_new 4" 9]) simp_all

end
