(* ===== verification/Write_Approvals.thy ===== *)
theory Write_Approvals
  imports Prelude "HOL-Library.Sublist"
begin

text \<open>
  \<open>crates/paneflow-host/src/agent_write.rs\<close>: an agent may write into the pane of another one only after a
  human allowed that very pair of running agents, and then only at a limited rate. The book of requests
  and approvals is the record \<open>book\<close>; the windows that watch it are bounded queues of frames.

  An \<open>Instant\<close> is a \<open>nat\<close> of nanoseconds on one clock and \<open>saturating_duration_since\<close> is subtraction on
  \<open>nat\<close>. Hash maps are maps and hash sets are sets: the code never iterates over them. Log lines are not
  modelled. A frame is the list of its request rows.
\<close>

section \<open>Requests\<close>

type_synonym instant = nat
type_synonym duration = nat

definition NANOS_PER_SEC :: nat where
  "NANOS_PER_SEC = 1000000000"

definition as_millis :: "duration \<Rightarrow> nat" where
  "as_millis d = d div 1000000"

definition APPROVAL_REQUEST_TTL :: duration where
  "APPROVAL_REQUEST_TTL = 120 * NANOS_PER_SEC"

definition WRITE_REFILL_INTERVAL :: duration where
  "WRITE_REFILL_INTERVAL = 1 * NANOS_PER_SEC"

definition WRITE_BURST :: nat where
  "WRITE_BURST = 3"

definition WATCHER_QUEUE_SLOTS :: nat where
  "WATCHER_QUEUE_SLOTS = 64"

record agent_occurrence =
  ao_session :: string
  ao_generation :: nat
  ao_pid :: nat
  ao_started_at :: "nat option"

type_synonym agent_pair = "agent_occurrence \<times> agent_occurrence"

record pending_approval =
  pa_id :: nat
  pa_source :: agent_occurrence
  pa_target :: agent_occurrence
  pa_source_label :: string
  pa_target_label :: string
  pa_created :: instant

datatype Settled = SettledDenied | SettledExpired

datatype Admission = Approved | Pending nat | Denied | Expired

datatype Decision = Allow | Deny

definition decision_parse :: "string \<Rightarrow> Decision option" where
  "decision_parse raw = (if raw = ''allow'' then Some Allow else if raw = ''deny'' then Some Deny else None)"

record bucket =
  bk_tokens :: nat
  bk_refilled :: instant

record book =
  bo_next_id :: nat
  bo_approved :: "agent_pair set"
  bo_pending :: "pending_approval list"
  bo_settled :: "agent_pair \<rightharpoonup> Settled"
  bo_buckets :: "agent_pair \<rightharpoonup> bucket"

definition book_default :: book where
  "book_default = \<lparr>bo_next_id = 0, bo_approved = {}, bo_pending = [], bo_settled = Map.empty, bo_buckets = Map.empty\<rparr>"

record request_row =
  rr_id :: nat
  rr_source_session :: string
  rr_target_session :: string
  rr_source :: string
  rr_target :: string
  rr_expires_in_ms :: nat

type_synonym frame = "request_row list"

text \<open>A watcher: its id, the frames in its channel not received yet, and whether its receiver still exists.\<close>

record watcher =
  wa_id :: nat
  wa_frames :: "frame list"
  wa_connected :: bool

record write_approvals =
  wr_book :: book
  wr_watchers :: "watcher list"
  wr_next_watcher :: nat

definition write_approvals_default :: write_approvals where
  "write_approvals_default = \<lparr>wr_book = book_default, wr_watchers = [], wr_next_watcher = 0\<rparr>"

abbreviation pa_pair :: "pending_approval \<Rightarrow> agent_pair" where
  "pa_pair p \<equiv> (pa_source p, pa_target p)"

section \<open>Operations\<close>

definition watch :: "write_approvals \<Rightarrow> nat \<times> write_approvals" where
  "watch w = (let n = (wr_next_watcher w + 1) mod 2 ^ 64
     in (n, w\<lparr>wr_next_watcher := n,
              wr_watchers := wr_watchers w @ [\<lparr>wa_id = n, wa_frames = [], wa_connected = True\<rparr>]\<rparr>))"

definition unwatch :: "write_approvals \<Rightarrow> nat \<Rightarrow> write_approvals" where
  "unwatch w i = w\<lparr>wr_watchers := filter (\<lambda>x. wa_id x \<noteq> i) (wr_watchers w)\<rparr>"

definition has_window :: "write_approvals \<Rightarrow> bool" where
  "has_window w \<longleftrightarrow> wr_watchers w \<noteq> []"

definition snapshot_of :: "pending_approval list \<Rightarrow> instant \<Rightarrow> frame" where
  "snapshot_of pending now = map (\<lambda>p. \<lparr>rr_id = pa_id p, rr_source_session = ao_session (pa_source p),
     rr_target_session = ao_session (pa_target p), rr_source = pa_source_label p, rr_target = pa_target_label p,
     rr_expires_in_ms = as_millis (pa_created p + APPROVAL_REQUEST_TTL - now)\<rparr>) pending"

definition snapshot :: "write_approvals \<Rightarrow> instant \<Rightarrow> frame" where
  "snapshot w now = snapshot_of (bo_pending (wr_book w)) now"

definition publish :: "write_approvals \<Rightarrow> frame \<Rightarrow> write_approvals" where
  "publish w f = w\<lparr>wr_watchers := map (\<lambda>x. if length (wa_frames x) < WATCHER_QUEUE_SLOTS
       then x\<lparr>wa_frames := wa_frames x @ [f]\<rparr> else x) (filter wa_connected (wr_watchers w))\<rparr>"

definition is_due :: "instant \<Rightarrow> pending_approval \<Rightarrow> bool" where
  "is_due now p \<longleftrightarrow> now - pa_created p \<ge> APPROVAL_REQUEST_TTL"

definition expire_due :: "book \<Rightarrow> instant \<Rightarrow> bool \<times> book" where
  "expire_due b now =
     (let expired = filter (is_due now) (bo_pending b)
      in (expired \<noteq> [],
          b\<lparr>bo_pending := filter (\<lambda>p. \<not> is_due now p) (bo_pending b),
            bo_settled := fold (\<lambda>p m. m(pa_pair p \<mapsto> SettledExpired)) expired (bo_settled b)\<rparr>))"

definition admit_book :: "book \<Rightarrow> agent_occurrence \<Rightarrow> agent_occurrence \<Rightarrow> string \<Rightarrow> string \<Rightarrow> instant \<Rightarrow>
    (Admission \<times> bool \<times> book) option" where
  "admit_book b source target source_label target_label now =
     (let (changed, b) = expire_due b now; pair = (source, target)
      in if pair \<in> bo_approved b then Some (Approved, changed, b)
         else case bo_settled b pair of
           Some settled \<Rightarrow>
             Some (case settled of SettledDenied \<Rightarrow> Denied | SettledExpired \<Rightarrow> Expired, changed,
               b\<lparr>bo_settled := (bo_settled b)(pair := None)\<rparr>)
         | None \<Rightarrow>
             (case find (\<lambda>p. pa_source p = source \<and> pa_target p = target) (bo_pending b) of
                Some p \<Rightarrow> Some (Pending (pa_id p), changed, b)
              | None \<Rightarrow> do {
                  i \<leftarrow> u64_add (bo_next_id b) 1;
                  Some (Pending i, True, b\<lparr>bo_next_id := i, bo_pending := bo_pending b @
                    [\<lparr>pa_id = i, pa_source = source, pa_target = target, pa_source_label = source_label,
                      pa_target_label = target_label, pa_created = now\<rparr>]\<rparr>)
                }))"

definition admit :: "write_approvals \<Rightarrow> agent_occurrence \<Rightarrow> agent_occurrence \<Rightarrow> string \<Rightarrow> string \<Rightarrow> instant \<Rightarrow>
    (Admission \<times> write_approvals) option" where
  "admit w source target source_label target_label now = do {
     (admission, changed, b) \<leftarrow> admit_book (wr_book w) source target source_label target_label now;
     let w = w\<lparr>wr_book := b\<rparr>;
     Some (admission, if changed then publish w (snapshot_of (bo_pending b) now) else w)
   }"

definition refill :: "bucket \<Rightarrow> instant \<Rightarrow> bucket" where
  "refill bk now =
     (let elapsed = now - bk_refilled bk;
          intervals = as_millis elapsed div as_millis WRITE_REFILL_INTERVAL;
          earned = min (if intervals < 2 ^ 32 then intervals else WRITE_BURST) WRITE_BURST;
          bk = (if earned > 0
                then \<lparr>bk_tokens = min (bk_tokens bk + earned) WRITE_BURST,
                      bk_refilled = bk_refilled bk + WRITE_REFILL_INTERVAL * earned\<rparr>
                else bk)
      in if bk_tokens bk = WRITE_BURST then bk\<lparr>bk_refilled := now\<rparr> else bk)"

definition take_token :: "write_approvals \<Rightarrow> agent_occurrence \<Rightarrow> agent_occurrence \<Rightarrow> instant \<Rightarrow>
    (duration + unit) \<times> write_approvals" where
  "take_token w source target now =
     (let b = wr_book w; pair = (source, target);
          bk = (case bo_buckets b pair of Some bk \<Rightarrow> bk
                | None \<Rightarrow> \<lparr>bk_tokens = WRITE_BURST, bk_refilled = now\<rparr>);
          bk = refill bk now;
          put = (\<lambda>bk. w\<lparr>wr_book := b\<lparr>bo_buckets := (bo_buckets b)(pair \<mapsto> bk)\<rparr>\<rparr>)
      in if bk_tokens bk = 0 then (Inl (WRITE_REFILL_INTERVAL - (now - bk_refilled bk)), put bk)
         else (Inr (), put (bk\<lparr>bk_tokens := bk_tokens bk - 1\<rparr>)))"

definition decide_book :: "book \<Rightarrow> nat \<Rightarrow> Decision \<Rightarrow> instant \<Rightarrow> bool \<times> book" where
  "decide_book b i decision now =
     (let b = snd (expire_due b now)
      in case find (\<lambda>p. pa_id p = i) (bo_pending b) of
           None \<Rightarrow> (False, b)
         | Some p \<Rightarrow>
             let b = b\<lparr>bo_pending := remove1 p (bo_pending b)\<rparr>
             in (True, case decision of
                  Allow \<Rightarrow> b\<lparr>bo_approved := insert (pa_pair p) (bo_approved b)\<rparr>
                | Deny \<Rightarrow> b\<lparr>bo_settled := (bo_settled b)(pa_pair p \<mapsto> SettledDenied)\<rparr>))"

definition decide :: "write_approvals \<Rightarrow> nat \<Rightarrow> Decision \<Rightarrow> instant \<Rightarrow> bool \<times> write_approvals" where
  "decide w i decision now =
     (let (ok, b) = decide_book (wr_book w) i decision now
      in (ok, publish (w\<lparr>wr_book := b\<rparr>) (snapshot_of (bo_pending b) now)))"

definition expire :: "write_approvals \<Rightarrow> instant \<Rightarrow> write_approvals" where
  "expire w now =
     (let (changed, b) = expire_due (wr_book w) now; w = w\<lparr>wr_book := b\<rparr>
      in if changed then publish w (snapshot_of (bo_pending b) now) else w)"

definition retain_book :: "book \<Rightarrow> agent_occurrence set \<Rightarrow> book" where
  "retain_book b live =
     b\<lparr>bo_approved := {p \<in> bo_approved b. fst p \<in> live \<and> snd p \<in> live},
       bo_settled := (\<lambda>p. if fst p \<in> live \<and> snd p \<in> live then bo_settled b p else None),
       bo_buckets := (\<lambda>p. if fst p \<in> live \<and> snd p \<in> live then bo_buckets b p else None),
       bo_pending := filter (\<lambda>p. pa_source p \<in> live \<and> pa_target p \<in> live) (bo_pending b)\<rparr>"

definition retain_live :: "write_approvals \<Rightarrow> agent_occurrence set \<Rightarrow> instant \<Rightarrow> write_approvals" where
  "retain_live w live now =
     (let b = retain_book (wr_book w) live; w' = w\<lparr>wr_book := b\<rparr>
      in if length (bo_pending b) = length (bo_pending (wr_book w)) then w'
         else publish w' (snapshot_of (bo_pending b) now))"

definition next_expiry :: "write_approvals \<Rightarrow> instant \<Rightarrow> duration option" where
  "next_expiry w now =
     (case map (\<lambda>p. pa_created p + APPROVAL_REQUEST_TTL - now) (bo_pending (wr_book w)) of
        [] \<Rightarrow> None
      | d # ds \<Rightarrow> Some (fold min ds d))"

section \<open>The relayed text\<close>

text \<open>A \<open>str\<close> is the list of its code points; \<open>char::is_control\<close> is the general category Cc.\<close>

definition is_control :: "nat \<Rightarrow> bool" where
  "is_control c \<longleftrightarrow> c < 32 \<or> 127 \<le> c \<and> c < 160"

definition PASTE_START :: "nat list" where
  "PASTE_START = [27, 91, 50, 48, 48, 126]"

definition PASTE_END :: "nat list" where
  "PASTE_END = [27, 91, 50, 48, 49, 126]"

function str_replace :: "nat list \<Rightarrow> nat list \<Rightarrow> nat list \<Rightarrow> nat list" where
  "str_replace [] pat rep = []"
| "str_replace (c # cs) pat rep =
     (if pat \<noteq> [] \<and> take (length pat) (c # cs) = pat then rep @ str_replace (drop (length pat) (c # cs)) pat rep
      else c # str_replace cs pat rep)"
  by pat_completeness auto
termination
  by (relation "measure (\<lambda>(s, pat, rep). length s)") (auto simp: neq_Nil_conv)

definition sanitize_relayed_text :: "nat list \<Rightarrow> nat list" where
  "sanitize_relayed_text text =
     filter (\<lambda>c. c = 10 \<or> c = 9 \<or> \<not> is_control c)
       (str_replace (str_replace (str_replace text PASTE_START []) PASTE_END []) [13, 10] [10])"

section \<open>The book\<close>

datatype approval_op =
  Admit agent_occurrence agent_occurrence string string instant
| TakeToken agent_occurrence agent_occurrence instant
| Decide nat Decision instant
| Expire instant
| RetainLive "agent_occurrence set" instant
| Watch
| Unwatch nat

fun run_approval :: "write_approvals \<Rightarrow> approval_op \<Rightarrow> write_approvals option" where
  "run_approval w (Admit source target src_label dst_label now) = map_option snd (admit w source target src_label dst_label now)"
| "run_approval w (TakeToken source target now) = Some (snd (take_token w source target now))"
| "run_approval w (Decide i decision now) = Some (snd (decide w i decision now))"
| "run_approval w (Expire now) = Some (expire w now)"
| "run_approval w (RetainLive live now) = Some (retain_live w live now)"
| "run_approval w Watch = Some (snd (watch w))"
| "run_approval w (Unwatch i) = Some (unwatch w i)"

text \<open>
  The states of a pair exclude each other: approved, pending, refused but not told yet. Requests have
  distinct ids, none above the counter, and a pair has at most one request.
\<close>

definition book_inv :: "book \<Rightarrow> bool" where
  "book_inv b \<longleftrightarrow> distinct (map pa_id (bo_pending b)) \<and> distinct (map pa_pair (bo_pending b)) \<and>
     (\<forall>p\<in>set (bo_pending b). 0 < pa_id p \<and> pa_id p \<le> bo_next_id b \<and> pa_pair p \<notin> bo_approved b \<and>
       bo_settled b (pa_pair p) = None) \<and>
     (\<forall>pair\<in>bo_approved b. bo_settled b pair = None) \<and>
     (\<forall>pair bk. bo_buckets b pair = Some bk \<longrightarrow> bk_tokens bk \<le> WRITE_BURST)"

lemma wr_book_publish [simp]: "wr_book (publish w f) = wr_book w"
  by (simp add: publish_def)

lemma fold_settle:
  "fold (\<lambda>p m. m(f p \<mapsto> v)) ps m x = (if x \<in> f ` set ps then Some v else m x)"
  by (induction ps arbitrary: m) auto

lemma expire_due_sel [simp]:
  "bo_approved (snd (expire_due b now)) = bo_approved b"
  "bo_next_id (snd (expire_due b now)) = bo_next_id b"
  "bo_buckets (snd (expire_due b now)) = bo_buckets b"
  "bo_pending (snd (expire_due b now)) = filter (\<lambda>p. \<not> is_due now p) (bo_pending b)"
  by (simp_all add: expire_due_def Let_def)

lemma expire_due_settled:
  "bo_settled (snd (expire_due b now)) pair =
     (if \<exists>p\<in>set (bo_pending b). is_due now p \<and> pa_pair p = pair then Some SettledExpired else bo_settled b pair)"
  by (auto simp: expire_due_def Let_def fold_settle)

lemma expire_due_inv: "book_inv b \<Longrightarrow> book_inv (snd (expire_due b now))"
proof -
  assume inv: "book_inv b"
  have "distinct (map pa_pair (bo_pending b))" using inv by (simp add: book_inv_def)
  then have unique: "p = q" if "p \<in> set (bo_pending b)" "q \<in> set (bo_pending b)" "pa_pair p = pa_pair q" for p q
    using that by (auto simp: distinct_map inj_on_def)
  show ?thesis
    using inv unique unfolding book_inv_def expire_due_settled expire_due_sel
    by (auto simp: distinct_map_filter split: if_splits)
qed

definition new_request :: "book \<Rightarrow> agent_occurrence \<Rightarrow> agent_occurrence \<Rightarrow> string \<Rightarrow> string \<Rightarrow> instant \<Rightarrow> pending_approval" where
  "new_request b source target src_label dst_label now = \<lparr>pa_id = Suc (bo_next_id b), pa_source = source,
     pa_target = target, pa_source_label = src_label, pa_target_label = dst_label, pa_created = now\<rparr>"

lemma new_request_sel [simp]:
  "pa_id (new_request b s t sl dl now) = Suc (bo_next_id b)" "pa_source (new_request b s t sl dl now) = s"
  "pa_target (new_request b s t sl dl now) = t" "pa_created (new_request b s t sl dl now) = now"
  by (simp_all add: new_request_def)

text \<open>The four outcomes of \<open>admit\<close>, on the book without the requests that are due.\<close>

lemma admit_book_cases:
  assumes "admit_book b source target src_label dst_label now = Some (a, c, b')"
  obtains (approved) "(source, target) \<in> bo_approved b" "a = Approved" "b' = snd (expire_due b now)"
  | (settled) "(source, target) \<notin> bo_approved b" "bo_settled (snd (expire_due b now)) (source, target) \<noteq> None"
      "a = Denied \<or> a = Expired"
      "b' = (snd (expire_due b now))\<lparr>bo_settled := (bo_settled (snd (expire_due b now)))((source, target) := None)\<rparr>"
  | (pending) p where "(source, target) \<notin> bo_approved b" "p \<in> set (bo_pending b)" "pa_pair p = (source, target)"
      "a = Pending (pa_id p)" "b' = snd (expire_due b now)"
  | (asked) "(source, target) \<notin> bo_approved b" "bo_settled (snd (expire_due b now)) (source, target) = None"
      "\<forall>p\<in>set (bo_pending (snd (expire_due b now))). pa_pair p \<noteq> (source, target)"
      "a = Pending (Suc (bo_next_id b))"
      "b' = (snd (expire_due b now))\<lparr>bo_next_id := Suc (bo_next_id b), bo_pending := bo_pending (snd (expire_due b now)) @
        [new_request b source target src_label dst_label now]\<rparr>"
proof -
  define e where "e = snd (expire_due b now)"
  have run: "(if (source, target) \<in> bo_approved e then Some (Approved, fst (expire_due b now), e)
      else case bo_settled e (source, target) of
        Some settled \<Rightarrow> Some (case settled of SettledDenied \<Rightarrow> Denied | SettledExpired \<Rightarrow> Expired, fst (expire_due b now),
               e\<lparr>bo_settled := (bo_settled e)((source, target) := None)\<rparr>)
      | None \<Rightarrow> (case find (\<lambda>p. pa_source p = source \<and> pa_target p = target) (bo_pending e) of
                Some p \<Rightarrow> Some (Pending (pa_id p), fst (expire_due b now), e)
              | None \<Rightarrow> do {
                  i \<leftarrow> u64_add (bo_next_id e) 1;
                  Some (Pending i, True, e\<lparr>bo_next_id := i, bo_pending := bo_pending e @
                    [\<lparr>pa_id = i, pa_source = source, pa_target = target, pa_source_label = src_label,
                      pa_target_label = dst_label, pa_created = now\<rparr>]\<rparr>)
                })) = Some (a, c, b')"
    unfolding e_def by (rule assms [unfolded admit_book_def Let_def case_prod_unfold])
  have e: "bo_approved e = bo_approved b" "bo_next_id e = bo_next_id b" "set (bo_pending e) \<subseteq> set (bo_pending b)"
    by (auto simp: e_def)
  consider "(source, target) \<in> bo_approved e"
    | s where "(source, target) \<notin> bo_approved e" "bo_settled e (source, target) = Some s"
    | p where "(source, target) \<notin> bo_approved e" "bo_settled e (source, target) = None"
        "find (\<lambda>p. pa_source p = source \<and> pa_target p = target) (bo_pending e) = Some p"
    | "(source, target) \<notin> bo_approved e" "bo_settled e (source, target) = None"
        "find (\<lambda>p. pa_source p = source \<and> pa_target p = target) (bo_pending e) = None"
    by (cases "bo_settled e (source, target)";
        cases "find (\<lambda>p. pa_source p = source \<and> pa_target p = target) (bo_pending e)") auto
  then show thesis
  proof cases
    case 1
    with run e show ?thesis by (intro approved) (auto simp: e_def [symmetric])
  next
    case (2 s)
    with run e show ?thesis by (intro settled) (auto simp: e_def [symmetric] split: Settled.splits)
  next
    case (3 p)
    then have "p \<in> set (bo_pending e)" "pa_pair p = (source, target)" by (auto simp: find_Some_iff)
    with 3 run e show ?thesis by (intro pending [of p]) (auto simp: e_def [symmetric])
  next
    case 4
    then have "\<forall>p\<in>set (bo_pending e). pa_pair p \<noteq> (source, target)" by (auto simp: find_None_iff)
    with 4 run e show ?thesis
      by (intro asked) (auto simp: e_def [symmetric] u64_add_def new_request_def split: if_splits)
  qed
qed

lemma admit_book_inv:
  assumes inv: "book_inv b" and run: "admit_book b source target src_label dst_label now = Some (a, c, b')"
  shows "book_inv b'"
proof -
  define e where "e = snd (expire_due b now)"
  have e: "book_inv e" "bo_approved e = bo_approved b" "bo_next_id e = bo_next_id b"
    using expire_due_inv [OF inv] by (simp_all add: e_def)
  from run show ?thesis
  proof (cases rule: admit_book_cases)
    case asked
    have "Suc (bo_next_id b) \<notin> pa_id ` set (bo_pending e)"
      using e by (auto simp: book_inv_def)
    with asked e show ?thesis
      unfolding e_def [symmetric] by (auto simp: book_inv_def le_SucI)
  qed (use e in \<open>auto simp: e_def [symmetric] book_inv_def\<close>)
qed

lemma distinct_map_remove1: "distinct (map f xs) \<Longrightarrow> distinct (map f (remove1 x xs))"
  by (auto simp: distinct_map inj_on_def dest: notin_set_remove1)

lemma decide_book_inv:
  assumes "book_inv b"
  shows "book_inv (snd (decide_book b i decision now))"
proof -
  define e where "e = snd (expire_due b now)"
  have e: "book_inv e" using expire_due_inv [OF assms] by (simp add: e_def)
  show ?thesis
  proof (cases "find (\<lambda>p. pa_id p = i) (bo_pending e)")
    case None
    with e show ?thesis by (simp add: decide_book_def e_def [symmetric] Let_def)
  next
    case (Some p)
    then have p: "p \<in> set (bo_pending e)" by (auto simp: find_Some_iff)
    have d: "distinct (bo_pending e)" and dp: "inj_on pa_pair (set (bo_pending e))"
      using e by (auto simp: book_inv_def distinct_map)
    then have rest: "q \<in> set (bo_pending e) \<and> pa_pair q \<noteq> pa_pair p" if "q \<in> set (remove1 p (bo_pending e))" for q
      using that p by (auto simp: inj_on_def)
    with Some e p show ?thesis
      by (cases decision) (auto simp: decide_book_def e_def [symmetric] Let_def book_inv_def distinct_map_remove1)
  qed
qed

lemma retain_book_inv: "book_inv b \<Longrightarrow> book_inv (retain_book b live)"
  by (auto simp: book_inv_def retain_book_def distinct_map_filter split: if_splits)

lemma refill_tokens: "bk_tokens bk \<le> WRITE_BURST \<Longrightarrow> bk_tokens (refill bk now) \<le> WRITE_BURST"
  by (auto simp: refill_def Let_def)

lemma take_token_inv: "book_inv (wr_book w) \<Longrightarrow> book_inv (wr_book (snd (take_token w source target now)))"
proof -
  let ?pair = "(source, target)"
  define bk where "bk = (case bo_buckets (wr_book w) ?pair of Some bk \<Rightarrow> bk
                | None \<Rightarrow> \<lparr>bk_tokens = WRITE_BURST, bk_refilled = now\<rparr>)"
  assume inv: "book_inv (wr_book w)"
  then have "bk_tokens bk \<le> WRITE_BURST"
    by (auto simp: bk_def book_inv_def split: option.splits)
  from refill_tokens [OF this, of now] inv show ?thesis
    unfolding take_token_def Let_def bk_def [symmetric]
    by (auto simp: book_inv_def split: if_splits)
qed

lemma run_approval_inv:
  assumes "book_inv (wr_book w)" "run_approval w op = Some w'"
  shows "book_inv (wr_book w')"
proof (cases op)
  case (Admit source target src_label dst_label now)
  with assms show ?thesis
    by (auto simp: admit_def bind_eq_Some_conv Let_def dest: admit_book_inv split: if_splits)
next
  case (TakeToken source target now)
  with assms take_token_inv show ?thesis by auto
next
  case (Decide i decision now)
  with assms decide_book_inv show ?thesis by (auto simp: decide_def Let_def case_prod_unfold)
next
  case (Expire now)
  with assms expire_due_inv show ?thesis by (auto simp: expire_def Let_def case_prod_unfold)
next
  case (RetainLive live now)
  with assms retain_book_inv show ?thesis by (auto simp: retain_live_def Let_def)
qed (use assms in \<open>auto simp: watch_def unwatch_def Let_def\<close>)

section \<open>Only a human approves\<close>

lemma decide_book_approved:
  assumes "pair \<in> bo_approved (snd (decide_book b i decision now))" "pair \<notin> bo_approved b"
  shows "decision = Allow \<and> (\<exists>p\<in>set (bo_pending b). pa_id p = i \<and> pa_pair p = pair \<and> \<not> is_due now p)"
proof -
  define e where "e = snd (expire_due b now)"
  show ?thesis
  proof (cases "find (\<lambda>p. pa_id p = i) (bo_pending e)")
    case None
    with assms show ?thesis by (simp add: decide_book_def e_def [symmetric] Let_def) (simp add: e_def)
  next
    case (Some p)
    then have "p \<in> set (bo_pending e)" "pa_id p = i" by (auto simp: find_Some_iff)
    moreover have "decision = Allow \<and> pa_pair p = pair"
      using assms Some by (cases decision) (auto simp: decide_book_def e_def [symmetric] Let_def, auto simp: e_def)
    ultimately show ?thesis by (auto simp: e_def)
  qed
qed

lemma admit_book_approved:
  "admit_book b source target src_label dst_label now = Some (a, c, b') \<Longrightarrow> bo_approved b' = bo_approved b"
  by (erule admit_book_cases) simp_all

lemma admit_book_pending:
  assumes "admit_book b source target src_label dst_label now = Some (a, c, b')" "p \<in> set (bo_pending b')"
  shows "p \<in> set (bo_pending b) \<or> (pa_source p = source \<and> pa_target p = target \<and> pa_created p = now)"
  using assms(1) by (cases rule: admit_book_cases) (use assms(2) in auto)

lemma run_approval_approved:
  assumes "run_approval w op = Some w'" "pair \<in> bo_approved (wr_book w')"
  shows "pair \<in> bo_approved (wr_book w) \<and>
      (\<forall>live n. op = RetainLive live n \<longrightarrow> fst pair \<in> live \<and> snd pair \<in> live) \<or>
    (\<exists>i now p. op = Decide i Allow now \<and> p \<in> set (bo_pending (wr_book w)) \<and> pa_id p = i \<and> pa_pair p = pair \<and>
      now < pa_created p + APPROVAL_REQUEST_TTL)"
proof (cases op)
  case (Admit source target sl dl now)
  with assms show ?thesis
    by (auto simp: admit_def bind_eq_Some_conv Let_def dest: admit_book_approved split: if_splits)
next
  case (TakeToken source target now)
  with assms show ?thesis by (auto simp: take_token_def Let_def split: if_splits)
next
  case (Decide i decision now)
  with assms have w': "pair \<in> bo_approved (snd (decide_book (wr_book w) i decision now))"
    by (auto simp: decide_def Let_def case_prod_unfold)
  with Decide show ?thesis
    using decide_book_approved [OF w'] by (fastforce simp: is_due_def)
next
  case (Expire now)
  with assms show ?thesis by (auto simp: expire_def Let_def case_prod_unfold split: if_splits)
next
  case (RetainLive live now)
  with assms show ?thesis by (auto simp: retain_live_def retain_book_def Let_def split: if_splits)
qed (use assms in \<open>auto simp: watch_def unwatch_def Let_def\<close>)

lemma run_approval_pending:
  assumes "run_approval w op = Some w'" "p \<in> set (bo_pending (wr_book w'))"
  shows "p \<in> set (bo_pending (wr_book w)) \<or>
    (\<exists>sl dl. op = Admit (pa_source p) (pa_target p) sl dl (pa_created p))"
proof (cases op)
  case (Admit source target sl dl now)
  with assms show ?thesis
    by (auto simp: admit_def bind_eq_Some_conv Let_def dest: admit_book_pending split: if_splits)
next
  case (TakeToken source target now)
  with assms show ?thesis by (auto simp: take_token_def Let_def split: if_splits)
next
  case (Decide i decision now)
  with assms show ?thesis
    by (auto simp: decide_def decide_book_def Let_def case_prod_unfold dest!: set_remove1_subset [THEN subsetD]
        split: option.splits Decision.splits)
next
  case (Expire now)
  with assms show ?thesis by (auto simp: expire_def Let_def case_prod_unfold split: if_splits)
next
  case (RetainLive live now)
  with assms show ?thesis by (auto simp: retain_live_def retain_book_def Let_def split: if_splits)
qed (use assms in \<open>auto simp: watch_def unwatch_def Let_def\<close>)

lemma pending_was_asked:
  "for_each run_approval write_approvals_default ops = Some w \<Longrightarrow> p \<in> set (bo_pending (wr_book w)) \<Longrightarrow>
   \<exists>sl dl. Admit (pa_source p) (pa_target p) sl dl (pa_created p) \<in> set ops"
proof (induction ops arbitrary: w rule: rev_induct)
  case Nil
  then show ?case by (auto simp: write_approvals_default_def book_default_def)
next
  case (snoc op ops)
  from snoc.prems(1) obtain w1 where w1: "for_each run_approval write_approvals_default ops = Some w1"
    and op: "run_approval w1 op = Some w" by (auto simp: for_each_append bind_eq_Some_conv)
  from run_approval_pending [OF op snoc.prems(2)] snoc.IH [OF w1] show ?case by fastforce
qed

lemma approved_was_allowed:
  "for_each run_approval write_approvals_default ops = Some w \<Longrightarrow> pair \<in> bo_approved (wr_book w) \<Longrightarrow>
   \<exists>pre i now post w1 p. ops = pre @ Decide i Allow now # post \<and>
     for_each run_approval write_approvals_default pre = Some w1 \<and> p \<in> set (bo_pending (wr_book w1)) \<and>
     pa_id p = i \<and> pa_pair p = pair \<and> now < pa_created p + APPROVAL_REQUEST_TTL \<and>
     (\<forall>live n. RetainLive live n \<in> set post \<longrightarrow> fst pair \<in> live \<and> snd pair \<in> live)"
proof (induction ops arbitrary: w rule: rev_induct)
  case Nil
  then show ?case by (auto simp: write_approvals_default_def book_default_def)
next
  case (snoc op ops)
  from snoc.prems(1) obtain w1 where w1: "for_each run_approval write_approvals_default ops = Some w1"
    and op: "run_approval w1 op = Some w" by (auto simp: for_each_append bind_eq_Some_conv)
  from run_approval_approved [OF op snoc.prems(2)] show ?case
  proof
    assume old: "pair \<in> bo_approved (wr_book w1) \<and> (\<forall>live n. op = RetainLive live n \<longrightarrow> fst pair \<in> live \<and> snd pair \<in> live)"
    then obtain pre i now post w0 p where "ops = pre @ Decide i Allow now # post"
      "for_each run_approval write_approvals_default pre = Some w0" "p \<in> set (bo_pending (wr_book w0))"
      "pa_id p = i" "pa_pair p = pair" "now < pa_created p + APPROVAL_REQUEST_TTL"
      "\<forall>live n. RetainLive live n \<in> set post \<longrightarrow> fst pair \<in> live \<and> snd pair \<in> live"
      using snoc.IH [OF w1] by blast
    with old show ?thesis
      by (intro exI [of _ pre] exI [of _ i] exI [of _ now] exI [of _ "post @ [op]"] exI [of _ w0] exI [of _ p]) auto
  next
    assume "\<exists>i now p. op = Decide i Allow now \<and> p \<in> set (bo_pending (wr_book w1)) \<and> pa_id p = i \<and>
      pa_pair p = pair \<and> now < pa_created p + APPROVAL_REQUEST_TTL"
    then obtain i now p where "op = Decide i Allow now" "p \<in> set (bo_pending (wr_book w1))" "pa_id p = i"
      "pa_pair p = pair" "now < pa_created p + APPROVAL_REQUEST_TTL" by blast
    with w1 show ?thesis
      by (intro exI [of _ ops] exI [of _ i] exI [of _ now] exI [of _ "[]"] exI [of _ w1] exI [of _ p]) auto
  qed
qed

section \<open>The rate limit\<close>

text \<open>The answers of consecutive calls for one pair.\<close>

fun take_tokens :: "write_approvals \<Rightarrow> agent_occurrence \<Rightarrow> agent_occurrence \<Rightarrow> instant list \<Rightarrow>
    (duration + unit) list" where
  "take_tokens w source target [] = []"
| "take_tokens w source target (now # nows) =
     (case take_token w source target now of (r, w') \<Rightarrow> r # take_tokens w' source target nows)"

definition granted :: "(duration + unit) list \<Rightarrow> nat" where
  "granted rs = length (filter (\<lambda>r. r = Inr ()) rs)"

definition bucket_of :: "write_approvals \<Rightarrow> agent_occurrence \<Rightarrow> agent_occurrence \<Rightarrow> instant \<Rightarrow> bucket" where
  "bucket_of w source target now = (case bo_buckets (wr_book w) (source, target) of Some bk \<Rightarrow> bk
     | None \<Rightarrow> \<lparr>bk_tokens = WRITE_BURST, bk_refilled = now\<rparr>)"

definition bucket_ok :: "instant \<Rightarrow> bucket \<Rightarrow> bool" where
  "bucket_ok now bk \<longleftrightarrow> bk_tokens bk \<le> WRITE_BURST \<and> bk_refilled bk \<le> now"

lemma take_token_bucket:
  "take_token w source target now = (r, w') \<Longrightarrow> bk = refill (bucket_of w source target now) now \<Longrightarrow>
   (r, bo_buckets (wr_book w') (source, target)) =
     (if bk_tokens bk = 0 then (Inl (WRITE_REFILL_INTERVAL - (now - bk_refilled bk)), Some bk)
      else (Inr (), Some (bk\<lparr>bk_tokens := bk_tokens bk - 1\<rparr>)))"
  by (auto simp: take_token_def bucket_of_def Let_def split: if_splits)

text \<open>
  \<open>refill\<close> counts whole intervals; the rounding to milliseconds does not change their number.
\<close>

lemma intervals_eq: "as_millis d div as_millis WRITE_REFILL_INTERVAL = d div WRITE_REFILL_INTERVAL"
  by (simp add: as_millis_def WRITE_REFILL_INTERVAL_def NANOS_PER_SEC_def flip: div_mult2_eq)

lemma refill_cases:
  assumes "bucket_ok now bk"
  obtains (full) "bk_tokens (refill bk now) = WRITE_BURST" "bk_refilled (refill bk now) = now"
    "WRITE_BURST \<le> bk_tokens bk + (now - bk_refilled bk) div WRITE_REFILL_INTERVAL"
  | (partial) e where "e = (now - bk_refilled bk) div WRITE_REFILL_INTERVAL"
    "bk_tokens (refill bk now) = bk_tokens bk + e" "bk_tokens bk + e < WRITE_BURST"
    "bk_refilled (refill bk now) = bk_refilled bk + WRITE_REFILL_INTERVAL * e"
proof -
  define e where "e = (now - bk_refilled bk) div WRITE_REFILL_INTERVAL"
  have r: "refill bk now = (let earned = min (if e < 2 ^ 32 then e else WRITE_BURST) WRITE_BURST;
      bk = (if earned > 0 then \<lparr>bk_tokens = min (bk_tokens bk + earned) WRITE_BURST,
              bk_refilled = bk_refilled bk + WRITE_REFILL_INTERVAL * earned\<rparr> else bk)
      in if bk_tokens bk = WRITE_BURST then bk\<lparr>bk_refilled := now\<rparr> else bk)"
    by (simp add: refill_def intervals_eq Let_def e_def)
  show thesis
  proof (cases "bk_tokens bk + e < WRITE_BURST")
    case True
    then have "min (if e < 2 ^ 32 then e else WRITE_BURST) WRITE_BURST = e" by (auto simp: WRITE_BURST_def)
    with True show ?thesis by (intro partial [OF e_def]) (auto simp: r Let_def)
  next
    case False
    define earned where "earned = min (if e < 2 ^ 32 then e else WRITE_BURST) WRITE_BURST"
    have "WRITE_BURST \<le> bk_tokens bk + earned" using False by (auto simp: earned_def WRITE_BURST_def)
    then show ?thesis
      using False assms by (intro full) (auto simp: r earned_def [symmetric] Let_def bucket_ok_def e_def [symmetric])
  qed
qed

definition credit :: "bucket \<Rightarrow> instant \<Rightarrow> nat" where
  "credit bk now = bk_tokens bk * WRITE_REFILL_INTERVAL + (now - bk_refilled bk)"

lemma interval_pos [simp]: "0 < WRITE_REFILL_INTERVAL"
  by (simp add: WRITE_REFILL_INTERVAL_def NANOS_PER_SEC_def)

lemma refill_ok:
  assumes "bucket_ok now bk"
  shows "bucket_ok now (refill bk now) \<and> credit (refill bk now) now \<le> WRITE_BURST * WRITE_REFILL_INTERVAL \<and>
    credit (refill bk now) now \<le> credit bk now"
  using assms
proof (cases rule: refill_cases)
  case full
  let ?q = "(now - bk_refilled bk) div WRITE_REFILL_INTERVAL"
  have "WRITE_BURST * WRITE_REFILL_INTERVAL \<le> (bk_tokens bk + ?q) * WRITE_REFILL_INTERVAL"
    using full(3) by (intro mult_le_mono1)
  also have "\<dots> \<le> bk_tokens bk * WRITE_REFILL_INTERVAL + (now - bk_refilled bk)"
    by (simp add: add_mult_distrib)
  finally show ?thesis using full by (simp add: bucket_ok_def credit_def)
next
  case (partial e)
  have le: "WRITE_REFILL_INTERVAL * e \<le> now - bk_refilled bk" "now - bk_refilled bk < WRITE_REFILL_INTERVAL * e + WRITE_REFILL_INTERVAL"
    using partial(1) dividend_less_times_div [OF interval_pos, of "now - bk_refilled bk"] by (simp_all add: add.commute)
  have ok: "bk_refilled bk \<le> now" using assms by (simp add: bucket_ok_def)
  have "credit (refill bk now) now = bk_tokens bk * WRITE_REFILL_INTERVAL + (now - bk_refilled bk)"
    unfolding credit_def partial(2,4) add_mult_distrib mult.commute [of e] using le(1) ok by linarith
  moreover have "bk_tokens bk * WRITE_REFILL_INTERVAL + (now - bk_refilled bk) \<le>
      (bk_tokens bk + e + 1) * WRITE_REFILL_INTERVAL"
    using le(2) by (simp add: algebra_simps)
  moreover have "(bk_tokens bk + e + 1) * WRITE_REFILL_INTERVAL \<le> WRITE_BURST * WRITE_REFILL_INTERVAL"
    using partial(3) by (intro mult_le_mono1) simp
  moreover have "bucket_ok now (refill bk now)"
    unfolding bucket_ok_def partial(2,4) using partial(3) le(1) ok by linarith
  ultimately show ?thesis by (simp add: credit_def)
qed

lemma granted_bound:
  assumes "bo_buckets (wr_book w) (source, target) = Some bk" "bucket_ok start bk" "sorted (start # nows)"
  shows "granted (take_tokens w source target nows) * WRITE_REFILL_INTERVAL
    \<le> credit bk start + (last (start # nows) - start)"
  using assms
proof (induction nows arbitrary: w bk start)
  case Nil
  then show ?case by (simp add: granted_def)
next
  case (Cons now nows)
  obtain r w' where run: "take_token w source target now = (r, w')" by fastforce
  define bk1 where "bk1 = refill bk now"
  have "bucket_of w source target now = bk" using Cons.prems(1) by (simp add: bucket_of_def)
  with take_token_bucket [OF run refl] have step: "(r, bo_buckets (wr_book w') (source, target)) =
     (if bk_tokens bk1 = 0 then (Inl (WRITE_REFILL_INTERVAL - (now - bk_refilled bk1)), Some bk1)
      else (Inr (), Some (bk1\<lparr>bk_tokens := bk_tokens bk1 - 1\<rparr>)))" by (simp add: bk1_def)
  have sorted: "start \<le> now" "sorted (now # nows)" using Cons.prems(3) by auto
  then have "bucket_ok now bk" using Cons.prems(2) by (simp add: bucket_ok_def)
  from refill_ok [OF this] have bk1: "bucket_ok now bk1" "credit bk1 now \<le> credit bk now" by (auto simp: bk1_def)
  have now: "credit bk now \<le> credit bk start + (now - start)" by (simp add: credit_def)
  have last: "last (start # now # nows) - start = (now - start) + (last (now # nows) - now)"
  proof -
    have "now \<le> last (now # nows)" using sorted(2) by (cases nows) auto
    with sorted(1) show ?thesis by simp
  qed
  show ?case
  proof (cases "bk_tokens bk1 = 0")
    case True
    with step have "bo_buckets (wr_book w') (source, target) = Some bk1" "r = Inl (WRITE_REFILL_INTERVAL - (now - bk_refilled bk1))"
      by auto
    with Cons.IH [OF _ bk1(1) sorted(2), of w'] bk1 now last show ?thesis
      by (simp add: run granted_def)
  next
    case False
    let ?bk2 = "bk1\<lparr>bk_tokens := bk_tokens bk1 - 1\<rparr>"
    have b2: "bo_buckets (wr_book w') (source, target) = Some ?bk2" and r: "r = Inr ()" using step False by auto
    have "bucket_ok now ?bk2" using bk1(1) by (auto simp: bucket_ok_def)
    from Cons.IH [OF b2 this sorted(2)]
    have IH: "granted (take_tokens w' source target nows) * WRITE_REFILL_INTERVAL \<le> credit ?bk2 now + (last (now # nows) - now)" .
    have "credit ?bk2 now + WRITE_REFILL_INTERVAL = credit bk1 now"
      using False by (cases "bk_tokens bk1") (simp_all add: credit_def)
    with IH bk1 now last show ?thesis by (simp add: run r granted_def)
  qed
qed

section \<open>What the host relies on\<close>

text \<open>
  C23. A write is let through without asking only if a human allowed that very pair of agents: the pair asked,
  its request was pending and less than the lifetime of a request old when the human allowed it, and every
  check of the live agents since then found both of them.
\<close>

theorem admitted_only_after_allow:
  assumes "for_each run_approval write_approvals_default ops = Some w"
    and "admit w source target src_label dst_label now = Some (Approved, w')"
  shows "\<exists>pre i decided post w1 p sl dl. ops = pre @ Decide i Allow decided # post \<and>
    for_each run_approval write_approvals_default pre = Some w1 \<and> p \<in> set (bo_pending (wr_book w1)) \<and>
    pa_id p = i \<and> pa_pair p = (source, target) \<and> Admit source target sl dl (pa_created p) \<in> set pre \<and>
    decided < pa_created p + APPROVAL_REQUEST_TTL \<and>
    (\<forall>live n. RetainLive live n \<in> set post \<longrightarrow> source \<in> live \<and> target \<in> live)"
proof -
  obtain c b' where "admit_book (wr_book w) source target src_label dst_label now = Some (Approved, c, b')"
    using assms(2) by (auto simp: admit_def bind_eq_Some_conv Let_def)
  then have "(source, target) \<in> bo_approved (wr_book w)"
    by (cases rule: admit_book_cases) auto
  from approved_was_allowed [OF assms(1) this] obtain pre i decided post w1 p where
    *: "ops = pre @ Decide i Allow decided # post" "for_each run_approval write_approvals_default pre = Some w1"
      "p \<in> set (bo_pending (wr_book w1))" "pa_id p = i" "pa_pair p = (source, target)"
      "decided < pa_created p + APPROVAL_REQUEST_TTL"
      "\<forall>live n. RetainLive live n \<in> set post \<longrightarrow> source \<in> live \<and> target \<in> live" by auto
  from pending_was_asked [OF *(2,3)] *(5) obtain sl dl where "Admit source target sl dl (pa_created p) \<in> set pre" by auto
  with * show ?thesis by blast
qed

definition agent :: "nat \<Rightarrow> agent_occurrence" where
  "agent n = \<lparr>ao_session = ''s'', ao_generation = 1, ao_pid = n, ao_started_at = None\<rparr>"

lemmas approvals_eval = write_approvals_default_def book_default_def admit_def admit_book_def expire_due_def
  decide_def decide_book_def publish_def u64_add_def is_due_def Let_def agent_def APPROVAL_REQUEST_TTL_def NANOS_PER_SEC_def

theorem admitted_only_after_allow_witness:
  "\<exists>w w'. for_each run_approval write_approvals_default [Admit (agent 1) (agent 2) ''a'' ''b'' 5, Decide 1 Allow 7] = Some w \<and>
     admit w (agent 1) (agent 2) ''a'' ''b'' 9 = Some (Approved, w') \<and>
     (\<exists>pre i decided post w1 p sl dl.
       [Admit (agent 1) (agent 2) ''a'' ''b'' 5, Decide 1 Allow 7] = pre @ Decide i Allow decided # post \<and>
       for_each run_approval write_approvals_default pre = Some w1 \<and> p \<in> set (bo_pending (wr_book w1)) \<and>
       pa_id p = i \<and> pa_pair p = (agent 1, agent 2) \<and> Admit (agent 1) (agent 2) sl dl (pa_created p) \<in> set pre \<and>
       decided < pa_created p + APPROVAL_REQUEST_TTL \<and>
       (\<forall>live n. RetainLive live n \<in> set post \<longrightarrow> agent 1 \<in> live \<and> agent 2 \<in> live))"
proof -
  let ?ops = "[Admit (agent 1) (agent 2) ''a'' ''b'' 5, Decide 1 Allow 7]"
  obtain w where w: "for_each run_approval write_approvals_default ?ops = Some w"
    and pair: "(agent 1, agent 2) \<in> bo_approved (wr_book w)" "bo_pending (wr_book w) = []"
    by (simp add: approvals_eval)
  obtain w' where w': "admit w (agent 1) (agent 2) ''a'' ''b'' 9 = Some (Approved, w')"
    using pair by (simp add: admit_def admit_book_def expire_due_def Let_def)
  show ?thesis
    using w w' admitted_only_after_allow [OF w w'] by blast
qed





text \<open>
  C26. The rate limit: over any stretch of calls for a pair on a clock that does not go back, the writes let
  through are at most a burst plus one for every refill interval that passes between the first and the last.
\<close>

theorem take_token_rate:
  assumes "nows \<noteq> []" "sorted nows" "bucket_ok (hd nows) (bucket_of w source target (hd nows))"
  shows "granted (take_tokens w source target nows) \<le> WRITE_BURST + (last nows - hd nows) div WRITE_REFILL_INTERVAL"
proof -
  obtain now rest where nows: "nows = now # rest" using assms(1) by (cases nows) auto
  obtain r w' where run: "take_token w source target now = (r, w')" by fastforce
  define bk where "bk = refill (bucket_of w source target now) now"
  note step = take_token_bucket [OF run bk_def]
  have bk: "bucket_ok now bk" "credit bk now \<le> WRITE_BURST * WRITE_REFILL_INTERVAL"
    using refill_ok [of now "bucket_of w source target now"] assms(3) by (auto simp: nows bk_def)
  have sorted: "sorted (now # rest)" using assms(2) nows by simp
  have "granted (take_tokens w source target nows) * WRITE_REFILL_INTERVAL \<le>
      WRITE_BURST * WRITE_REFILL_INTERVAL + (last nows - hd nows)"
  proof (cases "bk_tokens bk = 0")
    case True
    then have b1: "bo_buckets (wr_book w') (source, target) = Some bk" and r: "r \<noteq> Inr ()" using step by auto
    from granted_bound [OF b1 bk(1) sorted] bk(2) r show ?thesis by (simp add: nows run granted_def)
  next
    case False
    let ?bk = "bk\<lparr>bk_tokens := bk_tokens bk - 1\<rparr>"
    have b2: "bo_buckets (wr_book w') (source, target) = Some ?bk" and r: "r = Inr ()" using step False by auto
    have ok: "bucket_ok now ?bk" using bk(1) by (auto simp: bucket_ok_def)
    have "credit ?bk now + WRITE_REFILL_INTERVAL = credit bk now"
      using False by (cases "bk_tokens bk") (simp_all add: credit_def)
    with granted_bound [OF b2 ok sorted] bk(2) show ?thesis by (simp add: nows run r granted_def)
  qed
  then have "granted (take_tokens w source target nows) * WRITE_REFILL_INTERVAL div WRITE_REFILL_INTERVAL \<le>
      (WRITE_BURST * WRITE_REFILL_INTERVAL + (last nows - hd nows)) div WRITE_REFILL_INTERVAL"
    by (rule div_le_mono)
  then show ?thesis by (simp add: div_mult_self3)
qed

theorem take_token_rate_witness:
  "granted (take_tokens write_approvals_default (agent 1) (agent 2) [0, 0, 0, 0, 1000000000, 1000000000]) \<le>
     WRITE_BURST + (1000000000 - 0) div WRITE_REFILL_INTERVAL \<and>
   granted (take_tokens write_approvals_default (agent 1) (agent 2) [0, 0, 0, 0, 1000000000, 1000000000]) = 4"
proof
  show "granted (take_tokens write_approvals_default (agent 1) (agent 2) [0, 0, 0, 0, 1000000000, 1000000000]) \<le>
     WRITE_BURST + (1000000000 - 0) div WRITE_REFILL_INTERVAL"
    using take_token_rate [of "[0, 0, 0, 0, 1000000000, 1000000000]" write_approvals_default "agent 1" "agent 2"]
    by (simp add: bucket_ok_def bucket_of_def write_approvals_default_def book_default_def)
  show "granted (take_tokens write_approvals_default (agent 1) (agent 2) [0, 0, 0, 0, 1000000000, 1000000000]) = 4"
    by (simp add: granted_def take_token_def refill_def write_approvals_default_def book_default_def Let_def
        WRITE_BURST_def WRITE_REFILL_INTERVAL_def NANOS_PER_SEC_def as_millis_def)
qed

text \<open>
  A refused write is told how long to wait, at most one interval, and a retry after that time, with no other
  call in between, is let through.
\<close>

theorem take_token_wait_suffices:
  assumes "take_token w source target now = (Inl wait, w')" "bucket_ok now (bucket_of w source target now)"
    and "now + wait \<le> later"
  shows "0 < wait \<and> wait \<le> WRITE_REFILL_INTERVAL \<and> fst (take_token w' source target later) = Inr ()"
proof -
  define bk where "bk = refill (bucket_of w source target now) now"
  have bk: "bk_tokens bk = 0" "wait = WRITE_REFILL_INTERVAL - (now - bk_refilled bk)"
    "bo_buckets (wr_book w') (source, target) = Some bk"
    using take_token_bucket [OF assms(1) bk_def] by (auto split: if_splits)
  have ok: "bucket_ok now bk" using refill_ok [OF assms(2)] by (simp add: bk_def)
  have "now - bk_refilled bk < WRITE_REFILL_INTERVAL"
    using assms(2)
  proof (cases rule: refill_cases)
    case full
    with bk(1) show ?thesis by (simp add: bk_def WRITE_BURST_def)
  next
    case (partial e)
    then have "e = 0" using bk(1) by (simp add: bk_def)
    with partial interval_pos show ?thesis by (simp add: bk_def div_eq_0_iff)
  qed
  moreover from this bk(2) ok assms(3) have "1 \<le> (later - bk_refilled bk) div WRITE_REFILL_INTERVAL"
    by (simp add: bucket_ok_def div_greater_zero_iff Suc_le_eq)
  moreover have "bucket_ok later bk" using ok assms(3) by (simp add: bucket_ok_def)
  then have "bk_tokens (refill bk later) \<noteq> 0"
    by (cases rule: refill_cases) (use calculation(2) in \<open>auto simp: WRITE_BURST_def\<close>)
  moreover obtain r w'' where "take_token w' source target later = (r, w'')" by fastforce
  ultimately show ?thesis
    using bk(2,3) take_token_bucket [of w' source target later r w'' "refill bk later"]
    by (auto simp: bucket_of_def)
qed

theorem take_token_wait_suffices_witness:
  "\<exists>w w'. wr_book w = book_default\<lparr>bo_buckets := [(agent 1, agent 2) \<mapsto> \<lparr>bk_tokens = 0, bk_refilled = 0\<rparr>]\<rparr> \<and>
     take_token w (agent 1) (agent 2) 400000000 = (Inl 600000000, w') \<and>
     0 < (600000000 :: nat) \<and> 600000000 \<le> WRITE_REFILL_INTERVAL \<and>
     fst (take_token w' (agent 1) (agent 2) 1000000000) = Inr ()"
proof -
  define w where "w = write_approvals_default\<lparr>wr_book :=
    book_default\<lparr>bo_buckets := [(agent 1, agent 2) \<mapsto> \<lparr>bk_tokens = 0, bk_refilled = 0\<rparr>]\<rparr>\<rparr>"
  obtain w' where w': "take_token w (agent 1) (agent 2) 400000000 = (Inl 600000000, w')"
    by (simp add: w_def take_token_def refill_def Let_def WRITE_BURST_def WRITE_REFILL_INTERVAL_def NANOS_PER_SEC_def as_millis_def)
  have "bucket_ok 400000000 (bucket_of w (agent 1) (agent 2) 400000000)"
    by (simp add: w_def bucket_ok_def bucket_of_def)
  from take_token_wait_suffices [OF w' this, of 1000000000] w' show ?thesis
    by (intro exI [of _ w] exI [of _ w']) (simp add: w_def)
qed

lemma str_replace_absent: "x \<in> set pat \<Longrightarrow> x \<notin> set s \<Longrightarrow> str_replace s pat rep = s"
proof (induction s pat rep rule: str_replace.induct)
  case (2 c cs pat rep)
  then have "take (length pat) (c # cs) \<noteq> pat" by (metis in_set_takeD)
  with 2 show ?case by auto
qed simp

lemma sanitized_controls: "set (filter is_control (sanitize_relayed_text s)) \<subseteq> {9, 10}"
  by (auto simp: sanitize_relayed_text_def)

lemma sanitize_clean: "set (filter is_control s) \<subseteq> {9, 10} \<Longrightarrow> sanitize_relayed_text s = s"
proof -
  assume clean: "set (filter is_control s) \<subseteq> {9, 10}"
  then have "27 \<notin> set s" "13 \<notin> set s" by (auto simp: is_control_def)
  then have "str_replace (str_replace (str_replace s PASTE_START []) PASTE_END []) [13, 10] [10] = s"
    using str_replace_absent [of 27 PASTE_START] str_replace_absent [of 27 PASTE_END] str_replace_absent [of 13 "[13, 10]"]
    by (simp add: PASTE_START_def PASTE_END_def)
  with clean show ?thesis unfolding sanitize_relayed_text_def by (auto simp: filter_id_conv)
qed

text \<open>
  No relayed text can leave the bracketed paste it is delivered in or send a control sequence: what is left of
  it has no control character but newline and tab, so it contains no paste marker. Sanitising again, or sanitising
  text that is clean in this sense, changes nothing.
\<close>

theorem sanitized_text_safe:
  "set (filter is_control (sanitize_relayed_text s)) \<subseteq> {9, 10} \<and>
   \<not> sublist PASTE_END (sanitize_relayed_text s) \<and> \<not> sublist PASTE_START (sanitize_relayed_text s) \<and>
   (sanitize_relayed_text s = s \<longleftrightarrow> set (filter is_control s) \<subseteq> {9, 10}) \<and>
   sanitize_relayed_text (sanitize_relayed_text s) = sanitize_relayed_text s"
proof -
  have "27 \<notin> set (sanitize_relayed_text s)" using sanitized_controls [of s] by (auto simp: is_control_def)
  then have "\<not> sublist marker (sanitize_relayed_text s)" if "27 \<in> set marker" for marker
    using that set_mono_sublist by fastforce
  moreover have "27 \<in> set PASTE_END" "27 \<in> set PASTE_START" by (simp_all add: PASTE_END_def PASTE_START_def)
  ultimately show ?thesis using sanitized_controls [of s] sanitize_clean by metis
qed

text \<open>
  \<open>next_expiry\<close> is exact: no pending request falls due before that time has passed, and one does when it has.
\<close>

theorem next_expiry_exact:
  "case next_expiry w now of
     None \<Rightarrow> bo_pending (wr_book w) = []
   | Some d \<Rightarrow> (\<exists>p\<in>set (bo_pending (wr_book w)). is_due (now + d) p) \<and>
       (\<forall>t<now + d. now \<le> t \<longrightarrow> \<not> fst (expire_due (wr_book w) t))"
proof (cases "bo_pending (wr_book w)")
  case Nil
  then show ?thesis by (simp add: next_expiry_def)
next
  case (Cons p ps)
  let ?f = "\<lambda>p. pa_created p + APPROVAL_REQUEST_TTL - now"
  have min: "fold min ds d = Min (set (d # ds))" for d :: nat and ds
    using Min.set_eq_fold [of d ds] by simp
  define d where "d = Min (?f ` set (p # ps))"
  have d: "next_expiry w now = Some d" using Cons min by (simp add: next_expiry_def d_def)
  obtain q where q: "q \<in> set (p # ps)" "?f q = d"
    using Min_in [of "?f ` set (p # ps)"] unfolding d_def by fastforce
  have "is_due (now + d) q" using q(2) by (auto simp: is_due_def)
  moreover have "\<not> is_due t r" if "t < now + d" "now \<le> t" "r \<in> set (p # ps)" for t r
  proof -
    have "d \<le> ?f r" unfolding d_def using that(3) by (intro Min_le) auto
    moreover have "0 < APPROVAL_REQUEST_TTL" by (simp add: APPROVAL_REQUEST_TTL_def NANOS_PER_SEC_def)
    ultimately show ?thesis using that unfolding is_due_def by linarith
  qed
  ultimately show ?thesis
    using q(1) Cons d by (auto simp: expire_due_def Let_def filter_empty_conv)
qed

theorem next_expiry_exact_witness:
  "\<exists>w. for_each run_approval write_approvals_default [Admit (agent 1) (agent 2) ''a'' ''b'' 5] = Some w \<and>
     next_expiry w 5 = Some APPROVAL_REQUEST_TTL \<and>
     (\<exists>p\<in>set (bo_pending (wr_book w)). is_due (5 + APPROVAL_REQUEST_TTL) p)"
proof -
  obtain w where w: "for_each run_approval write_approvals_default [Admit (agent 1) (agent 2) ''a'' ''b'' 5] = Some w"
    "next_expiry w 5 = Some APPROVAL_REQUEST_TTL"
    by (simp add: approvals_eval next_expiry_def)
  with next_expiry_exact [of w 5] show ?thesis by auto
qed

end
