(* ===== verification/Git_Engine.thy ===== *)
theory Git_Engine
  imports Text
begin

text \<open>
  \<open>crates/paneflow-git/src/engine.rs\<close>: the choice between the in-process git engine and the git command
  line, the fallback after errors, and the counters that report it.

  What a call finds on disk is its input: the \<open>layout\<close> of the repository holds the texts and bytes the
  code reads there (the \<open>HEAD\<close> file, two values of the repository configuration as the configuration
  parser returns them, the index file), and the answers of the two engines are the arguments \<open>gix\<close> and
  \<open>cli\<close>. Calls are taken one at a time. Atomic counters wrap at \<open>2 ^ 64\<close>; \<open>consecutive\<close> is a checked
  \<open>u32\<close>.
\<close>

section \<open>Settings\<close>

definition PINNING_FAILURE_COUNT :: nat where
  "PINNING_FAILURE_COUNT = 2"

definition REFTABLE_HEAD :: ustr where
  "REFTABLE_HEAD = chars ''ref: refs/heads/.invalid''"

definition SHA1_OBJECT_FORMAT :: ustr where
  "SHA1_OBJECT_FORMAT = chars ''sha1''"

definition REFTABLE_REF_STORAGE :: ustr where
  "REFTABLE_REF_STORAGE = chars ''reftable''"

datatype Engine = Gix | Cli

definition ENGINE_ALL :: "Engine list" where
  "ENGINE_ALL = [Gix, Cli]"

fun engine_name :: "Engine \<Rightarrow> string" where
  "engine_name Gix = ''gix''"
| "engine_name Cli = ''cli''"

datatype Probe = FilesStatus | DiffStats | DockListing | IsClean

definition PROBE_ALL :: "Probe list" where
  "PROBE_ALL = [FilesStatus, DiffStats, DockListing, IsClean]"

fun probe_name :: "Probe \<Rightarrow> string" where
  "probe_name FilesStatus = ''files_status''"
| "probe_name DiffStats = ''diff_stats''"
| "probe_name DockListing = ''dock_listing''"
| "probe_name IsClean = ''is_clean''"

datatype Fallback = Reftable | ObjectFormat | FallbackError | Forced | SizeThreshold

definition FALLBACK_ALL :: "Fallback list" where
  "FALLBACK_ALL = [Reftable, ObjectFormat, FallbackError, Forced, SizeThreshold]"

fun fallback_name :: "Fallback \<Rightarrow> string" where
  "fallback_name Reftable = ''reftable''"
| "fallback_name ObjectFormat = ''object_format''"
| "fallback_name FallbackError = ''error''"
| "fallback_name Forced = ''forced''"
| "fallback_name SizeThreshold = ''size_threshold''"

text \<open>The warning of a setting is kept as the raw value it quotes.\<close>

record engine_setting =
  es_preferred :: Engine
  es_warning :: "ustr option"

definition parse_engine_setting :: "ustr option \<Rightarrow> engine_setting" where
  "parse_engine_setting value = (case value of
     None \<Rightarrow> \<lparr>es_preferred = Gix, es_warning = None\<rparr>
   | Some raw \<Rightarrow>
       let s = to_ascii_lowercase (str_trim raw)
       in if s = chars ''gix'' then \<lparr>es_preferred = Gix, es_warning = None\<rparr>
          else if s = chars ''cli'' then \<lparr>es_preferred = Cli, es_warning = None\<rparr>
          else \<lparr>es_preferred = Gix, es_warning = Some raw\<rparr>)"

section \<open>The selector\<close>

datatype git_error =
  NotARepository string
| Bare string
| Untrusted string
| Interrupted
| TooManyEntries nat
| GitError string string

record failures =
  fl_consecutive :: nat
  fl_pinned :: bool

record selector =
  se_preferred :: Engine
  se_index_entry_threshold :: "nat option"
  se_failures :: "string \<rightharpoonup> failures"
  se_probes :: "Probe \<Rightarrow> Engine \<Rightarrow> nat"
  se_fallbacks :: "Fallback \<Rightarrow> nat"
  se_pinned_directories :: nat

record layout =
  la_git_dir :: string
  la_head :: "ustr option"
  la_ref_storage :: "ustr option"
  la_object_format :: "ustr option"
  la_index :: "nat list option"

definition selector_new :: "Engine \<Rightarrow> nat option \<Rightarrow> selector" where
  "selector_new preferred index_entry_threshold =
     \<lparr>se_preferred = preferred, se_index_entry_threshold = index_entry_threshold, se_failures = Map.empty,
      se_probes = (\<lambda>_ _. 0), se_fallbacks = (\<lambda>_. 0), se_pinned_directories = 0\<rparr>"

definition fetch_add :: "nat \<Rightarrow> nat" where
  "fetch_add n = (n + 1) mod 2 ^ 64"

definition repository_extension :: "ustr option \<Rightarrow> ustr option" where
  "repository_extension value = map_option (\<lambda>v. to_ascii_lowercase (str_trim v)) value"

definition uses_reftable :: "layout \<Rightarrow> bool" where
  "uses_reftable l \<longleftrightarrow> (case la_head l of None \<Rightarrow> False | Some head \<Rightarrow> str_trim head = REFTABLE_HEAD) \<or>
     repository_extension (la_ref_storage l) = Some REFTABLE_REF_STORAGE"

definition uses_sha1_objects :: "layout \<Rightarrow> bool" where
  "uses_sha1_objects l \<longleftrightarrow> (case repository_extension (la_object_format l) of None \<Rightarrow> True
     | Some format \<Rightarrow> format = SHA1_OBJECT_FORMAT)"

definition index_entry_count :: "nat list option \<Rightarrow> nat option" where
  "index_entry_count index = (case index of None \<Rightarrow> None
   | Some bytes \<Rightarrow>
       if length bytes < 12 then None
       else let header = take 12 bytes
         in if take 4 header \<noteq> [68, 73, 82, 67] then None
            else Some (header ! 8 * 2 ^ 24 + header ! 9 * 2 ^ 16 + header ! 10 * 2 ^ 8 + header ! 11))"

definition is_pinned :: "selector \<Rightarrow> string \<Rightarrow> bool" where
  "is_pinned s git_dir \<longleftrightarrow> (case se_failures s git_dir of None \<Rightarrow> False | Some f \<Rightarrow> fl_pinned f)"

definition fallback_before_gix :: "selector \<Rightarrow> layout option \<Rightarrow> Fallback option" where
  "fallback_before_gix s layout =
     (if se_preferred s = Cli then Some Forced
      else case layout of None \<Rightarrow> None
      | Some l \<Rightarrow>
          if uses_reftable l then Some Reftable
          else if \<not> uses_sha1_objects l then Some ObjectFormat
          else if is_pinned s (la_git_dir l) then Some FallbackError
          else case se_index_entry_threshold s of None \<Rightarrow> None
          | Some threshold \<Rightarrow>
              (case index_entry_count (la_index l) of None \<Rightarrow> None
               | Some count \<Rightarrow> if count > threshold then Some SizeThreshold else None))"

definition count_probe :: "selector \<Rightarrow> Probe \<Rightarrow> Engine \<Rightarrow> selector" where
  "count_probe s probe engine =
     s\<lparr>se_probes := (se_probes s)(probe := (se_probes s probe)(engine := fetch_add (se_probes s probe engine)))\<rparr>"

definition count_fallback :: "selector \<Rightarrow> Fallback \<Rightarrow> selector" where
  "count_fallback s reason = s\<lparr>se_fallbacks := (se_fallbacks s)(reason := fetch_add (se_fallbacks s reason))\<rparr>"

definition answer_with_cli :: "selector \<Rightarrow> Probe \<Rightarrow> 'a \<Rightarrow> 'a \<times> selector" where
  "answer_with_cli s probe cli = (cli, count_probe s probe Cli)"

definition record_success :: "selector \<Rightarrow> string \<Rightarrow> selector" where
  "record_success s git_dir = (case se_failures s git_dir of None \<Rightarrow> s
   | Some entry \<Rightarrow> if fl_pinned entry then s
       else s\<lparr>se_failures := (se_failures s)(git_dir \<mapsto> entry\<lparr>fl_consecutive := 0\<rparr>)\<rparr>)"

definition record_failure :: "selector \<Rightarrow> string \<Rightarrow> selector option" where
  "record_failure s git_dir = do {
     let entry = (case se_failures s git_dir of None \<Rightarrow> \<lparr>fl_consecutive = 0, fl_pinned = False\<rparr> | Some e \<Rightarrow> e);
     n \<leftarrow> u32_add (fl_consecutive entry) 1;
     let entry = entry\<lparr>fl_consecutive := n\<rparr>;
     Some (if n \<ge> PINNING_FAILURE_COUNT \<and> \<not> fl_pinned entry
           then s\<lparr>se_failures := (se_failures s)(git_dir \<mapsto> entry\<lparr>fl_pinned := True\<rparr>),
                  se_pinned_directories := fetch_add (se_pinned_directories s)\<rparr>
           else s\<lparr>se_failures := (se_failures s)(git_dir \<mapsto> entry)\<rparr>)
   }"

fun counts_toward_pinning :: "git_error \<Rightarrow> bool" where
  "counts_toward_pinning Interrupted = False"
| "counts_toward_pinning (TooManyEntries cap) = False"
| "counts_toward_pinning _ = True"

fun fallback_for :: "git_error \<Rightarrow> Fallback" where
  "fallback_for (TooManyEntries cap) = SizeThreshold"
| "fallback_for _ = FallbackError"

definition run :: "selector \<Rightarrow> Probe \<Rightarrow> layout option \<Rightarrow> git_error + 'a \<Rightarrow> 'a \<Rightarrow> ('a \<times> selector) option" where
  "run s probe layout gix cli =
     (case fallback_before_gix s layout of
        Some reason \<Rightarrow> Some (answer_with_cli (count_fallback s reason) probe cli)
      | None \<Rightarrow>
          (case gix of
             Inr answer \<Rightarrow>
               let s = (case layout of Some l \<Rightarrow> record_success s (la_git_dir l) | None \<Rightarrow> s)
               in Some (answer, count_probe s probe Gix)
           | Inl err \<Rightarrow> do {
               s \<leftarrow> (case layout of
                   Some l \<Rightarrow> if counts_toward_pinning err then record_failure s (la_git_dir l) else Some s
                 | None \<Rightarrow> Some s);
               Some (answer_with_cli (count_fallback s (fallback_for err)) probe cli)
             }))"

record counters =
  co_probes :: "(Probe \<times> Engine \<times> nat) list"
  co_fallbacks :: "(Fallback \<times> nat) list"
  co_pinned_directories :: nat

definition selector_counters :: "selector \<Rightarrow> counters" where
  "selector_counters s =
     \<lparr>co_probes = concat (map (\<lambda>p. map (\<lambda>e. (p, e, se_probes s p e)) ENGINE_ALL) PROBE_ALL),
      co_fallbacks = map (\<lambda>r. (r, se_fallbacks s r)) FALLBACK_ALL,
      co_pinned_directories = se_pinned_directories s\<rparr>"

definition counters_probes :: "counters \<Rightarrow> Probe \<Rightarrow> Engine \<Rightarrow> nat" where
  "counters_probes c probe engine =
     (case find (\<lambda>(p, e, _). p = probe \<and> e = engine) (co_probes c) of None \<Rightarrow> 0 | Some (_, _, n) \<Rightarrow> n)"

definition counters_fallbacks :: "counters \<Rightarrow> Fallback \<Rightarrow> nat" where
  "counters_fallbacks c reason = (case find (\<lambda>(r, _). r = reason) (co_fallbacks c) of None \<Rightarrow> 0 | Some (_, n) \<Rightarrow> n)"

section \<open>Pinning\<close>

text \<open>A call: its probe, the repository it finds, what the in-process engine answers and what git answers.\<close>

record 'a call =
  ca_probe :: Probe
  ca_layout :: "layout option"
  ca_gix :: "git_error + 'a"
  ca_cli :: 'a

definition run_call :: "selector \<Rightarrow> 'a call \<Rightarrow> ('a \<times> selector) option" where
  "run_call s c = run s (ca_probe c) (ca_layout c) (ca_gix c) (ca_cli c)"

definition run_calls :: "selector \<Rightarrow> 'a call list \<Rightarrow> selector option" where
  "run_calls s cs = for_each (\<lambda>s c. map_option snd (run_call s c)) s cs"

text \<open>
  A directory is pinned exactly when it has failed \<open>PINNING_FAILURE_COUNT\<close> times without a success in
  between, and the count never goes beyond that; the counter of pinned directories counts them.
\<close>

definition selector_inv :: "selector \<Rightarrow> bool" where
  "selector_inv s \<longleftrightarrow> finite (dom (se_failures s)) \<and>
     (\<forall>d f. se_failures s d = Some f \<longrightarrow> fl_consecutive f \<le> PINNING_FAILURE_COUNT \<and>
       (fl_pinned f \<longleftrightarrow> fl_consecutive f = PINNING_FAILURE_COUNT)) \<and>
     se_pinned_directories s = card {d. is_pinned s d} mod 2 ^ 64"

lemma is_pinned_count [simp]:
  "is_pinned (count_probe s p e) d = is_pinned s d" "is_pinned (count_fallback s r) d = is_pinned s d"
  by (simp_all add: is_pinned_def count_probe_def count_fallback_def)

lemma selector_inv_count [simp]:
  "selector_inv (count_probe s p e) = selector_inv s" "selector_inv (count_fallback s r) = selector_inv s"
  by (simp_all add: selector_inv_def) (simp_all add: count_probe_def count_fallback_def)

lemma selector_inv_new: "selector_inv (selector_new e t)"
  by (simp add: selector_inv_def selector_new_def is_pinned_def)

lemma finite_pinned: "selector_inv s \<Longrightarrow> finite {d. is_pinned s d}"
  unfolding selector_inv_def by (elim conjE, rule finite_subset [of _ "dom (se_failures s)"])
    (auto simp: is_pinned_def split: option.splits)

lemma is_pinned_record_success [simp]: "is_pinned (record_success s d) d' = is_pinned s d'"
  by (auto simp: is_pinned_def record_success_def split: option.splits)

lemma record_success_inv: "selector_inv s \<Longrightarrow> selector_inv (record_success s d)"
  unfolding selector_inv_def is_pinned_record_success
  by (auto simp: record_success_def PINNING_FAILURE_COUNT_def split: option.splits)

definition failure_count :: "selector \<Rightarrow> string \<Rightarrow> nat" where
  "failure_count s d = (case se_failures s d of None \<Rightarrow> 0 | Some f \<Rightarrow> fl_consecutive f)"

lemma pinned_failure_count: "selector_inv s \<Longrightarrow> is_pinned s d \<longleftrightarrow> failure_count s d = PINNING_FAILURE_COUNT"
  by (auto simp: selector_inv_def is_pinned_def failure_count_def PINNING_FAILURE_COUNT_def split: option.splits)

lemma runs_record_failure:
  assumes inv: "selector_inv s" and free: "\<not> is_pinned s d"
  shows "runs (record_failure s d) (\<lambda>s'. selector_inv s' \<and> (\<forall>d'. failure_count s' d' =
    (if d' = d then Suc (failure_count s d) else failure_count s d')) \<and>
    se_preferred s' = se_preferred s \<and> se_index_entry_threshold s' = se_index_entry_threshold s \<and>
    se_probes s' = se_probes s \<and> se_fallbacks s' = se_fallbacks s)"
proof -
  define entry where "entry = (case se_failures s d of None \<Rightarrow> \<lparr>fl_consecutive = 0, fl_pinned = False\<rparr> | Some e \<Rightarrow> e)"
  have entry: "fl_consecutive entry < PINNING_FAILURE_COUNT" "\<not> fl_pinned entry" "fl_consecutive entry = failure_count s d"
    using inv free by (auto simp: entry_def selector_inv_def is_pinned_def failure_count_def PINNING_FAILURE_COUNT_def
        le_less split: option.splits)
  let ?n = "Suc (fl_consecutive entry)"
  have add: "u32_add (fl_consecutive entry) (Suc 0) = Some ?n"
    using entry(1) by (simp add: u32_add_def PINNING_FAILURE_COUNT_def)
  show ?thesis
  proof (cases "?n \<ge> PINNING_FAILURE_COUNT")
    case True
    let ?s = "s\<lparr>se_failures := (se_failures s)(d \<mapsto> entry\<lparr>fl_consecutive := ?n, fl_pinned := True\<rparr>),
                  se_pinned_directories := fetch_add (se_pinned_directories s)\<rparr>"
    have "record_failure s d = Some ?s"
      using True entry(2) by (simp add: record_failure_def entry_def [symmetric] Let_def add)
    moreover have "{d'. is_pinned ?s d'} = insert d {d'. is_pinned s d'}" by (auto simp: is_pinned_def)
    then have "card {d'. is_pinned ?s d'} = Suc (card {d'. is_pinned s d'})"
      using finite_pinned [OF inv] free by simp
    with inv True entry have "selector_inv ?s"
      by (auto simp: selector_inv_def fetch_add_def mod_Suc_eq)
    ultimately show ?thesis using entry(3) by (auto simp: failure_count_def)
  next
    case False
    let ?s = "s\<lparr>se_failures := (se_failures s)(d \<mapsto> entry\<lparr>fl_consecutive := ?n\<rparr>)\<rparr>"
    have "record_failure s d = Some ?s"
      using False by (simp add: record_failure_def entry_def [symmetric] Let_def add)
    moreover have "is_pinned ?s d' = is_pinned s d'" for d' using entry(2) free by (auto simp: is_pinned_def)
    then have "selector_inv ?s"
      using inv False entry(2) by (auto simp: selector_inv_def)
    ultimately show ?thesis using entry(3) by (auto simp: failure_count_def)
  qed
qed

text \<open>
  The specification of pinning: the streak of a directory grows with every counted failure of the in-process
  engine on it, a success breaks it, and at \<open>PINNING_FAILURE_COUNT\<close> it stops for good. Only calls that the
  state of the repository does not send to the command line take part.
\<close>

definition eligible :: "nat option \<Rightarrow> string \<Rightarrow> 'a call \<Rightarrow> bool" where
  "eligible threshold d c \<longleftrightarrow> (case ca_layout c of None \<Rightarrow> False
   | Some l \<Rightarrow> la_git_dir l = d \<and> \<not> uses_reftable l \<and> uses_sha1_objects l \<and>
       \<not> (\<exists>t n. threshold = Some t \<and> index_entry_count (la_index l) = Some n \<and> n > t))"

definition streak_step :: "nat option \<Rightarrow> string \<Rightarrow> nat \<Rightarrow> 'a call \<Rightarrow> nat" where
  "streak_step threshold d n c =
     (if n = PINNING_FAILURE_COUNT \<or> \<not> eligible threshold d c then n
      else case ca_gix c of Inr _ \<Rightarrow> 0 | Inl err \<Rightarrow> if counts_toward_pinning err then Suc n else n)"

lemma failure_count_count [simp]:
  "failure_count (count_probe s p e) d = failure_count s d" "failure_count (count_fallback s r) d = failure_count s d"
  by (simp_all add: failure_count_def count_probe_def count_fallback_def)

lemma failure_count_success:
  "failure_count (record_success s d) d' = (if d' = d \<and> \<not> is_pinned s d then 0 else failure_count s d')"
  by (auto simp: failure_count_def record_success_def is_pinned_def split: option.splits)

lemma fallback_eligible:
  assumes "se_preferred s = Gix" "ca_layout c = Some l"
  shows "fallback_before_gix s (Some l) = None \<longleftrightarrow>
    eligible (se_index_entry_threshold s) (la_git_dir l) c \<and> \<not> is_pinned s (la_git_dir l)"
  using assms by (auto simp: fallback_before_gix_def eligible_def split: option.splits if_splits)

lemma runs_run_call:
  assumes inv: "selector_inv s" and pref: "se_preferred s = Gix"
  shows "runs (run_call s c) (\<lambda>(_, s'). selector_inv s' \<and> se_preferred s' = Gix \<and>
    se_index_entry_threshold s' = se_index_entry_threshold s \<and>
    (\<forall>d. failure_count s' d = streak_step (se_index_entry_threshold s) d (failure_count s d) c))"
proof -
  have keep: "se_preferred (count_probe t p e) = se_preferred t" "se_preferred (count_fallback t r) = se_preferred t"
    "se_index_entry_threshold (count_probe t p e) = se_index_entry_threshold t"
    "se_index_entry_threshold (count_fallback t r) = se_index_entry_threshold t" for t p e r
    by (simp_all add: count_probe_def count_fallback_def)
  have keep': "se_preferred (record_success t d) = se_preferred t"
    "se_index_entry_threshold (record_success t d) = se_index_entry_threshold t" for t d
    by (simp_all add: record_success_def split: option.splits)
  show ?thesis
  proof (cases "ca_layout c")
    case None
    with inv pref show ?thesis
      by (auto simp: run_call_def run_def fallback_before_gix_def answer_with_cli_def keep streak_step_def eligible_def
          split: sum.splits)
  next
    case (Some l)
    let ?d = "la_git_dir l"
    have other: "d \<noteq> ?d \<Longrightarrow> \<not> eligible t d c" for d t using Some by (auto simp: eligible_def)
    show ?thesis
    proof (cases "fallback_before_gix s (Some l)")
      case reason: (Some r)
      have "streak_step (se_index_entry_threshold s) d (failure_count s d) c = failure_count s d" for d
        using reason other [of d "se_index_entry_threshold s"] fallback_eligible [OF pref Some] pinned_failure_count [OF inv, of d]
        by (cases "d = ?d") (auto simp: streak_step_def)
      with inv pref Some reason show ?thesis
        by (auto simp: run_call_def run_def answer_with_cli_def keep)
    next
      case None
      then have el: "eligible (se_index_entry_threshold s) ?d c" and free: "\<not> is_pinned s ?d"
        using fallback_eligible [OF pref Some] by auto
      then have count: "failure_count s ?d \<noteq> PINNING_FAILURE_COUNT" using pinned_failure_count [OF inv] by simp
      show ?thesis
      proof (cases "ca_gix c")
        case (Inr answer)
        with inv pref Some None el free count other show ?thesis
          by (auto simp: run_call_def run_def keep keep' streak_step_def failure_count_success record_success_inv)
      next
        case (Inl err)
        have step: "streak_step (se_index_entry_threshold s) d (failure_count s d) c =
            (if d = ?d \<and> counts_toward_pinning err then Suc (failure_count s d) else failure_count s d)" for d
          using el count other [of d "se_index_entry_threshold s"] Inl by (cases "d = ?d") (auto simp: streak_step_def)
        show ?thesis using inv pref Some None Inl runs_record_failure [OF inv free]
          by (auto simp: run_call_def run_def answer_with_cli_def keep step runs_bind elim!: runs_mono)
      qed
    qed
  qed
qed

section \<open>The counters\<close>

definition cli_answers :: "selector \<Rightarrow> nat" where
  "cli_answers s = sum_list (map (\<lambda>p. se_probes s p Cli) PROBE_ALL)"

definition gix_answers :: "selector \<Rightarrow> nat" where
  "gix_answers s = sum_list (map (\<lambda>p. se_probes s p Gix) PROBE_ALL)"

definition all_fallbacks :: "selector \<Rightarrow> nat" where
  "all_fallbacks s = sum_list (map (se_fallbacks s) FALLBACK_ALL)"

lemma mod_step_left: "((a + 1) mod m + b) mod m = (a + b + 1) mod (m :: nat)"
  by (simp add: mod_add_left_eq)

lemma mod_step_right: "b mod m = (c + 1) mod m \<Longrightarrow> (a + b) mod m = (a + c + 1) mod (m :: nat)"
  by (metis add.assoc mod_add_right_eq)

lemma sum_list_fetch_add:
  assumes "distinct xs" "x \<in> set xs" "f' x = fetch_add (f x)" "\<And>y. y \<noteq> x \<Longrightarrow> f' y = f y"
  shows "sum_list (map f' xs) mod 2 ^ 64 = (sum_list (map f xs) + 1) mod 2 ^ 64"
  using assms
proof (induction xs)
  case (Cons y ys)
  show ?case
  proof (cases "y = x")
    case True
    then have "map f' ys = map f ys" using Cons.prems by (metis distinct.simps(2) map_eq_conv)
    with True Cons.prems(3) show ?thesis unfolding list.map sum_list.Cons fetch_add_def
      by (simp only: mod_step_left)
  next
    case False
    with Cons have "sum_list (map f' ys) mod 2 ^ 64 = (sum_list (map f ys) + 1) mod 2 ^ 64" "f' y = f y" by simp_all
    then show ?thesis unfolding list.map sum_list.Cons by (simp only: mod_step_right)
  qed
qed simp

lemma in_PROBE_ALL: "distinct PROBE_ALL" "p \<in> set PROBE_ALL"
  by (simp add: PROBE_ALL_def) (cases p; simp add: PROBE_ALL_def)

lemma in_FALLBACK_ALL: "distinct FALLBACK_ALL" "r \<in> set FALLBACK_ALL"
  by (simp add: FALLBACK_ALL_def) (cases r; simp add: FALLBACK_ALL_def)

lemma cli_answers_count:
  "cli_answers (count_probe s p Cli) mod 2 ^ 64 = (cli_answers s + 1) mod 2 ^ 64"
  unfolding cli_answers_def
  by (rule sum_list_fetch_add [OF in_PROBE_ALL, where x = p]) (simp_all add: count_probe_def)

lemma gix_answers_count:
  "gix_answers (count_probe s p Gix) mod 2 ^ 64 = (gix_answers s + 1) mod 2 ^ 64"
  unfolding gix_answers_def
  by (rule sum_list_fetch_add [OF in_PROBE_ALL, where x = p]) (simp_all add: count_probe_def)

lemma all_fallbacks_count:
  "all_fallbacks (count_fallback s r) mod 2 ^ 64 = (all_fallbacks s + 1) mod 2 ^ 64"
  unfolding all_fallbacks_def
  by (rule sum_list_fetch_add [OF in_FALLBACK_ALL, where x = r]) (simp_all add: count_fallback_def)

lemma counters_frame [simp]:
  "cli_answers (count_probe s p Gix) = cli_answers s" "gix_answers (count_probe s p Cli) = gix_answers s"
  "all_fallbacks (count_probe s p e) = all_fallbacks s"
  "cli_answers (count_fallback s r) = cli_answers s" "gix_answers (count_fallback s r) = gix_answers s"
  by (simp_all add: cli_answers_def gix_answers_def all_fallbacks_def count_probe_def count_fallback_def PROBE_ALL_def)

lemma counters_cong:
  "se_probes s' = se_probes s \<Longrightarrow> se_fallbacks s' = se_fallbacks s \<Longrightarrow>
    cli_answers s' = cli_answers s \<and> gix_answers s' = gix_answers s \<and> all_fallbacks s' = all_fallbacks s"
  by (simp add: cli_answers_def gix_answers_def all_fallbacks_def)

text \<open>What a call adds to the counters, over any state: an answer of one of the engines, and a fallback with git's.\<close>

definition counted :: "selector \<Rightarrow> selector \<Rightarrow> nat \<Rightarrow> nat \<Rightarrow> bool" where
  "counted s s' g k \<longleftrightarrow> gix_answers s' mod 2 ^ 64 = (gix_answers s + g) mod 2 ^ 64 \<and>
     cli_answers s' mod 2 ^ 64 = (cli_answers s + k) mod 2 ^ 64 \<and>
     all_fallbacks s' mod 2 ^ 64 = (all_fallbacks s + k) mod 2 ^ 64"

lemma counted_trans: "counted s t g k \<Longrightarrow> counted t u g' k' \<Longrightarrow> counted s u (g + g') (k + k')"
  unfolding counted_def by (metis (no_types, lifting) add.assoc mod_add_left_eq)

lemma counted_cli:
  assumes "se_probes t = se_probes s" "se_fallbacks t = se_fallbacks s"
  shows "counted s (count_probe (count_fallback t r) p Cli) 0 1"
  using counters_cong [OF assms] cli_answers_count [of "count_fallback t r" p] all_fallbacks_count [of t r]
  by (simp add: counted_def)

lemma counted_gix:
  assumes "se_probes t = se_probes s" "se_fallbacks t = se_fallbacks s"
  shows "counted s (count_probe t p Gix) 1 0"
  using counters_cong [OF assms] gix_answers_count [of t p] by (simp add: counted_def)

lemma record_success_counters:
  "se_probes (record_success s d) = se_probes s" "se_fallbacks (record_success s d) = se_fallbacks s"
  by (simp_all add: record_success_def split: option.splits)

text \<open>A call is answered in process when nothing sends it to git first and the in-process engine succeeds.\<close>

definition answered_by_gix :: "selector \<Rightarrow> 'a call \<Rightarrow> bool" where
  "answered_by_gix s c \<longleftrightarrow> fallback_before_gix s (ca_layout c) = None \<and> (\<exists>answer. ca_gix c = Inr answer)"

lemma run_call_counted:
  assumes "selector_inv s"
  shows "runs (run_call s c) (\<lambda>(a, s').
    a = (case (fallback_before_gix s (ca_layout c), ca_gix c) of (None, Inr answer) \<Rightarrow> answer | _ \<Rightarrow> ca_cli c) \<and>
    counted s s' (if answered_by_gix s c then 1 else 0) (if answered_by_gix s c then 0 else 1))"
proof (cases "fallback_before_gix s (ca_layout c)")
  case (Some r)
  then show ?thesis
    using counted_cli [of s s r "ca_probe c"]
    by (simp add: run_call_def run_def answer_with_cli_def answered_by_gix_def)
next
  case None
  show ?thesis
  proof (cases "ca_gix c")
    case (Inr answer)
    with None show ?thesis
      by (auto simp: run_call_def run_def answered_by_gix_def record_success_counters intro!: counted_gix [unfolded One_nat_def]
          split: option.splits)
  next
    case (Inl err)
    have failed: "\<not> is_pinned s (la_git_dir l)" if "ca_layout c = Some l" for l
      using None that by (auto simp: fallback_before_gix_def split: if_splits)
    show ?thesis using None Inl runs_record_failure [OF assms failed]
      by (cases "ca_layout c")
        (auto simp: run_call_def run_def answered_by_gix_def answer_with_cli_def runs_bind
            intro!: counted_cli [unfolded One_nat_def] elim!: runs_mono)
  qed
qed

section \<open>Runs of calls\<close>

lemma runs_run_call_inv:
  assumes "selector_inv s"
  shows "runs (run_call s c) (\<lambda>(_, s'). selector_inv s')"
proof (cases "se_preferred s")
  case Gix
  show ?thesis by (rule runs_mono [OF runs_run_call [OF assms Gix]]) auto
next
  case Cli
  with assms show ?thesis by (simp add: run_call_def run_def fallback_before_gix_def answer_with_cli_def)
qed

lemma runs_run_calls:
  assumes "selector_inv s" "se_preferred s = Gix"
  shows "runs (run_calls s cs) (\<lambda>s'. selector_inv s' \<and> se_preferred s' = Gix \<and>
    se_index_entry_threshold s' = se_index_entry_threshold s \<and>
    (\<forall>d. failure_count s' d = foldl (streak_step (se_index_entry_threshold s) d) (failure_count s d) cs))"
  using assms
proof (induction cs arbitrary: s)
  case (Cons c cs)
  have "runs (map_option snd (run_call s c)) (\<lambda>t. selector_inv t \<and> se_preferred t = Gix \<and>
      se_index_entry_threshold t = se_index_entry_threshold s \<and>
      (\<forall>d. failure_count t d = streak_step (se_index_entry_threshold s) d (failure_count s d) c))"
    using runs_run_call [OF Cons.prems, of c] by (auto simp: runs_iff)
  then show ?case unfolding run_calls_def for_each.simps
    by (rule runs_bindI) (use Cons.IH in \<open>force simp: run_calls_def elim!: runs_mono\<close>)
qed (simp add: run_calls_def)

lemma runs_run_calls_counted:
  assumes "selector_inv s"
  shows "runs (run_calls s cs) (\<lambda>s'. selector_inv s' \<and> (\<exists>g k. g + k = length cs \<and> counted s s' g k))"
  using assms
proof (induction cs arbitrary: s)
  case Nil
  then show ?case by (simp add: run_calls_def counted_def)
next
  case (Cons c cs)
  have "runs (map_option snd (run_call s c))
      (\<lambda>t. selector_inv t \<and> (\<exists>g k. g + k = 1 \<and> counted s t g k))"
    using runs_conj [OF runs_run_call_inv [OF Cons.prems, of c] run_call_counted [OF Cons.prems, of c]]
    unfolding runs_iff
    by (cases "answered_by_gix s c") (force intro: exI [of _ "1::nat"] exI [of _ "0::nat"])+
  then show ?case unfolding run_calls_def for_each.simps
  proof (rule runs_bindI)
    fix t assume "selector_inv t \<and> (\<exists>g k. g + k = 1 \<and> counted s t g k)"
    then obtain g k where t: "selector_inv t" "g + k = 1" "counted s t g k" by blast
    show "runs (for_each (\<lambda>s c. map_option snd (run_call s c)) t cs)
      (\<lambda>s'. selector_inv s' \<and> (\<exists>g k. g + k = length (c # cs) \<and> counted s s' g k))"
    proof (rule runs_mono [OF Cons.IH [OF t(1), unfolded run_calls_def]])
      fix u assume "selector_inv u \<and> (\<exists>g k. g + k = length cs \<and> counted t u g k)"
      then obtain g' k' where u: "selector_inv u" "g' + k' = length cs" "counted t u g' k'" by blast
      have "g + g' + (k + k') = length (c # cs)" using t(2) u(2) by simp
      with counted_trans [OF t(3) u(3)] u(1)
      show "selector_inv u \<and> (\<exists>g k. g + k = length (c # cs) \<and> counted s u g k)" by blast
    qed
  qed
qed

lemma counters_report:
  "counters_probes (selector_counters s) p e = se_probes s p e"
  "counters_fallbacks (selector_counters s) = se_fallbacks s"
proof -
  show "counters_probes (selector_counters s) p e = se_probes s p e"
    by (cases p; cases e; simp add: counters_probes_def selector_counters_def PROBE_ALL_def ENGINE_ALL_def)
  have "counters_fallbacks (selector_counters s) r = se_fallbacks s r" for r
    by (cases r; simp add: counters_fallbacks_def selector_counters_def FALLBACK_ALL_def)
  then show "counters_fallbacks (selector_counters s) = se_fallbacks s" by blast
qed

lemma failure_count_new [simp]: "failure_count (selector_new e t) d = 0"
  by (simp add: failure_count_def selector_new_def)

lemma counted_new:
  "gix_answers (selector_new e t) = 0" "cli_answers (selector_new e t) = 0" "all_fallbacks (selector_new e t) = 0"
  by (simp_all add: gix_answers_def cli_answers_def all_fallbacks_def selector_new_def PROBE_ALL_def FALLBACK_ALL_def)

text \<open>
  C27. Pinning. Whatever calls reach a selector that prefers the in-process engine, none of them panics, and a
  git directory is pinned afterwards exactly when the in-process engine failed on it
  \<open>PINNING_FAILURE_COUNT\<close> times with no success in between: interruptions and size limits do not count,
  calls that the repository's format or size sends to git do not take part, and a pin is never taken back. The
  counter of pinned directories is their number.
\<close>

theorem pinning_after_consecutive_failures:
  "runs (run_calls (selector_new Gix t) cs) (\<lambda>s.
     (\<forall>d. is_pinned s d \<longleftrightarrow> foldl (streak_step t d) 0 cs = PINNING_FAILURE_COUNT) \<and>
     co_pinned_directories (selector_counters s) =
       card {d. foldl (streak_step t d) 0 cs = PINNING_FAILURE_COUNT} mod 2 ^ 64)"
proof -
  have new: "se_preferred (selector_new Gix t) = Gix" "se_index_entry_threshold (selector_new Gix t) = t"
    by (simp_all add: selector_new_def)
  have "runs (run_calls (selector_new Gix t) cs) (\<lambda>s. selector_inv s \<and>
      (\<forall>d. is_pinned s d \<longleftrightarrow> foldl (streak_step t d) 0 cs = PINNING_FAILURE_COUNT))"
    using runs_run_calls [OF selector_inv_new new(1)] unfolding new(2)
    by (rule runs_mono) (simp add: pinned_failure_count)
  then show ?thesis
  proof (rule runs_mono)
    fix s assume s: "selector_inv s \<and> (\<forall>d. is_pinned s d \<longleftrightarrow> foldl (streak_step t d) 0 cs = PINNING_FAILURE_COUNT)"
    then have "{d. is_pinned s d} = {d. foldl (streak_step t d) 0 cs = PINNING_FAILURE_COUNT}" by simp
    with s show "(\<forall>d. is_pinned s d \<longleftrightarrow> foldl (streak_step t d) 0 cs = PINNING_FAILURE_COUNT) \<and>
        co_pinned_directories (selector_counters s) =
          card {d. foldl (streak_step t d) 0 cs = PINNING_FAILURE_COUNT} mod 2 ^ 64"
      unfolding selector_inv_def by (simp only: selector_counters_def counters.simps simp_thms)
  qed
qed

text \<open>
  After any calls, the next one returns: the answer of the in-process engine when that engine succeeds, the
  repository is one it can read and is not pinned, and the answer of git in every other case.
\<close>

theorem run_answers:
  assumes "run_calls (selector_new Gix t) cs = Some s"
  shows "\<exists>s'. run s probe layout gix cli = Some (
    (case gix of Inl _ \<Rightarrow> cli
     | Inr answer \<Rightarrow> (case layout of None \<Rightarrow> answer
         | Some l \<Rightarrow> if uses_reftable l \<or> \<not> uses_sha1_objects l \<or>
               foldl (streak_step t (la_git_dir l)) 0 cs = PINNING_FAILURE_COUNT \<or>
               (\<exists>limit n. t = Some limit \<and> index_entry_count (la_index l) = Some n \<and> n > limit)
             then cli else answer)), s')"
proof -
  let ?c = "\<lparr>ca_probe = probe, ca_layout = layout, ca_gix = gix, ca_cli = cli\<rparr>"
  have s: "selector_inv s" "se_preferred s = Gix" "se_index_entry_threshold s = t"
    "\<And>d. failure_count s d = foldl (streak_step t d) 0 cs"
    using runs_run_calls [OF selector_inv_new, of Gix t cs] assms by (auto simp: selector_new_def failure_count_def)
  show ?thesis using run_call_counted [OF s(1), of ?c] s
    by (auto simp: runs_iff run_call_def fallback_before_gix_def pinned_failure_count
        split: option.splits sum.splits if_splits)
qed

text \<open>Two failures pin a directory, and the next success of the in-process engine on it is not used.\<close>

definition sample_layout :: layout where
  "sample_layout = \<lparr>la_git_dir = ''g'', la_head = None, la_ref_storage = None, la_object_format = None, la_index = None\<rparr>"

definition sample_failure :: "nat call" where
  "sample_failure = \<lparr>ca_probe = IsClean, ca_layout = Some sample_layout, ca_gix = Inl (Bare ''g''), ca_cli = 0\<rparr>"

lemmas sample_call_defs = sample_layout_def sample_failure_def run_calls_def run_call_def run_def selector_new_def
  fallback_before_gix_def uses_reftable_def uses_sha1_objects_def repository_extension_def is_pinned_def
  answer_with_cli_def count_fallback_def count_probe_def record_failure_def PINNING_FAILURE_COUNT_def u32_add_def
  streak_step_def eligible_def

theorem run_answers_witness:
  "\<exists>s. run_calls (selector_new Gix None) [sample_failure, sample_failure] = Some s \<and>
     (\<exists>s'. run s IsClean (Some sample_layout) (Inr 7) (8 :: nat) = Some (8, s'))"
proof -
  obtain s where s: "run_calls (selector_new Gix None) [sample_failure, sample_failure] = Some s"
    by (simp add: sample_call_defs)
  from run_answers [OF s, of IsClean "Some sample_layout" "Inr 7" 8] s show ?thesis
    by (simp add: sample_call_defs)
qed

text \<open>
  The counters. For every sequence of calls and either preference, the answers counted over all probes and
  both engines are the number of calls, and every answer of git has its fallback reason counted: up to the
  wrap-around of the counters, nothing is counted twice and nothing is lost.
\<close>

theorem counters_conserved:
  "runs (run_calls (selector_new e t) cs) (\<lambda>s. let c = selector_counters s in
     (\<Sum>p\<leftarrow>PROBE_ALL. counters_probes c p Gix + counters_probes c p Cli) mod 2 ^ 64 = length cs mod 2 ^ 64 \<and>
     (\<Sum>r\<leftarrow>FALLBACK_ALL. counters_fallbacks c r) mod 2 ^ 64 =
       (\<Sum>p\<leftarrow>PROBE_ALL. counters_probes c p Cli) mod 2 ^ 64)"
proof (rule runs_mono [OF runs_run_calls_counted [OF selector_inv_new]])
  fix s assume "selector_inv s \<and> (\<exists>g k. g + k = length cs \<and> counted (selector_new e t) s g k)"
  then obtain g k where sum: "g + k = length cs"
    and gk: "gix_answers s mod 2 ^ 64 = g mod 2 ^ 64" "cli_answers s mod 2 ^ 64 = k mod 2 ^ 64"
      "all_fallbacks s mod 2 ^ 64 = k mod 2 ^ 64"
    by (auto simp: counted_def counted_new)
  have "(\<Sum>p\<leftarrow>PROBE_ALL. se_probes s p Gix + se_probes s p Cli) = gix_answers s + cli_answers s"
    by (simp add: sum_list_addf gix_answers_def cli_answers_def)
  moreover have "(gix_answers s + cli_answers s) mod 2 ^ 64 = length cs mod 2 ^ 64"
    using mod_add_cong [OF gk(1,2)] sum by simp
  ultimately show "let c = selector_counters s in
     (\<Sum>p\<leftarrow>PROBE_ALL. counters_probes c p Gix + counters_probes c p Cli) mod 2 ^ 64 = length cs mod 2 ^ 64 \<and>
     (\<Sum>r\<leftarrow>FALLBACK_ALL. counters_fallbacks c r) mod 2 ^ 64 =
       (\<Sum>p\<leftarrow>PROBE_ALL. counters_probes c p Cli) mod 2 ^ 64"
    using gk(2,3) by (simp add: counters_report all_fallbacks_def cli_answers_def)
qed

end
