(* ===== verification/Agent_Activity.thy ===== *)
theory Agent_Activity
  imports Text
begin

text \<open>
  What the core knows of the agents that run in its sessions: the wire form of their events
  (\<open>crates/paneflow-host/src/agent.rs\<close>, \<open>crates/paneflow-ipc-client/src/ai_hook.rs\<close>), the vocabulary of their
  states (\<open>crates/paneflow-ipc-client/src/agent.rs\<close>) and the summary the worker keeps of them
  (\<open>crates/paneflow-serve/src/activity.rs\<close>).

  JSON values belong to a package: their type is the parameter \<open>'v\<close> and the accessors the code calls are the
  record \<open>json\<close> that the definitions take. \<open>uuid\<close> stands for parsing a UUID and printing it hyphenated.
  Times are milliseconds; process ids and times are \<open>nat\<close>, exit codes \<open>int\<close> in the range of \<open>i32\<close>.
\<close>

section \<open>The vocabulary of hooks\<close>

definition EVENT_REORDER_TOLERANCE_MS :: nat where
  "EVENT_REORDER_TOLERANCE_MS = 5000"

datatype AiHookMethod = SessionStart | SessionEnd | PromptSubmit | Notification | Stop | ToolUse | Exit

fun method_as_str :: "AiHookMethod \<Rightarrow> ustr" where
  "method_as_str SessionStart = chars ''ai.session_start''"
| "method_as_str SessionEnd = chars ''ai.session_end''"
| "method_as_str PromptSubmit = chars ''ai.prompt_submit''"
| "method_as_str Notification = chars ''ai.notification''"
| "method_as_str Stop = chars ''ai.stop''"
| "method_as_str ToolUse = chars ''ai.tool_use''"
| "method_as_str Exit = chars ''ai.exit''"

definition method_parse :: "ustr \<Rightarrow> AiHookMethod option" where
  "method_parse raw =
     (if raw = chars ''ai.session_start'' then Some SessionStart
      else if raw = chars ''ai.prompt_submit'' then Some PromptSubmit
      else if raw = chars ''ai.tool_use'' then Some ToolUse
      else if raw = chars ''ai.notification'' then Some Notification
      else if raw = chars ''ai.stop'' then Some Stop
      else if raw = chars ''ai.exit'' then Some Exit
      else if raw = chars ''ai.session_end'' then Some SessionEnd
      else None)"

fun ends_run :: "AiHookMethod \<Rightarrow> bool" where
  "ends_run Stop = True"
| "ends_run Exit = True"
| "ends_run SessionEnd = True"
| "ends_run _ = False"

datatype LifecycleEventSource = Interrupt

definition event_source_parse :: "ustr \<Rightarrow> LifecycleEventSource option" where
  "event_source_parse raw = (if raw = chars ''interrupt'' then Some Interrupt else None)"

section \<open>States of an agent\<close>

datatype AgentState = Thinking | WaitingForInput | Finished | Errored

fun wire_str :: "AgentState \<Rightarrow> ustr" where
  "wire_str Thinking = chars ''thinking''"
| "wire_str WaitingForInput = chars ''waiting_for_input''"
| "wire_str Finished = chars ''finished''"
| "wire_str Errored = chars ''errored''"

definition state_parse :: "ustr \<Rightarrow> AgentState option" where
  "state_parse raw =
     (if raw = chars ''thinking'' then Some Thinking
      else if raw = chars ''waiting_for_input'' then Some WaitingForInput
      else if raw = chars ''finished'' then Some Finished
      else if raw = chars ''errored'' then Some Errored
      else None)"

fun is_busy :: "AgentState \<Rightarrow> bool" where
  "is_busy Thinking = True"
| "is_busy WaitingForInput = True"
| "is_busy _ = False"

text \<open>\<open>0xC000_013A\<close> read as a signed 32-bit number.\<close>

definition STATUS_CONTROL_C_EXIT :: int where
  "STATUS_CONTROL_C_EXIT = sint (0xC000013A :: 32 word)"

definition is_human_interruption_exit :: "int \<Rightarrow> bool" where
  "is_human_interruption_exit exit_code \<longleftrightarrow> exit_code \<in> {129, 130, 137, 143, STATUS_CONTROL_C_EXIT}"

definition state_for_exit :: "int \<Rightarrow> AgentState" where
  "state_for_exit exit_code =
     (if exit_code = 0 then Finished
      else if is_human_interruption_exit exit_code then Finished
      else Errored)"

datatype AgentStateSource = Terminal | SessionRegistry | Hook

text \<open>The derived order of the sources is the order of their constructors.\<close>

fun source_rank :: "AgentStateSource \<Rightarrow> nat" where
  "source_rank Terminal = 0"
| "source_rank SessionRegistry = 1"
| "source_rank Hook = 2"

instantiation AgentStateSource :: linorder
begin

definition less_eq_AgentStateSource :: "AgentStateSource \<Rightarrow> AgentStateSource \<Rightarrow> bool" where
  "less_eq_AgentStateSource a b \<longleftrightarrow> source_rank a \<le> source_rank b"

definition less_AgentStateSource :: "AgentStateSource \<Rightarrow> AgentStateSource \<Rightarrow> bool" where
  "less_AgentStateSource a b \<longleftrightarrow> source_rank a < source_rank b"

instance
proof
  fix a b :: AgentStateSource
  show "a \<le> b \<Longrightarrow> b \<le> a \<Longrightarrow> a = b" by (cases a; cases b) (simp_all add: less_eq_AgentStateSource_def)
qed (auto simp: less_eq_AgentStateSource_def less_AgentStateSource_def)

end

fun source_wire_str :: "AgentStateSource \<Rightarrow> ustr" where
  "source_wire_str Terminal = chars ''terminal''"
| "source_wire_str SessionRegistry = chars ''session_registry''"
| "source_wire_str Hook = chars ''hook''"

definition SOURCE_TAKEOVER_SILENCE :: nat where
  "SOURCE_TAKEOVER_SILENCE = 20000"

definition accepts_source :: "(AgentStateSource \<times> nat) option \<Rightarrow> AgentStateSource \<Rightarrow> bool" where
  "accepts_source existing incoming = (case existing of None \<Rightarrow> True
     | Some (held, silence) \<Rightarrow> incoming \<ge> held \<or> silence \<ge> SOURCE_TAKEOVER_SILENCE)"

definition accepts_event :: "nat option \<Rightarrow> nat option \<Rightarrow> bool" where
  "accepts_event last_ms incoming = (case (last_ms, incoming) of
       (Some l, Some i) \<Rightarrow> if i < l then l - i > EVENT_REORDER_TOLERANCE_MS else True
     | _ \<Rightarrow> True)"

datatype 'a FieldUpdate = Keep | Set 'a

datatype AgentLifecycleEvent =
  LifecyclePromptSubmit
| LifecycleToolUse "ustr option"
| LifecycleNotification "ustr option"
| LifecycleStop "ustr option"
| LifecycleExit int

record session_transition =
  tr_state :: AgentState
  tr_active_tool_name :: "ustr option"
  tr_message :: "ustr option FieldUpdate"
  tr_last_result :: "ustr option FieldUpdate"

fun reduce_lifecycle_event :: "AgentLifecycleEvent \<Rightarrow> session_transition" where
  "reduce_lifecycle_event LifecyclePromptSubmit =
     \<lparr>tr_state = Thinking, tr_active_tool_name = None, tr_message = Set None, tr_last_result = Keep\<rparr>"
| "reduce_lifecycle_event (LifecycleToolUse tool_name) =
     \<lparr>tr_state = Thinking, tr_active_tool_name = tool_name, tr_message = Keep, tr_last_result = Keep\<rparr>"
| "reduce_lifecycle_event (LifecycleNotification message) =
     \<lparr>tr_state = WaitingForInput, tr_active_tool_name = None, tr_message = Set message, tr_last_result = Keep\<rparr>"
| "reduce_lifecycle_event (LifecycleStop summary) =
     \<lparr>tr_state = Finished, tr_active_tool_name = None, tr_message = Set None, tr_last_result = Set summary\<rparr>"
| "reduce_lifecycle_event (LifecycleExit exit_code) =
     \<lparr>tr_state = state_for_exit exit_code, tr_active_tool_name = None, tr_message = Set None, tr_last_result = Keep\<rparr>"

definition next_waiting_since :: "(AgentState \<times> 't option) option \<Rightarrow> AgentState \<Rightarrow> 't \<Rightarrow> 't option" where
  "next_waiting_since prev new_state now = (case new_state of
     WaitingForInput \<Rightarrow> (case prev of Some (WaitingForInput, Some since) \<Rightarrow> Some since | _ \<Rightarrow> Some now)
   | _ \<Rightarrow> None)"

section \<open>Events\<close>

record 'v json =
  jget :: "'v \<Rightarrow> string \<Rightarrow> 'v option"
  as_str :: "'v \<Rightarrow> ustr option"
  as_u64 :: "'v \<Rightarrow> nat option"
  as_i64 :: "'v \<Rightarrow> int option"
  is_null :: "'v \<Rightarrow> bool"
  from_value_u64 :: "'v \<Rightarrow> nat option"
  empty_object :: 'v

definition MAX_AGENT_TEXT_BYTES :: nat where
  "MAX_AGENT_TEXT_BYTES = 4 * 1024"

definition len_utf8 :: "uchar \<Rightarrow> nat" where
  "len_utf8 c = length (utf8_encode c)"

record 'v agent_event =
  ev_session :: ustr
  ev_generation :: "nat option"
  ev_kind :: AiHookMethod
  ev_tool :: ustr
  ev_pid :: "nat option"
  ev_tool_name :: "ustr option"
  ev_message :: "ustr option"
  ev_summary :: "ustr option"
  ev_exit_code :: "int option"
  ev_emitted_at_ms :: "nat option"
  ev_received_at_ms :: "nat option"
  ev_event_source :: "LifecycleEventSource option"
  ev_payload :: 'v

fun clamp_loop :: "ustr \<Rightarrow> ustr \<Rightarrow> ustr" where
  "clamp_loop text [] = text"
| "clamp_loop text (character # rest) =
     (if length (str_bytes text) + len_utf8 character > MAX_AGENT_TEXT_BYTES then text
      else clamp_loop (text @ [character]) rest)"

definition clamp_text :: "ustr \<Rightarrow> ustr" where
  "clamp_text raw = clamp_loop [] (filter (\<lambda>c. c \<noteq> 0) raw)"

definition option_filter :: "('a \<Rightarrow> bool) \<Rightarrow> 'a option \<Rightarrow> 'a option" where
  "option_filter p x = (case x of None \<Rightarrow> None | Some v \<Rightarrow> if p v then Some v else None)"

definition or_else :: "'a option \<Rightarrow> 'a option \<Rightarrow> 'a option" where
  "or_else a b = (case a of None \<Rightarrow> b | Some v \<Rightarrow> Some v)"

definition params_text :: "'v json \<Rightarrow> 'v \<Rightarrow> string \<Rightarrow> ustr option" where
  "params_text J params key =
     option_filter (\<lambda>text. str_trim text \<noteq> [])
       (map_option clamp_text
         (or_else (jget J params key) (jget J params ''hook_payload'' \<bind> (\<lambda>payload. jget J payload key)) \<bind> as_str J))"

fun optional_text :: "'v json \<Rightarrow> 'v \<Rightarrow> string list \<Rightarrow> ustr option" where
  "optional_text J params [] = None"
| "optional_text J params (key # keys) =
     (case params_text J params key of Some text \<Rightarrow> Some text | None \<Rightarrow> optional_text J params keys)"

datatype params_error =
  MissingSession
| MalformedSession ustr
| InvalidGeneration
| MissingKind
| UnsupportedKind ustr
| MissingTool
| MissingExitCode

definition session_id_parse :: "(ustr \<Rightarrow> ustr option) \<Rightarrow> ustr \<Rightarrow> params_error + ustr" where
  "session_id_parse uuid raw = (case uuid raw of None \<Rightarrow> Inl (MalformedSession raw)
     | Some canonical \<Rightarrow> if canonical \<noteq> raw then Inl (MalformedSession raw) else Inr canonical)"

definition event_source_from_wire :: "'v json \<Rightarrow> 'v \<Rightarrow> LifecycleEventSource option" where
  "event_source_from_wire J params =
     or_else (jget J params ''event_source'') (jget J params ''hook_payload'' \<bind> (\<lambda>payload. jget J payload ''event_source''))
       \<bind> as_str J \<bind> event_source_parse"

definition ok_or :: "'e \<Rightarrow> 'a option \<Rightarrow> 'e + 'a" where
  "ok_or e x = (case x of None \<Rightarrow> Inl e | Some v \<Rightarrow> Inr v)"

definition and_then :: "'e + 'a \<Rightarrow> ('a \<Rightarrow> 'e + 'b) \<Rightarrow> 'e + 'b" where
  "and_then r f = (case r of Inl e \<Rightarrow> Inl e | Inr v \<Rightarrow> f v)"

definition from_params :: "'v json \<Rightarrow> (ustr \<Rightarrow> ustr option) \<Rightarrow> 'v \<Rightarrow> params_error + 'v agent_event" where
  "from_params J uuid params =
     and_then (ok_or MissingSession (jget J params ''session'' \<bind> as_str J)) (\<lambda>raw_session.
     and_then (session_id_parse uuid raw_session) (\<lambda>session.
     and_then (case or_else (jget J params ''runtime_generation'') (jget J params ''generation'') of
         None \<Rightarrow> Inr None
       | Some v \<Rightarrow> if is_null J v then Inr None
           else (case from_value_u64 J v of None \<Rightarrow> Inl InvalidGeneration | Some g \<Rightarrow> Inr (Some g))) (\<lambda>generation.
     and_then (ok_or MissingKind (jget J params ''kind'' \<bind> as_str J)) (\<lambda>raw_kind.
     and_then (ok_or (UnsupportedKind raw_kind) (method_parse raw_kind)) (\<lambda>kind.
     and_then (ok_or MissingTool (option_filter (\<lambda>tool. tool \<noteq> [])
         (map_option clamp_text (jget J params ''tool'' \<bind> as_str J)))) (\<lambda>tool.
     let pid = option_filter (\<lambda>pid. pid > 0) (option_filter (\<lambda>pid. pid < 2 ^ 32) (jget J params ''pid'' \<bind> as_u64 J));
         payload = jget J params ''hook_payload'';
         exit_code = option_filter (\<lambda>code. - (2 ^ 31) \<le> code \<and> code < 2 ^ 31)
           (or_else (jget J params ''exit_code'') (payload \<bind> (\<lambda>payload. jget J payload ''exit_code'')) \<bind> as_i64 J)
     in if kind = Exit \<and> exit_code = None then Inl MissingExitCode
        else Inr \<lparr>ev_session = session, ev_generation = generation, ev_kind = kind, ev_tool = tool, ev_pid = pid,
               ev_tool_name = optional_text J params [''tool_name''],
               ev_message = optional_text J params [''message''],
               ev_summary = optional_text J params [''last_assistant_message'', ''last_result'', ''summary''],
               ev_exit_code = exit_code,
               ev_emitted_at_ms = jget J params ''emitted_at_ms'' \<bind> as_u64 J,
               ev_received_at_ms = None,
               ev_event_source = event_source_from_wire J params,
               ev_payload = (case payload of None \<Rightarrow> empty_object J | Some p \<Rightarrow> p)\<rparr>))))))"

definition is_interrupt :: "'v agent_event \<Rightarrow> bool" where
  "is_interrupt e \<longleftrightarrow> ev_event_source e = Some Interrupt"

section \<open>The summary of an agent\<close>

datatype SessionLifecycle =
  Starting
| Running
| Exited int "ustr option"
| Failed ustr
| Lost
| Unverified ustr

fun is_running :: "SessionLifecycle \<Rightarrow> bool" where
  "is_running Starting = True"
| "is_running Running = True"
| "is_running _ = False"

record agent_summary =
  su_tool :: ustr
  su_state :: ustr
  su_source :: ustr
  su_active_tool_name :: "ustr option"
  su_message :: "ustr option"
  su_last_result :: "ustr option"
  su_provider_session_id :: "ustr option"
  su_transcript_path :: "ustr option"
  su_pid :: "nat option"
  su_waiting_since_ms :: "nat option"
  su_last_event_at_ms :: "nat option"
  su_errored :: bool
  su_stale :: bool
  su_updated_at_ms :: nat

definition declared :: "ustr \<Rightarrow> nat \<Rightarrow> agent_summary" where
  "declared tool now_ms =
     \<lparr>su_tool = tool, su_state = wire_str Finished, su_source = chars ''hook'', su_active_tool_name = None,
      su_message = None, su_last_result = None, su_provider_session_id = None, su_transcript_path = None,
      su_pid = None, su_waiting_since_ms = None, su_last_event_at_ms = None, su_errored = False, su_stale = False,
      su_updated_at_ms = now_ms\<rparr>"

datatype stale_reason = OutOfOrder | ForeignProcessEnd | ErroredKeepsOutcome | StaleProcess

datatype AgentDecision = Update agent_summary | Clear | Stale stale_reason

definition silence_since :: "nat \<Rightarrow> nat \<Rightarrow> nat" where
  "silence_since updated_at_ms now_ms = now_ms - updated_at_ms"

definition accepts_process :: "agent_summary \<Rightarrow> 'v agent_event \<Rightarrow> nat \<Rightarrow> bool" where
  "accepts_process existing event silence = (case (su_pid existing, ev_pid event) of
       (Some held, Some incoming) \<Rightarrow>
         if held \<noteq> incoming then \<not> ends_run (ev_kind event) \<or> silence \<ge> SOURCE_TAKEOVER_SILENCE else True
     | _ \<Rightarrow> True)"

definition optional_payload_text :: "'v json \<Rightarrow> 'v agent_event \<Rightarrow> string \<Rightarrow> ustr option" where
  "optional_payload_text J event key =
     option_filter (\<lambda>text. text \<noteq> []) (map_option clamp_text (jget J (ev_payload event) key \<bind> as_str J))"

definition apply_kind :: "agent_summary \<Rightarrow> 'v agent_event \<Rightarrow> agent_summary" where
  "apply_kind summary event = (case ev_kind event of
     PromptSubmit \<Rightarrow> summary\<lparr>su_active_tool_name := None, su_message := None, su_errored := False\<rparr>
   | ToolUse \<Rightarrow> summary\<lparr>su_active_tool_name := ev_tool_name event\<rparr>
   | Notification \<Rightarrow> summary\<lparr>su_active_tool_name := None, su_message := ev_message event\<rparr>
   | Stop \<Rightarrow>
       let summary = summary\<lparr>su_active_tool_name := None, su_message := None\<rparr>
       in if \<not> is_interrupt event then summary\<lparr>su_last_result := ev_summary event\<rparr> else summary
   | Exit \<Rightarrow> summary\<lparr>su_active_tool_name := None, su_message := None,
       su_errored := (state_for_exit (case ev_exit_code event of None \<Rightarrow> 0 | Some code \<Rightarrow> code) = Errored)\<rparr>
   | SessionStart \<Rightarrow> summary
   | SessionEnd \<Rightarrow> summary)"

definition apply_event :: "'v json \<Rightarrow> agent_summary option \<Rightarrow> 'v agent_event \<Rightarrow> nat \<Rightarrow> AgentDecision" where
  "apply_event J existing event now_ms =
     (if (case existing of None \<Rightarrow> False
          | Some summary \<Rightarrow> \<not> accepts_event (su_last_event_at_ms summary) (ev_emitted_at_ms event))
      then Stale OutOfOrder
      else if ev_kind event = SessionEnd
      then (case existing of None \<Rightarrow> Clear
         | Some summary \<Rightarrow>
             if \<not> accepts_process summary event (silence_since (su_updated_at_ms summary) now_ms)
             then Stale ForeignProcessEnd
             else if su_errored summary then Stale ErroredKeepsOutcome
             else Clear)
      else if (case existing of None \<Rightarrow> False
          | Some summary \<Rightarrow> \<not> accepts_process summary event (silence_since (su_updated_at_ms summary) now_ms))
      then Stale StaleProcess
      else
        let summary = (case existing of Some summary \<Rightarrow> summary | None \<Rightarrow> declared (ev_tool event) now_ms);
            summary = summary\<lparr>su_tool := ev_tool event,
              su_pid := or_else (ev_pid event) (su_pid summary),
              su_stale := False,
              su_last_event_at_ms := or_else (ev_emitted_at_ms event) (su_last_event_at_ms summary),
              su_provider_session_id :=
                or_else (optional_payload_text J event ''session_id'') (su_provider_session_id summary),
              su_transcript_path :=
                or_else (optional_payload_text J event ''transcript_path'') (su_transcript_path summary),
              su_updated_at_ms := now_ms\<rparr>
        in Update (apply_kind summary event))"

definition reconcile_adopted :: "agent_summary \<Rightarrow> SessionLifecycle \<Rightarrow> nat \<Rightarrow> agent_summary" where
  "reconcile_adopted summary lifecycle now_ms =
     (let busy = (case state_parse (su_state summary) of None \<Rightarrow> False | Some state \<Rightarrow> is_busy state)
      in if is_running lifecycle \<or> \<not> busy then summary
         else summary\<lparr>su_stale := True, su_updated_at_ms := now_ms\<rparr>)"

section \<open>Wire names\<close>

lemma state_parse_wire [simp]: "state_parse (wire_str s) = Some s"
  by (cases s) (simp_all add: state_parse_def chars_def)

lemma method_parse_as_str [simp]: "method_parse (method_as_str k) = Some k"
  by (cases k) (simp_all add: method_parse_def chars_def)

lemma state_parse_Some: "state_parse raw = Some s \<Longrightarrow> raw = wire_str s"
  by (auto simp: state_parse_def split: if_splits)

lemma method_parse_Some: "method_parse raw = Some k \<Longrightarrow> raw = method_as_str k"
  by (auto simp: method_parse_def split: if_splits)

text \<open>
  The wire names of the agent states and of the hook methods are read back exactly: parsing accepts the printed
  name of every state and method, nothing else, and yields the one it names.
\<close>

theorem wire_names_roundtrip:
  "(state_parse raw = Some s \<longleftrightarrow> raw = wire_str s) \<and> (method_parse raw = Some k \<longleftrightarrow> raw = method_as_str k)"
  using state_parse_Some method_parse_Some by auto

section \<open>Clamped text\<close>

lemma len_str_bytes: "str_len s = sum_list (map len_utf8 s)"
  by (induction s) (simp_all add: len_utf8_def)

lemma clamp_loop_longest:
  assumes "length (str_bytes t) \<le> MAX_AGENT_TEXT_BYTES"
  shows "\<exists>n. clamp_loop t rest = t @ take n rest \<and> length (str_bytes (clamp_loop t rest)) \<le> MAX_AGENT_TEXT_BYTES \<and>
    (n < length rest \<longrightarrow> length (str_bytes (t @ take (Suc n) rest)) > MAX_AGENT_TEXT_BYTES) \<and> n \<le> length rest"
  using assms
proof (induction t rest rule: clamp_loop.induct)
  case (2 t c rest)
  show ?case
  proof (cases "length (str_bytes t) + len_utf8 c > MAX_AGENT_TEXT_BYTES")
    case True
    with 2 show ?thesis by (auto intro!: exI [of _ 0] simp: len_utf8_def)
  next
    case False
    with 2 obtain n where "clamp_loop (t @ [c]) rest = (t @ [c]) @ take n rest"
      "length (str_bytes (clamp_loop (t @ [c]) rest)) \<le> MAX_AGENT_TEXT_BYTES"
      "n < length rest \<longrightarrow> length (str_bytes ((t @ [c]) @ take (Suc n) rest)) > MAX_AGENT_TEXT_BYTES" "n \<le> length rest"
      by (fastforce simp: len_utf8_def)
    with False show ?thesis by (auto intro!: exI [of _ "Suc n"])
  qed
qed simp

lemma clamp_text_split:
  obtains n where "clamp_text raw = take n (filter (\<lambda>c. c \<noteq> 0) raw)" "n \<le> length (filter (\<lambda>c. c \<noteq> 0) raw)"
    "length (str_bytes (clamp_text raw)) \<le> MAX_AGENT_TEXT_BYTES"
    "n < length (filter (\<lambda>c. c \<noteq> 0) raw) \<longrightarrow>
       length (str_bytes (take (Suc n) (filter (\<lambda>c. c \<noteq> 0) raw))) > MAX_AGENT_TEXT_BYTES"
proof -
  have "length (str_bytes []) \<le> MAX_AGENT_TEXT_BYTES" by (simp add: str_bytes_def)
  from clamp_loop_longest [OF this, of "filter (\<lambda>c. c \<noteq> 0) raw"] that show ?thesis
    unfolding clamp_text_def append_Nil by blast
qed

lemma clamp_text_bound: "length (str_bytes (clamp_text raw)) \<le> MAX_AGENT_TEXT_BYTES"
  by (rule clamp_text_split) blast

lemma clamp_text_take: "\<exists>n. clamp_text raw = take n (filter (\<lambda>c. c \<noteq> 0) raw)"
  by (rule clamp_text_split) blast

lemma clamp_text_no_nul: "0 \<notin> set (clamp_text raw)"
  using clamp_text_take [of raw] by (auto dest!: in_set_takeD)

lemma sum_list_take_mono: "n \<le> m \<Longrightarrow> sum_list (map f (take n xs)) \<le> (sum_list (map f (take m xs)) :: nat)"
  by (metis le_add1 le_add_diff_inverse map_append sum_list.append take_add)

text \<open>
  A clamped text is the longest prefix of the text without its NUL characters whose UTF-8 encoding is at most
  \<open>MAX_AGENT_TEXT_BYTES\<close> bytes long, so no character is cut in the middle, and clamping again changes nothing.
\<close>

theorem clamp_text_longest:
  "(\<exists>n. clamp_text raw = take n (filter (\<lambda>c. c \<noteq> 0) raw)) \<and>
   length (str_bytes (clamp_text raw)) \<le> MAX_AGENT_TEXT_BYTES \<and>
   (\<forall>m. length (str_bytes (take m (filter (\<lambda>c. c \<noteq> 0) raw))) \<le> MAX_AGENT_TEXT_BYTES \<longleftrightarrow>
      length (take m (filter (\<lambda>c. c \<noteq> 0) raw)) \<le> length (clamp_text raw)) \<and>
   clamp_text (clamp_text raw) = clamp_text raw"
proof -
  let ?f = "filter (\<lambda>c. c \<noteq> 0) raw"
  have iff: "length (str_bytes (take m (filter (\<lambda>c. c \<noteq> 0) raw))) \<le> MAX_AGENT_TEXT_BYTES \<longleftrightarrow>
      length (take m (filter (\<lambda>c. c \<noteq> 0) raw)) \<le> length (clamp_text raw)" for raw m
  proof -
    let ?f = "filter (\<lambda>c. c \<noteq> 0) raw"
    obtain n where n: "clamp_text raw = take n ?f" "length (str_bytes (clamp_text raw)) \<le> MAX_AGENT_TEXT_BYTES"
      "n < length ?f \<longrightarrow> length (str_bytes (take (Suc n) ?f)) > MAX_AGENT_TEXT_BYTES" "n \<le> length ?f"
      by (rule clamp_text_split [of raw])
    show ?thesis
    proof (cases "m \<le> n")
      case True
      then show ?thesis using n sum_list_take_mono [of m n len_utf8 ?f] by (simp add: len_str_bytes)
    next
      case False
      show ?thesis
      proof (cases "n = length ?f")
        case True
        with False n show ?thesis by simp
      next
        case 2: False
        with False n sum_list_take_mono [of "Suc n" m len_utf8 ?f] show ?thesis by (simp add: len_str_bytes)
      qed
    qed
  qed
  obtain n where n: "clamp_text raw = take n ?f" using clamp_text_take by blast
  have "filter (\<lambda>c. c \<noteq> 0) (clamp_text raw) = clamp_text raw"
    using clamp_text_no_nul [of raw] by (intro filter_True ballI) metis
  then have "length (clamp_text raw) \<le> length (clamp_text (clamp_text raw))"
    using iff [of "length (clamp_text raw)" "clamp_text raw"] clamp_text_bound [of raw] by simp
  moreover obtain n' where "clamp_text (clamp_text raw) = take n' (clamp_text raw)"
    using clamp_text_take [of "clamp_text raw"] \<open>filter _ (clamp_text raw) = _\<close> by auto
  ultimately have "clamp_text (clamp_text raw) = clamp_text raw" by simp
  with n clamp_text_bound iff show ?thesis by blast
qed

section \<open>Well-formed events\<close>

definition agent_text :: "ustr \<Rightarrow> bool" where
  "agent_text s \<longleftrightarrow> s \<noteq> [] \<and> 0 \<notin> set s \<and> length (str_bytes s) \<le> MAX_AGENT_TEXT_BYTES"

definition event_wf :: "'v agent_event \<Rightarrow> bool" where
  "event_wf e \<longleftrightarrow> agent_text (ev_tool e) \<and>
     (\<forall>s \<in> set_option (ev_tool_name e) \<union> set_option (ev_message e) \<union> set_option (ev_summary e).
        agent_text s \<and> str_trim s \<noteq> []) \<and>
     (case ev_pid e of None \<Rightarrow> True | Some p \<Rightarrow> 0 < p \<and> p < 2 ^ 32) \<and>
     (case ev_exit_code e of None \<Rightarrow> ev_kind e \<noteq> Exit | Some c \<Rightarrow> - (2 ^ 31) \<le> c \<and> c < 2 ^ 31)"

lemma option_filter_Some: "option_filter p x = Some v \<longleftrightarrow> x = Some v \<and> p v"
  by (auto simp: option_filter_def split: option.splits)

lemma option_filter_case: "x = option_filter p y \<Longrightarrow> (x = None \<Longrightarrow> A) \<Longrightarrow> case x of None \<Rightarrow> A | Some c \<Rightarrow> p c"
  by (auto simp: option_filter_Some split: option.splits)

lemma agent_text_clamp: "agent_text (clamp_text raw) \<longleftrightarrow> clamp_text raw \<noteq> []"
  using clamp_text_no_nul clamp_text_bound by (auto simp: agent_text_def)

lemma str_trim_Nil [simp]: "str_trim [] = []"
  by (simp add: str_trim_def trim_matches_def)

lemma optional_text_Some:
  "optional_text J params keys = Some s \<Longrightarrow> agent_text s \<and> str_trim s \<noteq> []"
proof (induction keys)
  case (Cons key keys)
  have "params_text J params key = Some s \<Longrightarrow> agent_text s \<and> str_trim s \<noteq> []"
    by (auto simp: params_text_def option_filter_Some agent_text_clamp)
  with Cons show ?case by (auto split: option.splits)
qed simp

lemma and_then_Inr: "and_then r f = Inr v \<longleftrightarrow> (\<exists>x. r = Inr x \<and> f x = Inr v)"
  by (auto simp: and_then_def split: sum.splits)

lemma ok_or_Inr: "ok_or e x = Inr v \<longleftrightarrow> x = Some v"
  by (auto simp: ok_or_def split: option.splits)

text \<open>
  C30. An event that is accepted from the wire is well formed: its texts are not empty, contain no NUL and at most
  \<open>MAX_AGENT_TEXT_BYTES\<close> bytes, its process id is a positive \<open>u32\<close>, its exit code an \<open>i32\<close> that an exit event never
  lacks; its session is the canonical form the wire gave and its kind the one whose name the wire gave.
\<close>

theorem from_params_wf:
  assumes "from_params J uuid params = Inr e"
  shows "event_wf e \<and> uuid (ev_session e) = Some (ev_session e) \<and>
    (jget J params ''session'' \<bind> as_str J) = Some (ev_session e) \<and>
    (jget J params ''kind'' \<bind> as_str J) = Some (method_as_str (ev_kind e))"
proof -
  let ?exit = "option_filter (\<lambda>code. - (2 ^ 31) \<le> code \<and> code < 2 ^ 31)
     (or_else (jget J params ''exit_code'') (jget J params ''hook_payload'' \<bind> (\<lambda>payload. jget J payload ''exit_code''))
       \<bind> as_i64 J)"
  obtain session raw_session generation raw_kind kind tool where
    sess: "(jget J params ''session'' \<bind> as_str J) = Some raw_session" "session_id_parse uuid raw_session = Inr session"
    and kind: "(jget J params ''kind'' \<bind> as_str J) = Some raw_kind" "method_parse raw_kind = Some kind"
    and tool: "option_filter (\<lambda>tool. tool \<noteq> []) (map_option clamp_text (jget J params ''tool'' \<bind> as_str J)) = Some tool"
    and e: "(if kind = Exit \<and> ?exit = None then Inl MissingExitCode
        else Inr \<lparr>ev_session = session, ev_generation = generation, ev_kind = kind, ev_tool = tool,
               ev_pid = option_filter (\<lambda>pid. pid > 0) (option_filter (\<lambda>pid. pid < 2 ^ 32) (jget J params ''pid'' \<bind> as_u64 J)),
               ev_tool_name = optional_text J params [''tool_name''],
               ev_message = optional_text J params [''message''],
               ev_summary = optional_text J params [''last_assistant_message'', ''last_result'', ''summary''],
               ev_exit_code = ?exit,
               ev_emitted_at_ms = jget J params ''emitted_at_ms'' \<bind> as_u64 J,
               ev_received_at_ms = None,
               ev_event_source = event_source_from_wire J params,
               ev_payload = (case jget J params ''hook_payload'' of None \<Rightarrow> empty_object J | Some p \<Rightarrow> p)\<rparr>) = Inr e"
    using assms unfolding from_params_def and_then_Inr ok_or_Inr Let_def by (elim exE conjE) (rule that)
  have texts: "ev_tool_name e = optional_text J params [''tool_name'']" "ev_message e = optional_text J params [''message'']"
    "ev_summary e = optional_text J params [''last_assistant_message'', ''last_result'', ''summary'']"
    using e by (auto simp del: optional_text.simps split: if_splits)
  have "agent_text (ev_tool e)"
    using e tool by (auto simp: option_filter_Some agent_text_clamp simp del: optional_text.simps split: if_splits)
  moreover have "agent_text s \<and> str_trim s \<noteq> []"
    if "s \<in> set_option (ev_tool_name e) \<union> set_option (ev_message e) \<union> set_option (ev_summary e)" for s
    using that unfolding texts Un_iff elem_set by (elim disjE) (drule optional_text_Some, simp)+
  moreover have "case ev_pid e of None \<Rightarrow> True | Some p \<Rightarrow> 0 < p \<and> p < 2 ^ 32"
    using e by (auto simp: option_filter_Some simp del: optional_text.simps split: if_splits option.splits)
  moreover have "case ev_exit_code e of None \<Rightarrow> ev_kind e \<noteq> Exit | Some c \<Rightarrow> - (2 ^ 31) \<le> c \<and> c < 2 ^ 31"
  proof -
    have "ev_exit_code e = ?exit" "ev_kind e = kind" "kind = Exit \<Longrightarrow> ?exit \<noteq> None"
      using e by (auto simp del: optional_text.simps split: if_splits)
    then show ?thesis by (intro option_filter_case) auto
  qed
  moreover have "uuid (ev_session e) = Some (ev_session e) \<and> (jget J params ''session'' \<bind> as_str J) = Some (ev_session e)"
    using e sess by (auto simp: session_id_parse_def simp del: optional_text.simps split: if_splits option.splits)
  moreover have "(jget J params ''kind'' \<bind> as_str J) = Some (method_as_str (ev_kind e))"
    using e kind by (auto dest!: method_parse_Some simp del: optional_text.simps split: if_splits)
  ultimately show ?thesis unfolding event_wf_def by blast
qed

text \<open>A JSON library of two accessors deep, for closed instances.\<close>

datatype jval = JStr string | JNum int | JNull | JObj "(string \<times> jval) list"

definition sample_json :: "jval json" where
  "sample_json =
     \<lparr>jget = (\<lambda>v key. case v of JObj members \<Rightarrow> map_of members key | _ \<Rightarrow> None),
      as_str = (\<lambda>v. case v of JStr s \<Rightarrow> Some (chars s) | _ \<Rightarrow> None),
      as_u64 = (\<lambda>v. case v of JNum n \<Rightarrow> if 0 \<le> n then Some (nat n) else None | _ \<Rightarrow> None),
      as_i64 = (\<lambda>v. case v of JNum n \<Rightarrow> Some n | _ \<Rightarrow> None),
      is_null = (\<lambda>v. v = JNull),
      from_value_u64 = (\<lambda>v. case v of JNum n \<Rightarrow> if 0 \<le> n then Some (nat n) else None | _ \<Rightarrow> None),
      empty_object = JObj []\<rparr>"

definition sample_params :: jval where
  "sample_params = JObj [(''session'', JStr ''u''), (''kind'', JStr ''ai.exit''), (''tool'', JStr ''codex''),
     (''pid'', JNum 0), (''exit_code'', JNum 2), (''summary'', JStr ''ok'')]"

lemma sample_from_params: "\<exists>e. from_params sample_json Some sample_params = Inr e \<and> ev_kind e = Exit \<and> ev_pid e = None"
  by (simp add: from_params_def sample_json_def sample_params_def and_then_def ok_or_def session_id_parse_def or_else_def
      option_filter_def chars_def method_parse_def params_text_def clamp_text_def MAX_AGENT_TEXT_BYTES_def len_utf8_def
      utf8_encode_def str_bytes_def)

theorem from_params_wf_witness:
  "\<exists>e. from_params sample_json Some sample_params = Inr e \<and> event_wf e \<and> ev_kind e = Exit"
proof -
  obtain e where e: "from_params sample_json Some sample_params = Inr e" "ev_kind e = Exit" using sample_from_params by blast
  from from_params_wf [OF e(1)] e show ?thesis by blast
qed

section \<open>The history of a session\<close>

text \<open>
  How the worker applies a decision to the summary it holds (\<open>apply_core_event\<close> in \<open>state.rs\<close>): an update replaces it,
  a clear drops it, and a stale event leaves it. \<open>history_step\<close> also keeps the events accepted since the
  summary was last empty.
\<close>

definition apply_decision :: "agent_summary option \<Rightarrow> AgentDecision \<Rightarrow> agent_summary option" where
  "apply_decision existing decision = (case decision of Stale _ \<Rightarrow> existing | Clear \<Rightarrow> None | Update summary \<Rightarrow> Some summary)"

definition activity_step :: "'v json \<Rightarrow> agent_summary option \<Rightarrow> 'v agent_event \<times> nat \<Rightarrow> agent_summary option" where
  "activity_step J existing = (\<lambda>(event, now_ms). apply_decision existing (apply_event J existing event now_ms))"

definition history_step ::
  "'v json \<Rightarrow> agent_summary option \<times> 'v agent_event list \<Rightarrow> 'v agent_event \<times> nat \<Rightarrow> agent_summary option \<times> 'v agent_event list" where
  "history_step J state = (\<lambda>(event, now_ms).
     let decision = apply_event J (fst state) event now_ms
     in (apply_decision (fst state) decision,
         case decision of Stale _ \<Rightarrow> snd state | Clear \<Rightarrow> [] | Update _ \<Rightarrow> snd state @ [event]))"

lemma history_step_pair: "history_step J (s, h) (event, now_ms) =
    (apply_decision s (apply_event J s event now_ms),
     case apply_event J s event now_ms of Stale _ \<Rightarrow> h | Clear \<Rightarrow> [] | Update _ \<Rightarrow> h @ [event])"
  by (simp add: history_step_def Let_def split: AgentDecision.splits)

lemma history_step_activity: "fst (foldl (history_step J) (s, h) evs) = foldl (activity_step J) s evs"
proof (induction evs arbitrary: s h)
  case (Cons x evs)
  have "history_step J (s, h) x = (activity_step J s x, snd (history_step J (s, h) x))"
    by (cases x) (simp add: history_step_def activity_step_def Let_def)
  then show ?case using Cons.IH [of "activity_step J s x" "snd (history_step J (s, h) x)"] by simp
qed simp

definition newest :: "('a \<Rightarrow> bool) \<Rightarrow> 'a list \<Rightarrow> 'a option" where
  "newest p xs = find p (rev xs)"

definition newest_value :: "('a \<Rightarrow> 'b option) \<Rightarrow> 'a list \<Rightarrow> 'b option" where
  "newest_value f xs = newest (\<lambda>x. f x \<noteq> None) xs \<bind> f"

lemma newest_Nil [simp]: "newest p [] = None"
  by (simp add: newest_def)

lemma newest_snoc [simp]: "newest p (xs @ [x]) = (if p x then Some x else newest p xs)"
  by (simp add: newest_def)

lemma newest_value_simps [simp]:
  "newest_value f [] = None" "newest_value f (xs @ [x]) = or_else (f x) (newest_value f xs)"
  by (auto simp: newest_value_def or_else_def split: option.splits)

lemma newest_single [simp]: "newest p [x] = (if p x then Some x else None)"
  by (simp add: newest_def)

lemma or_else_None [simp]: "or_else x None = x" "or_else None x = x"
  by (auto simp: or_else_def split: option.splits)

lemma newest_value_single [simp]: "newest_value f [x] = f x"
  using newest_value_simps(2) [of f "[]" x] by simp

text \<open>What the summary must say of the accepted events of a run, the newest last.\<close>

definition tells :: "'v json \<Rightarrow> agent_summary \<Rightarrow> 'v agent_event list \<Rightarrow> bool" where
  "tells J s h \<longleftrightarrow> h \<noteq> [] \<and> su_tool s = ev_tool (last h) \<and>
     su_pid s = newest_value ev_pid h \<and>
     su_last_event_at_ms s = newest_value ev_emitted_at_ms h \<and>
     su_provider_session_id s = newest_value (\<lambda>e. optional_payload_text J e ''session_id'') h \<and>
     su_transcript_path s = newest_value (\<lambda>e. optional_payload_text J e ''transcript_path'') h \<and>
     su_active_tool_name s = (case newest (\<lambda>e. ev_kind e \<noteq> SessionStart) h of None \<Rightarrow> None
       | Some e \<Rightarrow> if ev_kind e = ToolUse then ev_tool_name e else None) \<and>
     su_message s = (case newest (\<lambda>e. ev_kind e \<notin> {SessionStart, ToolUse}) h of None \<Rightarrow> None
       | Some e \<Rightarrow> if ev_kind e = Notification then ev_message e else None) \<and>
     su_last_result s = (newest (\<lambda>e. ev_kind e = Stop \<and> \<not> is_interrupt e) h \<bind> ev_summary) \<and>
     (su_errored s \<longleftrightarrow> (case newest (\<lambda>e. ev_kind e \<in> {PromptSubmit, Exit}) h of None \<Rightarrow> False
       | Some e \<Rightarrow> ev_kind e = Exit \<and> state_for_exit (case ev_exit_code e of None \<Rightarrow> 0 | Some c \<Rightarrow> c) = Errored)) \<and>
     \<not> su_stale s"

text \<open>The update of an accepted event that does not end its session.\<close>

definition updated :: "'v json \<Rightarrow> agent_summary \<Rightarrow> 'v agent_event \<Rightarrow> nat \<Rightarrow> agent_summary" where
  "updated J summary event now_ms = apply_kind (summary\<lparr>su_tool := ev_tool event,
      su_pid := or_else (ev_pid event) (su_pid summary), su_stale := False,
      su_last_event_at_ms := or_else (ev_emitted_at_ms event) (su_last_event_at_ms summary),
      su_provider_session_id := or_else (optional_payload_text J event ''session_id'') (su_provider_session_id summary),
      su_transcript_path := or_else (optional_payload_text J event ''transcript_path'') (su_transcript_path summary),
      su_updated_at_ms := now_ms\<rparr>) event"

lemma apply_event_Update:
  "apply_event J existing event now = Update s \<Longrightarrow> ev_kind event \<noteq> SessionEnd \<and>
     s = updated J (case existing of Some t \<Rightarrow> t | None \<Rightarrow> declared (ev_tool event) now) event now"
  by (simp add: apply_event_def updated_def Let_def split: if_splits option.splits)

lemma tells_first: "ev_kind e \<noteq> SessionEnd \<Longrightarrow> tells J (updated J (declared (ev_tool e) now) e now) [e]"
  by (cases "ev_kind e") (simp_all add: tells_def updated_def declared_def apply_kind_def Let_def)

lemma tells_next: "ev_kind e \<noteq> SessionEnd \<Longrightarrow> tells J s h \<Longrightarrow> tells J (updated J s e now) (h @ [e])"
  by (cases "ev_kind e") (simp_all add: tells_def updated_def apply_kind_def Let_def)

lemma tells_step:
  assumes "case state of (None, h) \<Rightarrow> h = [] | (Some s, h) \<Rightarrow> tells J s h"
  shows "case history_step J state x of (None, h) \<Rightarrow> h = [] | (Some s, h) \<Rightarrow> tells J s h"
proof -
  obtain e now where x: "x = (e, now)" by (cases x)
  obtain s h where state: "state = (s, h)" by (cases state)
  show ?thesis
  proof (cases "apply_event J s e now")
    case (Update t)
    with assms show ?thesis using apply_event_Update [OF Update] tells_first [of e J now] tells_next [of e J _ h now]
      by (auto simp: x state history_step_def apply_decision_def split: option.splits)
  qed (use assms in \<open>auto simp: x state history_step_def apply_decision_def split: option.splits\<close>)
qed

lemma tells_history: "case foldl (history_step J) (None, []) evs of (None, h) \<Rightarrow> h = [] | (Some s, h) \<Rightarrow> tells J s h"
proof (induction evs rule: rev_induct)
  case (snoc x evs)
  from tells_step [OF snoc] show ?case by simp
qed simp

lemma newest_value_last:
  "newest_value f xs = (if List.map_filter f xs = [] then None else Some (last (List.map_filter f xs)))"
  by (induction xs rule: rev_induct) (auto simp: List.map_filter_def or_else_def)

text \<open>
  C28. Whatever events arrive, and whenever, the summary of a session is a function of the events accepted since
  it was last empty: the tool of the newest one, the newest process id, time, session and transcript any of them
  named, the tool in use and the message unless a later event ended them, the result of the newest stop that
  was not an interruption, and a failure exactly when the newest prompt or exit was an exit with a failing code.
\<close>

theorem activity_tells_history:
  "case foldl (history_step J) (None, []) evs of (None, h) \<Rightarrow> h = [] | (Some s, h) \<Rightarrow> tells J s h"
  by (rule tells_history)

text \<open>
  C29. The outcome of a failed run survives every event but a new prompt or a new exit: a session end does not clear
  it, and no other event resets it.
\<close>

theorem errored_outcome_kept:
  assumes "su_errored s" "\<forall>(e, now) \<in> set evs. ev_kind e \<notin> {PromptSubmit, Exit}"
  shows "\<exists>s'. foldl (activity_step J) (Some s) evs = Some s' \<and> su_errored s'"
  using assms
proof (induction evs arbitrary: s)
  case (Cons x evs)
  obtain e now where x: "x = (e, now)" by (cases x)
  have "\<exists>t. activity_step J (Some s) x = Some t \<and> su_errored t"
    using Cons.prems by (cases "ev_kind e")
      (auto simp: x activity_step_def apply_decision_def apply_event_def apply_kind_def Let_def)
  with Cons show ?case by auto
qed simp

text \<open>
  The events accepted in a run are in the order in which they were emitted, up to a clock that was set back:
  of two timed events that follow each other, the later accepted one was not emitted before the earlier, unless by
  more than \<open>EVENT_REORDER_TOLERANCE_MS\<close>.
\<close>

theorem accepted_events_ordered:
  "successively (\<lambda>a b. a \<le> b \<or> a - b > EVENT_REORDER_TOLERANCE_MS)
     (List.map_filter ev_emitted_at_ms (snd (foldl (history_step J) (None, []) evs)))"
proof (induction evs rule: rev_induct)
  case (snoc x evs)
  obtain e now where x: "x = (e, now)" by (cases x)
  obtain s h where fold: "foldl (history_step J) (None, []) evs = (s, h)" by (cases "foldl (history_step J) (None, []) evs")
  let ?times = "List.map_filter ev_emitted_at_ms"
  have times: "?times (h @ [e]) = ?times h @ (case ev_emitted_at_ms e of None \<Rightarrow> [] | Some t \<Rightarrow> [t])"
    by (simp add: List.map_filter_def split: option.splits)
  show ?case
  proof (cases "apply_event J s e now")
    case (Update u)
    then have ok: "s = None \<or> accepts_event (su_last_event_at_ms (the s)) (ev_emitted_at_ms e)"
      by (auto simp: apply_event_def Let_def split: if_splits option.splits)
    have "ev_emitted_at_ms e = Some t \<Longrightarrow> ?times h \<noteq> [] \<Longrightarrow>
        last (?times h) \<le> t \<or> last (?times h) - t > EVENT_REORDER_TOLERANCE_MS" for t
      using tells_history [of J evs] ok
      by (auto simp: fold tells_def newest_value_last accepts_event_def List.map_filter_def split: option.splits if_splits)
    with snoc fold Update show ?thesis
      by (auto simp: x times history_step_pair successively_append_iff split: option.splits)
  qed (use snoc fold in \<open>auto simp: x history_step_pair List.map_filter_def\<close>)
qed (simp add: List.map_filter_def)


text \<open>A failed run that an interrupted stop and the end of the session reach.\<close>

definition sample_event :: "AiHookMethod \<Rightarrow> int option \<Rightarrow> jval agent_event" where
  "sample_event kind exit_code =
     \<lparr>ev_session = chars ''u'', ev_generation = None, ev_kind = kind, ev_tool = chars ''codex'', ev_pid = Some 7,
      ev_tool_name = None, ev_message = None, ev_summary = None, ev_exit_code = exit_code, ev_emitted_at_ms = Some 10,
      ev_received_at_ms = None, ev_event_source = None, ev_payload = JObj []\<rparr>"

theorem errored_outcome_kept_witness:
  "\<exists>s'. foldl (activity_step sample_json) (Some (declared (chars ''codex'') 0\<lparr>su_errored := True\<rparr>))
     [(sample_event Stop None, 1), (sample_event SessionEnd None, 2)] = Some s' \<and> su_errored s'"
  by (rule errored_outcome_kept) (simp_all add: sample_event_def)

text \<open>
  For twenty seconds after the last accepted event, an event of another process cannot end a run: whatever it
  says, a stop, exit or session end whose process id differs from the one the summary holds leaves the
  summary as it is.
\<close>

theorem foreign_process_cannot_end_run:
  assumes "su_pid s = Some held" "ev_pid e = Some incoming" "incoming \<noteq> held" "ends_run (ev_kind e)"
    "now < su_updated_at_ms s + 20000"
  shows "activity_step J (Some s) (e, now) = Some s"
  using assms by (auto simp: activity_step_def apply_decision_def apply_event_def accepts_process_def silence_since_def
      SOURCE_TAKEOVER_SILENCE_def)

theorem foreign_process_cannot_end_run_witness:
  "activity_step sample_json (Some (declared (chars ''codex'') 0\<lparr>su_pid := Some 8\<rparr>)) (sample_event Exit (Some 1), 19999)
     = Some (declared (chars ''codex'') 0\<lparr>su_pid := Some 8\<rparr>)"
  by (rule foreign_process_cannot_end_run [where held = "8 :: nat" and incoming = "7 :: nat"]) (simp_all add: sample_event_def declared_def)

section \<open>Waiting\<close>

text \<open>The states a session goes through with their times, and the time since which it waits.\<close>

definition waiting_step :: "(AgentState \<times> 't option) option \<Rightarrow> AgentState \<times> 't \<Rightarrow> (AgentState \<times> 't option) option" where
  "waiting_step prev = (\<lambda>(state, now). Some (state, next_waiting_since prev state now))"

text \<open>
  The time since which an agent waits for input is the time of the first of the unbroken waits that lead to the
  present, however often the waiting is reported again, and there is none when the agent does not wait.
\<close>

theorem waiting_since_first:
  "foldl waiting_step None (states @ [(state, now)]) =
     Some (state, case rev (takeWhile (\<lambda>(s, _). s = WaitingForInput) (rev (states @ [(state, now)]))) of
       [] \<Rightarrow> None | (_, since) # _ \<Rightarrow> Some since)"
proof (induction states arbitrary: state now rule: rev_induct)
  case Nil
  then show ?case by (cases state) (simp_all add: waiting_step_def next_waiting_since_def)
next
  case (snoc x states)
  obtain s t where x: "x = (s, t)" by (cases x)
  let ?w = "takeWhile (\<lambda>(s, _). s = WaitingForInput) (rev states)"
  from snoc.IH [of s t] show ?case
    by (cases state; cases s; cases "rev ?w")
      (auto simp: x waiting_step_def next_waiting_since_def split: list.splits)
qed

end
