(* ===== verification/Layout_Tree.thy ===== *)
theory Layout_Tree
  imports Prelude Complex_Main
begin

text \<open>
  \<open>src-app/src/layout\<close>: the tree of split panes of a workspace tab, with the operations that split, close, swap,
  arrange and navigate its panes (\<open>tree.rs\<close>, \<open>mutations.rs\<close>, \<open>close.rs\<close>, \<open>queries.rs\<close>, \<open>presets.rs\<close>,
  \<open>navigation.rs\<close>), and the saved form it is restored from (\<open>serde.rs\<close>,
  \<open>crates/paneflow-config/src/schema/layout.rs\<close>).

  A pane is an entity handle, of a type \<open>'p\<close> with equality only; which panes are focused and which are detached
  is read from the window and is an argument. Ratios are floating-point numbers: the definitions take the
  arithmetic of their type \<open>'f\<close> as a record, so that what is proved of the shape of trees holds for every rounding,
  and \<open>exact\<close> is the arithmetic of real numbers, for what is proved of the ratios themselves. The shared
  cells of the code (\<open>Rc<Cell<_>>\<close>) are fields of the tree. Debug assertions are those of a release build.
\<close>

section \<open>Arithmetic\<close>

datatype Ordering = Less | Equal | Greater

record 'f arith =
  f_add :: "'f \<Rightarrow> 'f \<Rightarrow> 'f"
  f_sub :: "'f \<Rightarrow> 'f \<Rightarrow> 'f"
  f_mul :: "'f \<Rightarrow> 'f \<Rightarrow> 'f"
  f_div :: "'f \<Rightarrow> 'f \<Rightarrow> 'f"
  f_max :: "'f \<Rightarrow> 'f \<Rightarrow> 'f"
  f_min :: "'f \<Rightarrow> 'f \<Rightarrow> 'f"
  f_abs :: "'f \<Rightarrow> 'f"
  f_lt :: "'f \<Rightarrow> 'f \<Rightarrow> bool"
  f_le :: "'f \<Rightarrow> 'f \<Rightarrow> bool"
  f_total_cmp :: "'f \<Rightarrow> 'f \<Rightarrow> Ordering"
  f_is_finite :: "'f \<Rightarrow> bool"
  f_of_nat :: "nat \<Rightarrow> 'f"
  f_lit :: "rat \<Rightarrow> 'f"
  f_EPSILON :: 'f

definition f_sum :: "'f arith \<Rightarrow> 'f list \<Rightarrow> 'f" where
  "f_sum A xs = foldl (f_add A) (f_lit A 0) xs"

text \<open>\<open>clamp\<close> panics unless its bounds are ordered.\<close>

definition f_clamp :: "'f arith \<Rightarrow> 'f \<Rightarrow> 'f \<Rightarrow> 'f \<Rightarrow> 'f option" where
  "f_clamp A x lo hi =
     (if f_le A lo hi then Some (if f_lt A x lo then lo else if f_lt A hi x then hi else x) else None)"

definition exact :: "real arith" where
  "exact = \<lparr>f_add = (+), f_sub = (-), f_mul = (*), f_div = (/), f_max = max, f_min = min, f_abs = abs, f_lt = (<), f_le = (\<le>),
     f_total_cmp = (\<lambda>a b. if a < b then Less else if a = b then Equal else Greater), f_is_finite = (\<lambda>_. True),
     f_of_nat = real, f_lit = real_of_rat, f_EPSILON = 1 / 2 ^ 23\<rparr>"

section \<open>The tree\<close>

datatype SplitDirection = Horizontal | Vertical

record 'f drag_state =
  dr_divider_idx :: nat
  dr_start_pos :: 'f
  dr_start_ratio_before :: 'f
  dr_start_ratio_after :: 'f

datatype ('p, 'f) LayoutTree =
  Leaf 'p
| Container SplitDirection "('p, 'f) LayoutChild list" "'f drag_state option" 'f
and ('p, 'f) LayoutChild =
  LayoutChild (lc_node: "('p, 'f) LayoutTree") (lc_ratio: 'f)

lemma size_child [termination_simp]:
  "c \<in> set children \<Longrightarrow> size (lc_node c) < Suc (size_list size children + k)"
  using size_list_estimation' [of c children "size (lc_node c)" size] by (cases c) auto

definition with_ratio :: "('p, 'f) LayoutChild \<Rightarrow> 'f \<Rightarrow> ('p, 'f) LayoutChild" where
  "with_ratio c r = LayoutChild (lc_node c) r"

definition normalize_ratios :: "'f arith \<Rightarrow> ('p, 'f) LayoutChild list \<Rightarrow> ('p, 'f) LayoutChild list" where
  "normalize_ratios A children =
     (let total = f_sum A (map lc_ratio children)
      in if f_lt A (f_lit A 0) total \<and> f_lt A (f_EPSILON A) (f_abs A (f_sub A total (f_lit A 1)))
         then map (\<lambda>c. with_ratio c (f_div A (lc_ratio c) total)) children
         else children)"

definition redistribute_equal :: "'f arith \<Rightarrow> ('p, 'f) LayoutChild list \<Rightarrow> 'f \<Rightarrow> ('p, 'f) LayoutChild list" where
  "redistribute_equal A children removed_ratio =
     (if children = [] then children
      else let share = f_div A removed_ratio (f_of_nat A (length children))
        in map (\<lambda>c. with_ratio c (f_add A (lc_ratio c) share)) children)"

definition resize_adjacent_ratios ::
  "'f arith \<Rightarrow> 'f \<Rightarrow> 'f \<Rightarrow> 'f \<Rightarrow> 'f \<Rightarrow> 'f \<Rightarrow> 'f \<Rightarrow> ('f \<times> 'f) option option" where
  "resize_adjacent_ratios A start_ratio_before start_ratio_after delta_px container_px min_before_px min_after_px =
     (if \<not> f_is_finite A start_ratio_before \<or> \<not> f_is_finite A start_ratio_after \<or> \<not> f_is_finite A delta_px \<or>
         \<not> f_is_finite A container_px \<or> \<not> f_is_finite A min_before_px \<or> \<not> f_is_finite A min_after_px \<or>
         f_le A container_px (f_lit A 0)
      then Some None
      else
        let pair_sum = f_add A start_ratio_before start_ratio_after
        in if \<not> f_is_finite A pair_sum \<or> f_le A pair_sum (f_lit A 0) then Some None
           else
             let min_before_ratio = f_min A (f_div A (f_max A min_before_px (f_lit A 0)) container_px) pair_sum;
                 min_after_ratio = f_min A (f_div A (f_max A min_after_px (f_lit A 0)) container_px) pair_sum;
                 lower = min_before_ratio;
                 upper = f_sub A pair_sum min_after_ratio
             in if f_lt A upper lower then Some (Some (start_ratio_before, start_ratio_after))
                else do {
                  new_before \<leftarrow> f_clamp A (f_add A start_ratio_before (f_div A delta_px container_px)) lower upper;
                  Some (Some (new_before, f_sub A pair_sum new_before))
                })"

definition insert_sibling :: "'f arith \<Rightarrow> ('p, 'f) LayoutChild list \<Rightarrow> nat \<Rightarrow> 'p \<Rightarrow> ('p, 'f) LayoutChild list" where
  "insert_sibling A children idx new_pane =
     (if idx < length children then
        let target = children ! idx;
            old_ratio = lc_ratio target;
            half = (if f_is_finite A old_ratio then f_div A old_ratio (f_lit A 2) else f_lit A (1 / 2))
        in take idx children @ [with_ratio target half, LayoutChild (Leaf new_pane) half] @ drop (Suc idx) children
      else children)"

definition new_split :: "'f arith \<Rightarrow> SplitDirection \<Rightarrow> ('p, 'f) LayoutTree \<Rightarrow> ('p, 'f) LayoutTree \<Rightarrow> ('p, 'f) LayoutTree" where
  "new_split A direction first second =
     Container direction [LayoutChild first (f_lit A (1 / 2)), LayoutChild second (f_lit A (1 / 2))] None (f_lit A 0)"

definition MIN_PANE_SIZE :: rat where
  "MIN_PANE_SIZE = 80"

fun docked_min_main_axis_px :: "'f arith \<Rightarrow> ('p \<Rightarrow> bool) \<Rightarrow> SplitDirection \<Rightarrow> 'f \<Rightarrow> ('p, 'f) LayoutTree \<Rightarrow> 'f"
and docked_min_loop :: "'f arith \<Rightarrow> ('p \<Rightarrow> bool) \<Rightarrow> SplitDirection \<Rightarrow> 'f \<Rightarrow> SplitDirection \<Rightarrow> nat \<times> 'f \<Rightarrow>
    ('p, 'f) LayoutChild list \<Rightarrow> nat \<times> 'f"
where
  "docked_min_main_axis_px A detached axis divider_px (Leaf pane) =
     (if detached pane then f_lit A 0 else f_lit A MIN_PANE_SIZE)"
| "docked_min_main_axis_px A detached axis divider_px (Container direction children drag container_size) =
     (let (count, minimum) = docked_min_loop A detached axis divider_px direction (0, f_lit A 0) children
      in if direction = axis then f_add A minimum (f_mul A divider_px (f_of_nat A (count - 1))) else minimum)"
| "docked_min_loop A detached axis divider_px direction (count, minimum) [] = (count, minimum)"
| "docked_min_loop A detached axis divider_px direction (count, minimum) (LayoutChild node ratio # children) =
     (let child_minimum = docked_min_main_axis_px A detached axis divider_px node
      in docked_min_loop A detached axis divider_px direction
           (if f_le A child_minimum (f_lit A 0) \<and> f_le A (f_lit A 0) child_minimum then (count, minimum)
            else (count + 1, if direction = axis then f_add A minimum child_minimum else f_max A minimum child_minimum))
           children)"

section \<open>Queries\<close>

fun collect_leaves :: "('p, 'f) LayoutTree \<Rightarrow> 'p list" where
  "collect_leaves (Leaf pane) = [pane]"
| "collect_leaves (Container direction children drag container_size) =
     concat (map (\<lambda>c. collect_leaves (lc_node c)) children)"

fun leaf_count :: "('p, 'f) LayoutTree \<Rightarrow> nat" where
  "leaf_count (Leaf pane) = 1"
| "leaf_count (Container direction children drag container_size) = sum_list (map (\<lambda>c. leaf_count (lc_node c)) children)"

text \<open>\<open>any_leaf\<close> with a predicate that keeps no state: the search stops at the first leaf that satisfies it.\<close>

fun any_leaf :: "('p \<Rightarrow> bool) \<Rightarrow> ('p, 'f) LayoutTree \<Rightarrow> bool"
and any_leaf_children :: "('p \<Rightarrow> bool) \<Rightarrow> ('p, 'f) LayoutChild list \<Rightarrow> bool"
where
  "any_leaf pred (Leaf pane) = pred pane"
| "any_leaf pred (Container direction children drag container_size) = any_leaf_children pred children"
| "any_leaf_children pred [] = False"
| "any_leaf_children pred (LayoutChild node ratio # children) =
     (if any_leaf pred node then True else any_leaf_children pred children)"

definition contains_leaf :: "('p, 'f) LayoutTree \<Rightarrow> 'p \<Rightarrow> bool" where
  "contains_leaf t pane = any_leaf (\<lambda>p. p = pane) t"

definition has_docked_panes :: "('p \<Rightarrow> bool) \<Rightarrow> ('p, 'f) LayoutTree \<Rightarrow> bool" where
  "has_docked_panes detached t = any_leaf (\<lambda>p. \<not> detached p) t"

fun focused_pane :: "('p \<Rightarrow> bool) \<Rightarrow> ('p \<Rightarrow> bool) \<Rightarrow> ('p, 'f) LayoutTree \<Rightarrow> 'p option"
and focused_child :: "('p \<Rightarrow> bool) \<Rightarrow> ('p \<Rightarrow> bool) \<Rightarrow> ('p, 'f) LayoutChild list \<Rightarrow> 'p option"
where
  "focused_pane focused detached (Leaf pane) = (if \<not> detached pane \<and> focused pane then Some pane else None)"
| "focused_pane focused detached (Container direction children drag container_size) = focused_child focused detached children"
| "focused_child focused detached [] = None"
| "focused_child focused detached (LayoutChild node ratio # children) =
     (case focused_pane focused detached node of Some pane \<Rightarrow> Some pane | None \<Rightarrow> focused_child focused detached children)"

fun cancel_resize :: "('p, 'f) LayoutTree \<Rightarrow> ('p, 'f) LayoutTree" where
  "cancel_resize (Leaf pane) = Leaf pane"
| "cancel_resize (Container direction children drag container_size) =
     Container direction (map (\<lambda>c. LayoutChild (cancel_resize (lc_node c)) (lc_ratio c)) children) None container_size"

fun equalize_ratios :: "'f arith \<Rightarrow> ('p, 'f) LayoutTree \<Rightarrow> ('p, 'f) LayoutTree"
and equalize_children :: "'f arith \<Rightarrow> nat \<Rightarrow> nat \<Rightarrow> ('p, 'f) LayoutChild list \<Rightarrow> ('p, 'f) LayoutChild list"
where
  "equalize_ratios A (Leaf pane) = Leaf pane"
| "equalize_ratios A (Container direction children drag container_size) =
     Container direction (equalize_children A (length children) 0 children) drag container_size"
| "equalize_children A n i [] = []"
| "equalize_children A n i (LayoutChild node ratio # children) =
     (let equal = f_div A (f_lit A 1) (f_of_nat A n)
      in LayoutChild (equalize_ratios A node)
           (if i = n - 1 then f_sub A (f_lit A 1) (f_mul A equal (f_of_nat A (n - 1))) else equal)
         # equalize_children A n (Suc i) children)"

fun first_leaf :: "('p, 'f) LayoutTree \<Rightarrow> 'p option" where
  "first_leaf (Leaf pane) = Some pane"
| "first_leaf (Container direction [] drag container_size) = None"
| "first_leaf (Container direction (LayoutChild node ratio # children) drag container_size) = first_leaf node"

text \<open>The loop reaches the last child of a container.\<close>

fun last_leaf :: "('p, 'f) LayoutTree \<Rightarrow> 'p option"
and last_leaf_children :: "('p, 'f) LayoutChild list \<Rightarrow> 'p option"
where
  "last_leaf (Leaf pane) = Some pane"
| "last_leaf (Container direction children drag container_size) = last_leaf_children children"
| "last_leaf_children [] = None"
| "last_leaf_children [LayoutChild node ratio] = last_leaf node"
| "last_leaf_children (c # c' # children) = last_leaf_children (c' # children)"

datatype DimPolicy = ClearAll | DimAllExcept nat | KeepDim

definition dim_policy :: "nat \<Rightarrow> nat option \<Rightarrow> DimPolicy" where
  "dim_policy count focused =
     (if count < 2 then ClearAll else case focused of Some idx \<Rightarrow> DimAllExcept idx | None \<Rightarrow> KeepDim)"

section \<open>Splitting and swapping\<close>

text \<open>
  \<open>split_at_focused\<close> and \<open>split_at_pane\<close> differ in the test of a leaf only; \<open>split_at\<close> is their common body.
\<close>

fun leaf_index :: "('p \<Rightarrow> bool) \<Rightarrow> ('p, 'f) LayoutChild list \<Rightarrow> nat option" where
  "leaf_index hit [] = None"
| "leaf_index hit (LayoutChild node ratio # children) =
     (case node of
        Leaf pane \<Rightarrow> if hit pane then Some 0 else map_option Suc (leaf_index hit children)
      | _ \<Rightarrow> map_option Suc (leaf_index hit children))"

fun split_at :: "'f arith \<Rightarrow> ('p \<Rightarrow> bool) \<Rightarrow> SplitDirection \<Rightarrow> 'p \<Rightarrow> ('p, 'f) LayoutTree \<Rightarrow> bool \<times> ('p, 'f) LayoutTree"
and split_at_children :: "'f arith \<Rightarrow> ('p \<Rightarrow> bool) \<Rightarrow> SplitDirection \<Rightarrow> 'p \<Rightarrow> ('p, 'f) LayoutChild list \<Rightarrow>
    bool \<times> ('p, 'f) LayoutChild list"
where
  "split_at A hit direction new_pane (Leaf pane) =
     (if hit pane then (True, new_split A direction (Leaf pane) (Leaf new_pane)) else (False, Leaf pane))"
| "split_at A hit direction new_pane (Container dir children drag container_size) =
     (case (if dir = direction then leaf_index hit children else None) of
        Some i \<Rightarrow> (True, Container dir (insert_sibling A children i new_pane) drag container_size)
      | None \<Rightarrow>
          let (done, children) = split_at_children A hit direction new_pane children
          in (done, Container dir children drag container_size))"
| "split_at_children A hit direction new_pane [] = (False, [])"
| "split_at_children A hit direction new_pane (LayoutChild node ratio # children) =
     (let (done, node) = split_at A hit direction new_pane node
      in if done then (True, LayoutChild node ratio # children)
         else let (done, children) = split_at_children A hit direction new_pane children
           in (done, LayoutChild node ratio # children))"

definition split_at_focused ::
  "'f arith \<Rightarrow> ('p \<Rightarrow> bool) \<Rightarrow> ('p, 'f) LayoutTree \<Rightarrow> SplitDirection \<Rightarrow> 'p \<Rightarrow> bool \<times> ('p, 'f) LayoutTree" where
  "split_at_focused A focused t direction new_pane = split_at A focused direction new_pane t"

definition split_at_pane ::
  "'f arith \<Rightarrow> ('p, 'f) LayoutTree \<Rightarrow> 'p \<Rightarrow> SplitDirection \<Rightarrow> 'p \<Rightarrow> bool \<times> ('p, 'f) LayoutTree" where
  "split_at_pane A t target direction new_pane = split_at A (\<lambda>pane. pane = target) direction new_pane t"

fun split_first_leaf :: "'f arith \<Rightarrow> SplitDirection \<Rightarrow> 'p \<Rightarrow> ('p, 'f) LayoutTree \<Rightarrow> ('p, 'f) LayoutTree" where
  "split_first_leaf A direction new_pane (Leaf pane) = new_split A direction (Leaf pane) (Leaf new_pane)"
| "split_first_leaf A direction new_pane (Container dir [] drag container_size) = Container dir [] drag container_size"
| "split_first_leaf A direction new_pane (Container dir (LayoutChild node ratio # children) drag container_size) =
     (if dir = direction \<and> (case node of Leaf _ \<Rightarrow> True | _ \<Rightarrow> False)
      then Container dir (insert_sibling A (LayoutChild node ratio # children) 0 new_pane) drag container_size
      else Container dir (LayoutChild (split_first_leaf A direction new_pane node) ratio # children) drag container_size)"

fun swap_panes_unchecked :: "'p \<Rightarrow> 'p \<Rightarrow> ('p, 'f) LayoutTree \<Rightarrow> ('p, 'f) LayoutTree" where
  "swap_panes_unchecked a b (Leaf pane) = Leaf (if pane = a then b else if pane = b then a else pane)"
| "swap_panes_unchecked a b (Container direction children drag container_size) =
     Container direction (map (\<lambda>c. LayoutChild (swap_panes_unchecked a b (lc_node c)) (lc_ratio c)) children)
       drag container_size"

definition swap_panes :: "('p, 'f) LayoutTree \<Rightarrow> 'p \<Rightarrow> 'p \<Rightarrow> bool \<times> ('p, 'f) LayoutTree" where
  "swap_panes t a b =
     (if a = b \<or> \<not> contains_leaf t a \<or> \<not> contains_leaf t b then (False, t)
      else (True, swap_panes_unchecked a b t))"

section \<open>Closing\<close>

record ('p, 'f) close_state =
  cl_new_children :: "('p, 'f) LayoutChild list"
  cl_closed :: bool
  cl_closed_idx :: "nat option"
  cl_removed_ratio :: 'f
  cl_focus_neighbor :: "'p option"

definition cl_push :: "('p, 'f) close_state \<Rightarrow> ('p, 'f) LayoutChild \<Rightarrow> ('p, 'f) close_state" where
  "cl_push st c = st\<lparr>cl_new_children := cl_new_children st @ [c]\<rparr>"

definition close_rest :: "'f arith \<Rightarrow> ('p, 'f) LayoutChild list \<Rightarrow> 'f \<Rightarrow> ('p, 'f) LayoutChild list" where
  "close_rest A new_children removed_ratio =
     (if f_lt A (f_lit A 0) removed_ratio then redistribute_equal A new_children removed_ratio
      else normalize_ratios A new_children)"

definition close_neighbor :: "('p, 'f) close_state \<Rightarrow> 'p option" where
  "close_neighbor st =
     (case (cl_focus_neighbor st, cl_closed_idx st) of
        (None, Some idx) \<Rightarrow>
          if idx > 0 then
            (if idx - 1 < length (cl_new_children st) then last_leaf (lc_node (cl_new_children st ! (idx - 1))) else None)
          else (case cl_new_children st of [] \<Rightarrow> None | c # _ \<Rightarrow> first_leaf (lc_node c))
      | (neighbor, _) \<Rightarrow> neighbor)"

text \<open>The outer \<open>None\<close> is the panic of a child that vanished without having been closed.\<close>

fun close_focused :: "'f arith \<Rightarrow> ('p \<Rightarrow> bool) \<Rightarrow> ('p, 'f) LayoutTree \<Rightarrow>
    (('p, 'f) LayoutTree option \<times> bool \<times> 'p option) option"
and close_loop :: "'f arith \<Rightarrow> ('p \<Rightarrow> bool) \<Rightarrow> nat \<Rightarrow> ('p, 'f) close_state \<Rightarrow> ('p, 'f) LayoutChild list \<Rightarrow>
    ('p, 'f) close_state option"
where
  "close_focused A focused (Leaf pane) =
     Some (if focused pane then (None, True, None) else (Some (Leaf pane), False, None))"
| "close_focused A focused (Container direction children drag container_size) =
     (case close_loop A focused 0 \<lparr>cl_new_children = [], cl_closed = False, cl_closed_idx = None,
             cl_removed_ratio = f_lit A 0, cl_focus_neighbor = None\<rparr> children of
        None \<Rightarrow> None
      | Some st \<Rightarrow>
          Some (if \<not> cl_closed st then (Some (Container direction (cl_new_children st) drag container_size), False, None)
            else case cl_new_children st of
                [] \<Rightarrow> (None, True, None)
              | [c] \<Rightarrow> (Some (lc_node c), True, close_neighbor st)
              | _ \<Rightarrow> (Some (Container direction (close_rest A (cl_new_children st) (cl_removed_ratio st)) None container_size),
                  True, close_neighbor st)))"
| "close_loop A focused i st [] = Some st"
| "close_loop A focused i st (LayoutChild node ratio # children) =
     (if cl_closed st then close_loop A focused (Suc i) (cl_push st (LayoutChild node ratio)) children
      else case close_focused A focused node of
          None \<Rightarrow> None
        | Some (new_node, was_closed, nested_focus) \<Rightarrow>
            if was_closed then
              let st = st\<lparr>cl_closed := True, cl_closed_idx := Some i, cl_focus_neighbor := nested_focus\<rparr>
              in close_loop A focused (Suc i)
                   (case new_node of Some node \<Rightarrow> cl_push st (LayoutChild node ratio)
                    | None \<Rightarrow> st\<lparr>cl_removed_ratio := ratio\<rparr>) children
            else (case new_node of None \<Rightarrow> None
              | Some node \<Rightarrow> close_loop A focused (Suc i) (cl_push st (LayoutChild node ratio)) children))"

fun remove_pane :: "'f arith \<Rightarrow> 'p \<Rightarrow> ('p, 'f) LayoutTree \<Rightarrow> ('p, 'f) LayoutTree option \<times> bool"
and remove_loop :: "'f arith \<Rightarrow> 'p \<Rightarrow> ('p, 'f) LayoutChild list \<times> 'f \<times> bool \<Rightarrow> ('p, 'f) LayoutChild list \<Rightarrow>
    ('p, 'f) LayoutChild list \<times> 'f \<times> bool"
where
  "remove_pane A target (Leaf pane) = (if pane = target then (None, True) else (Some (Leaf pane), False))"
| "remove_pane A target (Container direction children drag container_size) =
     (let (new_children, removed_ratio, removed) = remove_loop A target ([], f_lit A 0, False) children
      in if \<not> removed then (Some (Container direction new_children drag container_size), False)
         else (case new_children of
             [] \<Rightarrow> None
           | [c] \<Rightarrow> Some (lc_node c)
           | _ \<Rightarrow> Some (Container direction (close_rest A new_children removed_ratio) None container_size), True))"
| "remove_loop A target (new_children, removed_ratio, removed) [] = (new_children, removed_ratio, removed)"
| "remove_loop A target (new_children, removed_ratio, removed) (LayoutChild node ratio # children) =
     (let (new_node, child_removed) = remove_pane A target node; removed = (removed \<or> child_removed)
      in case new_node of
           Some node \<Rightarrow> remove_loop A target (new_children @ [LayoutChild node ratio], removed_ratio, removed) children
         | None \<Rightarrow> remove_loop A target (new_children, f_add A removed_ratio ratio, removed) children)"

section \<open>Presets\<close>

definition from_panes_equal :: "'f arith \<Rightarrow> SplitDirection \<Rightarrow> 'p list \<Rightarrow> ('p, 'f) LayoutTree option" where
  "from_panes_equal A direction panes = (case panes of
     [] \<Rightarrow> None
   | [pane] \<Rightarrow> Some (Leaf pane)
   | _ \<Rightarrow>
       let ratio = f_div A (f_lit A 1) (f_of_nat A (length panes))
       in Some (Container direction (map (\<lambda>pane. LayoutChild (Leaf pane) ratio) panes) None (f_lit A 0)))"

text \<open>The outer \<open>None\<close> is a panic, the inner one an empty layout.\<close>

definition main_vertical :: "'f arith \<Rightarrow> 'p \<Rightarrow> 'p list \<Rightarrow> ('p, 'f) LayoutTree option option" where
  "main_vertical A main_pane others =
     (if others = [] then Some (Some (Leaf main_pane))
      else do {
        right \<leftarrow> from_panes_equal A Horizontal others;
        Some (Some (Container Vertical
          [LayoutChild (Leaf main_pane) (f_lit A (1 / 2)), LayoutChild right (f_lit A (1 / 2))] None (f_lit A 0)))
      })"

function tiled_dims :: "nat \<Rightarrow> nat \<Rightarrow> nat \<Rightarrow> nat \<times> nat" where
  "tiled_dims n rows cols =
     (if rows * cols < n then (if cols \<le> rows then tiled_dims n rows (cols + 1) else tiled_dims n (rows + 1) cols)
      else (rows, cols))"
  by auto
termination
proof (relation "measure (\<lambda>(n, rows, cols). (n - rows) + (n - cols))", goal_cases)
  case (2 n rows cols)
  then have "cols < n" by (metis le_trans linorder_not_less mult_le_mono mult_1 le_less_trans not_less_zero less_one)
  then show ?case by simp
next
  case (3 n rows cols)
  then have "rows < n" by (metis linorder_not_less mult.commute mult_le_mono mult_1 nat_le_linear not_less_zero less_one le_trans)
  then show ?case by simp
qed simp

declare tiled_dims.simps [simp del]

definition tiled_row :: "'f arith \<Rightarrow> nat \<Rightarrow> nat \<Rightarrow> nat \<Rightarrow> 'f \<Rightarrow> ('p, 'f) LayoutChild list \<times> 'p list \<Rightarrow> nat \<Rightarrow>
    (('p, 'f) LayoutChild list \<times> 'p list) option" where
  "tiled_row A n rows cols row_ratio = (\<lambda>(row_children, panes) r. do {
     last_row \<leftarrow> usub rows 1;
     panes_in_row \<leftarrow> (if r < last_row then Some cols else usub n (cols * last_row));
     row_tree \<leftarrow> from_panes_equal A Vertical (take panes_in_row panes);
     Some (row_children @ [LayoutChild row_tree row_ratio], drop panes_in_row panes)
   })"

definition tiled :: "'f arith \<Rightarrow> 'p list \<Rightarrow> ('p, 'f) LayoutTree option option" where
  "tiled A panes = (case panes of
     [] \<Rightarrow> Some None
   | [pane] \<Rightarrow> Some (Some (Leaf pane))
   | _ \<Rightarrow>
       let n = length panes; (rows, cols) = tiled_dims n 1 1
       in if rows = 1 then Some (from_panes_equal A Vertical panes)
          else do {
            let row_ratio = f_div A (f_lit A 1) (f_of_nat A rows);
            (row_children, _) \<leftarrow> for_each (tiled_row A n rows cols row_ratio) ([], panes) [0..<rows];
            Some (Some (Container Horizontal row_children None (f_lit A 0)))
          })"

section \<open>Well-formed layouts\<close>

fun wf_layout :: "('p, 'f) LayoutTree \<Rightarrow> bool" where
  "wf_layout (Leaf pane) \<longleftrightarrow> True"
| "wf_layout (Container direction children drag container_size) \<longleftrightarrow>
     length children \<ge> 2 \<and> (\<forall>c\<in>set children. wf_layout (lc_node c))"

abbreviation child_leaves :: "('p, 'f) LayoutChild list \<Rightarrow> 'p list" where
  "child_leaves children \<equiv> concat (map (\<lambda>c. collect_leaves (lc_node c)) children)"

lemma with_ratio_sel [simp]: "lc_node (with_ratio c r) = lc_node c" "lc_ratio (with_ratio c r) = r"
  by (simp_all add: with_ratio_def)

lemma wf_layout_leaves: "wf_layout t \<Longrightarrow> collect_leaves t \<noteq> []"
proof (induction t rule: wf_layout.induct)
  case (2 direction children drag container_size)
  then obtain c cs where "children = c # cs" by (cases children) auto
  with 2 show ?case by auto
qed simp

lemma any_leaf_iff:
  fixes t :: "('p, 'f) LayoutTree" and cs :: "('p, 'f) LayoutChild list"
  shows "any_leaf pred t \<longleftrightarrow> (\<exists>p\<in>set (collect_leaves t). pred p)"
  "any_leaf_children pred cs \<longleftrightarrow> (\<exists>p\<in>set (child_leaves cs). pred p)"
  by (induction pred t and pred cs rule: any_leaf_any_leaf_children.induct) auto

lemma contains_leaf_iff: "contains_leaf t p \<longleftrightarrow> p \<in> set (collect_leaves t)"
  by (auto simp: contains_leaf_def any_leaf_iff)

lemma leaf_count_leaves: "leaf_count t = length (collect_leaves t)"
  by (induction t rule: leaf_count.induct) (simp_all add: length_concat comp_def cong: map_cong)

lemma first_leaf_hd: "wf_layout t \<Longrightarrow> first_leaf t = Some (hd (collect_leaves t))"
  by (induction t rule: first_leaf.induct) (auto simp: wf_layout_leaves)

lemma last_leaf_last:
  fixes t :: "('p, 'f) LayoutTree" and cs :: "('p, 'f) LayoutChild list"
  shows "wf_layout t \<Longrightarrow> last_leaf t = Some (last (collect_leaves t))"
  "(\<forall>c\<in>set cs. wf_layout (lc_node c)) \<Longrightarrow> cs \<noteq> [] \<Longrightarrow> last_leaf_children cs = Some (last (child_leaves cs))"
proof (induction t and cs rule: last_leaf_last_leaf_children.induct)
  case (2 direction children drag container_size)
  then show ?case by (cases children) auto
next
  case (5 c c' children)
  then have "child_leaves (c' # children) \<noteq> []" using wf_layout_leaves by auto
  with 5 show ?case by auto
qed (auto simp: wf_layout_leaves)

lemma child_leaves_with_ratio [simp]: "child_leaves (map (\<lambda>c. with_ratio c (f c)) cs) = child_leaves cs"
  by (simp add: comp_def)

lemma close_rest_nodes: "map lc_node (close_rest A cs r) = map lc_node cs"
  by (auto simp: close_rest_def redistribute_equal_def normalize_ratios_def Let_def)

lemma child_leaves_nodes: "map lc_node cs = map lc_node cs' \<Longrightarrow> child_leaves cs = child_leaves cs'"
  by (metis (no_types, lifting) list.map_comp comp_apply map_eq_conv map_map)

section \<open>Splitting\<close>

lemma leaf_index_Some:
  "leaf_index hit cs = Some i \<Longrightarrow> \<exists>xs p r ys. cs = xs @ LayoutChild (Leaf p) r # ys \<and> length xs = i \<and> hit p"
proof (induction hit cs arbitrary: i rule: leaf_index.induct)
  case (2 hit node r cs)
  have step: "\<exists>xs p r' ys. LayoutChild node r # cs = xs @ LayoutChild (Leaf p) r' # ys \<and> length xs = i \<and> hit p"
    if "map_option Suc (leaf_index hit cs) = Some i" "\<And>i. leaf_index hit cs = Some i \<Longrightarrow>
      \<exists>xs p r ys. cs = xs @ LayoutChild (Leaf p) r # ys \<and> length xs = i \<and> hit p"
  proof -
    from that obtain j xs p r' ys where "i = Suc j" "cs = xs @ LayoutChild (Leaf p) r' # ys" "length xs = j" "hit p" by blast
    then show ?thesis by (intro exI [of _ "LayoutChild node r # xs"] exI [of _ p] exI [of _ r'] exI [of _ ys]) simp
  qed
  show ?case
  proof (cases node)
    case (Leaf p)
    show ?thesis
    proof (cases "hit p")
      case True
      with 2 Leaf show ?thesis by (intro exI [of _ "[]"]) auto
    next
      case False
      with 2 Leaf show ?thesis by (intro step) auto
    qed
  next
    case (Container d cs' dr sz)
    with 2 show ?thesis by (intro step) auto
  qed
qed simp

text \<open>A list with one element more, right after another.\<close>

definition inserted_after :: "('a \<Rightarrow> bool) \<Rightarrow> 'a \<Rightarrow> 'a list \<Rightarrow> 'a list \<Rightarrow> bool" where
  "inserted_after hit new xs ys \<longleftrightarrow> (\<exists>us p vs. xs = us @ p # vs \<and> hit p \<and> ys = us @ p # new # vs)"

lemma inserted_after_embed: "inserted_after hit new xs ys \<Longrightarrow> inserted_after hit new (us @ xs @ vs) (us @ ys @ vs)"
  unfolding inserted_after_def by (metis append.assoc append_Cons)

lemma insert_sibling_split:
  "insert_sibling A (xs @ c # ys) (length xs) new =
     (let half = (if f_is_finite A (lc_ratio c) then f_div A (lc_ratio c) (f_lit A 2) else f_lit A (1 / 2))
      in xs @ with_ratio c half # LayoutChild (Leaf new) half # ys)"
  by (simp add: insert_sibling_def Let_def)

lemma split_at_spec:
  fixes t :: "('p, 'f) LayoutTree" and cs :: "('p, 'f) LayoutChild list"
  shows "case split_at A hit direction new t of (done, t') \<Rightarrow>
     (if done then inserted_after hit new (collect_leaves t) (collect_leaves t') \<and> (wf_layout t \<longrightarrow> wf_layout t')
      else t' = t \<and> (\<forall>p\<in>set (collect_leaves t). \<not> hit p))"
  "case split_at_children A hit direction new cs of (done, cs') \<Rightarrow>
     (if done then inserted_after hit new (child_leaves cs) (child_leaves cs') \<and> length cs' = length cs \<and>
        ((\<forall>c\<in>set cs. wf_layout (lc_node c)) \<longrightarrow> (\<forall>c\<in>set cs'. wf_layout (lc_node c)))
      else cs' = cs \<and> (\<forall>p\<in>set (child_leaves cs). \<not> hit p))"
proof (induction A hit direction new t and A hit direction new cs rule: split_at_split_at_children.induct)
  case (1 A hit direction new p)
  have "inserted_after hit new [p] [p, new] \<longleftrightarrow> hit p"
    by (auto simp: inserted_after_def Cons_eq_append_conv intro!: exI [of _ "[]"])
  then show ?case by (simp add: new_split_def)
next
  case (2 A hit direction new dir cs drag sz)
  show ?case
  proof (cases "if dir = direction then leaf_index hit cs else None")
    case None
    with 2 [OF None] show ?thesis by (auto split: prod.splits if_splits)
  next
    case (Some i)
    then obtain xs p r ys where cs: "cs = xs @ LayoutChild (Leaf p) r # ys" "length xs = i" "hit p"
      using leaf_index_Some [of hit cs i] by (auto split: if_splits)
    then have "inserted_after hit new (child_leaves cs) (child_leaves (insert_sibling A cs i new))"
      unfolding inserted_after_def
      by (intro exI [of _ "child_leaves xs"] exI [of _ p] exI [of _ "child_leaves ys"])
        (auto simp: insert_sibling_split Let_def)
    moreover have "wf_layout (Container dir cs drag sz) \<longrightarrow> wf_layout (Container dir (insert_sibling A cs i new) drag sz)"
      using cs by (auto simp: insert_sibling_split Let_def)
    ultimately show ?thesis using Some by simp
  qed
next
  case (3 A hit direction new)
  then show ?case by simp
next
  case (4 A hit direction new node r cs)
  obtain d node' where node: "split_at A hit direction new node = (d, node')" by fastforce
  show ?case
  proof (cases d)
    case True
    with 4(1) node show ?thesis
      using inserted_after_embed [of hit new "collect_leaves node" "collect_leaves node'" "[]" "child_leaves cs"] by simp
  next
    case False
    obtain e cs' where cs: "split_at_children A hit direction new cs = (e, cs')" by fastforce
    have ih: "if e then inserted_after hit new (child_leaves cs) (child_leaves cs') \<and> length cs' = length cs \<and>
        ((\<forall>c\<in>set cs. wf_layout (lc_node c)) \<longrightarrow> (\<forall>c\<in>set cs'. wf_layout (lc_node c)))
      else cs' = cs \<and> (\<forall>p\<in>set (child_leaves cs). \<not> hit p)"
      using 4(2) [of "(d, node')" d node'] node cs False by simp
    have same: "node' = node" "\<forall>p\<in>set (collect_leaves node). \<not> hit p" using 4(1) node False by simp_all
    show ?thesis
    proof (cases e)
      case True
      with ih same False node cs show ?thesis
        using inserted_after_embed [of hit new "child_leaves cs" "child_leaves cs'" "collect_leaves node" "[]"] by simp
    next
      case 2: False
      with ih same False node cs show ?thesis by (simp add: ball_Un)
    qed
  qed
qed

section \<open>Removing\<close>

text \<open>What is left of the children, and the ratio of those that are gone.\<close>

definition kept_nodes :: "'f arith \<Rightarrow> 'p \<Rightarrow> ('p, 'f) LayoutChild list \<Rightarrow> ('p, 'f) LayoutChild list" where
  "kept_nodes A target cs = concat (map (\<lambda>c. case fst (remove_pane A target (lc_node c)) of
     None \<Rightarrow> [] | Some node \<Rightarrow> [LayoutChild node (lc_ratio c)]) cs)"

definition lost_ratios :: "'f arith \<Rightarrow> 'p \<Rightarrow> ('p, 'f) LayoutChild list \<Rightarrow> 'f list" where
  "lost_ratios A target cs =
     map lc_ratio (filter (\<lambda>c. fst (remove_pane A target (lc_node c)) = None) cs)"

lemma remove_loop_eq:
  "remove_loop A target (new, ratio, removed) cs =
     (new @ kept_nodes A target cs, foldl (f_add A) ratio (lost_ratios A target cs),
      removed \<or> (\<exists>c\<in>set cs. snd (remove_pane A target (lc_node c))))"
proof (induction cs arbitrary: new ratio removed)
  case (Cons c cs)
  show ?case
    by (cases c; cases "remove_pane A target (lc_node c)"; cases "fst (remove_pane A target (lc_node c))")
      (simp_all add: Cons kept_nodes_def lost_ratios_def)
qed (simp add: kept_nodes_def lost_ratios_def)

lemma remove_pane_spec:
  assumes "wf_layout t"
  shows "case remove_pane A target t of (t', removed) \<Rightarrow>
    (removed \<longleftrightarrow> target \<in> set (collect_leaves t)) \<and> (\<not> removed \<longrightarrow> t' = Some t) \<and>
    (case t' of None \<Rightarrow> filter (\<lambda>p. p \<noteq> target) (collect_leaves t) = []
     | Some u \<Rightarrow> wf_layout u \<and> collect_leaves u = filter (\<lambda>p. p \<noteq> target) (collect_leaves t))"
  using assms
proof (induction t rule: wf_layout.induct)
  case (2 direction cs drag sz)
  let ?r = "\<lambda>c. remove_pane A target (lc_node c)"
  have ih: "(snd (?r c) \<longleftrightarrow> target \<in> set (collect_leaves (lc_node c))) \<and> (\<not> snd (?r c) \<longrightarrow> fst (?r c) = Some (lc_node c)) \<and>
      (case fst (?r c) of None \<Rightarrow> filter (\<lambda>p. p \<noteq> target) (collect_leaves (lc_node c)) = []
       | Some u \<Rightarrow> wf_layout u \<and> collect_leaves u = filter (\<lambda>p. p \<noteq> target) (collect_leaves (lc_node c)))"
    if "c \<in> set cs" for c
    using 2 that by (cases "?r c") fastforce
  have leaves: "child_leaves (kept_nodes A target cs) = filter (\<lambda>p. p \<noteq> target) (child_leaves cs)"
  proof -
    have "child_leaves (case fst (?r c) of None \<Rightarrow> [] | Some node \<Rightarrow> [LayoutChild node (lc_ratio c)]) =
        filter (\<lambda>p. p \<noteq> target) (collect_leaves (lc_node c))" if "c \<in> set cs" for c
      using ih [OF that] by (cases "fst (?r c)") simp_all
    then show ?thesis by (induction cs) (simp_all add: kept_nodes_def)
  qed
  have wf: "\<forall>c\<in>set (kept_nodes A target cs). wf_layout (lc_node c)"
    using ih by (fastforce simp: kept_nodes_def split: option.splits)
  have removed: "(\<exists>c\<in>set cs. snd (?r c)) \<longleftrightarrow> target \<in> set (child_leaves cs)" using ih by auto
  have same: "kept_nodes A target cs = cs" if "\<not> (\<exists>c\<in>set cs. snd (?r c))"
    using ih that by (induction cs) (auto simp: kept_nodes_def)
  show ?case
  proof (cases "\<exists>c\<in>set cs. snd (?r c)")
    case False
    with removed same leaves wf 2 show ?thesis by (simp add: remove_loop_eq)
  next
    case True
    consider "kept_nodes A target cs = []" | c where "kept_nodes A target cs = [c]" | c d ds where "kept_nodes A target cs = c # d # ds"
      by (metis list.exhaust)
    then show ?thesis
    proof cases
      case 1
      with True removed leaves show ?thesis by (simp add: remove_loop_eq)
    next
      case 2
      with True removed leaves wf show ?thesis by (simp add: remove_loop_eq)
    next
      case 3
      let ?rest = "close_rest A (kept_nodes A target cs) (foldl (f_add A) (f_lit A 0) (lost_ratios A target cs))"
      have nodes: "map lc_node ?rest = map lc_node (kept_nodes A target cs)" by (rule close_rest_nodes)
      then have "length ?rest \<ge> 2" using 3 by (metis (no_types) length_Cons length_map One_nat_def Suc_1 Suc_le_mono le0)
      moreover have "\<forall>c\<in>set ?rest. wf_layout (lc_node c)"
        using wf nodes by (metis (no_types, lifting) image_iff list.set_map)
      ultimately show ?thesis
        using True removed leaves child_leaves_nodes [OF nodes] 3 by (simp add: remove_loop_eq)
    qed
  qed
qed simp

lemma remove_pane_absent: "wf_layout t \<Longrightarrow> p \<notin> set (collect_leaves t) \<Longrightarrow> remove_pane A p t = (Some t, False)"
  using remove_pane_spec [where t = t and A = A and target = p] by (auto split: prod.splits)

section \<open>Removing what was split off\<close>

text \<open>The shape of a layout: its panes, containers and directions, without ratios, drags and sizes.\<close>

fun layout_shape :: "('p, 'f) LayoutTree \<Rightarrow> ('p, unit) LayoutTree" where
  "layout_shape (Leaf pane) = Leaf pane"
| "layout_shape (Container direction children drag container_size) =
     Container direction (map (\<lambda>c. LayoutChild (layout_shape (lc_node c)) ()) children) None ()"

abbreviation child_shapes :: "('p, 'f) LayoutChild list \<Rightarrow> ('p, unit) LayoutTree list" where
  "child_shapes children \<equiv> map (\<lambda>c. layout_shape (lc_node c)) children"

lemma layout_shape_children:
  "child_shapes cs = child_shapes cs' \<Longrightarrow> layout_shape (Container d cs dr sz) = layout_shape (Container d cs' dr' sz')"
proof -
  assume "child_shapes cs = child_shapes cs'"
  then have "map (\<lambda>t. LayoutChild t ()) (child_shapes cs) = map (\<lambda>t. LayoutChild t ()) (child_shapes cs')" by simp
  then show ?thesis by (simp add: comp_def)
qed

lemma child_shapes_nodes: "map lc_node cs = map lc_node cs' \<Longrightarrow> child_shapes cs = child_shapes cs'"
  by (metis (no_types, lifting) list.map_comp comp_apply map_eq_conv)

lemma kept_simps [simp]:
  "kept_nodes A p [] = []" "kept_nodes A p (xs @ ys) = kept_nodes A p xs @ kept_nodes A p ys"
  "kept_nodes A p (LayoutChild (Leaf q) r # cs) = (if q = p then [] else [LayoutChild (Leaf q) r]) @ kept_nodes A p cs"
  by (simp_all add: kept_nodes_def)

lemma kept_absent:
  "\<forall>c\<in>set cs. wf_layout (lc_node c) \<Longrightarrow> p \<notin> set (child_leaves cs) \<Longrightarrow> kept_nodes A p cs = cs"
  by (induction cs) (auto simp: kept_nodes_def remove_pane_absent)

lemma remove_pane_container:
  assumes "\<exists>c\<in>set cs. snd (remove_pane A p (lc_node c))" "length (kept_nodes A p cs) \<ge> 2"
  shows "\<exists>cs'. remove_pane A p (Container d cs dr sz) = (Some (Container d cs' None sz), True) \<and>
    map lc_node cs' = map lc_node (kept_nodes A p cs)"
  using assms by (cases "kept_nodes A p cs" rule: remdups_adj.cases) (simp_all add: remove_loop_eq close_rest_nodes)

lemma unsplit:
  fixes t :: "('p, 'f) LayoutTree" and cs :: "('p, 'f) LayoutChild list"
  shows "wf_layout t \<Longrightarrow> new \<notin> set (collect_leaves t) \<Longrightarrow> fst (split_at A hit direction new t) \<Longrightarrow>
    \<exists>u. remove_pane A new (snd (split_at A hit direction new t)) = (Some u, True) \<and> layout_shape u = layout_shape t"
  and "\<forall>c\<in>set cs. wf_layout (lc_node c) \<Longrightarrow> new \<notin> set (child_leaves cs) \<Longrightarrow>
    fst (split_at_children A hit direction new cs) \<Longrightarrow>
    child_shapes (kept_nodes A new (snd (split_at_children A hit direction new cs))) = child_shapes cs \<and>
    (\<exists>c\<in>set (snd (split_at_children A hit direction new cs)). snd (remove_pane A new (lc_node c)))"
proof (induction A hit direction new t and A hit direction new cs rule: split_at_split_at_children.induct)
  case (1 A hit direction new p)
  then show ?case by (auto simp: new_split_def remove_loop_eq split: if_splits)
next
  case (2 A hit direction new dir cs drag sz)
  show ?case
  proof (cases "if dir = direction then leaf_index hit cs else None")
    case None
    obtain d cs' where cs': "split_at_children A hit direction new cs = (d, cs')" by fastforce
    from 2(1) [OF None] 2(2-) None cs' have ih: "child_shapes (kept_nodes A new cs') = child_shapes cs"
      "\<exists>c\<in>set cs'. snd (remove_pane A new (lc_node c))" by simp_all
    have "length (kept_nodes A new cs') \<ge> 2" using arg_cong [OF ih(1), of length] 2(2) by simp
    from remove_pane_container [OF ih(2) this, of dir drag sz] obtain ds where
      ds: "remove_pane A new (Container dir cs' drag sz) = (Some (Container dir ds None sz), True)"
        "map lc_node ds = map lc_node (kept_nodes A new cs')" by blast
    have "layout_shape (Container dir ds None sz) = layout_shape (Container dir cs drag sz)"
      by (rule layout_shape_children) (use ih(1) child_shapes_nodes [OF ds(2)] in simp)
    with ds(1) None cs' show ?thesis by simp
  next
    case (Some i)
    then obtain xs p r ys where cs: "cs = xs @ LayoutChild (Leaf p) r # ys" "length xs = i"
      using leaf_index_Some [of hit cs i] by (auto split: if_splits)
    let ?cs = "insert_sibling A cs i new"
    obtain half where ins: "?cs = xs @ LayoutChild (Leaf p) half # LayoutChild (Leaf new) half # ys"
      unfolding cs(1) cs(2) [symmetric] insert_sibling_split Let_def by (simp add: with_ratio_def)
    have kept_nodes: "kept_nodes A new ?cs = xs @ LayoutChild (Leaf p) half # ys"
      using 2(2,3) unfolding ins unfolding cs(1) by (auto simp: kept_absent)
    have len: "length (kept_nodes A new ?cs) \<ge> 2" using 2(2) kept_nodes cs(1) by simp
    have "\<exists>c\<in>set ?cs. snd (remove_pane A new (lc_node c))" using ins by simp
    from remove_pane_container [OF this len, of dir drag sz] obtain ds where
      ds: "remove_pane A new (Container dir ?cs drag sz) = (Some (Container dir ds None sz), True)"
        "map lc_node ds = map lc_node (kept_nodes A new ?cs)" by blast
    have "layout_shape (Container dir ds None sz) = layout_shape (Container dir cs drag sz)"
      by (rule layout_shape_children) (use child_shapes_nodes [OF ds(2)] kept_nodes cs(1) in simp)
    with ds(1) Some show ?thesis by simp
  qed
next
  case (3 A hit direction new)
  then show ?case by simp
next
  case (4 A hit direction new node r cs)
  obtain d node' where node: "split_at A hit direction new node = (d, node')" by fastforce
  show ?case
  proof (cases d)
    case True
    with 4(1,3,4) node obtain u where "remove_pane A new node' = (Some u, True)" "layout_shape u = layout_shape node" by auto
    moreover have "kept_nodes A new cs = cs" using 4(3,4) by (intro kept_absent) auto
    ultimately show ?thesis using True node by (simp add: kept_nodes_def)
  next
    case False
    have same: "node' = node" using split_at_spec(1) [where A = A and hit = hit and direction = direction and new = new and t = node] node False by simp
    have absent: "remove_pane A new node = (Some node, False)" using 4(3,4) by (intro remove_pane_absent) auto
    obtain e cs' where cs: "split_at_children A hit direction new cs = (e, cs')" by fastforce
    from 4(2) [of "(d, node')" d node'] 4(3-) node cs False same
    have "child_shapes (kept_nodes A new cs') = child_shapes cs" "\<exists>c\<in>set cs'. snd (remove_pane A new (lc_node c))" by auto
    with False node cs same absent show ?thesis by (simp add: kept_nodes_def)
  qed
qed

section \<open>Closing the focused pane\<close>

text \<open>What closing the first focused pane of a layout comes to.\<close>

definition closes :: "('p \<Rightarrow> bool) \<Rightarrow> ('p, 'f) LayoutTree \<Rightarrow> ('p, 'f) LayoutTree option \<Rightarrow> 'p option \<Rightarrow> bool" where
  "closes focused t r neighbor \<longleftrightarrow> (\<exists>xs p ys. collect_leaves t = xs @ p # ys \<and> focused p \<and> (\<forall>q\<in>set xs. \<not> focused q) \<and>
     (case r of None \<Rightarrow> xs = [] \<and> ys = [] \<and> neighbor = None
      | Some u \<Rightarrow> wf_layout u \<and> collect_leaves u = xs @ ys \<and>
          (xs \<noteq> [] \<and> neighbor = Some (last xs) \<or> ys \<noteq> [] \<and> neighbor = Some (hd ys))))"

definition closes_spec :: "('p \<Rightarrow> bool) \<Rightarrow> ('p, 'f) LayoutTree \<Rightarrow> (('p, 'f) LayoutTree option \<times> bool \<times> 'p option) option \<Rightarrow> bool" where
  "closes_spec focused t result \<longleftrightarrow> (\<exists>r closed neighbor. result = Some (r, closed, neighbor) \<and>
     (if closed then closes focused t r neighbor
      else r = Some t \<and> neighbor = None \<and> (\<forall>p\<in>set (collect_leaves t). \<not> focused p)))"

lemma close_loop_closed:
  "cl_closed st \<Longrightarrow> close_loop A focused i st cs = Some (st\<lparr>cl_new_children := cl_new_children st @ cs\<rparr>)"
proof (induction cs arbitrary: i st)
  case (Cons c cs)
  then show ?case by (cases c) (simp add: cl_push_def)
qed simp

definition loop_result :: "('p \<Rightarrow> bool) \<Rightarrow> nat \<Rightarrow> ('p, 'f) close_state \<Rightarrow> ('p, 'f) LayoutChild list \<Rightarrow> ('p, 'f) close_state \<Rightarrow> bool" where
  "loop_result focused i st cs st' \<longleftrightarrow>
     (if \<forall>p\<in>set (child_leaves cs). \<not> focused p then st' = st\<lparr>cl_new_children := cl_new_children st @ cs\<rparr>
      else \<exists>us c vs r nb. cs = us @ c # vs \<and> (\<forall>p\<in>set (child_leaves us). \<not> focused p) \<and> closes focused (lc_node c) r nb \<and>
        st' = st\<lparr>cl_new_children := cl_new_children st @ us @
                    (case r of None \<Rightarrow> [] | Some u \<Rightarrow> [LayoutChild u (lc_ratio c)]) @ vs,
                  cl_closed := True, cl_closed_idx := Some (i + length us),
                  cl_removed_ratio := (case r of None \<Rightarrow> lc_ratio c | Some _ \<Rightarrow> cl_removed_ratio st),
                  cl_focus_neighbor := nb\<rparr>)"

lemma closes_focused: "closes focused t r nb \<Longrightarrow> \<not> (\<forall>p\<in>set (collect_leaves t). \<not> focused p)"
  by (auto simp: closes_def)

lemma loop_resultI:
  assumes "\<forall>p\<in>set (child_leaves us). \<not> focused p" "closes focused (lc_node c) r nb"
    "st' = st\<lparr>cl_new_children := cl_new_children st @ us @ (case r of None \<Rightarrow> [] | Some u \<Rightarrow> [LayoutChild u (lc_ratio c)]) @ vs,
       cl_closed := True, cl_closed_idx := Some (i + length us),
       cl_removed_ratio := (case r of None \<Rightarrow> lc_ratio c | Some _ \<Rightarrow> cl_removed_ratio st), cl_focus_neighbor := nb\<rparr>"
  shows "loop_result focused i st (us @ c # vs) st'"
proof -
  have "\<not> (\<forall>p\<in>set (child_leaves (us @ c # vs)). \<not> focused p)" using closes_focused [OF assms(2)] by auto
  with assms show ?thesis unfolding loop_result_def by (simp only: if_False) blast
qed

lemma close_loop_Cons:
  assumes open_st: "\<not> cl_closed st" and node: "closes_spec focused node (close_focused A focused node)"
    and rest: "\<And>st. \<not> cl_closed st \<Longrightarrow> \<exists>st'. close_loop A focused (Suc i) st cs = Some st' \<and> loop_result focused (Suc i) st cs st'"
  shows "\<exists>st'. close_loop A focused i st (LayoutChild node ratio # cs) = Some st' \<and>
    loop_result focused i st (LayoutChild node ratio # cs) st'"
proof -
  obtain r closed nb where res: "close_focused A focused node = Some (r, closed, nb)"
    and spec: "if closed then closes focused node r nb else r = Some node \<and> nb = None \<and> (\<forall>p\<in>set (collect_leaves node). \<not> focused p)"
    using node unfolding closes_spec_def by blast
  show ?thesis
  proof (cases closed)
    case True
    with spec have cl: "closes focused node r nb" by simp
    let ?st = "st\<lparr>cl_new_children := cl_new_children st @ [] @ (case r of None \<Rightarrow> [] | Some u \<Rightarrow> [LayoutChild u ratio]) @ cs,
       cl_closed := True, cl_closed_idx := Some i,
       cl_removed_ratio := (case r of None \<Rightarrow> ratio | Some _ \<Rightarrow> cl_removed_ratio st), cl_focus_neighbor := nb\<rparr>"
    have "close_loop A focused i st (LayoutChild node ratio # cs) = Some ?st"
      using True res open_st by (cases r) (simp_all add: close_loop_closed cl_push_def)
    moreover have "loop_result focused i st ([] @ LayoutChild node ratio # cs) ?st"
      using cl by (intro loop_resultI [where r = r and nb = nb]) (simp_all split: option.splits)
    ultimately show ?thesis by simp
  next
    case False
    with spec have same: "r = Some node" "\<forall>p\<in>set (collect_leaves node). \<not> focused p" by simp_all
    from rest [of "cl_push st (LayoutChild node ratio)"] open_st obtain st' where
      st': "close_loop A focused (Suc i) (cl_push st (LayoutChild node ratio)) cs = Some st'"
        "loop_result focused (Suc i) (cl_push st (LayoutChild node ratio)) cs st'" by (auto simp: cl_push_def)
    have "loop_result focused i st (LayoutChild node ratio # cs) st'"
    proof (cases "\<forall>p\<in>set (child_leaves cs). \<not> focused p")
      case True
      with st'(2) same(2) show ?thesis by (auto simp: loop_result_def cl_push_def)
    next
      case 2: False
      obtain us c vs r' nb' where "cs = us @ c # vs" "\<forall>p\<in>set (child_leaves us). \<not> focused p"
        "closes focused (lc_node c) r' nb'" and
        eq: "st' = cl_push st (LayoutChild node ratio)\<lparr>cl_new_children := cl_new_children (cl_push st (LayoutChild node ratio)) @ us @
              (case r' of None \<Rightarrow> [] | Some u \<Rightarrow> [LayoutChild u (lc_ratio c)]) @ vs,
            cl_closed := True, cl_closed_idx := Some (Suc i + length us),
            cl_removed_ratio := (case r' of None \<Rightarrow> lc_ratio c | Some _ \<Rightarrow> cl_removed_ratio (cl_push st (LayoutChild node ratio))),
            cl_focus_neighbor := nb'\<rparr>"
        using st'(2) unfolding loop_result_def if_not_P [OF 2] by blast
      then have "loop_result focused i st ((LayoutChild node ratio # us) @ c # vs) st'"
        using same(2) by (intro loop_resultI) (auto simp: cl_push_def split: option.splits)
      with \<open>cs = us @ c # vs\<close> show ?thesis by simp
    qed
    with False res open_st same(1) st'(1) show ?thesis by simp
  qed
qed

lemma closes_container:
  assumes wf: "\<forall>c\<in>set (us @ c # vs). wf_layout (lc_node c)" and len: "length (us @ c # vs) \<ge> 2"
    and us: "\<forall>p\<in>set (child_leaves us). \<not> focused p" and c: "closes focused (lc_node c) r nb"
    and nodes: "map lc_node new = map lc_node (us @ (case r of None \<Rightarrow> [] | Some u \<Rightarrow> [LayoutChild u (lc_ratio c)]) @ vs)"
    and nb': "nb' = close_neighbor \<lparr>cl_new_children = us @ (case r of None \<Rightarrow> [] | Some u \<Rightarrow> [LayoutChild u (lc_ratio c)]) @ vs,
       cl_closed = True, cl_closed_idx = Some (length us), cl_removed_ratio = removed, cl_focus_neighbor = nb\<rparr>"
  shows "(\<exists>xs p ys. child_leaves (us @ c # vs) = xs @ p # ys \<and> focused p \<and> (\<forall>q\<in>set xs. \<not> focused q) \<and>
     (\<forall>c\<in>set new. wf_layout (lc_node c)) \<and> child_leaves new = xs @ ys \<and>
     (xs \<noteq> [] \<and> nb' = Some (last xs) \<or> ys \<noteq> [] \<and> nb' = Some (hd ys)))"
proof -
  obtain xs p ys where p: "collect_leaves (lc_node c) = xs @ p # ys" "focused p" "\<forall>q\<in>set xs. \<not> focused q"
    and r: "case r of None \<Rightarrow> xs = [] \<and> ys = [] \<and> nb = None
      | Some u \<Rightarrow> wf_layout u \<and> collect_leaves u = xs @ ys \<and> (xs \<noteq> [] \<and> nb = Some (last xs) \<or> ys \<noteq> [] \<and> nb = Some (hd ys))"
    using c unfolding closes_def by blast
  have leaves: "child_leaves new = child_leaves us @ xs @ ys @ child_leaves vs"
    using child_leaves_nodes [OF nodes] r by (cases r) simp_all
  have wf': "\<forall>c\<in>set new. wf_layout (lc_node c)"
  proof -
    have "\<forall>t\<in>set (map lc_node new). wf_layout t" unfolding nodes using wf r by (cases r) auto
    then show ?thesis by simp
  qed
  have nb: "child_leaves us @ xs \<noteq> [] \<and> nb' = Some (last (child_leaves us @ xs)) \<or>
      ys @ child_leaves vs \<noteq> [] \<and> nb' = Some (hd (ys @ child_leaves vs))"
  proof (cases r)
    case (Some u)
    with r show ?thesis unfolding nb' close_neighbor_def by (auto split: option.splits)
  next
    case None
    show ?thesis
    proof (cases "us = []")
      case True
      then obtain v vs' where vs: "vs = v # vs'" using len by (cases vs) auto
      moreover have "first_leaf (lc_node v) = Some (hd (collect_leaves (lc_node v)))" "collect_leaves (lc_node v) \<noteq> []"
        using wf vs first_leaf_hd wf_layout_leaves by auto
      ultimately show ?thesis using None True r unfolding nb' close_neighbor_def by simp
    next
      case False
      then obtain us' u where us': "us = us' @ [u]" by (cases us rule: rev_cases) auto
      moreover have "last_leaf (lc_node u) = Some (last (collect_leaves (lc_node u)))" "collect_leaves (lc_node u) \<noteq> []"
        using wf us' last_leaf_last(1) wf_layout_leaves by auto
      ultimately show ?thesis using None r unfolding nb' close_neighbor_def by (simp add: nth_append)
    qed
  qed
  show ?thesis
    by (intro exI [of _ "child_leaves us @ xs"] exI [of _ p] exI [of _ "ys @ child_leaves vs"])
      (use p us leaves wf' nb in auto)
qed

lemma closes_specI: "closes focused t r nb \<Longrightarrow> closes_spec focused t (Some (r, True, nb))"
  by (auto simp: closes_spec_def intro!: exI [of _ True])

lemma close_loop_spec:
  assumes "\<forall>c\<in>set cs. closes_spec focused (lc_node c) (close_focused A focused (lc_node c))" "\<not> cl_closed st"
  shows "\<exists>st'. close_loop A focused i st cs = Some st' \<and> loop_result focused i st cs st'"
  using assms
proof (induction cs arbitrary: i st)
  case Nil
  then show ?case by (simp add: loop_result_def)
next
  case (Cons c cs)
  obtain node ratio where c: "c = LayoutChild node ratio" by (cases c)
  show ?case unfolding c by (rule close_loop_Cons) (use Cons c in auto)
qed

lemma close_focused_spec:
  fixes t :: "('a, 'b) LayoutTree"
  shows "wf_layout t \<Longrightarrow> closes_spec focused t (close_focused A focused t)"
proof (induction t rule: wf_layout.induct)
  case (1 p)
  then show ?case by (auto simp: closes_spec_def closes_def)
next
  case (2 d cs drag sz)
  define st0 :: "('a, 'b) close_state" where "st0 = \<lparr>cl_new_children = [], cl_closed = False, cl_closed_idx = None, cl_removed_ratio = f_lit A 0, cl_focus_neighbor = None\<rparr>"
  have "\<forall>c\<in>set cs. closes_spec focused (lc_node c) (close_focused A focused (lc_node c))" using 2 by auto
  from close_loop_spec [OF this, of st0 0] obtain st where
    loop: "close_loop A focused 0 st0 cs = Some st" and res: "loop_result focused 0 st0 cs st" by (auto simp: st0_def)
  show ?case
  proof (cases "\<forall>p\<in>set (child_leaves cs). \<not> focused p")
    case True
    with res loop have "close_focused A focused (Container d cs drag sz) = Some (Some (Container d cs drag sz), False, None)"
      by (simp add: loop_result_def st0_def)
    with True show ?thesis unfolding closes_spec_def by (intro exI [of _ False] exI [of _ None] exI) simp
  next
    case False
    obtain us c vs r nb where cs: "cs = us @ c # vs" and us: "\<forall>p\<in>set (child_leaves us). \<not> focused p"
      and c: "closes focused (lc_node c) r nb"
      and st: "st = \<lparr>cl_new_children = us @ (case r of None \<Rightarrow> [] | Some u \<Rightarrow> [LayoutChild u (lc_ratio c)]) @ vs,
         cl_closed = True, cl_closed_idx = Some (length us),
         cl_removed_ratio = (case r of None \<Rightarrow> lc_ratio c | Some _ \<Rightarrow> f_lit A 0), cl_focus_neighbor = nb\<rparr>"
    proof -
      from res obtain us c vs r nb where "cs = us @ c # vs" "\<forall>p\<in>set (child_leaves us). \<not> focused p"
        "closes focused (lc_node c) r nb" "st = st0\<lparr>cl_new_children := cl_new_children st0 @ us @
          (case r of None \<Rightarrow> [] | Some u \<Rightarrow> [LayoutChild u (lc_ratio c)]) @ vs,
          cl_closed := True, cl_closed_idx := Some (0 + length us),
          cl_removed_ratio := (case r of None \<Rightarrow> lc_ratio c | Some _ \<Rightarrow> cl_removed_ratio st0), cl_focus_neighbor := nb\<rparr>"
        unfolding loop_result_def if_not_P [OF False] by (elim exE conjE) (rule that)
      then show ?thesis by (intro that [of us c vs r nb]) (simp_all add: st0_def split: option.splits)
    qed
    have wf: "\<forall>c\<in>set (us @ c # vs). wf_layout (lc_node c)" "length (us @ c # vs) \<ge> 2" using 2(2) cs by auto
    have nb: "close_neighbor st = close_neighbor \<lparr>cl_new_children = us @ (case r of None \<Rightarrow> [] | Some u \<Rightarrow> [LayoutChild u (lc_ratio c)]) @ vs,
       cl_closed = True, cl_closed_idx = Some (length us), cl_removed_ratio = cl_removed_ratio st, cl_focus_neighbor = nb\<rparr>"
      by (simp add: st)
    note spec = closes_container [OF wf us c _ nb]
    have new: "cl_new_children st = us @ (case r of None \<Rightarrow> [] | Some u \<Rightarrow> [LayoutChild u (lc_ratio c)]) @ vs" "cl_closed st"
      by (simp_all add: st)
    have "length (cl_new_children st) \<ge> 1" using wf(2) by (auto simp: new split: option.splits)
    then consider c' where "cl_new_children st = [c']" | a b bs where "cl_new_children st = a # b # bs"
      by (cases "cl_new_children st" rule: remdups_adj.cases) auto
    then show ?thesis
    proof cases
      case 1
      have "map lc_node [c'] = map lc_node (us @ (case r of None \<Rightarrow> [] | Some u \<Rightarrow> [LayoutChild u (lc_ratio c)]) @ vs)"
        using new(1) 1 by simp
      from spec [OF this] have "closes focused (Container d cs drag sz) (Some (lc_node c')) (close_neighbor st)"
        unfolding closes_def cs by simp
      with loop [unfolded st0_def] new(2) 1 show ?thesis by (simp add: closes_specI)
    next
      case 3: 2
      let ?rest = "close_rest A (cl_new_children st) (cl_removed_ratio st)"
      have nodes: "map lc_node ?rest = map lc_node (cl_new_children st)" by (rule close_rest_nodes)
      then have "length ?rest \<ge> 2" using 3 by (metis One_nat_def Suc_1 Suc_le_mono le0 length_Cons length_map)
      with spec [OF nodes [unfolded new(1)]]
      have "closes focused (Container d cs drag sz) (Some (Container d ?rest None sz)) (close_neighbor st)"
        unfolding closes_def cs new(1) by simp
      with loop [unfolded st0_def] new(2) 3 show ?thesis by (simp add: closes_specI)
    qed
  qed
qed

section \<open>Arrangements\<close>

lemma from_panes_equal_spec:
  "panes \<noteq> [] \<Longrightarrow> \<exists>t. from_panes_equal A d panes = Some t \<and> wf_layout t \<and> collect_leaves t = panes"
  by (cases panes rule: remdups_adj.cases) (auto simp: from_panes_equal_def Let_def comp_def)

lemma tiled_dims_spec:
  assumes "1 \<le> rows" "rows \<le> cols" "cols \<le> rows + 1" "(rows - 1) * cols < n"
  shows "case tiled_dims n rows cols of (r, c) \<Rightarrow> 1 \<le> r \<and> 1 \<le> c \<and> (r - 1) * c < n \<and> n \<le> r * c"
  using assms
proof (induction n rows cols rule: tiled_dims.induct)
  case (1 n rows cols)
  show ?case
  proof (cases "rows * cols < n")
    case False
    with 1 show ?thesis by (subst tiled_dims.simps) auto
  next
    case True
    show ?thesis
    proof (cases "cols \<le> rows")
      case le: True
      with 1 have "cols = rows" by simp
      moreover have "(rows - 1) * (rows + 1) < n"
        using True 1(3) \<open>cols = rows\<close> by (cases rows) (auto simp: algebra_simps)
      ultimately show ?thesis using 1(1) [OF True le] 1 True le by (subst tiled_dims.simps) auto
    next
      case gt: False
      with 1 True show ?thesis by (subst tiled_dims.simps) auto
    qed
  qed
qed

lemma runs_tiled_row:
  assumes "1 \<le> rows" "1 \<le> cols" "(rows - 1) * cols < n" "n \<le> rows * cols" "n = length panes" "i < rows"
    and Q: "\<And>d ps t. from_panes_equal A d ps = Some t \<Longrightarrow> Q t"
    and acc: "child_leaves acc = take (i * cols) panes" "\<forall>c\<in>set acc. wf_layout (lc_node c) \<and> lc_ratio c = ratio \<and> Q (lc_node c)" "length acc = i"
  shows "runs (tiled_row A n rows cols ratio (acc, drop (i * cols) panes) i) (\<lambda>(acc, ps).
    ps = drop (Suc i * cols) panes \<and> child_leaves acc = take (Suc i * cols) panes \<and>
    (\<forall>c\<in>set acc. wf_layout (lc_node c) \<and> lc_ratio c = ratio \<and> Q (lc_node c)) \<and> length acc = Suc i)"
proof -
  define k where "k = (if i < rows - 1 then cols else n - cols * (rows - 1))"
  have "i * cols \<le> (rows - 1) * cols" using assms(6) by (intro mult_le_mono) auto
  from this assms(3) have "i * cols < n" by (rule le_less_trans)
  then have "drop (i * cols) panes \<noteq> []" using assms(5) by simp
  moreover have "k > 0" using assms(2,3) by (auto simp: k_def mult.commute)
  ultimately have "take k (drop (i * cols) panes) \<noteq> []" by simp
  then obtain t where t: "from_panes_equal A Vertical (take k (drop (i * cols) panes)) = Some t" "wf_layout t"
    "collect_leaves t = take k (drop (i * cols) panes)" using from_panes_equal_spec by blast
  have k: "drop k (drop (i * cols) panes) = drop (Suc i * cols) panes \<and>
      take (i * cols) panes @ take k (drop (i * cols) panes) = take (Suc i * cols) panes"
  proof (cases "i < rows - 1")
    case True
    then show ?thesis by (simp add: k_def take_add [symmetric] add.commute)
  next
    case False
    then have "i = rows - 1" using assms(6) by simp
    then have "Suc i * cols \<ge> n" "k = n - i * cols" using assms(1,4) by (simp_all add: k_def mult.commute)
    then show ?thesis using assms(5) by (simp add: take_add [symmetric])
  qed
  have "usub rows 1 = Some (rows - 1)" "usub n (cols * (rows - 1)) = Some (n - cols * (rows - 1))"
    using assms(1,3) by (simp_all add: usub_def mult.commute)
  then have "tiled_row A n rows cols ratio (acc, drop (i * cols) panes) i =
      Some (acc @ [LayoutChild t ratio], drop k (drop (i * cols) panes))"
    using t(1) by (auto simp: tiled_row_def k_def)
  then show ?thesis using t(2,3) k acc Q [OF t(1)] by simp
qed

lemma runs_tiled:
  assumes Q: "\<And>d ps t. from_panes_equal A d ps = Some t \<Longrightarrow> Q t"
  shows "runs (tiled A panes) (\<lambda>r. case r of None \<Rightarrow> panes = []
    | Some t \<Rightarrow> panes \<noteq> [] \<and> wf_layout t \<and> collect_leaves t = panes \<and>
        (Q t \<or> (\<exists>rows d dr sz. rows \<noteq> [] \<and> t = Container d rows dr sz \<and>
          (\<forall>c\<in>set rows. Q (lc_node c) \<and> lc_ratio c = f_div A (f_lit A 1) (f_of_nat A (length rows))))))"
proof (cases panes rule: remdups_adj.cases)
  case (3 a b ps)
  define n where "n = length panes"
  obtain rows cols where dims: "tiled_dims n 1 1 = (rows, cols)" by fastforce
  have d: "1 \<le> rows" "1 \<le> cols" "(rows - 1) * cols < n" "n \<le> rows * cols"
    using tiled_dims_spec [of 1 1 n] 3 dims by (simp_all add: n_def)
  show ?thesis
  proof (cases "rows = 1")
    case True
    with 3 dims from_panes_equal_spec [of panes A Vertical] Q show ?thesis by (auto simp: tiled_def n_def)
  next
    case False
    let ?ratio = "f_div A (f_lit A 1) (f_of_nat A rows)"
    let ?I = "\<lambda>(acc, ps) rs. \<exists>i\<le>rows. rs = [i..<rows] \<and> ps = drop (i * cols) panes \<and> child_leaves acc = take (i * cols) panes \<and>
        (\<forall>c\<in>set acc. wf_layout (lc_node c) \<and> lc_ratio c = ?ratio \<and> Q (lc_node c)) \<and> length acc = i"
    have "runs (for_each (tiled_row A n rows cols ?ratio) ([], panes) [0..<rows]) (\<lambda>s. ?I s [])"
    proof (rule runs_for_each)
      show "?I ([], panes) [0..<rows]" by (auto intro!: exI [of _ 0])
    next
      fix s x xs assume "?I s (x # xs)"
      then obtain acc ps i where s: "s = (acc, ps)" "x # xs = [i..<rows]" "ps = drop (i * cols) panes"
        "child_leaves acc = take (i * cols) panes" "\<forall>c\<in>set acc. wf_layout (lc_node c) \<and> lc_ratio c = ?ratio \<and> Q (lc_node c)" "length acc = i"
        by (cases s) auto
      then have i: "i < rows" "x = i" "xs = [Suc i..<rows]"
        by (cases "i < rows"; simp add: upt_conv_Cons)+
      show "runs (tiled_row A n rows cols ?ratio s x) (\<lambda>s'. ?I s' xs)"
        unfolding s(1,3) i(2) by (rule runs_mono [OF runs_tiled_row [OF d n_def i(1) Q s(4-6)]]) (use i in auto)
    qed
    then obtain s where s: "for_each (tiled_row A n rows cols ?ratio) ([], panes) [0..<rows] = Some s" "?I s []"
      unfolding runs_iff by blast
    obtain acc ps where sp: "s = (acc, ps)" by (cases s)
    with s have fold: "for_each (tiled_row A n rows cols ?ratio) ([], panes) [0..<rows] = Some (acc, ps)"
      and acc: "child_leaves acc = take (rows * cols) panes" "\<forall>c\<in>set acc. wf_layout (lc_node c) \<and> lc_ratio c = ?ratio \<and> Q (lc_node c)" "length acc = rows"
    proof -
      from s(2) sp obtain i where i: "i \<le> rows" "[] = [i..<rows]" "child_leaves acc = take (i * cols) panes"
        "\<forall>c\<in>set acc. wf_layout (lc_node c) \<and> lc_ratio c = ?ratio \<and> Q (lc_node c)" "length acc = i" by auto
      have "i = rows" using i(1) i(2) [symmetric] by (auto simp: upt_eq_Nil_conv)
      with s(1) sp i show "for_each (tiled_row A n rows cols ?ratio) ([], panes) [0..<rows] = Some (acc, ps)"
        "child_leaves acc = take (rows * cols) panes" "\<forall>c\<in>set acc. wf_layout (lc_node c) \<and> lc_ratio c = ?ratio \<and> Q (lc_node c)" "length acc = rows" by auto
    qed
    have "acc \<noteq> []" using acc(3) d(1) by auto
    with acc fold 3 dims False d show ?thesis by (auto simp: tiled_def n_def)
  qed
next
  case (2 p)
  then show ?thesis using Q [of Vertical "[p]"] by (simp add: tiled_def from_panes_equal_def)
qed (simp add: tiled_def)

section \<open>Ratios in exact arithmetic\<close>

fun ratios_ok :: "('p, real) LayoutTree \<Rightarrow> bool" where
  "ratios_ok (Leaf pane) \<longleftrightarrow> True"
| "ratios_ok (Container direction children drag container_size) \<longleftrightarrow>
     (\<forall>c\<in>set children. 0 < lc_ratio c \<and> ratios_ok (lc_node c)) \<and> sum_list (map lc_ratio children) = 1"

lemma exact_sel [simp]:
  "f_add exact = (+)" "f_sub exact = (-)" "f_mul exact = (*)" "f_div exact = (/)" "f_max exact = max" "f_min exact = min"
  "f_abs exact = abs" "f_lt exact = (<)" "f_le exact = (\<le>)" "f_is_finite exact x = True" "f_of_nat exact = real"
  "f_lit exact = real_of_rat" "f_EPSILON exact = 1 / 2 ^ 23"
  by (simp_all add: exact_def)

lemma real_of_rat_half [simp]: "real_of_rat (1 / 2) = 1 / 2"
  by (simp add: of_rat_divide)

lemma foldl_sum: "foldl (+) (a :: real) xs = a + sum_list xs"
  by (induction xs arbitrary: a) simp_all

lemma sum_list_pos: "xs \<noteq> [] \<Longrightarrow> (\<And>x. x \<in> set xs \<Longrightarrow> 0 < x) \<Longrightarrow> 0 < sum_list (xs :: real list)"
proof (induction xs rule: list_nonempty_induct)
  case (cons x xs)
  then show ?case by (simp add: add_pos_pos)
qed simp

lemma f_sum_exact [simp]: "f_sum exact xs = sum_list xs"
  by (simp add: f_sum_def foldl_sum)

text \<open>The children left in a container whose ratios and the ratio of the closed one sum up to one.\<close>

lemma close_rest_exact:
  assumes "\<forall>c\<in>set cs. 0 < lc_ratio c \<and> ratios_ok (lc_node c)" "cs \<noteq> []" "0 \<le> removed"
    "sum_list (map lc_ratio cs) + removed = 1"
  shows "ratios_ok (Container d (close_rest exact cs removed) dr sz)"
proof (cases "removed > 0")
  case True
  have "sum_list (map (\<lambda>c. lc_ratio c + removed / real (length cs)) cs) = sum_list (map lc_ratio cs) + removed"
    using assms(2) by (simp add: sum_list_addf sum_list_triv)
  then show ?thesis using True assms
    by (auto simp: close_rest_def redistribute_equal_def Let_def comp_def add_pos_nonneg)
next
  case False
  with assms show ?thesis by (auto simp: close_rest_def normalize_ratios_def Let_def)
qed

lemma insert_sibling_exact:
  assumes "ratios_ok (Container d (xs @ LayoutChild (Leaf p) r # ys) dr sz)"
  shows "ratios_ok (Container d (insert_sibling exact (xs @ LayoutChild (Leaf p) r # ys) (length xs) new) dr sz)"
  using assms by (auto simp: insert_sibling_split Let_def)

lemma split_at_exact:
  fixes t :: "('p, real) LayoutTree" and cs :: "('p, real) LayoutChild list"
  shows "A = exact \<Longrightarrow> ratios_ok t \<Longrightarrow> ratios_ok (snd (split_at A hit direction new t))"
  and "A = exact \<Longrightarrow> (\<forall>c\<in>set cs. 0 < lc_ratio c \<and> ratios_ok (lc_node c)) \<Longrightarrow>
    (\<forall>c\<in>set (snd (split_at_children A hit direction new cs)). 0 < lc_ratio c \<and> ratios_ok (lc_node c)) \<and>
    map lc_ratio (snd (split_at_children A hit direction new cs)) = map lc_ratio cs"
proof (induction A hit direction new t and A hit direction new cs rule: split_at_split_at_children.induct)
  case (2 A hit direction new dir cs drag sz)
  show ?case
  proof (cases "if dir = direction then leaf_index hit cs else None")
    case None
    obtain d cs' where cs': "split_at_children A hit direction new cs = (d, cs')" by fastforce
    from 2(1) [OF None 2(2)] 2(3) cs' have "\<forall>c\<in>set cs'. 0 < lc_ratio c \<and> ratios_ok (lc_node c)"
      "map lc_ratio cs' = map lc_ratio cs" by simp_all
    with 2(3) None cs' show ?thesis by simp
  next
    case (Some i)
    then obtain xs p r ys where cs: "cs = xs @ LayoutChild (Leaf p) r # ys" "length xs = i"
      using leaf_index_Some [of hit cs i] by (auto split: if_splits)
    have "split_at A hit direction new (Container dir cs drag sz) = (True, Container dir (insert_sibling A cs i new) drag sz)"
      using Some by simp
    with insert_sibling_exact [of dir xs p r ys drag sz new] 2(2,3) cs show ?thesis
      by (simp del: ratios_ok.simps split_at.simps)
  qed
next
  case (4 A hit direction new node r cs)
  obtain d node' where node: "split_at A hit direction new node = (d, node')" by fastforce
  obtain e cs' where cs: "split_at_children A hit direction new cs = (e, cs')" by fastforce
  show ?case
  proof (cases d)
    case True
    with 4(1,3,4) node show ?thesis by simp
  next
    case False
    with 4(1,3,4) 4(2) [of "(d, node')" d node'] node cs show ?thesis by simp
  qed
qed (auto simp: new_split_def)

lemma in_keptE:
  assumes "c \<in> set (kept_nodes A p cs)"
  obtains c' u where "c' \<in> set cs" "fst (remove_pane A p (lc_node c')) = Some u" "c = LayoutChild u (lc_ratio c')"
proof -
  from assms obtain c' where c': "c' \<in> set cs"
    "c \<in> set (case fst (remove_pane A p (lc_node c')) of None \<Rightarrow> [] | Some node \<Rightarrow> [LayoutChild node (lc_ratio c')])"
    unfolding kept_nodes_def set_concat set_map by blast
  then show ?thesis by (cases "fst (remove_pane A p (lc_node c'))") (simp_all add: that)
qed

lemma kept_lost_total:
  fixes cs :: "('p, real) LayoutChild list"
  shows "sum_list (map lc_ratio (kept_nodes A p cs)) + sum_list (lost_ratios A p cs) = sum_list (map lc_ratio cs)"
proof (induction cs)
  case (Cons c cs)
  then show ?case by (cases "fst (remove_pane A p (lc_node c))") (simp_all add: kept_nodes_def lost_ratios_def)
qed (simp add: lost_ratios_def)

lemma kept_all: "\<forall>c\<in>set cs. remove_pane A p (lc_node c) = (Some (lc_node c), False) \<Longrightarrow> kept_nodes A p cs = cs"
  by (induction cs) (simp_all add: kept_nodes_def)

lemma remove_pane_not_found: "\<not> snd (remove_pane A p t) \<Longrightarrow> remove_pane A p t = (Some t, False)"
proof (induction t rule: collect_leaves.induct)
  case (2 d cs drag sz)
  have none: "\<forall>c\<in>set cs. \<not> snd (remove_pane A p (lc_node c))"
    using 2(2) by (auto simp: remove_loop_eq split: if_splits)
  have "\<forall>c\<in>set cs. remove_pane A p (lc_node c) = (Some (lc_node c), False)" using 2(1) none by blast
  then have "kept_nodes A p cs = cs" by (rule kept_all)
  with none show ?case by (simp add: remove_loop_eq)
qed (simp split: if_splits)

lemma remove_pane_exact:
  "ratios_ok t \<Longrightarrow> case fst (remove_pane exact p t) of None \<Rightarrow> True | Some u \<Rightarrow> ratios_ok u"
proof (induction t rule: ratios_ok.induct)
  case (2 d cs drag sz)
  have ih: "case fst (remove_pane exact p (lc_node c)) of None \<Rightarrow> True | Some u \<Rightarrow> ratios_ok u" if "c \<in> set cs" for c
    using 2 that by auto
  have ok: "\<forall>c\<in>set (kept_nodes exact p cs). 0 < lc_ratio c \<and> ratios_ok (lc_node c)"
  proof
    fix c assume "c \<in> set (kept_nodes exact p cs)"
    then obtain c' u where "c' \<in> set cs" "fst (remove_pane exact p (lc_node c')) = Some u" "c = LayoutChild u (lc_ratio c')"
      by (rule in_keptE)
    moreover from ih [OF this(1)] this(2) have "ratios_ok u" by (simp only: option.case)
    moreover have "0 < lc_ratio c'" using 2(2) \<open>c' \<in> set cs\<close> by simp
    ultimately show "0 < lc_ratio c \<and> ratios_ok (lc_node c)" by simp
  qed
  have total: "sum_list (map lc_ratio (kept_nodes exact p cs)) + sum_list (lost_ratios exact p cs) = sum_list (map lc_ratio cs)"
    by (rule kept_lost_total)
  have "0 \<le> sum_list (lost_ratios exact p cs)"
    using 2(2) by (intro sum_list_nonneg) (auto simp: lost_ratios_def less_imp_le)
  then have rest: "kept_nodes exact p cs \<noteq> [] \<Longrightarrow>
      ratios_ok (Container d (close_rest exact (kept_nodes exact p cs) (sum_list (lost_ratios exact p cs))) None sz)"
    using ok total 2(2) by (intro close_rest_exact) auto
  have same: "kept_nodes exact p cs = cs" if "\<not> (\<exists>c\<in>set cs. snd (remove_pane exact p (lc_node c)))"
  proof (rule kept_all, rule ballI)
    fix c assume "c \<in> set cs"
    with that have "\<not> snd (remove_pane exact p (lc_node c))" by blast
    then show "remove_pane exact p (lc_node c) = (Some (lc_node c), False)" by (rule remove_pane_not_found)
  qed
  show ?case
  proof (cases "\<exists>c\<in>set cs. snd (remove_pane exact p (lc_node c))")
    case True
    with ok rest show ?thesis
      by (cases "kept_nodes exact p cs" rule: remdups_adj.cases) (simp_all add: remove_loop_eq foldl_sum)
  next
    case False
    with same 2(2) show ?thesis by (simp add: remove_loop_eq)
  qed
qed simp

definition close_inv :: "('p, real) close_state \<Rightarrow> bool" where
  "close_inv st \<longleftrightarrow> (\<forall>c\<in>set (cl_new_children st). 0 < lc_ratio c \<and> ratios_ok (lc_node c)) \<and> 0 \<le> cl_removed_ratio st \<and>
     (\<not> cl_closed st \<longrightarrow> cl_removed_ratio st = 0)"

definition close_total :: "('p, real) close_state \<Rightarrow> real" where
  "close_total st = sum_list (map lc_ratio (cl_new_children st)) + cl_removed_ratio st"

lemma close_push_exact:
  "close_inv st \<Longrightarrow> 0 < lc_ratio c \<Longrightarrow> ratios_ok (lc_node c) \<Longrightarrow>
    close_inv (cl_push st c) \<and> close_total (cl_push st c) = close_total st + lc_ratio c"
  by (auto simp: close_inv_def close_total_def cl_push_def)

lemma close_loop_exact:
  assumes "\<forall>c\<in>set cs. 0 < lc_ratio c \<and> ratios_ok (lc_node c) \<and>
      (\<forall>u b nb. close_focused exact focused (lc_node c) = Some (Some u, b, nb) \<longrightarrow> ratios_ok u)"
    and "close_inv st" "close_loop exact focused i st cs = Some st'"
  shows "close_inv st' \<and> close_total st' = close_total st + sum_list (map lc_ratio cs)"
  using assms
proof (induction cs arbitrary: i st)
  case (Cons c cs)
  obtain node ratio where c: "c = LayoutChild node ratio" by (cases c)
  have step: ?case if "close_inv st1" "close_total st1 = close_total st + ratio" "close_loop exact focused (Suc i) st1 cs = Some st'" for st1
    using Cons.IH [OF _ that(1,3)] Cons.prems(1) that(2) c by simp
  have push: ?case if "ratios_ok node'" "close_loop exact focused (Suc i) (cl_push st1 (LayoutChild node' ratio)) cs = Some st'"
    "close_inv st1" "close_total st1 = close_total st" for node' st1
    by (rule step [OF _ _ that(2)]) (use that close_push_exact [OF that(3), of "LayoutChild node' ratio"] Cons.prems(1) c in simp_all)
  show ?case
  proof (cases "cl_closed st")
    case True
    with Cons.prems c show ?thesis by (intro push [of node st]) simp_all
  next
    case False
    then obtain r b nb where res: "close_focused exact focused node = Some (r, b, nb)"
      using Cons.prems(3) c by (cases "close_focused exact focused node") auto
    let ?st = "st\<lparr>cl_closed := True, cl_closed_idx := Some i, cl_focus_neighbor := nb\<rparr>"
    have st: "close_inv ?st" "close_total ?st = close_total st" "close_inv (?st\<lparr>cl_removed_ratio := ratio\<rparr>)"
      "close_total (?st\<lparr>cl_removed_ratio := ratio\<rparr>) = close_total st + ratio"
      using Cons.prems(1,2) c False by (auto simp: close_inv_def close_total_def)
    have u: "ratios_ok u" if "r = Some u" for u using Cons.prems(1) c res that by auto
    show ?thesis
    proof (cases r)
      case None
      with res Cons.prems(3) c False have b: b by (auto split: if_splits)
      show ?thesis by (rule step [OF st(3,4)]) (use b None res Cons.prems(3) c False in simp)
    next
      case (Some node')
      show ?thesis
      proof (cases b)
        case True
        show ?thesis by (rule push [OF u [OF Some] _ st(1,2)]) (use True Some res Cons.prems(3) c False in simp)
      next
        case b: False
        show ?thesis by (rule push [OF u [OF Some] _ Cons.prems(2) refl]) (use b Some res Cons.prems(3) c False in simp)
      qed
    qed
  qed
qed simp

lemma close_focused_exact:
  fixes t :: "('p, real) LayoutTree"
  shows "ratios_ok t \<Longrightarrow> close_focused exact focused t = Some (Some u, b, nb) \<Longrightarrow> ratios_ok u"
proof (induction t arbitrary: u b nb rule: ratios_ok.induct)
  case (1 pane)
  then show ?case by (auto split: if_splits)
next
  case (2 d cs drag sz)
  define st0 :: "('p, real) close_state" where "st0 = \<lparr>cl_new_children = [], cl_closed = False, cl_closed_idx = None,
     cl_removed_ratio = f_lit exact 0, cl_focus_neighbor = None\<rparr>"
  have st0: "close_inv st0" "close_total st0 = 0" by (simp_all add: st0_def close_inv_def close_total_def)
  obtain st where st: "close_loop exact focused 0 st0 cs = Some st"
    using 2(3) unfolding close_focused.simps st0_def [symmetric] by (cases "close_loop exact focused 0 st0 cs") auto
  have "\<forall>c\<in>set cs. 0 < lc_ratio c \<and> ratios_ok (lc_node c) \<and>
      (\<forall>u b nb. close_focused exact focused (lc_node c) = Some (Some u, b, nb) \<longrightarrow> ratios_ok u)" using 2(1,2) by auto
  from close_loop_exact [OF this st0(1) st] st0(2) 2(2) have ok: "close_inv st" "close_total st = 1" by simp_all
  have rest: "cl_new_children st \<noteq> [] \<Longrightarrow>
      ratios_ok (Container d (close_rest exact (cl_new_children st) (cl_removed_ratio st)) None sz)"
    using ok by (intro close_rest_exact) (auto simp: close_inv_def close_total_def)
  have same: "\<not> cl_closed st \<Longrightarrow> ratios_ok (Container d (cl_new_children st) drag sz)"
    using ok by (auto simp: close_inv_def close_total_def)
  note res = 2(3) [unfolded close_focused.simps st0_def [symmetric] st option.case]
  show ?case
  proof (cases "cl_closed st")
    case False
    with same res show ?thesis by (auto simp del: ratios_ok.simps)
  next
    case True
    with rest ok(1) res show ?thesis
      by (cases "cl_new_children st" rule: remdups_adj.cases) (auto simp: close_inv_def simp del: ratios_ok.simps)
  qed
qed

section \<open>Layouts a workspace can reach\<close>

inductive layout_reach :: "'f arith \<Rightarrow> ('p, 'f) LayoutTree \<Rightarrow> bool" for A where
  single: "layout_reach A (Leaf p)"
| equal: "from_panes_equal A d panes = Some t \<Longrightarrow> distinct panes \<Longrightarrow> layout_reach A t"
| main: "main_vertical A p others = Some (Some t) \<Longrightarrow> distinct (p # others) \<Longrightarrow> layout_reach A t"
| grid: "tiled A panes = Some (Some t) \<Longrightarrow> distinct panes \<Longrightarrow> layout_reach A t"
| split_focused: "layout_reach A t \<Longrightarrow> new \<notin> set (collect_leaves t) \<Longrightarrow> split_at_focused A focused t d new = (b, t') \<Longrightarrow>
    layout_reach A t'"
| split_pane: "layout_reach A t \<Longrightarrow> new \<notin> set (collect_leaves t) \<Longrightarrow> split_at_pane A t target d new = (b, t') \<Longrightarrow>
    layout_reach A t'"
| split_first: "layout_reach A t \<Longrightarrow> new \<notin> set (collect_leaves t) \<Longrightarrow> layout_reach A (split_first_leaf A d new t)"
| swap: "layout_reach A t \<Longrightarrow> swap_panes t p q = (b, t') \<Longrightarrow> layout_reach A t'"
| remove: "layout_reach A t \<Longrightarrow> remove_pane A p t = (Some t', b) \<Longrightarrow> layout_reach A t'"
| close: "layout_reach A t \<Longrightarrow> close_focused A focused t = Some (Some t', b, neighbor) \<Longrightarrow> layout_reach A t'"
| equalize: "layout_reach A t \<Longrightarrow> layout_reach A (equalize_ratios A t)"
| cancel: "layout_reach A t \<Longrightarrow> layout_reach A (cancel_resize t)"

lemma main_vertical_spec:
  "\<exists>t. main_vertical A p others = Some (Some t) \<and> wf_layout t \<and> collect_leaves t = p # others"
  using from_panes_equal_spec [of others A Horizontal] by (cases "others = []") (auto simp: main_vertical_def)

lemma split_first_leaf_spec:
  "wf_layout t \<Longrightarrow> wf_layout (split_first_leaf A d new t) \<and>
     collect_leaves (split_first_leaf A d new t) = hd (collect_leaves t) # new # tl (collect_leaves t)"
proof (induction A d new t rule: split_first_leaf.induct)
  case (3 A d new dir node r cs drag sz)
  show ?case
  proof (cases "dir = d \<and> (case node of Leaf _ \<Rightarrow> True | _ \<Rightarrow> False)")
    case True
    then obtain p where "node = Leaf p" by (cases node) auto
    with True 3(2) insert_sibling_split [of A "[]" "LayoutChild (Leaf p) r" cs new] show ?thesis
      by (auto simp: Let_def)
  next
    case False
    have "wf_layout node" using 3(2) by simp
    from 3(1) [OF False this] 3(2) False wf_layout_leaves [OF this] show ?thesis by (auto split: LayoutTree.splits)
  qed
qed (simp_all add: new_split_def)

definition transpose_pane :: "'p \<Rightarrow> 'p \<Rightarrow> 'p \<Rightarrow> 'p" where
  "transpose_pane a b p = (if p = a then b else if p = b then a else p)"

lemma swap_leaves: "collect_leaves (swap_panes_unchecked a b t) = map (transpose_pane a b) (collect_leaves t)"
  by (induction t rule: collect_leaves.induct) (simp_all add: transpose_pane_def map_concat comp_def cong: map_cong)

lemma swap_wf: "wf_layout (swap_panes_unchecked a b t) = wf_layout t"
  by (induction t rule: collect_leaves.induct) auto

lemma inj_transpose_pane: "inj (transpose_pane a b)"
  by (auto simp: inj_def transpose_pane_def split: if_splits)

lemma cancel_spec: "collect_leaves (cancel_resize t) = collect_leaves t \<and> wf_layout (cancel_resize t) = wf_layout t"
  by (induction t rule: collect_leaves.induct) (simp_all add: comp_def cong: map_cong)

lemma equalize_spec:
  fixes t :: "('p, 'f) LayoutTree" and cs :: "('p, 'f) LayoutChild list"
  shows "collect_leaves (equalize_ratios A t) = collect_leaves t \<and> wf_layout (equalize_ratios A t) = wf_layout t"
  and "child_leaves (equalize_children A n i cs) = child_leaves cs \<and> length (equalize_children A n i cs) = length cs \<and>
    ((\<forall>c\<in>set (equalize_children A n i cs). wf_layout (lc_node c)) \<longleftrightarrow> (\<forall>c\<in>set cs. wf_layout (lc_node c)))"
  by (induction A t and A n i cs rule: equalize_ratios_equalize_children.induct) (auto simp: Let_def)

lemma inserted_after_distinct:
  "inserted_after hit new xs ys \<Longrightarrow> distinct xs \<Longrightarrow> new \<notin> set xs \<Longrightarrow> distinct ys"
  by (auto simp: inserted_after_def)

lemma split_at_reach:
  assumes "wf_layout t" "distinct (collect_leaves t)" "new \<notin> set (collect_leaves t)" "split_at A hit d new t = (b, t')"
  shows "wf_layout t' \<and> distinct (collect_leaves t')"
  using split_at_spec(1) [where A = A and hit = hit and direction = d and new = new and t = t] assms inserted_after_distinct
  by (auto split: if_splits)

lemma reach_wf: "layout_reach A t \<Longrightarrow> wf_layout t \<and> distinct (collect_leaves t)"
proof (induction rule: layout_reach.induct)
  case (equal d panes t)
  then have "panes \<noteq> []" by (auto simp: from_panes_equal_def)
  with equal from_panes_equal_spec [of panes A d] show ?case by auto
next
  case (main p others t)
  with main_vertical_spec [of A p others] show ?case by auto
next
  case (grid panes t)
  with runs_tiled [of A "\<lambda>_. True" panes] show ?case by simp
next
  case (split_focused t new focused d b t')
  with split_at_reach show ?case by (metis split_at_focused_def)
next
  case (split_pane t new target d b t')
  with split_at_reach show ?case by (metis split_at_pane_def)
next
  case (split_first t new d)
  then show ?case using split_first_leaf_spec [of t A d new] wf_layout_leaves [of t]
    by (cases "collect_leaves t") auto
next
  case (swap t p q b t')
  then show ?case using inj_transpose_pane [of p q]
    by (auto simp: swap_panes_def swap_wf swap_leaves distinct_map inj_on_def inj_def split: if_splits)
next
  case (remove t p t' b)
  then show ?case using remove_pane_spec [where t = t and A = A and target = p] by auto
next
  case (close t focused t' b neighbor)
  then show ?case using close_focused_spec [of t focused A]
    by (auto simp: closes_spec_def closes_def split: if_splits)
next
  case (equalize t)
  then show ?case by (simp add: equalize_spec)
next
  case (cancel t)
  then show ?case by (simp add: cancel_spec)
qed simp

section \<open>Ratios of reachable layouts\<close>

lemma from_panes_equal_exact: "from_panes_equal exact d panes = Some t \<Longrightarrow> ratios_ok t"
  by (cases panes rule: remdups_adj.cases) (auto simp: from_panes_equal_def Let_def comp_def sum_list_triv field_simps)

lemma equalize_children_exact:
  "length cs = n - i \<Longrightarrow> i < n \<Longrightarrow> map lc_ratio (equalize_children exact n i cs) = replicate (n - i) (1 / real n)"
proof (induction cs arbitrary: i)
  case (Cons c cs)
  show ?case
  proof (cases "i = n - 1")
    case True
    with Cons have "cs = []" "n - i = 1" by simp_all
    moreover have "1 - 1 / real n * real (n - 1) = 1 / real n" using Cons.prems by (simp add: of_nat_diff field_simps)
    ultimately show ?thesis using True by (cases c) simp
  next
    case False
    with Cons have "map lc_ratio (equalize_children exact n (Suc i) cs) = replicate (n - Suc i) (1 / real n)" by simp
    moreover have "n - i = Suc (n - Suc i)" using Cons.prems by simp
    ultimately show ?thesis using False by (cases c) (simp add: Let_def)
  qed
qed simp

lemma equalize_exact:
  fixes t :: "('p, real) LayoutTree" and cs :: "('p, real) LayoutChild list"
  shows "A = exact \<Longrightarrow> wf_layout t \<Longrightarrow> ratios_ok (equalize_ratios A t)"
  and "A = exact \<Longrightarrow> \<forall>c\<in>set cs. wf_layout (lc_node c) \<Longrightarrow> \<forall>c\<in>set (equalize_children A n i cs). ratios_ok (lc_node c)"
proof (induction A t and A n i cs rule: equalize_ratios_equalize_children.induct)
  case (2 A d cs drag sz)
  let ?cs = "equalize_children exact (length cs) 0 cs"
  have len: "0 < length cs" using 2(3) by auto
  then have ratios: "map lc_ratio ?cs = replicate (length cs) (1 / real (length cs))"
    using equalize_children_exact [of cs "length cs" 0] by simp
  have "\<forall>c\<in>set ?cs. 0 < lc_ratio c"
  proof
    fix c assume "c \<in> set ?cs"
    then have "lc_ratio c \<in> set (map lc_ratio ?cs)" by simp
    then show "0 < lc_ratio c" unfolding ratios using len by simp
  qed
  moreover have "sum_list (map lc_ratio ?cs) = 1" unfolding ratios using len by (simp add: sum_list_replicate)
  ultimately show ?case using 2 by simp
qed (auto simp: Let_def)

lemma tiled_exact: "tiled exact panes = Some (Some t) \<Longrightarrow> ratios_ok t"
proof -
  assume "tiled exact panes = Some (Some t)"
  with runs_tiled [of exact ratios_ok panes, OF from_panes_equal_exact]
  have "ratios_ok t \<or> (\<exists>rows d dr sz. rows \<noteq> [] \<and> t = Container d rows dr sz \<and>
      (\<forall>c\<in>set rows. ratios_ok (lc_node c) \<and> lc_ratio c = 1 / real (length rows)))" by simp
  moreover have "ratios_ok (Container d rows dr sz)" if "rows \<noteq> []"
    "\<forall>c\<in>set rows. ratios_ok (lc_node c) \<and> lc_ratio c = 1 / real (length rows)"
    for rows :: "('a, real) LayoutChild list" and d dr sz
  proof -
    have "map lc_ratio rows = replicate (length rows) (1 / real (length rows))"
      using that(2) by (intro replicate_eqI) auto
    then show ?thesis using that by (simp add: sum_list_replicate)
  qed
  ultimately show ?thesis by blast
qed

lemma split_first_leaf_exact: "ratios_ok t \<Longrightarrow> ratios_ok (split_first_leaf exact d new t)"
proof (induction exact d new t rule: split_first_leaf.induct)
  case (3 d new dir node r cs drag sz)
  show ?case
  proof (cases "dir = d \<and> (case node of Leaf _ \<Rightarrow> True | _ \<Rightarrow> False)")
    case True
    then obtain p where "node = Leaf p" by (cases node) auto
    with True 3(2) insert_sibling_exact [of dir "[]" p r cs drag sz new] show ?thesis by simp
  next
    case False
    with 3 show ?thesis by (auto split: LayoutTree.splits)
  qed
qed (simp_all add: new_split_def)

lemma swap_exact: "ratios_ok (swap_panes_unchecked a b t) = ratios_ok t"
  by (induction t rule: ratios_ok.induct) (auto simp: comp_def)

lemma cancel_exact: "ratios_ok (cancel_resize t) = ratios_ok t"
  by (induction t rule: ratios_ok.induct) (auto simp: comp_def)

lemma reach_exact: "layout_reach exact t \<Longrightarrow> wf_layout t \<and> ratios_ok t"
proof (induction rule: layout_reach.induct)
  case (main p others t)
  have "ratios_ok t"
  proof (cases "others = []")
    case True
    with main show ?thesis by (auto simp: main_vertical_def)
  next
    case False
    then obtain right where right: "from_panes_equal exact Horizontal others = Some right"
      using from_panes_equal_spec by blast
    from from_panes_equal_exact [OF right] main(1) False right show ?thesis by (auto simp: main_vertical_def)
  qed
  with reach_wf [OF layout_reach.main [OF main]] show ?case by blast
next
  case (close t focused t' b neighbor)
  then show ?case using close_focused_exact reach_wf [OF layout_reach.close [OF close(1,2)]] by blast
next
  case (remove t p t' b)
  then show ?case using remove_pane_exact [of t p] reach_wf [OF layout_reach.remove [OF remove(1,2)]] by simp
next
  case (split_focused t new focused d b t')
  then show ?case using split_at_exact(1) [of exact t focused d new] reach_wf [OF layout_reach.split_focused [OF split_focused(1-3)]]
    by (simp add: split_at_focused_def)
next
  case (split_pane t new target d b t')
  then show ?case using split_at_exact(1) [of exact t "\<lambda>p. p = target" d new] reach_wf [OF layout_reach.split_pane [OF split_pane(1-3)]]
    by (simp add: split_at_pane_def)
next
  case (split_first t new d)
  then show ?case using split_first_leaf_exact [of t d new] reach_wf [OF layout_reach.split_first [OF split_first(1,2), of d]] by simp
next
  case (swap t p q b t')
  then show ?case by (auto simp: swap_panes_def swap_wf swap_exact split: if_splits)
next
  case (equal d panes t)
  then show ?case using from_panes_equal_exact reach_wf [OF layout_reach.equal [OF equal]] by blast
next
  case (grid panes t)
  then show ?case using tiled_exact reach_wf [OF layout_reach.grid [OF grid]] by blast
next
  case (equalize t)
  then show ?case using equalize_exact(1) [of exact t] by (simp add: equalize_spec)
next
  case (cancel t)
  then show ?case by (simp add: cancel_spec cancel_exact)
qed simp

section \<open>Properties\<close>

text \<open>
  C31. Whatever a workspace does to its layout (splitting, closing, removing, swapping, arranging, equalising), with any
  floating-point arithmetic, no container is left with fewer than two children and no pane is in the layout twice.
\<close>

theorem reachable_layout_wf:
  assumes "layout_reach A t"
  shows "wf_layout t \<and> distinct (collect_leaves t)"
  using reach_wf [OF assms] .

text \<open>Three panes: two side by side, the right one split again.\<close>

definition sample_tree :: "'f arith \<Rightarrow> (nat, 'f) LayoutTree" where
  "sample_tree A = snd (split_at_pane A (new_split A Vertical (Leaf 1) (Leaf 2)) 2 Horizontal 3)"

lemma sample_tree_eq: "sample_tree A = new_split A Vertical (Leaf 1) (new_split A Horizontal (Leaf 2) (Leaf 3))"
  by (simp add: sample_tree_def split_at_pane_def new_split_def)

lemma sample_tree_reach: "layout_reach A (sample_tree A)"
proof -
  have two: "layout_reach A (new_split A Vertical (Leaf 1) (Leaf (2 :: nat)))"
    by (rule layout_reach.split_pane [OF layout_reach.single, where p1 = 1 and new = 2 and target = 1 and d = Vertical and b = True])
      (simp_all add: split_at_pane_def)
  show ?thesis unfolding sample_tree_eq
    by (rule layout_reach.split_pane [OF two, where new = 3 and target = 2 and d = Horizontal and b = True])
      (simp_all add: new_split_def split_at_pane_def)
qed

theorem reachable_layout_wf_witness:
  "layout_reach exact (sample_tree exact) \<and> wf_layout (sample_tree exact) \<and> distinct (collect_leaves (sample_tree exact))"
  using reachable_layout_wf [OF sample_tree_reach [of exact]] sample_tree_reach by blast



text \<open>
  Splitting at a pane of the layout succeeds exactly when the pane is there, puts the new pane right after it and
  leaves the order of the others, and changes nothing when the pane is not there.
\<close>

theorem split_at_pane_position:
  assumes "distinct (collect_leaves t)"
  shows "if target \<in> set (collect_leaves t)
    then \<exists>xs ys t'. split_at_pane A t target d new = (True, t') \<and> collect_leaves t = xs @ target # ys \<and>
      collect_leaves t' = xs @ target # new # ys
    else split_at_pane A t target d new = (False, t)"
proof -
  obtain b t' where split: "split_at A (\<lambda>p. p = target) d new t = (b, t')" by fastforce
  with split_at_spec(1) [where A = A and hit = "\<lambda>p. p = target" and direction = d and new = new and t = t]
  have "if b then inserted_after (\<lambda>p. p = target) new (collect_leaves t) (collect_leaves t')
      else t' = t \<and> target \<notin> set (collect_leaves t)" by (auto split: if_splits)
  then show ?thesis unfolding split_at_pane_def split inserted_after_def by (cases b) auto
qed

theorem split_at_pane_position_witness:
  "distinct (collect_leaves (sample_tree exact)) \<and>
   (\<exists>t'. split_at_pane exact (sample_tree exact) 2 Vertical 9 = (True, t') \<and> collect_leaves t' = [1, 2, 9, 3])"
proof -
  have leaves: "collect_leaves (sample_tree exact) = [1, 2, 3]" by (simp add: sample_tree_eq new_split_def)
  then have "distinct (collect_leaves (sample_tree exact))" by simp
  from split_at_pane_position [OF this, of 2 exact Vertical 9] leaves show ?thesis
    by (auto simp: Cons_eq_append_conv)
qed

text \<open>
  Removing a pane that was just split off gives back the layout it was split from, up to the sizes: the same
  containers, directions and panes in the same places.
\<close>

theorem split_then_remove:
  assumes "layout_reach A t" "new \<notin> set (collect_leaves t)" "split_at_pane A t target d new = (True, t')"
  shows "\<exists>u. remove_pane A new t' = (Some u, True) \<and> layout_shape u = layout_shape t"
  using unsplit(1) [of t new A "\<lambda>p. p = target" d] assms reach_wf [OF assms(1)] by (simp add: split_at_pane_def)

theorem split_then_remove_witness:
  "\<exists>t' u. split_at_pane exact (sample_tree exact) 3 Horizontal 9 = (True, t') \<and> remove_pane exact 9 t' = (Some u, True) \<and>
     layout_shape u = layout_shape (sample_tree exact)"
proof -
  have "\<exists>t'. split_at_pane exact (sample_tree exact) 3 Horizontal 9 = (True, t')"
    by (simp add: sample_tree_eq new_split_def split_at_pane_def)
  then obtain t' where t': "split_at_pane exact (sample_tree exact) 3 Horizontal 9 = (True, t')" by blast
  from split_then_remove [OF sample_tree_reach _ t'] t' show ?thesis
    by (auto simp: sample_tree_eq new_split_def)
qed

text \<open>
  C33. Closing never panics. When a pane is focused, exactly the first focused one is closed, the others keep their
  order, and the focus moves to a neighbour of the closed pane in that order, if one is left.
\<close>

theorem close_focused_neighbor:
  assumes "layout_reach A t"
  shows "\<exists>r closed neighbor. close_focused A focused t = Some (r, closed, neighbor) \<and>
    (if \<exists>p\<in>set (collect_leaves t). focused p then closed \<and>
      (\<exists>xs p ys. collect_leaves t = xs @ p # ys \<and> focused p \<and> (\<forall>q\<in>set xs. \<not> focused q) \<and>
        (case r of None \<Rightarrow> xs @ ys = [] \<and> neighbor = None
         | Some u \<Rightarrow> collect_leaves u = xs @ ys \<and> (xs \<noteq> [] \<and> neighbor = Some (last xs) \<or> ys \<noteq> [] \<and> neighbor = Some (hd ys))))
     else r = Some t \<and> \<not> closed \<and> neighbor = None)"
proof -
  obtain r closed nb where res: "close_focused A focused t = Some (r, closed, nb)"
    "if closed then closes focused t r nb else r = Some t \<and> nb = None \<and> (\<forall>p\<in>set (collect_leaves t). \<not> focused p)"
    using close_focused_spec [of t focused A] reach_wf [OF assms] unfolding closes_spec_def by blast
  show ?thesis
  proof (cases closed)
    case True
    with res(2) obtain xs p ys where c: "collect_leaves t = xs @ p # ys" "focused p" "\<forall>q\<in>set xs. \<not> focused q"
      "case r of None \<Rightarrow> xs @ ys = [] \<and> nb = None
       | Some u \<Rightarrow> collect_leaves u = xs @ ys \<and> (xs \<noteq> [] \<and> nb = Some (last xs) \<or> ys \<noteq> [] \<and> nb = Some (hd ys))"
      unfolding closes_def by (cases r) auto
    then have "\<exists>p\<in>set (collect_leaves t). focused p" by auto
    with True res(1) c show ?thesis by auto
  next
    case False
    with res show ?thesis by auto
  qed
qed

theorem close_focused_neighbor_witness:
  "\<exists>u. close_focused exact (\<lambda>p. p = 2) (sample_tree exact) = Some (Some u, True, Some 3) \<and> collect_leaves u = [1, 3]"
proof -
  have "close_focused exact (\<lambda>p. p = 2) (sample_tree exact) =
      Some (Some (new_split exact Vertical (Leaf 1) (Leaf 3)), True, Some 3)"
    by (simp add: sample_tree_eq new_split_def cl_push_def close_neighbor_def close_rest_def normalize_ratios_def)
  with close_focused_neighbor [OF sample_tree_reach, of exact "\<lambda>p. p = 2"] show ?thesis
    by (simp add: new_split_def)
qed

text \<open>
  Removing a pane returns a layout of the other panes in their order, or none when no other pane is left, and says
  whether the pane was there.
\<close>

theorem remove_pane_leaves:
  assumes "layout_reach A t"
  shows "snd (remove_pane A target t) = (target \<in> set (collect_leaves t)) \<and>
    (case fst (remove_pane A target t) of None \<Rightarrow> collect_leaves t = [target]
     | Some u \<Rightarrow> wf_layout u \<and> collect_leaves u = remove1 target (collect_leaves t))"
proof -
  have wf: "wf_layout t" "distinct (collect_leaves t)" using reach_wf [OF assms] by blast+
  have "collect_leaves t = [target]" if "filter (\<lambda>p. p \<noteq> target) (collect_leaves t) = []"
  proof -
    have "\<forall>p\<in>set (collect_leaves t). p = target" using that by (simp add: filter_empty_conv)
    with wf(2) wf_layout_leaves [OF wf(1)] show ?thesis by (cases "collect_leaves t" rule: remdups_adj.cases) auto
  qed
  with remove_pane_spec [OF wf(1), where A = A and target = target] wf(2) show ?thesis
    by (auto simp: distinct_remove1_removeAll removeAll_filter_not_eq eq_commute split: prod.splits option.splits)
qed

theorem remove_pane_leaves_witness:
  "snd (remove_pane exact 2 (sample_tree exact)) \<and>
   (\<exists>u. fst (remove_pane exact 2 (sample_tree exact)) = Some u \<and> collect_leaves u = [1, 3])"
  using remove_pane_leaves [OF sample_tree_reach, of exact 2]
  by (auto simp: sample_tree_eq new_split_def split: option.splits)

text \<open>
  Every arrangement shows exactly the panes it is given, in their order, in containers of at least two children: the
  grid of any number of panes is built without a panic, whatever its last row holds, and so are the equal split
  and the main pane with the others beside it.
\<close>

theorem arrangements_keep_panes:
  "runs (tiled A panes) (\<lambda>r. case r of None \<Rightarrow> panes = [] | Some t \<Rightarrow> wf_layout t \<and> collect_leaves t = panes) \<and>
   runs (main_vertical A p others) (\<lambda>r. case r of None \<Rightarrow> False | Some t \<Rightarrow> wf_layout t \<and> collect_leaves t = p # others) \<and>
   (case from_panes_equal A d panes of None \<Rightarrow> panes = [] | Some t \<Rightarrow> wf_layout t \<and> collect_leaves t = panes)"
proof (intro conjI)
  show "runs (tiled A panes) (\<lambda>r. case r of None \<Rightarrow> panes = [] | Some t \<Rightarrow> wf_layout t \<and> collect_leaves t = panes)"
    by (rule runs_mono [OF runs_tiled [of A "\<lambda>_. True" panes]]) (auto split: option.splits)
  show "runs (main_vertical A p others) (\<lambda>r. case r of None \<Rightarrow> False | Some t \<Rightarrow> wf_layout t \<and> collect_leaves t = p # others)"
    using main_vertical_spec [of A p others] by auto
  show "case from_panes_equal A d panes of None \<Rightarrow> panes = [] | Some t \<Rightarrow> wf_layout t \<and> collect_leaves t = panes"
    using from_panes_equal_spec [of panes A d] by (cases "panes = []") (auto simp: from_panes_equal_def)
qed

end
