(* ===== verification/Layout_Drag.thy ===== *)
theory Layout_Drag
  imports Layout_Tree
begin

text \<open>
  Dragging a divider of a container (\<open>render_with_preview\<close> in \<open>src-app/src/layout/render.rs\<close>). The closures that
  handle the mouse are built when the container is rendered: \<open>drag_frame\<close> is what they capture then, and the cells of
  the ratios they share with the tree are named by the indices of the docked children. The tree, the mouse button
  and the position are read when the event comes.
\<close>

record 'f drag_frame =
  df_docked :: "nat list"
  df_visible_ratio :: 'f
  df_minimums :: "'f list"
  df_divider_px :: 'f

definition docked_indices :: "('p \<Rightarrow> bool) \<Rightarrow> ('p, 'f) LayoutChild list \<Rightarrow> nat list" where
  "docked_indices detached children =
     filter (\<lambda>i. has_docked_panes detached (lc_node (children ! i))) [0..<length children]"

definition render_frame :: "'f arith \<Rightarrow> ('p \<Rightarrow> bool) \<Rightarrow> 'f \<Rightarrow> SplitDirection \<Rightarrow> ('p, 'f) LayoutChild list \<Rightarrow> 'f drag_frame" where
  "render_frame A detached divider_px dir children =
     (let docked = docked_indices detached children
      in \<lparr>df_docked = docked,
          df_visible_ratio = f_sum A (map (\<lambda>i. lc_ratio (children ! i)) docked),
          df_minimums = map (\<lambda>i. docked_min_main_axis_px A detached dir divider_px (lc_node (children ! i))) docked,
          df_divider_px = divider_px\<rparr>)"

definition available_main_axis_px :: "'f arith \<Rightarrow> 'f \<Rightarrow> nat \<Rightarrow> 'f \<Rightarrow> 'f" where
  "available_main_axis_px A container_px child_count divider_px =
     (let dividers_px = f_mul A divider_px (f_of_nat A (child_count - 1))
      in f_max A (f_sub A container_px dividers_px) (f_lit A 0))"

definition set_ratio :: "('p, 'f) LayoutChild list \<Rightarrow> nat list \<Rightarrow> nat \<Rightarrow> 'f \<Rightarrow> ('p, 'f) LayoutChild list" where
  "set_ratio children docked k r =
     (if k < length docked then children[docked ! k := with_ratio (children ! (docked ! k)) r] else children)"

text \<open>Pressing the button on the divider between the docked children \<open>divider_idx\<close> and \<open>divider_idx + 1\<close>.\<close>

definition begin_drag :: "nat list \<Rightarrow> nat \<Rightarrow> 'f \<Rightarrow> ('p, 'f) LayoutChild list \<Rightarrow> 'f drag_state" where
  "begin_drag docked divider_idx pos children =
     \<lparr>dr_divider_idx = divider_idx, dr_start_pos = pos,
      dr_start_ratio_before = lc_ratio (children ! (docked ! divider_idx)),
      dr_start_ratio_after = lc_ratio (children ! (docked ! (divider_idx + 1)))\<rparr>"

definition nth_or :: "'a list \<Rightarrow> nat \<Rightarrow> 'a \<Rightarrow> 'a" where
  "nth_or xs i d = (if i < length xs then xs ! i else d)"

definition drag_move :: "'f arith \<Rightarrow> 'f drag_frame \<Rightarrow> bool \<Rightarrow> 'f \<Rightarrow> ('p, 'f) LayoutTree \<Rightarrow> ('p, 'f) LayoutTree option" where
  "drag_move A fr pressed pos t = (case t of
     Container dir children (Some ds) container_size \<Rightarrow>
       if \<not> pressed then Some (Container dir children None container_size)
       else
         let csize = available_main_axis_px A container_size (length (df_docked fr)) (df_divider_px fr)
         in if f_le A csize (f_lit A 0) then Some t
            else
              let delta = f_sub A pos (dr_start_pos ds);
                  min_before = nth_or (df_minimums fr) (dr_divider_idx ds) (f_lit A MIN_PANE_SIZE);
                  min_after = nth_or (df_minimums fr) (dr_divider_idx ds + 1) (f_lit A MIN_PANE_SIZE)
              in do {
                resized \<leftarrow> resize_adjacent_ratios A (f_div A (dr_start_ratio_before ds) (df_visible_ratio fr))
                  (f_div A (dr_start_ratio_after ds) (df_visible_ratio fr)) delta csize min_before min_after;
                Some (case resized of None \<Rightarrow> t
                  | Some (new_before, new_after) \<Rightarrow>
                      Container dir
                        (set_ratio (set_ratio children (df_docked fr) (dr_divider_idx ds)
                             (f_mul A new_before (df_visible_ratio fr)))
                           (df_docked fr) (dr_divider_idx ds + 1) (f_mul A new_after (df_visible_ratio fr)))
                        (Some ds) container_size)
              }
   | _ \<Rightarrow> Some t)"

text \<open>Releasing the button, and a change of the container's size by more than a pixel, end the drag.\<close>

definition finish_drag :: "('p, 'f) LayoutTree \<Rightarrow> ('p, 'f) LayoutTree" where
  "finish_drag t = (case t of Container dir children drag sz \<Rightarrow> Container dir children None sz | Leaf p \<Rightarrow> Leaf p)"

definition capture_size :: "'f arith \<Rightarrow> 'f \<Rightarrow> ('p, 'f) LayoutTree \<Rightarrow> ('p, 'f) LayoutTree" where
  "capture_size A main_axis t = (case t of
     Leaf p \<Rightarrow> Leaf p
   | Container dir children drag prev \<Rightarrow>
       Container dir children
         (if f_lt A (f_lit A 0) prev \<and> f_lt A (f_lit A 1) (f_abs A (f_sub A prev main_axis)) then None else drag) main_axis)"

section \<open>A resize in exact arithmetic\<close>

lemma resize_exact:
  assumes "0 < a" "0 < b" "0 < m" "0 < n"
  shows "\<exists>r. resize_adjacent_ratios exact a b delta c m n = Some r \<and>
    (case r of None \<Rightarrow> c \<le> 0 | Some (a', b') \<Rightarrow> 0 < a' \<and> 0 < b' \<and> a' + b' = a + b \<and>
      (m / c + n / c \<le> a + b \<longrightarrow> m / c \<le> a' \<and> n / c \<le> b'))"
proof (cases "c \<le> 0")
  case True
  then show ?thesis using assms by (simp add: resize_adjacent_ratios_def)
next
  case False
  then have c: "0 < c" "0 < m / c" "0 < n / c" using assms by simp_all
  let ?lo = "min (m / c) (a + b)" and ?hi = "a + b - min (n / c) (a + b)"
  show ?thesis
  proof (cases "?hi < ?lo")
    case True
    then have "m / c + n / c > a + b" using c by (auto simp: min_def split: if_splits)
    with True show ?thesis using assms c by (simp add: resize_adjacent_ratios_def Let_def max_def)
  next
    case le: False
    let ?x = "if a + delta / c < ?lo then ?lo else if ?hi < a + delta / c then ?hi else a + delta / c"
    have "resize_adjacent_ratios exact a b delta c m n = Some (Some (?x, a + b - ?x))"
    proof -
      have "max m 0 = m" "max n 0 = n" "\<not> c \<le> 0" "\<not> a + b \<le> 0" "?lo \<le> ?hi" using assms c le by simp_all
      then show ?thesis unfolding resize_adjacent_ratios_def Let_def exact_sel of_rat_0 f_clamp_def
        by (simp only: le if_True if_False simp_thms bind.simps)
    qed
    moreover have "?lo \<le> ?x" "?x \<le> ?hi" using le by auto
    ultimately obtain x where x: "resize_adjacent_ratios exact a b delta c m n = Some (Some (x, a + b - x))" "?lo \<le> x" "x \<le> ?hi"
      by blast
    have "0 < ?lo" "0 < min (n / c) (a + b)" using c assms by simp_all
    then have "0 < x" "0 < a + b - x" using x(2,3) by linarith+
    moreover have "m / c \<le> x \<and> n / c \<le> a + b - x" if "m / c + n / c \<le> a + b"
    proof -
      have "m / c \<le> a + b" "n / c \<le> a + b" using that c(2,3) by linarith+
      then have "?lo = m / c" "min (n / c) (a + b) = n / c" by (simp_all only: min_absorb1)
      with x(2,3) show ?thesis by linarith
    qed
    ultimately show ?thesis using x(1) by simp
  qed
qed

lemma has_docked_iff: "has_docked_panes detached t \<longleftrightarrow> (\<exists>p\<in>set (collect_leaves t). \<not> detached p)"
  by (simp add: has_docked_panes_def any_leaf_iff)

lemma docked_min_exact:
  fixes t :: "('p, real) LayoutTree" and cs :: "('p, real) LayoutChild list"
  shows "A = exact \<Longrightarrow> 0 \<le> divider_px \<Longrightarrow>
    0 \<le> docked_min_main_axis_px A detached axis divider_px t \<and>
    (has_docked_panes detached t \<longrightarrow> 0 < docked_min_main_axis_px A detached axis divider_px t)"
  and "A = exact \<Longrightarrow> 0 \<le> divider_px \<Longrightarrow> 0 \<le> snd st \<Longrightarrow>
    snd st \<le> snd (docked_min_loop A detached axis divider_px direction st cs) \<and>
    ((\<exists>c\<in>set cs. has_docked_panes detached (lc_node c)) \<longrightarrow> 0 < snd (docked_min_loop A detached axis divider_px direction st cs))"
proof (induction A detached axis divider_px t and A detached axis divider_px direction st cs
    rule: docked_min_main_axis_px_docked_min_loop.induct)
  case (1 A detached axis divider_px p)
  then show ?case by (simp add: has_docked_iff MIN_PANE_SIZE_def)
next
  case (2 A detached axis divider_px direction cs drag sz)
  let ?r = "docked_min_loop A detached axis divider_px direction (0, f_lit A 0) cs"
  have "0 \<le> snd ?r \<and> ((\<exists>c\<in>set cs. has_docked_panes detached (lc_node c)) \<longrightarrow> 0 < snd ?r)" using 2 by simp
  moreover have "0 \<le> divider_px * real (fst ?r - 1)" using 2(3) by simp
  moreover have "has_docked_panes detached (Container direction cs drag sz) \<longleftrightarrow> (\<exists>c\<in>set cs. has_docked_panes detached (lc_node c))"
    by (auto simp: has_docked_iff)
  ultimately show ?case using 2(2) by (auto simp: split_beta intro: add_nonneg_nonneg add_pos_nonneg)
next
  case (4 A detached axis divider_px direction count minimum node ratio cs)
  let ?m = "docked_min_main_axis_px A detached axis divider_px node"
  let ?st = "if f_le A ?m (f_lit A 0) \<and> f_le A (f_lit A 0) ?m then (count, minimum)
     else (count + 1, if direction = axis then f_add A minimum ?m else f_max A minimum ?m)"
  have m: "0 \<le> ?m" "has_docked_panes detached node \<longrightarrow> 0 < ?m" using 4(1,3,4) by blast+
  have st: "0 \<le> snd ?st" "minimum \<le> snd ?st" "has_docked_panes detached node \<longrightarrow> 0 < snd ?st"
    using m 4(3,5) by auto
  have "snd ?st \<le> snd (docked_min_loop A detached axis divider_px direction ?st cs) \<and>
    ((\<exists>c\<in>set cs. has_docked_panes detached (lc_node c)) \<longrightarrow> 0 < snd (docked_min_loop A detached axis divider_px direction ?st cs))"
    using 4(2) [OF refl 4(3,4) st(1)] .
  with st show ?case by (auto simp: Let_def)
qed simp

section \<open>A drag in exact arithmetic\<close>

datatype 'f drag_event = Move "'f drag_frame" bool 'f | Release | Resized 'f

fun drag_step :: "'f arith \<Rightarrow> ('p, 'f) LayoutTree \<Rightarrow> 'f drag_event \<Rightarrow> ('p, 'f) LayoutTree option" where
  "drag_step A t (Move fr pressed pos) = drag_move A fr pressed pos t"
| "drag_step A t Release = Some (finish_drag t)"
| "drag_step A t (Resized main_axis) = Some (capture_size A main_axis t)"

text \<open>Frames rendered from the same children, with whatever positive ratios they had then.\<close>

definition frame_of :: "('p \<Rightarrow> bool) \<Rightarrow> SplitDirection \<Rightarrow> ('p, real) LayoutTree list \<Rightarrow> real drag_frame \<Rightarrow> bool" where
  "frame_of detached dir nodes fr \<longleftrightarrow> (\<exists>cs divider_px. map lc_node cs = nodes \<and> (\<forall>c\<in>set cs. 0 < lc_ratio c) \<and> 0 \<le> divider_px \<and>
     fr = render_frame exact detached divider_px dir cs)"

definition dragging :: "('p \<Rightarrow> bool) \<Rightarrow> SplitDirection \<Rightarrow> ('p, real) LayoutChild list \<Rightarrow> nat \<Rightarrow> ('p, real) LayoutTree \<Rightarrow> bool" where
  "dragging detached dir cs0 k t \<longleftrightarrow> (\<exists>cs drag sz. t = Container dir cs drag sz \<and> map lc_node cs = map lc_node cs0 \<and>
     (\<forall>c\<in>set cs. 0 < lc_ratio c) \<and> sum_list (map lc_ratio cs) = 1 \<and>
     (let docked = docked_indices detached cs0
      in (\<forall>j<length cs. j \<noteq> docked ! k \<and> j \<noteq> docked ! (k + 1) \<longrightarrow> lc_ratio (cs ! j) = lc_ratio (cs0 ! j)) \<and>
         (case drag of None \<Rightarrow> True | Some ds \<Rightarrow> dr_divider_idx ds = k \<and> 0 < dr_start_ratio_before ds \<and> 0 < dr_start_ratio_after ds \<and>
            dr_start_ratio_before ds + dr_start_ratio_after ds =
              lc_ratio (cs ! (docked ! k)) + lc_ratio (cs ! (docked ! (k + 1))))))"

lemma docked_indices_cong: "map lc_node cs = map lc_node cs' \<Longrightarrow> docked_indices detached cs = docked_indices detached cs'"
proof -
  assume eq: "map lc_node cs = map lc_node cs'"
  then have len: "length cs = length cs'" by (metis length_map)
  have "lc_node (cs ! i) = lc_node (cs' ! i)" if "i < length cs" for i using eq that len by (metis nth_map)
  then show ?thesis unfolding docked_indices_def by (auto simp: len intro!: filter_cong)
qed

lemma docked_indices_nth:
  assumes "k < length (docked_indices detached cs)"
  shows "docked_indices detached cs ! k < length cs" "has_docked_panes detached (lc_node (cs ! (docked_indices detached cs ! k)))"
  using nth_mem [OF assms] by (auto simp: docked_indices_def)

lemma docked_indices_distinct: "Suc k < length (docked_indices detached cs) \<Longrightarrow>
    docked_indices detached cs ! k \<noteq> docked_indices detached cs ! Suc k"
  by (simp add: nth_eq_iff_index_eq docked_indices_def)

lemma sum_list_upd2:
  fixes f :: "'a \<Rightarrow> real"
  assumes "i < length xs" "j < length xs" "i \<noteq> j" "f x + f y = f (xs ! i) + f (xs ! j)"
  shows "sum_list (map f (xs[i := x, j := y])) = sum_list (map f xs)"
proof -
  have upd: "sum_list (map f (zs[n := z])) = sum_list (map f zs) + f z - f (zs ! n)" if "n < length zs" for zs n z
    using that by (induction zs arbitrary: n) (auto split: nat.splits)
  show ?thesis using assms by (simp add: upd)
qed

lemma render_frame_exact:
  assumes "frame_of detached dir (map lc_node cs0) fr" "Suc k < length (docked_indices detached cs0)"
  shows "df_docked fr = docked_indices detached cs0" "0 < df_visible_ratio fr"
    "0 < nth_or (df_minimums fr) k (f_lit exact MIN_PANE_SIZE)" "0 < nth_or (df_minimums fr) (k + 1) (f_lit exact MIN_PANE_SIZE)"
proof -
  obtain cs divider_px where cs: "map lc_node cs = map lc_node cs0" "\<forall>c\<in>set cs. 0 < lc_ratio c" "0 \<le> divider_px"
    "fr = render_frame exact detached divider_px dir cs" using assms(1) unfolding frame_of_def by blast
  have docked: "docked_indices detached cs = docked_indices detached cs0" using docked_indices_cong [OF cs(1)] .
  then show "df_docked fr = docked_indices detached cs0" using cs(4) by (simp add: render_frame_def Let_def)
  let ?d = "docked_indices detached cs"
  have "0 < sum_list (map (\<lambda>i. lc_ratio (cs ! i)) ?d)"
  proof (rule sum_list_pos)
    show "map (\<lambda>i. lc_ratio (cs ! i)) ?d \<noteq> []" using assms(2) docked by auto
  next
    fix x assume "x \<in> set (map (\<lambda>i. lc_ratio (cs ! i)) ?d)"
    then show "0 < x" using cs(2) by (auto simp: docked_indices_def)
  qed
  then show "0 < df_visible_ratio fr" using cs(4) by (simp add: render_frame_def Let_def)
  have "0 < nth_or (df_minimums fr) j (f_lit exact MIN_PANE_SIZE)" if "j < length ?d" for j
    using docked_min_exact(1) [OF refl cs(3), of detached dir "lc_node (cs ! (?d ! j))"] docked_indices_nth(2) [OF that] that cs(4)
    by (simp add: nth_or_def render_frame_def Let_def)
  then show "0 < nth_or (df_minimums fr) k (f_lit exact MIN_PANE_SIZE)" "0 < nth_or (df_minimums fr) (k + 1) (f_lit exact MIN_PANE_SIZE)"
    using assms(2) docked by simp_all
qed

lemma dragging_resized:
  assumes drag: "dragging detached dir cs0 k (Container dir cs (Some ds) sz)" and k: "Suc k < length (docked_indices detached cs0)"
    and new: "0 < a" "0 < b" "a + b = dr_start_ratio_before ds + dr_start_ratio_after ds"
  shows "dragging detached dir cs0 k (Container dir
    (set_ratio (set_ratio cs (docked_indices detached cs0) k a) (docked_indices detached cs0) (k + 1) b) (Some ds) sz)"
proof -
  define i j where "i = docked_indices detached cs0 ! k" and "j = docked_indices detached cs0 ! Suc k"
  have d: "map lc_node cs = map lc_node cs0" "\<forall>c\<in>set cs. 0 < lc_ratio c" "sum_list (map lc_ratio cs) = 1"
    "\<forall>l<length cs. l \<noteq> i \<and> l \<noteq> j \<longrightarrow> lc_ratio (cs ! l) = lc_ratio (cs0 ! l)" "dr_divider_idx ds = k"
    "0 < dr_start_ratio_before ds" "0 < dr_start_ratio_after ds"
    "dr_start_ratio_before ds + dr_start_ratio_after ds = lc_ratio (cs ! i) + lc_ratio (cs ! j)"
    using drag unfolding dragging_def i_def j_def by (auto simp: Let_def)
  have len: "length cs = length cs0" using d(1) by (metis length_map)
  have ij: "i < length cs" "j < length cs" "i \<noteq> j"
    using docked_indices_nth(1) [of k detached cs0] docked_indices_nth(1) [of "Suc k" detached cs0] docked_indices_distinct [OF k] k
    by (simp_all add: i_def j_def len)
  let ?cs = "cs[i := with_ratio (cs ! i) a, j := with_ratio (cs ! j) b]"
  have eq: "set_ratio (set_ratio cs (docked_indices detached cs0) k a) (docked_indices detached cs0) (k + 1) b = ?cs"
    using k ij by (simp add: set_ratio_def i_def j_def)
  have nodes: "map lc_node ?cs = map lc_node cs0"
    using ij list_update_id [of "map lc_node cs"] by (metis d(1) map_update nth_map with_ratio_sel(1))
  have pos: "\<forall>c\<in>set ?cs. 0 < lc_ratio c"
    using d(2) new(1,2) set_update_subset_insert by (fastforce dest: subsetD [OF set_update_subset_insert])
  have total: "sum_list (map lc_ratio ?cs) = 1"
    using sum_list_upd2 [OF ij, of lc_ratio "with_ratio (cs ! i) a" "with_ratio (cs ! j) b"] new(3) d(3,8) by simp
  show ?thesis unfolding eq dragging_def Let_def using nodes pos total d(4-8) new(3) ij
    by (simp add: i_def [symmetric] j_def [symmetric] nth_list_update)
qed

lemma runs_drag_move:
  assumes drag: "dragging detached dir cs0 k t" and k: "Suc k < length (docked_indices detached cs0)"
    and fr: "frame_of detached dir (map lc_node cs0) fr"
  shows "runs (drag_move exact fr pressed pos t) (dragging detached dir cs0 k)"
proof -
  obtain cs dr sz where t: "t = Container dir cs dr sz" using drag unfolding dragging_def by blast
  show ?thesis
  proof (cases dr)
    case None
    then show ?thesis using drag by (simp add: drag_move_def t)
  next
    case (Some ds)
    note frame = render_frame_exact [OF fr k]
    have idx: "dr_divider_idx ds = k" and start: "0 < dr_start_ratio_before ds" "0 < dr_start_ratio_after ds"
      using drag t Some unfolding dragging_def by (auto simp: Let_def)
    have stop: "dragging detached dir cs0 k (Container dir cs None sz)"
      using drag t Some unfolding dragging_def by (auto simp: Let_def)
    let ?v = "df_visible_ratio fr" and ?m = "nth_or (df_minimums fr) k (f_lit exact MIN_PANE_SIZE)"
      and ?n = "nth_or (df_minimums fr) (k + 1) (f_lit exact MIN_PANE_SIZE)"
      and ?c = "available_main_axis_px exact sz (length (df_docked fr)) (df_divider_px fr)" and ?delta = "pos - dr_start_pos ds"
    obtain r where r: "resize_adjacent_ratios exact (dr_start_ratio_before ds / ?v) (dr_start_ratio_after ds / ?v) ?delta ?c ?m ?n = Some r"
      "case r of None \<Rightarrow> True | Some (a, b) \<Rightarrow> 0 < a \<and> 0 < b \<and> a + b = dr_start_ratio_before ds / ?v + dr_start_ratio_after ds / ?v"
      using resize_exact [of "dr_start_ratio_before ds / ?v" "dr_start_ratio_after ds / ?v" ?m ?n ?delta ?c] start frame(2-4)
      by (fastforce split: option.splits)
    have move: "dragging detached dir cs0 k (Container dir
        (set_ratio (set_ratio cs (df_docked fr) k (a * ?v)) (df_docked fr) (k + 1) (b * ?v)) (Some ds) sz)" if "r = Some (a, b)" for a b
    proof -
      have "a * ?v + b * ?v = dr_start_ratio_before ds + dr_start_ratio_after ds"
        using r(2) that frame(2) by (simp add: distrib_right [symmetric]) (simp add: field_simps)
      then show ?thesis unfolding frame(1)
        using dragging_resized [OF drag [unfolded t Some] k, of "a * ?v" "b * ?v"] r(2) that frame(2) by simp
    qed
    show ?thesis using drag stop move r(1) unfolding drag_move_def t Some
      by (auto simp: Let_def idx runs_if split: option.splits)
  qed
qed

lemma dragging_size: "dragging detached dir cs0 k (Container d cs drag sz) \<Longrightarrow> dragging detached dir cs0 k (Container d cs drag sz')"
  unfolding dragging_def by auto

lemma dragging_stop: "dragging detached dir cs0 k (Container d cs drag sz) \<Longrightarrow> dragging detached dir cs0 k (Container d cs None sz')"
  unfolding dragging_def by (auto simp: Let_def)

lemma dragging_other:
  assumes "dragging detached dir cs0 k t"
  shows "dragging detached dir cs0 k (finish_drag t)" "dragging detached dir cs0 k (capture_size exact main_axis t)"
proof -
  obtain cs drag sz where t: "t = Container dir cs drag sz" using assms unfolding dragging_def by blast
  show "dragging detached dir cs0 k (finish_drag t)" "dragging detached dir cs0 k (capture_size exact main_axis t)"
    using assms dragging_size dragging_stop unfolding t finish_drag_def capture_size_def by auto
qed

fun event_ok :: "('p \<Rightarrow> bool) \<Rightarrow> SplitDirection \<Rightarrow> ('p, real) LayoutTree list \<Rightarrow> real drag_event \<Rightarrow> bool" where
  "event_ok detached dir nodes (Move fr pressed pos) \<longleftrightarrow> frame_of detached dir nodes fr"
| "event_ok detached dir nodes _ \<longleftrightarrow> True"

lemma runs_drag_steps:
  assumes "dragging detached dir cs k t" "Suc k < length (docked_indices detached cs)"
    "\<forall>e\<in>set events. event_ok detached dir (map lc_node cs) e"
  shows "runs (for_each (drag_step exact) t events) (dragging detached dir cs k)"
  using assms
proof (induction events arbitrary: t)
  case (Cons e events)
  have "runs (drag_step exact t e) (dragging detached dir cs k)"
    using Cons.prems runs_drag_move dragging_other by (cases e) auto
  then show ?case unfolding for_each.simps by (rule runs_bindI) (use Cons in auto)
qed simp

text \<open>
  C34. In exact arithmetic, a drag of a divider never panics and keeps a layout sound: after the button goes down on the
  divider between two docked children, whatever moves, releases and size changes follow, and whichever
  rendering of the container handles them, the ratios stay positive and sum up to one, and only those of the two
  children beside the divider change.
\<close>

theorem drag_keeps_ratios:
  assumes "ratios_ok (Container dir cs drag sz)" "Suc k < length (docked_indices detached cs)"
    and "\<forall>e\<in>set events. event_ok detached dir (map lc_node cs) e"
  shows "runs (for_each (drag_step exact)
      (Container dir cs (Some (begin_drag (docked_indices detached cs) k pos cs)) sz) events) (\<lambda>t.
    \<exists>cs' drag' sz'. t = Container dir cs' drag' sz' \<and> ratios_ok t \<and> map lc_node cs' = map lc_node cs \<and>
      (\<forall>j<length cs. j \<noteq> docked_indices detached cs ! k \<and> j \<noteq> docked_indices detached cs ! (k + 1) \<longrightarrow>
        lc_ratio (cs' ! j) = lc_ratio (cs ! j)))"
proof -
  let ?ds = "begin_drag (docked_indices detached cs) k pos cs"
  have "0 < lc_ratio (cs ! (docked_indices detached cs ! k))" "0 < lc_ratio (cs ! (docked_indices detached cs ! Suc k))"
    using assms(1) docked_indices_nth(1) [of k detached cs] docked_indices_nth(1) [of "Suc k" detached cs] assms(2) by auto
  with assms(1) have "dragging detached dir cs k (Container dir cs (Some ?ds) sz)"
    unfolding dragging_def by (simp add: begin_drag_def Let_def)
  from runs_drag_steps [OF this assms(2,3)] show ?thesis
  proof (rule runs_mono)
    fix t assume "dragging detached dir cs k t"
    then obtain cs' drag' sz' where t: "t = Container dir cs' drag' sz'" "map lc_node cs' = map lc_node cs"
      "\<forall>c\<in>set cs'. 0 < lc_ratio c" "sum_list (map lc_ratio cs') = 1"
      "\<forall>j<length cs'. j \<noteq> docked_indices detached cs ! k \<and> j \<noteq> docked_indices detached cs ! (k + 1) \<longrightarrow>
        lc_ratio (cs' ! j) = lc_ratio (cs ! j)" unfolding dragging_def Let_def by blast
    have len: "length cs' = length cs" using t(2) by (metis length_map)
    have "lc_node ` set cs' = lc_node ` set cs" using t(2) by (metis list.set_map)
    then have "\<forall>c\<in>set cs'. ratios_ok (lc_node c)" using assms(1) by (metis (no_types, lifting) image_iff ratios_ok.simps(2))
    with t len show "\<exists>cs' drag' sz'. t = Container dir cs' drag' sz' \<and> ratios_ok t \<and> map lc_node cs' = map lc_node cs \<and>
      (\<forall>j<length cs. j \<noteq> docked_indices detached cs ! k \<and> j \<noteq> docked_indices detached cs ! (k + 1) \<longrightarrow>
        lc_ratio (cs' ! j) = lc_ratio (cs ! j))" by auto
  qed
qed

text \<open>Two panes of equal size in 1008 pixels; the divider is dragged by 100 pixels and released.\<close>

definition sample_children :: "(nat, real) LayoutChild list" where
  "sample_children = [LayoutChild (Leaf 1) (1 / 2), LayoutChild (Leaf 2) (1 / 2)]"

definition sample_frame :: "real drag_frame" where
  "sample_frame = render_frame exact (\<lambda>_. False) 8 Vertical sample_children"

theorem drag_keeps_ratios_witness:
  "runs (for_each (drag_step exact)
      (Container Vertical sample_children (Some (begin_drag [0, 1] 0 500 sample_children)) 1008)
      [Move sample_frame True 600, Release]) (\<lambda>t. ratios_ok t)"
proof -
  have docked: "docked_indices (\<lambda>_. False) sample_children = [0, 1]"
    by (simp add: docked_indices_def sample_children_def has_docked_panes_def upt_rec)
  have "frame_of (\<lambda>_. False) Vertical (map lc_node sample_children) sample_frame"
    unfolding frame_of_def sample_frame_def
    by (intro exI [of _ sample_children] exI [of _ 8]) (simp add: sample_children_def)
  then have ok: "\<forall>e\<in>set [Move sample_frame True 600, Release]. event_ok (\<lambda>_. False) Vertical (map lc_node sample_children) e" by simp
  have "ratios_ok (Container Vertical sample_children None 1008)" by (simp add: sample_children_def)
  from drag_keeps_ratios [OF this _ ok, of 0 500] docked show ?thesis by (auto elim!: runs_mono)
qed

definition split_children :: "real \<Rightarrow> real \<Rightarrow> real \<Rightarrow> (nat, real) LayoutChild list" where
  "split_children a b c = [LayoutChild (Leaf 1) a, LayoutChild (Leaf 3) b, LayoutChild (Leaf 2) c]"

definition sample_drag :: "real drag_state" where
  "sample_drag = begin_drag [0, 1] 0 500 sample_children"


end
