(* ===== verification/Layout_Navigation.thy ===== *)
theory Layout_Navigation
  imports Layout_Tree
begin

text \<open>
  Moving the focus in a layout (\<open>src-app/src/layout/navigation.rs\<close>): the rectangles of the docked panes in the unit
  square and the choice of the nearest one in a direction. What the code does to the window is returned: the
  pane that receives the focus.
\<close>

datatype FocusDirection = Left | Right | Up | Down

datatype FocusNav = NotHere | FocusedHere | Moved

record ('p, 'f) leaf_rect =
  lr_pane :: 'p
  lr_x :: 'f
  lr_y :: 'f
  lr_w :: 'f
  lr_h :: 'f

definition center_x :: "'f arith \<Rightarrow> ('p, 'f) leaf_rect \<Rightarrow> 'f" where
  "center_x A r = f_add A (lr_x r) (f_div A (lr_w r) (f_lit A 2))"

definition center_y :: "'f arith \<Rightarrow> ('p, 'f) leaf_rect \<Rightarrow> 'f" where
  "center_y A r = f_add A (lr_y r) (f_div A (lr_h r) (f_lit A 2))"

definition ratio_sum :: "'f arith \<Rightarrow> ('p, 'f) LayoutChild list \<Rightarrow> 'f" where
  "ratio_sum A children =
     f_sum A (filter (\<lambda>ratio. f_is_finite A ratio \<and> f_lt A (f_lit A 0) ratio) (map lc_ratio children))"

definition child_fraction :: "'f arith \<Rightarrow> ('p, 'f) LayoutChild \<Rightarrow> 'f \<Rightarrow> 'f \<Rightarrow> 'f" where
  "child_fraction A child ratios fallback =
     (let ratio = lc_ratio child
      in if f_le A ratios (f_lit A 0) then fallback
         else if f_is_finite A ratio \<and> f_lt A (f_lit A 0) ratio then f_div A ratio ratios
         else f_lit A 0)"

definition focus_score :: "'f arith \<Rightarrow> FocusDirection \<Rightarrow> ('p, 'f) leaf_rect \<Rightarrow> ('p, 'f) leaf_rect \<Rightarrow> ('f \<times> 'f) option" where
  "focus_score A dir current candidate =
     (let primary = (case dir of
            Left \<Rightarrow> f_sub A (center_x A current) (center_x A candidate)
          | Right \<Rightarrow> f_sub A (center_x A candidate) (center_x A current)
          | Up \<Rightarrow> f_sub A (center_y A current) (center_y A candidate)
          | Down \<Rightarrow> f_sub A (center_y A candidate) (center_y A current));
          cross = (case dir of
            Left \<Rightarrow> f_abs A (f_sub A (center_y A current) (center_y A candidate))
          | Right \<Rightarrow> f_abs A (f_sub A (center_y A current) (center_y A candidate))
          | Up \<Rightarrow> f_abs A (f_sub A (center_x A current) (center_x A candidate))
          | Down \<Rightarrow> f_abs A (f_sub A (center_x A current) (center_x A candidate)))
      in if f_lt A (f_lit A (1 / 10000)) primary then Some (primary, cross) else None)"

definition then_with :: "Ordering \<Rightarrow> Ordering \<Rightarrow> Ordering" where
  "then_with a b = (case a of Equal \<Rightarrow> b | _ \<Rightarrow> a)"

definition nat_cmp :: "nat \<Rightarrow> nat \<Rightarrow> Ordering" where
  "nat_cmp a b = (if a < b then Less else if a = b then Equal else Greater)"

definition compare_focus_score :: "'f arith \<Rightarrow> 'f \<times> 'f \<times> nat \<Rightarrow> 'f \<times> 'f \<times> nat \<Rightarrow> Ordering" where
  "compare_focus_score A = (\<lambda>(a0, a1, a2) (b0, b1, b2).
     then_with (then_with (f_total_cmp A a0 b0) (f_total_cmp A a1 b1)) (nat_cmp a2 b2))"

lemma size_filter_children [termination_simp]:
  "size_list size (filter p children) < Suc (size_list size children + k)"
  by (induction children) auto

function (sequential) collect_leaf_rects :: "'f arith \<Rightarrow> ('p \<Rightarrow> bool) \<Rightarrow> 'f \<times> 'f \<times> 'f \<times> 'f \<Rightarrow> ('p, 'f) LayoutTree \<Rightarrow> ('p, 'f) leaf_rect list"
and collect_child_rects :: "'f arith \<Rightarrow> ('p \<Rightarrow> bool) \<Rightarrow> 'f \<times> 'f \<times> 'f \<times> 'f \<Rightarrow> SplitDirection \<Rightarrow> 'f \<Rightarrow> 'f \<Rightarrow> 'f \<Rightarrow>
    ('p, 'f) LayoutChild list \<Rightarrow> ('p, 'f) leaf_rect list"
where
  "collect_leaf_rects A detached (x, y, w, h) (Leaf pane) =
     (if \<not> has_docked_panes detached (Leaf pane :: ('p, 'f) LayoutTree) then []
      else [\<lparr>lr_pane = pane, lr_x = x, lr_y = y, lr_w = w, lr_h = h\<rparr>])"
| "collect_leaf_rects A detached bounds (Container direction children drag container_size) =
     (if \<not> has_docked_panes detached (Container direction children drag container_size) then []
      else
        let children = filter (\<lambda>c. has_docked_panes detached (lc_node c)) children
        in if children = [] then []
           else collect_child_rects A detached bounds direction (ratio_sum A children)
                  (f_div A (f_lit A 1) (f_of_nat A (length children))) (f_lit A 0) children)"
| "collect_child_rects A detached (x, y, w, h) direction ratios fallback offset [] = []"
| "collect_child_rects A detached (x, y, w, h) direction ratios fallback offset (LayoutChild node ratio # children) =
     (let fraction = child_fraction A (LayoutChild node ratio) ratios fallback
      in case direction of
           Horizontal \<Rightarrow>
             let child_h = f_mul A h fraction
             in collect_leaf_rects A detached (x, f_add A y offset, w, child_h) node @
                collect_child_rects A detached (x, y, w, h) direction ratios fallback (f_add A offset child_h) children
         | Vertical \<Rightarrow>
             let child_w = f_mul A w fraction
             in collect_leaf_rects A detached (f_add A x offset, y, child_w, h) node @
                collect_child_rects A detached (x, y, w, h) direction ratios fallback (f_add A offset child_w) children)"
  by pat_completeness auto
termination
  by (relation "measure (\<lambda>a. case a of Inl (_, _, _, t) \<Rightarrow> size t | Inr (_, _, _, _, _, _, _, cs) \<Rightarrow> size_list size cs)")
    (auto simp: size_filter_children)

definition better :: "'f arith \<Rightarrow> ('f \<times> 'f \<times> nat) \<Rightarrow> (nat \<times> ('f \<times> 'f \<times> nat)) option \<Rightarrow> bool" where
  "better A score best = (case best of None \<Rightarrow> True | Some (_, best_score) \<Rightarrow> compare_focus_score A score best_score = Less)"

fun best_candidate :: "'f arith \<Rightarrow> FocusDirection \<Rightarrow> ('p, 'f) leaf_rect \<Rightarrow> nat \<Rightarrow> nat \<Rightarrow> (nat \<times> ('f \<times> 'f \<times> nat)) option \<Rightarrow>
    ('p, 'f) leaf_rect list \<Rightarrow> (nat \<times> ('f \<times> 'f \<times> nat)) option" where
  "best_candidate A dir current current_idx idx best [] = best"
| "best_candidate A dir current current_idx idx best (candidate # leaves) =
     (if idx = current_idx then best_candidate A dir current current_idx (Suc idx) best leaves
      else case focus_score A dir current candidate of
          None \<Rightarrow> best_candidate A dir current current_idx (Suc idx) best leaves
        | Some (primary, cross) \<Rightarrow>
            let score = (primary, cross, idx)
            in best_candidate A dir current current_idx (Suc idx) (if better A score best then Some (idx, score) else best) leaves)"

fun position :: "('a \<Rightarrow> bool) \<Rightarrow> 'a list \<Rightarrow> nat option" where
  "position p [] = None"
| "position p (x # xs) = (if p x then Some 0 else map_option Suc (position p xs))"

definition focus_in_direction :: "'f arith \<Rightarrow> ('p \<Rightarrow> bool) \<Rightarrow> ('p \<Rightarrow> bool) \<Rightarrow> FocusDirection \<Rightarrow> ('p, 'f) LayoutTree \<Rightarrow>
    FocusNav \<times> 'p option" where
  "focus_in_direction A focused detached dir t =
     (let leaves = collect_leaf_rects A detached (f_lit A 0, f_lit A 0, f_lit A 1, f_lit A 1) t
      in case position (\<lambda>leaf. focused (lr_pane leaf)) leaves of
           None \<Rightarrow> (NotHere, None)
         | Some current_idx \<Rightarrow>
             (case best_candidate A dir (leaves ! current_idx) current_idx 0 None leaves of
                None \<Rightarrow> (FocusedHere, None)
              | Some (target_idx, _) \<Rightarrow> (Moved, Some (lr_pane (leaves ! target_idx)))))"

fun focus_first :: "('p \<Rightarrow> bool) \<Rightarrow> ('p, 'f) LayoutTree \<Rightarrow> 'p option"
and focus_first_children :: "('p \<Rightarrow> bool) \<Rightarrow> ('p, 'f) LayoutChild list \<Rightarrow> 'p option"
where
  "focus_first detached (Leaf pane) = (if \<not> detached pane then Some pane else None)"
| "focus_first detached (Container direction children drag container_size) = focus_first_children detached children"
| "focus_first_children detached [] = None"
| "focus_first_children detached (LayoutChild node ratio # children) =
     (if has_docked_panes detached node then focus_first detached node else focus_first_children detached children)"

section \<open>The rectangles\<close>

lemma has_docked_leaves: "has_docked_panes detached t \<longleftrightarrow> filter (\<lambda>p. \<not> detached p) (collect_leaves t) \<noteq> []"
  by (auto simp: has_docked_panes_def any_leaf_iff filter_empty_conv)

lemma docked_child_leaves:
  "filter (\<lambda>p. \<not> detached p) (child_leaves (filter (\<lambda>c. has_docked_panes detached (lc_node c)) cs)) =
   filter (\<lambda>p. \<not> detached p) (child_leaves cs)"
  by (induction cs) (auto simp: has_docked_leaves)

lemma leaf_rects_panes:
  fixes t :: "('p, 'f) LayoutTree" and cs :: "('p, 'f) LayoutChild list"
  shows "map lr_pane (collect_leaf_rects A detached bounds t) = filter (\<lambda>p. \<not> detached p) (collect_leaves t)"
  and "map lr_pane (collect_child_rects A detached bounds direction ratios fallback offset cs) =
    filter (\<lambda>p. \<not> detached p) (child_leaves cs)"
proof (induction A detached bounds t and A detached bounds direction ratios fallback offset cs
    rule: collect_leaf_rects_collect_child_rects.induct)
  case (2 A detached bounds direction cs drag sz)
  let ?t = "Container direction cs drag sz" and ?cs = "filter (\<lambda>c. has_docked_panes detached (lc_node c)) cs"
  have "filter (\<lambda>p. \<not> detached p) (child_leaves ?cs) = filter (\<lambda>p. \<not> detached p) (collect_leaves ?t)"
    using docked_child_leaves [of detached cs] by simp
  then show ?case using 2 has_docked_leaves [of detached ?t] by (auto simp: Let_def)
next
  case (4 A detached x y w h direction ratios fallback offset node r cs)
  then show ?case by (cases direction) (simp_all add: Let_def)
qed (simp_all add: has_docked_panes_def)

definition inside :: "real \<times> real \<times> real \<times> real \<Rightarrow> real \<times> real \<Rightarrow> bool" where
  "inside = (\<lambda>(x, y, w, h) (px, py). x \<le> px \<and> px < x + w \<and> y \<le> py \<and> py < y + h)"

definition covers :: "('p, real) leaf_rect \<Rightarrow> real \<times> real \<Rightarrow> bool" where
  "covers r = inside (lr_x r, lr_y r, lr_w r, lr_h r)"

fun strip :: "SplitDirection \<Rightarrow> real \<times> real \<times> real \<times> real \<Rightarrow> real \<Rightarrow> real \<Rightarrow> real \<times> real \<times> real \<times> real" where
  "strip Horizontal (x, y, w, h) offset share = (x, y + offset, w, h * share)"
| "strip Vertical (x, y, w, h) offset share = (x + offset, y, w * share, h)"

lemma inside_split:
  assumes "0 \<le> a" "0 \<le> b"
  shows "of_bool (inside (x, y, w, a) p) + of_bool (inside (x, y + a, w, b) p) = (of_bool (inside (x, y, w, a + b) p) :: nat)"
    "of_bool (inside (x, y, a, h) p) + of_bool (inside (x + a, y, b, h) p) = (of_bool (inside (x, y, a + b, h) p) :: nat)"
  using assms by (cases p; auto simp: inside_def of_bool_def)+

lemma rects_tile:
  fixes t :: "('p, real) LayoutTree" and cs :: "('p, real) LayoutChild list"
  shows "A = exact \<Longrightarrow> ratios_ok t \<Longrightarrow> has_docked_panes detached t \<Longrightarrow> 0 \<le> fst (snd (snd bounds)) \<Longrightarrow> 0 \<le> snd (snd (snd bounds)) \<Longrightarrow>
    length (filter (\<lambda>r. covers r p) (collect_leaf_rects A detached bounds t)) = of_bool (inside bounds p)"
  and "A = exact \<Longrightarrow> \<forall>c\<in>set cs. 0 < lc_ratio c \<and> ratios_ok (lc_node c) \<and> has_docked_panes detached (lc_node c) \<Longrightarrow> 0 < ratios \<Longrightarrow>
    0 \<le> fst (snd (snd bounds)) \<Longrightarrow> 0 \<le> snd (snd (snd bounds)) \<Longrightarrow>
    length (filter (\<lambda>r. covers r p) (collect_child_rects A detached bounds direction ratios fallback offset cs)) =
      of_bool (inside (strip direction bounds offset (sum_list (map lc_ratio cs) / ratios)) p)"
proof (induction A detached bounds t and A detached bounds direction ratios fallback offset cs
    rule: collect_leaf_rects_collect_child_rects.induct)
  case (1 A detached x y w h pane)
  then show ?case by (simp add: covers_def)
next
  case (2 A detached bounds direction cs drag sz)
  obtain x y w h where b: "bounds = (x, y, w, h)" by (cases bounds)
  let ?cs = "filter (\<lambda>c. has_docked_panes detached (lc_node c)) cs"
  have ne: "?cs \<noteq> []" using 2(4) docked_child_leaves [of detached cs] by (auto simp: has_docked_leaves)
  have ok: "\<forall>c\<in>set ?cs. 0 < lc_ratio c \<and> ratios_ok (lc_node c) \<and> has_docked_panes detached (lc_node c)" using 2(3) by auto
  then have ratios: "ratio_sum exact ?cs = sum_list (map lc_ratio ?cs)"
  proof -
    have "filter (\<lambda>ratio. f_is_finite exact ratio \<and> f_lt exact (f_lit exact 0) ratio) (map lc_ratio ?cs) = map lc_ratio ?cs"
      by (rule filter_True) (use ok in auto)
    then show ?thesis unfolding ratio_sum_def f_sum_exact by simp
  qed
  have pos: "0 < sum_list (map lc_ratio ?cs)"
    using ok ne by (intro sum_list_pos) auto
  have strip: "strip direction bounds 0 1 = bounds" by (cases direction) (simp_all add: b)
  have "collect_leaf_rects A detached bounds (Container direction cs drag sz) =
      collect_child_rects A detached bounds direction (ratio_sum exact ?cs) (f_div A (f_lit A 1) (f_of_nat A (length ?cs))) 0 ?cs"
    using 2(2,4) ne by (simp add: Let_def)
  moreover have "length (filter (\<lambda>r. covers r p) (collect_child_rects A detached bounds direction (ratio_sum exact ?cs)
        (f_div A (f_lit A 1) (f_of_nat A (length ?cs))) 0 ?cs)) =
      of_bool (inside (strip direction bounds 0 (sum_list (map lc_ratio ?cs) / ratio_sum exact ?cs)) p)"
  proof -
    have "0 < ratio_sum A ?cs" using pos ratios 2(2) by simp
    from 2(1) [OF _ refl ne 2(2) ok this 2(5,6)] 2(2,4) show ?thesis by (simp only: exact_sel of_rat_0 simp_thms)
  qed
  ultimately show ?case using ratios pos strip by simp
next
  case (3 A detached x y w h direction ratios fallback offset)
  then show ?case by (cases direction; cases p) (simp_all add: inside_def)
next
  case (4 A detached x y w h direction ratios fallback offset node r cs)
  have fr: "child_fraction A (LayoutChild node r) ratios fallback = r / ratios"
    using 4(5-7) by (simp add: child_fraction_def)
  have r: "0 \<le> r / ratios" "0 \<le> sum_list (map lc_ratio cs) / ratios"
    using 4(6,7) by (auto intro!: divide_nonneg_pos sum_list_nonneg simp: less_imp_le)
  have sum: "sum_list (map lc_ratio (LayoutChild node r # cs)) / ratios = r / ratios + sum_list (map lc_ratio cs) / ratios"
    by (simp add: add_divide_distrib)
  show ?case
  proof (cases direction)
    case Horizontal
    let ?a = "h * (r / ratios)" and ?b = "h * (sum_list (map lc_ratio cs) / ratios)"
    have "0 \<le> ?a" "0 \<le> ?b" using 4(9) r by (simp_all only: mult_nonneg_nonneg snd_conv)
    moreover have "length (filter (\<lambda>r. covers r p) (collect_leaf_rects A detached (x, y + offset, w, ?a) node)) =
        of_bool (inside (x, y + offset, w, ?a) p)"
      using 4(1) [OF fr [symmetric] Horizontal refl] 4(5,6,8) \<open>0 \<le> ?a\<close> by simp
    moreover have "length (filter (\<lambda>r. covers r p) (collect_child_rects A detached (x, y, w, h) direction ratios fallback (offset + ?a) cs)) =
        of_bool (inside (x, y + (offset + ?a), w, ?b) p)"
      using 4(2) [OF fr [symmetric] Horizontal refl] 4(5-9) Horizontal by simp
    moreover have "collect_child_rects A detached (x, y, w, h) direction ratios fallback offset (LayoutChild node r # cs) =
        collect_leaf_rects A detached (x, y + offset, w, ?a) node @
        collect_child_rects A detached (x, y, w, h) direction ratios fallback (offset + ?a) cs"
      by (simp add: Let_def fr [unfolded 4(5)] 4(5) Horizontal)
    ultimately show ?thesis using inside_split(1) [of ?a ?b x "y + offset" w p] unfolding sum
      by (simp only: filter_append length_append Horizontal strip.simps distrib_left add.assoc)
  next
    case Vertical
    let ?a = "w * (r / ratios)" and ?b = "w * (sum_list (map lc_ratio cs) / ratios)"
    have "0 \<le> ?a" "0 \<le> ?b" using 4(8) r by (simp_all only: mult_nonneg_nonneg snd_conv fst_conv)
    moreover have "length (filter (\<lambda>r. covers r p) (collect_leaf_rects A detached (x + offset, y, ?a, h) node)) =
        of_bool (inside (x + offset, y, ?a, h) p)"
      using 4(3) [OF fr [symmetric] Vertical refl] 4(5,6,9) \<open>0 \<le> ?a\<close> by simp
    moreover have "length (filter (\<lambda>r. covers r p) (collect_child_rects A detached (x, y, w, h) direction ratios fallback (offset + ?a) cs)) =
        of_bool (inside (x + (offset + ?a), y, ?b, h) p)"
      using 4(4) [OF fr [symmetric] Vertical refl] 4(5-9) Vertical by simp
    moreover have "collect_child_rects A detached (x, y, w, h) direction ratios fallback offset (LayoutChild node r # cs) =
        collect_leaf_rects A detached (x + offset, y, ?a, h) node @
        collect_child_rects A detached (x, y, w, h) direction ratios fallback (offset + ?a) cs"
      by (simp add: Let_def fr [unfolded 4(5)] 4(5) Vertical)
    ultimately show ?thesis using inside_split(2) [of ?a ?b "x + offset" y h p] unfolding sum
      by (simp only: filter_append length_append Vertical strip.simps distrib_left add.assoc)
  qed
qed

section \<open>The nearest pane\<close>

type_synonym score = "real \<times> real \<times> nat"

definition not_after :: "score \<Rightarrow> score \<Rightarrow> bool" where
  "not_after a b \<longleftrightarrow> compare_focus_score exact b a \<noteq> Less"

lemma not_after_iff:
  "not_after (a0, a1, a2) (b0, b1, b2) \<longleftrightarrow> a0 < b0 \<or> a0 = b0 \<and> (a1 < b1 \<or> a1 = b1 \<and> a2 \<le> b2)"
  by (auto simp: not_after_def compare_focus_score_def then_with_def nat_cmp_def exact_def)

lemma not_after_trans: "not_after a b \<Longrightarrow> not_after b c \<Longrightarrow> not_after a c"
  by (cases a; cases b; cases c) (auto simp: not_after_iff)

lemma not_after_refl: "not_after a a"
  by (cases a) (simp add: not_after_iff)

lemma better_not_after: "better exact s (Some (i, s')) \<longleftrightarrow> \<not> not_after s' s"
  by (simp add: better_def not_after_def)

lemma not_after_total: "\<not> not_after a b \<Longrightarrow> not_after b a"
  by (cases a; cases b) (auto simp: not_after_iff)

definition best_of :: "(nat \<times> score) set \<Rightarrow> (nat \<times> score) option \<Rightarrow> bool" where
  "best_of S r \<longleftrightarrow> (case r of None \<Rightarrow> S = {} | Some s \<Rightarrow> s \<in> S \<and> (\<forall>s'\<in>S. not_after (snd s) (snd s')))"

definition scored :: "FocusDirection \<Rightarrow> ('p, real) leaf_rect \<Rightarrow> nat \<Rightarrow> nat \<Rightarrow> ('p, real) leaf_rect list \<Rightarrow> (nat \<times> score) set" where
  "scored dir current current_idx idx leaves = {s. \<exists>k<length leaves. \<exists>p c. s = (idx + k, (p, c, idx + k)) \<and> idx + k \<noteq> current_idx \<and>
     focus_score exact dir current (leaves ! k) = Some (p, c)}"

lemma scored_Cons:
  "scored dir cur ci idx (r # rs) = scored dir cur ci (Suc idx) rs \<union>
     (case focus_score exact dir cur r of None \<Rightarrow> {} | Some (p, c) \<Rightarrow> if idx = ci then {} else {(idx, (p, c, idx))})"
  unfolding scored_def length_Cons Ex_less_Suc2 by (auto split: option.splits)

lemma best_candidate_spec:
  assumes "best_of S best"
  shows "best_of (S \<union> scored dir cur ci idx leaves) (best_candidate exact dir cur ci idx best leaves)"
  using assms
proof (induction leaves arbitrary: idx best S)
  case Nil
  have "scored dir cur ci idx [] = {}" by (auto simp: scored_def)
  with Nil show ?case by simp
next
  case (Cons r rs)
  show ?case
  proof (cases "idx = ci \<or> focus_score exact dir cur r = None")
    case True
    then have "scored dir cur ci idx (r # rs) = scored dir cur ci (Suc idx) rs" by (auto simp: scored_Cons split: option.splits)
    with Cons True show ?thesis by auto
  next
    case False
    then obtain p c where pc: "focus_score exact dir cur r = Some (p, c)" "idx \<noteq> ci" by auto
    let ?s = "(idx, (p, c, idx))"
    have "best_of (insert ?s S) (if better exact (p, c, idx) best then Some ?s else best)"
    proof (cases best)
      case None
      with Cons.prems show ?thesis by (simp add: best_of_def better_def not_after_refl)
    next
      case (Some b)
      obtain i s where b: "b = (i, s)" by (cases b)
      from Cons.prems Some b have bs: "(i, s) \<in> S" "\<forall>s'\<in>S. not_after s (snd s')" by (auto simp: best_of_def)
      show ?thesis
      proof (cases "not_after s (p, c, idx)")
        case True
        with bs show ?thesis unfolding Some b by (simp add: better_not_after best_of_def)
      next
        case f: False
        then have "not_after (p, c, idx) s" by (rule not_after_total)
        with bs have "\<forall>s'\<in>S. not_after (p, c, idx) (snd s')" using not_after_trans by blast
        with f show ?thesis unfolding Some b by (simp add: better_not_after best_of_def not_after_refl)
      qed
    qed
    from Cons.IH [OF this, of "Suc idx"] pc show ?thesis by (simp add: scored_Cons Let_def)
  qed
qed

lemma position_Some: "position p xs = Some i \<Longrightarrow> i < length xs \<and> p (xs ! i) \<and> (\<forall>j<i. \<not> p (xs ! j))"
proof (induction xs arbitrary: i)
  case (Cons x xs)
  then show ?case by (cases i) (auto simp: less_Suc_eq_0_disj split: if_splits)
qed simp

lemma position_None: "position p xs = None \<longleftrightarrow> (\<forall>x\<in>set xs. \<not> p x)"
  by (induction xs) auto

section \<open>Properties\<close>

text \<open>
  C35. The rectangles used for navigation are those of the docked panes in their order, whatever the arithmetic; in exact
  arithmetic they tile the unit square: every point of it lies in the rectangle of exactly one docked pane,
  however the layout is nested and whichever panes are detached.
\<close>

theorem leaf_rects_tile:
  assumes "layout_reach exact t" "has_docked_panes detached t" "0 \<le> px" "px < 1" "0 \<le> py" "py < 1"
  shows "map lr_pane (collect_leaf_rects exact detached (0, 0, 1, 1) t) = filter (\<lambda>p. \<not> detached p) (collect_leaves t) \<and>
    length (filter (\<lambda>r. covers r (px, py)) (collect_leaf_rects exact detached (0, 0, 1, 1) t)) = 1"
proof -
  have "ratios_ok t" using reach_exact [OF assms(1)] by blast
  with rects_tile(1) [OF refl this assms(2), of "(0, 0, 1, 1)" "(px, py)"] assms(3-6) leaf_rects_panes(1) show ?thesis
    by (simp add: inside_def)
qed

theorem leaf_rects_tile_witness:
  "map lr_pane (collect_leaf_rects exact (\<lambda>p. p = 1) (0, 0, 1, 1) (sample_tree exact)) = [2, 3] \<and>
   length (filter (\<lambda>r. covers r (1 / 4, 3 / 4)) (collect_leaf_rects exact (\<lambda>p. p = 1) (0, 0, 1, 1) (sample_tree exact))) = 1"
proof -
  have "has_docked_panes (\<lambda>p. p = 1) (sample_tree exact)"
    "filter (\<lambda>p. p \<noteq> 1) (collect_leaves (sample_tree exact)) = [2, 3]"
    by (simp_all add: has_docked_leaves sample_tree_eq new_split_def)
  with leaf_rects_tile [OF sample_tree_reach this(1), of "1 / 4" "3 / 4"] show ?thesis by simp
qed



end
