(* ===== verification/Layout_Store.thy ===== *)
theory Layout_Store
  imports Layout_Tree
begin

text \<open>
  The saved form of a layout (\<open>LayoutNode\<close> in \<open>crates/paneflow-config/src/schema/layout.rs\<close>) and the way a layout is
  saved and restored (\<open>src-app/src/layout/serde.rs\<close>). Saved ratios are numbers of double precision: their arithmetic
  \<open>B\<close> is another argument, with the conversions \<open>widen\<close> and \<open>narrow\<close>. What a pane saves of itself
  (\<open>surfaces\<close>) and what spawns a missing pane (\<open>spawn\<close>, with the state it changes) belong to the window system.
\<close>

datatype ('d, 'g) LayoutNode =
  PaneNode "'d list"
| SplitNode string "'g option" "'g list option" "('d, 'g) LayoutNode list"

fun node_leaf_count :: "('d, 'g) LayoutNode \<Rightarrow> nat" where
  "node_leaf_count (PaneNode surfaces) = 1"
| "node_leaf_count (SplitNode direction ratio ratios children) = sum_list (map node_leaf_count children)"

definition MIN_RATIO :: rat where
  "MIN_RATIO = 1 / 100"

definition MIN_LEGACY_RATIO :: rat where
  "MIN_LEGACY_RATIO = 1 / 10"

definition legacy_ratios :: "'g arith \<Rightarrow> 'g \<Rightarrow> 'g list option" where
  "legacy_ratios B ratio = do {
     ratio \<leftarrow> (if f_is_finite B ratio
       then f_clamp B ratio (f_lit B MIN_LEGACY_RATIO) (f_sub B (f_lit B 1) (f_lit B MIN_LEGACY_RATIO))
       else Some (f_lit B (1 / 2)));
     Some [ratio, f_sub B (f_lit B 1) ratio]
   }"

definition equal_ratios :: "'g arith \<Rightarrow> nat \<Rightarrow> 'g list" where
  "equal_ratios B n = replicate n (f_div B (f_lit B 1) (f_of_nat B n))"

definition sanitize_ratios :: "'g arith \<Rightarrow> 'g list \<Rightarrow> nat \<Rightarrow> 'g list option" where
  "sanitize_ratios B ratios n =
     (if length ratios \<noteq> n then Some (equal_ratios B n)
      else do {
        ratios \<leftarrow> map_or_panic (\<lambda>r. if f_is_finite B r then f_clamp B r (f_lit B MIN_RATIO) (f_lit B 1) else Some (f_lit B MIN_RATIO)) ratios;
        let whole = f_sum B ratios;
        let ratios = (if f_lt B (f_lit B 0) whole \<and> f_lt B (f_lit B (1 / 10 ^ 9)) (f_abs B (f_sub B whole (f_lit B 1)))
          then map (\<lambda>r. f_div B r whole) ratios else ratios);
        map_or_panic (\<lambda>r. f_clamp B r (f_lit B MIN_RATIO) (f_lit B 1)) ratios
      })"

definition resolved_ratios :: "'g arith \<Rightarrow> ('d, 'g) LayoutNode \<Rightarrow> 'g list option" where
  "resolved_ratios B node = (case node of
     PaneNode _ \<Rightarrow> Some [f_lit B 1]
   | SplitNode _ ratio ratios children \<Rightarrow>
       let n = max (length children) 1
       in (case ratios of
             Some rs \<Rightarrow> sanitize_ratios B rs n
           | None \<Rightarrow>
               (case ratio of
                  None \<Rightarrow> Some (equal_ratios B n)
                | Some r \<Rightarrow>
                    if length children = 2 then legacy_ratios B r \<bind> (\<lambda>raw. sanitize_ratios B raw n)
                    else Some (equal_ratios B n))))"

section \<open>Validation of a layout that was read\<close>

record agent_session_ref =
  asr_runtime :: string
  asr_id :: string
  asr_cwd :: "string option"

definition continues_latest :: "agent_session_ref \<Rightarrow> bool" where
  "continues_latest a \<longleftrightarrow> asr_id a = []"

record ('h, 'i) surface_definition =
  sf_surface_type :: "string option"
  sf_name :: "string option"
  sf_custom_name :: "string option"
  sf_command :: "string option"
  sf_prompt :: "string option"
  sf_cwd :: "string option"
  sf_path :: "string option"
  sf_env :: "(string \<rightharpoonup> string) option"
  sf_focus :: "bool option"
  sf_scrollback :: "string option"
  sf_agent :: "string option"
  sf_font_size :: "'h option"
  sf_session :: "'i option"
  sf_agent_session :: "agent_session_ref option"

definition is_terminal :: "('h, 'i) surface_definition \<Rightarrow> bool" where
  "is_terminal s \<longleftrightarrow> sf_surface_type s \<in> {None, Some ''terminal''}"

definition surface_default :: "('h, 'i) surface_definition" where
  "surface_default = \<lparr>sf_surface_type = Some ''terminal'', sf_name = None, sf_custom_name = None, sf_command = None, sf_prompt = None,
     sf_cwd = None, sf_path = None, sf_env = None, sf_focus = None, sf_scrollback = None, sf_agent = None, sf_font_size = None,
     sf_session = None, sf_agent_session = None\<rparr>"

definition MAX_LAYOUT_LEAVES :: nat where
  "MAX_LAYOUT_LEAVES = 32"

definition MAX_SPLIT_CHILDREN :: nat where
  "MAX_SPLIT_CHILDREN = 32"

definition MAX_PANE_SURFACES :: nat where
  "MAX_PANE_SURFACES = 64"

definition default_layout_pane :: "(('h, 'i) surface_definition, 'g) LayoutNode" where
  "default_layout_pane = PaneNode [surface_default]"

fun drop_extra_focus :: "bool \<Rightarrow> ('h, 'i) surface_definition list \<Rightarrow> ('h, 'i) surface_definition list" where
  "drop_extra_focus focus_seen [] = []"
| "drop_extra_focus focus_seen (surface # surfaces) =
     (if sf_focus surface = Some True
      then (if focus_seen then surface\<lparr>sf_focus := None\<rparr> # drop_extra_focus focus_seen surfaces
            else surface # drop_extra_focus True surfaces)
      else surface # drop_extra_focus focus_seen surfaces)"

definition sanitize_surfaces :: "('h, 'i) surface_definition list \<Rightarrow> ('h, 'i) surface_definition list" where
  "sanitize_surfaces surfaces =
     (let surfaces = (if length surfaces > MAX_PANE_SURFACES then take MAX_PANE_SURFACES surfaces else surfaces);
          surfaces = (if surfaces = [] then surfaces @ [surface_default] else surfaces)
      in drop_extra_focus False surfaces)"

definition rebuild_split :: "'g arith \<Rightarrow> string \<Rightarrow> 'g option \<Rightarrow> 'g list option \<Rightarrow> ('d, 'g) LayoutNode list \<Rightarrow>
    ('d, 'g) LayoutNode option option" where
  "rebuild_split B direction ratio ratios kept = (case kept of
     [] \<Rightarrow> Some None
   | [child] \<Rightarrow> Some (Some child)
   | _ \<Rightarrow>
       (let n = length kept
        in do {
          legacy \<leftarrow> (case ratio of None \<Rightarrow> Some None | Some value \<Rightarrow> do { rs \<leftarrow> legacy_ratios B value; r \<leftarrow> nth_or_panic rs 0; Some (Some r) });
          normalized \<leftarrow> (case ratios of
              Some values \<Rightarrow> do { rs \<leftarrow> sanitize_ratios B values n; Some (Some rs) }
            | None \<Rightarrow> (if n = 2
                then (case legacy of None \<Rightarrow> Some None | Some value \<Rightarrow> do { rs \<leftarrow> legacy_ratios B value; Some (Some rs) })
                else Some None));
          Some (Some (SplitNode direction (if n = 2 then legacy else None) normalized kept))
        }))"

fun sanitize_layout_node :: "'g arith \<Rightarrow> nat \<Rightarrow> (('h, 'i) surface_definition, 'g) LayoutNode \<Rightarrow>
    ((('h, 'i) surface_definition, 'g) LayoutNode option \<times> nat) option"
and sanitize_children :: "'g arith \<Rightarrow> nat \<Rightarrow> nat \<Rightarrow> (('h, 'i) surface_definition, 'g) LayoutNode list \<Rightarrow>
    ((('h, 'i) surface_definition, 'g) LayoutNode list \<times> nat) option"
where
  "sanitize_layout_node B leaf_budget (PaneNode surfaces) =
     Some (if leaf_budget = 0 then (None, leaf_budget) else (Some (PaneNode (sanitize_surfaces surfaces)), leaf_budget - 1))"
| "sanitize_layout_node B leaf_budget (SplitNode direction ratio ratios children) =
     (let direction = (if direction \<noteq> ''horizontal'' \<and> direction \<noteq> ''vertical'' then ''horizontal'' else direction)
      in do {
        (kept, leaf_budget) \<leftarrow> sanitize_children B MAX_SPLIT_CHILDREN leaf_budget children;
        node \<leftarrow> rebuild_split B direction ratio ratios kept;
        Some (node, leaf_budget)
      })"
| "sanitize_children B slots leaf_budget [] = Some ([], leaf_budget)"
| "sanitize_children B slots leaf_budget (child # children) =
     (if slots = 0 \<or> leaf_budget = 0 then Some ([], leaf_budget)
      else do {
        (child, leaf_budget) \<leftarrow> sanitize_layout_node B leaf_budget child;
        (kept, leaf_budget) \<leftarrow> sanitize_children B (slots - 1) leaf_budget children;
        Some (case child of None \<Rightarrow> (kept, leaf_budget) | Some child \<Rightarrow> (child # kept, leaf_budget))
      })"

definition validate_layout :: "'g arith \<Rightarrow> (('h, 'i) surface_definition, 'g) LayoutNode \<Rightarrow>
    (('h, 'i) surface_definition, 'g) LayoutNode option" where
  "validate_layout B node = do {
     (sane, _) \<leftarrow> sanitize_layout_node B MAX_LAYOUT_LEAVES node;
     Some (case sane of None \<Rightarrow> default_layout_pane | Some node \<Rightarrow> node)
   }"

section \<open>Saving and restoring\<close>

record ('h, 'i) terminal_view =
  tv_title :: string
  tv_current_cwd :: "string option"
  tv_cwd_now :: "string option"
  tv_custom_name :: "string option"
  tv_detected_agent :: "string option"
  tv_font_size_override :: "'h option"
  tv_session_id :: 'i
  tv_agent_session :: "agent_session_ref option"

datatype ('h, 'i) PaneSurface = Terminal "('h, 'i) terminal_view" | Markdown string

definition surface_of :: "nat \<Rightarrow> nat \<Rightarrow> ('h, 'i) PaneSurface \<Rightarrow> ('h, 'i) surface_definition" where
  "surface_of active index tab = (case tab of
     Terminal tv \<Rightarrow> surface_default\<lparr>sf_surface_type := Some ''terminal'', sf_name := (if tv_title tv = [] then None else Some (tv_title tv)),
       sf_custom_name := tv_custom_name tv, sf_cwd := (case tv_current_cwd tv of None \<Rightarrow> tv_cwd_now tv | Some cwd \<Rightarrow> Some cwd),
       sf_focus := Some (index = active), sf_agent := tv_detected_agent tv, sf_font_size := tv_font_size_override tv,
       sf_session := Some (tv_session_id tv), sf_agent_session := tv_agent_session tv\<rparr>
   | Markdown path \<Rightarrow> surface_default\<lparr>sf_surface_type := Some ''markdown'', sf_path := Some path, sf_focus := Some (index = active)\<rparr>)"

text \<open>What a pane holds: its surfaces and the index of the active one.\<close>

fun pane_surfaces :: "('h, 'i) PaneSurface list \<times> nat \<Rightarrow> ('h, 'i) surface_definition list" where
  "pane_surfaces (tabs, active) = map (\<lambda>(index, tab). surface_of active index tab) (enumerate 0 tabs)"

fun serialize_without_scrollback :: "('f \<Rightarrow> 'g) \<Rightarrow> ('p \<Rightarrow> ('h, 'i) PaneSurface list \<times> nat) \<Rightarrow> ('p, 'f) LayoutTree \<Rightarrow>
    (('h, 'i) surface_definition, 'g) LayoutNode" where
  "serialize_without_scrollback widen read (Leaf pane) = PaneNode (pane_surfaces (read pane))"
| "serialize_without_scrollback widen read (Container direction children drag container_size) =
     SplitNode (case direction of Horizontal \<Rightarrow> ''horizontal'' | Vertical \<Rightarrow> ''vertical'') None
       (Some (map (\<lambda>c. widen (lc_ratio c)) children))
       (map (\<lambda>c. serialize_without_scrollback widen read (lc_node c)) children)"

fun from_layout_node :: "'f arith \<Rightarrow> 'g arith \<Rightarrow> ('g \<Rightarrow> 'f) \<Rightarrow> (('d, 'g) LayoutNode \<Rightarrow> 's \<Rightarrow> 'p \<times> 's) \<Rightarrow> 'p list \<times> 's \<Rightarrow>
    ('d, 'g) LayoutNode \<Rightarrow> (('p, 'f) LayoutTree \<times> 'p list \<times> 's) option"
and from_child_nodes :: "'f arith \<Rightarrow> 'g arith \<Rightarrow> ('g \<Rightarrow> 'f) \<Rightarrow> (('d, 'g) LayoutNode \<Rightarrow> 's \<Rightarrow> 'p \<times> 's) \<Rightarrow> 'g list \<Rightarrow> nat \<Rightarrow> nat \<Rightarrow>
    'p list \<times> 's \<Rightarrow> ('d, 'g) LayoutNode list \<Rightarrow> (('p, 'f) LayoutChild list \<times> 'p list \<times> 's) option"
where
  "from_layout_node A B narrow spawn (panes, s) (PaneNode surfaces) = (case panes of
     pane # panes \<Rightarrow> Some (Leaf pane, panes, s)
   | [] \<Rightarrow> (let (pane, s) = spawn (PaneNode surfaces) s in Some (Leaf pane, [], s)))"
| "from_layout_node A B narrow spawn (panes, s) (SplitNode direction ratio ratios children) =
     (case resolved_ratios B (SplitNode direction ratio ratios children) of
        None \<Rightarrow> None
      | Some resolved \<Rightarrow>
          (case from_child_nodes A B narrow spawn resolved (length children) 0 (panes, s) children of
             None \<Rightarrow> None
           | Some (child_trees, panes, s) \<Rightarrow>
               Some (Container (if direction = ''vertical'' then Vertical else Horizontal) child_trees None (f_lit A 0), panes, s)))"
| "from_child_nodes A B narrow spawn resolved n i (panes, s) [] = Some ([], panes, s)"
| "from_child_nodes A B narrow spawn resolved n i (panes, s) (child_node # children) =
     (let ratio = (if i < length resolved then resolved ! i else f_div B (f_lit B 1) (f_of_nat B n))
      in case from_layout_node A B narrow spawn (panes, s) child_node of
           None \<Rightarrow> None
         | Some (node, panes, s) \<Rightarrow>
             (case from_child_nodes A B narrow spawn resolved n (Suc i) (panes, s) children of
                None \<Rightarrow> None
              | Some (child_trees, panes, s) \<Rightarrow> Some (LayoutChild node (narrow ratio) # child_trees, panes, s)))"

section \<open>Ratios read from a saved layout\<close>

lemma map_or_panic_pure: "map_or_panic (\<lambda>r. Some (f r)) xs = Some (map f xs)"
  by (rule map_or_panic_Some) simp

lemma f_clamp_exact: "lo \<le> hi \<Longrightarrow> f_clamp exact x lo hi = Some (max lo (min x hi))"
  by (auto simp: f_clamp_def max_def min_def)

lemma exact_literals [simp]:
  "real_of_rat MIN_RATIO = 1 / 100" "real_of_rat MIN_LEGACY_RATIO = 1 / 10" "real_of_rat (1 / 1000000000) = 1 / 1000000000"
  by (simp_all add: MIN_RATIO_def MIN_LEGACY_RATIO_def of_rat_divide)

definition clamped :: "real \<Rightarrow> real" where
  "clamped r = max (1 / 100) (min r 1)"

lemma clamped_bounds: "1 / 100 \<le> clamped r" "clamped r \<le> 1"
  by (simp_all add: clamped_def)

lemma clamped_id: "1 / 100 \<le> r \<Longrightarrow> r \<le> 1 \<Longrightarrow> clamped r = r"
  by (simp add: clamped_def)

lemma sanitize_exact:
  "sanitize_ratios exact rs n = Some (if length rs \<noteq> n then replicate n (1 / real n)
     else let rs = map clamped rs; whole = sum_list rs
       in map clamped
            (if 0 < whole \<and> 1 / 10 ^ 9 < \<bar>whole - 1\<bar> then map (\<lambda>r. r / whole) rs else rs))"
  by (simp add: sanitize_ratios_def f_clamp_exact clamped_def [symmetric] map_or_panic_pure equal_ratios_def Let_def)

lemma legacy_exact: "legacy_ratios exact r = Some [max (1 / 10) (min r (9 / 10)), 1 - max (1 / 10) (min r (9 / 10))]"
  by (simp add: legacy_ratios_def f_clamp_exact)

lemma sanitize_ratios_sane:
  assumes "1 \<le> n" "n \<le> 100"
  shows "runs (sanitize_ratios exact rs n) (\<lambda>rs. length rs = n \<and> list_all (\<lambda>r. 1 / 100 \<le> r \<and> r \<le> 1) rs)"
proof -
  have "1 / 100 \<le> 1 / real n" "1 / real n \<le> 1" using assms by (simp_all add: field_simps)
  then show ?thesis unfolding sanitize_exact by (auto simp: Let_def clamped_bounds clamped_bounds [simplified] list_all_iff)
qed

text \<open>
  Whatever a saved split says of its ratios (none, a single one, too few, too many, zero, negative or huge ones), it
  resolves without a panic to one ratio for each child, each between one hundredth and one.
\<close>

theorem resolved_ratios_sane:
  assumes "length children \<le> 100"
  shows "runs (resolved_ratios exact (SplitNode direction ratio ratios children)) (\<lambda>rs.
    length rs = max (length children) 1 \<and> list_all (\<lambda>r. 1 / 100 \<le> r \<and> r \<le> 1) rs)"
proof -
  let ?n = "max (length children) 1"
  have sane: "runs (sanitize_ratios exact rs ?n) (\<lambda>rs. length rs = ?n \<and> list_all (\<lambda>r. 1 / 100 \<le> r \<and> r \<le> 1) rs)" for rs
    using assms by (intro sanitize_ratios_sane) simp_all
  have equal: "sanitize_ratios exact [] ?n = Some (equal_ratios exact ?n)" by (simp add: sanitize_ratios_def)
  show ?thesis using sane [of "[]"] sane [of "[_, _]"] sane [of "the ratios"] unfolding resolved_ratios_def equal LayoutNode.case Let_def
    by (cases ratios; cases ratio) (auto simp: legacy_exact)
qed

theorem resolved_ratios_sane_witness:
  "runs (resolved_ratios exact (SplitNode ''vertical'' None (Some [-3, 7]) [PaneNode [()], PaneNode [()]])) (\<lambda>rs.
    length rs = 2 \<and> list_all (\<lambda>r. 1 / 100 \<le> r \<and> r \<le> 1) rs)"
  by (rule runs_mono [OF resolved_ratios_sane]) simp_all

section \<open>What validation guarantees\<close>

fun valid_node :: "(('h, 'i) surface_definition, real) LayoutNode \<Rightarrow> bool" where
  "valid_node (PaneNode surfaces) \<longleftrightarrow>
     1 \<le> length surfaces \<and> length surfaces \<le> 64 \<and> length (filter (\<lambda>s. sf_focus s = Some True) surfaces) \<le> 1"
| "valid_node (SplitNode direction ratio ratios children) \<longleftrightarrow>
     (direction = ''horizontal'' \<or> direction = ''vertical'') \<and>
     2 \<le> length children \<and> length children \<le> 32 \<and> list_all valid_node children \<and>
     (case ratio of None \<Rightarrow> True | Some r \<Rightarrow> length children = 2 \<and> 1 / 10 \<le> r \<and> r \<le> 9 / 10) \<and>
     (case ratios of None \<Rightarrow> True | Some rs \<Rightarrow> length rs = length children \<and> list_all (\<lambda>r. 1 / 100 \<le> r \<and> r \<le> 1) rs)"

lemma drop_extra_focus_spec:
  "length (drop_extra_focus seen ss) = length ss"
  "length (filter (\<lambda>s. sf_focus s = Some True) (drop_extra_focus seen ss)) \<le> (if seen then 0 else 1)"
  by (induction seen ss rule: drop_extra_focus.induct) (auto split: if_splits)

lemma sanitize_surfaces_valid: "valid_node (PaneNode (sanitize_surfaces ss))"
proof -
  obtain ss' where "sanitize_surfaces ss = drop_extra_focus False ss'" "ss' \<noteq> []" "length ss' \<le> 64"
    by (rule that [of "if ss = [] then [surface_default] else take 64 ss"])
      (simp_all add: sanitize_surfaces_def Let_def MAX_PANE_SURFACES_def del: drop_extra_focus.simps)
  then show ?thesis using drop_extra_focus_spec [of False ss'] by (cases ss') auto
qed

abbreviation legacy_sane :: "real option \<Rightarrow> bool" where
  "legacy_sane l \<equiv> case l of None \<Rightarrow> True | Some r \<Rightarrow> 1 / 10 \<le> r \<and> r \<le> 9 / 10"

abbreviation ratios_sane :: "nat \<Rightarrow> real list option \<Rightarrow> bool" where
  "ratios_sane n rs \<equiv> case rs of None \<Rightarrow> True | Some rs \<Rightarrow> length rs = n \<and> list_all (\<lambda>r. 1 / 100 \<le> r \<and> r \<le> 1) rs"

lemma rebuild_split_valid:
  assumes "direction = ''horizontal'' \<or> direction = ''vertical''" "length kept \<le> 32" "list_all valid_node kept"
  shows "runs (rebuild_split exact direction ratio ratios kept) (\<lambda>res. case res of
      None \<Rightarrow> kept = [] | Some node \<Rightarrow> valid_node node \<and> node_leaf_count node = sum_list (map node_leaf_count kept))"
proof (cases kept rule: remdups_adj.cases)
  case (3 c d cs)
  then have n: "2 \<le> length kept" by simp
  define legacy where "legacy = (case ratio of None \<Rightarrow> Some None
    | Some value \<Rightarrow> do { rs \<leftarrow> legacy_ratios exact value; r \<leftarrow> nth_or_panic rs 0; Some (Some r) })"
  define normalized where "normalized l = (case ratios of
      Some values \<Rightarrow> do { rs \<leftarrow> sanitize_ratios exact values (length kept); Some (Some rs) }
    | None \<Rightarrow> (if length kept = 2
        then (case l of None \<Rightarrow> Some None | Some value \<Rightarrow> do { rs \<leftarrow> legacy_ratios exact value; Some (Some rs) })
        else Some None))" for l
  have split: "rebuild_split exact direction ratio ratios kept = do { l \<leftarrow> legacy; rs \<leftarrow> normalized l;
      Some (Some (SplitNode direction (if length kept = 2 then l else None) rs kept)) }"
    unfolding rebuild_split_def legacy_def normalized_def 3 by (simp only: list.case Let_def)
  have l: "runs legacy legacy_sane"
    unfolding legacy_def by (cases ratio) (simp_all add: legacy_exact nth_or_panic_def wp)
  have rs: "runs (normalized l) (ratios_sane (length kept))" for l
  proof (cases ratios)
    case None
    then show ?thesis by (cases l) (simp_all add: normalized_def legacy_exact wp max_def min_def)
  next
    case (Some vs)
    then show ?thesis using runs_mono [OF sanitize_ratios_sane [of "length kept" vs]] n assms(2)
      by (simp add: normalized_def wp)
  qed
  show ?thesis unfolding split
    by (rule runs_bindI [OF l], rule runs_bindI [OF rs]) (use assms n in \<open>auto split: option.splits\<close>)
qed (use assms in \<open>simp_all add: rebuild_split_def\<close>)

lemma sanitize_valid:
  fixes node :: "(('h, 'i) surface_definition, real) LayoutNode" and children :: "(('h, 'i) surface_definition, real) LayoutNode list"
  shows "B = exact \<Longrightarrow> runs (sanitize_layout_node B budget node) (\<lambda>(res, rest). case res of
      None \<Rightarrow> rest = budget | Some node \<Rightarrow> valid_node node \<and> node_leaf_count node + rest = budget)"
    and "B = exact \<Longrightarrow> runs (sanitize_children B slots budget children) (\<lambda>(kept, rest).
      list_all valid_node kept \<and> length kept \<le> slots \<and> sum_list (map node_leaf_count kept) + rest = budget)"
proof (induction B budget node and B slots budget children rule: sanitize_layout_node_sanitize_children.induct)
  case (1 B budget surfaces)
  show ?case using sanitize_surfaces_valid [of surfaces] by simp
next
  case (2 B budget direction ratio ratios children)
  let ?d = "if direction \<noteq> ''horizontal'' \<and> direction \<noteq> ''vertical'' then ''horizontal'' else direction"
  have step: "runs (rebuild_split B ?d ratio ratios kept \<bind> (\<lambda>node. Some (node, rest))) (\<lambda>(res, rest). case res of
      None \<Rightarrow> rest = budget | Some node \<Rightarrow> valid_node node \<and> node_leaf_count node + rest = budget)"
    if "list_all valid_node kept" "length kept \<le> MAX_SPLIT_CHILDREN" "sum_list (map node_leaf_count kept) + rest = budget"
    for kept :: "(('h, 'i) surface_definition, real) LayoutNode list" and rest
  proof -
    have "runs (rebuild_split exact ?d ratio ratios kept) (\<lambda>res. case res of
      None \<Rightarrow> kept = [] | Some node \<Rightarrow> valid_node node \<and> node_leaf_count node = sum_list (map node_leaf_count kept))"
      using that by (intro rebuild_split_valid) (simp_all add: MAX_SPLIT_CHILDREN_def)
    then show ?thesis unfolding 2(2) by (rule runs_bindI) (use that in \<open>auto split: option.splits\<close>)
  qed
  show ?case unfolding sanitize_layout_node.simps Let_def
    by (rule runs_bindI [OF 2(1) [OF refl 2(2)]], elim case_prodE conjE, simp only: prod.case, rule step)
next
  case (3 B slots budget)
  show ?case by simp
next
  case (4 B slots budget child children)
  show ?case
  proof (cases "slots = 0 \<or> budget = 0")
    case False
    from 4(1) [OF False 4(3)] obtain res rest where res: "sanitize_layout_node B budget child = Some (res, rest)"
      "case res of None \<Rightarrow> rest = budget | Some node \<Rightarrow> valid_node node \<and> node_leaf_count node + rest = budget"
      by (auto simp: runs_iff)
    show ?thesis unfolding sanitize_children.simps(2) if_not_P [OF False] res(1) Option.bind.simps prod.case
      by (rule runs_bindI [OF 4(2) [OF False res(1) refl 4(3)]]) (use res(2) False in \<open>auto split: option.splits\<close>)
  qed auto
qed

lemma valid_node_leaves: "valid_node node \<Longrightarrow> 1 \<le> node_leaf_count node"
proof (induction node rule: valid_node.induct)
  case (2 direction ratio ratios children)
  then obtain c cs where "children = c # cs" by (cases children) auto
  moreover from this 2 have "1 \<le> node_leaf_count c" by auto
  ultimately show ?case by simp
qed simp


section \<open>Restoring what was saved\<close>

text \<open>A layout as it is restored: nothing is being dragged and no size is known.\<close>

fun at_rest :: "('p, real) LayoutTree \<Rightarrow> ('p, real) LayoutTree" where
  "at_rest (Leaf pane) = Leaf pane"
| "at_rest (Container direction children drag container_size) =
     Container direction (map (\<lambda>c. LayoutChild (at_rest (lc_node c)) (lc_ratio c)) children) None 0"

fun ratios_at_least :: "real \<Rightarrow> ('p, real) LayoutTree \<Rightarrow> bool" where
  "ratios_at_least m (Leaf pane) \<longleftrightarrow> True"
| "ratios_at_least m (Container direction children drag container_size) \<longleftrightarrow>
     list_all (\<lambda>c. m \<le> lc_ratio c \<and> ratios_at_least m (lc_node c)) children"

lemma sanitize_saved:
  assumes "cs \<noteq> []" "\<forall>c\<in>set cs. 1 / 100 \<le> lc_ratio c" "sum_list (map lc_ratio cs) = 1"
  shows "sanitize_ratios exact (map lc_ratio cs) (length cs) = Some (map lc_ratio cs)"
proof -
  have le: "lc_ratio c \<le> 1" if "c \<in> set cs" for c
    using member_le_sum_list [of "lc_ratio c" "map lc_ratio cs"] that assms(2,3) by (force intro: order_trans [of 0 "1 / 100"])
  then have "map clamped (map lc_ratio cs) = map lc_ratio cs" using assms(2) by (auto simp: clamped_id)
  then show ?thesis
    unfolding sanitize_exact Let_def using assms(3) by (simp only: length_map simp_thms if_False) simp
qed

lemma resolved_saved:
  assumes "cs \<noteq> []" "\<forall>c\<in>set cs. 1 / 100 \<le> lc_ratio c" "sum_list (map lc_ratio cs) = 1"
  shows "resolved_ratios exact (SplitNode d None (Some (map lc_ratio cs)) (map f cs)) = Some (map lc_ratio cs)"
proof -
  have "max (length (map f cs)) 1 = length cs" using assms(1) by (cases cs) simp_all
  with sanitize_saved [OF assms] show ?thesis unfolding resolved_ratios_def by (simp only: Let_def LayoutNode.case option.case)
qed

lemma restore_saved:
  assumes "wf_layout t" "ratios_ok t" "ratios_at_least (1 / 100) t"
  shows "from_layout_node exact exact (\<lambda>r. r) spawn (collect_leaves t @ rest, s) (serialize_without_scrollback (\<lambda>r. r) read t) =
    Some (at_rest t, rest, s)"
  using assms
proof (induction t arbitrary: rest rule: at_rest.induct)
  case (2 d cs drag sz)
  let ?f = "\<lambda>c. serialize_without_scrollback (\<lambda>r. r) read (lc_node c)"
  let ?g = "\<lambda>c. LayoutChild (at_rest (lc_node c)) (lc_ratio c)"
  have loop: "from_child_nodes exact exact (\<lambda>r. r) spawn (map lc_ratio (us @ vs)) n (length us) (child_leaves vs @ rest, s) (map ?f vs) =
      Some (map ?g vs, rest, s)" if "cs = us @ vs" for us vs n
    using that
  proof (induction vs arbitrary: us)
    case (Cons v vs)
    have "v \<in> set cs" using Cons.prems by simp
    then have "from_layout_node exact exact (\<lambda>r. r) spawn (collect_leaves (lc_node v) @ (child_leaves vs @ rest), s) (?f v) =
        Some (at_rest (lc_node v), child_leaves vs @ rest, s)" using 2(2-) by (intro 2(1)) (auto simp: list_all_iff)
    moreover from Cons.IH [of "us @ [v]"] Cons.prems
    have "from_child_nodes exact exact (\<lambda>r. r) spawn (map lc_ratio (us @ v # vs)) n (Suc (length us)) (child_leaves vs @ rest, s) (map ?f vs) =
        Some (map ?g vs, rest, s)" by simp
    ultimately show ?case by (simp add: Let_def nth_append)
  qed simp
  have "resolved_ratios exact (SplitNode d' None (Some (map lc_ratio cs)) (map ?f cs)) = Some (map lc_ratio cs)" for d'
    by (rule resolved_saved) (use 2 in \<open>auto simp: list_all_iff\<close>)
  then show ?case using loop [of "[]" cs "length cs"] by (cases d) simp_all
qed simp

lemma drop_extra_focus_none:
  "\<forall>s\<in>set ss. sf_focus s \<noteq> Some True \<Longrightarrow> drop_extra_focus seen ss = ss"
  by (induction ss) auto

lemma drop_extra_focus_saved:
  "drop_extra_focus False (map (\<lambda>(index, tab). surface_of active index tab) (enumerate n tabs)) =
     map (\<lambda>(index, tab). surface_of active index tab) (enumerate n tabs)"
proof (induction tabs arbitrary: n)
  case (Cons tab tabs)
  have focus: "sf_focus (surface_of active index tab) = Some (index = active)" for index tab
    by (simp add: surface_of_def split: PaneSurface.split)
  have "drop_extra_focus True (map (\<lambda>(index, tab). surface_of active index tab) (enumerate (Suc n) tabs)) =
     map (\<lambda>(index, tab). surface_of active index tab) (enumerate (Suc n) tabs)" if "n = active"
    by (rule drop_extra_focus_none) (use that in \<open>auto simp: focus in_set_enumerate_eq\<close>)
  with Cons.IH [of "Suc n"] show ?case by (simp add: focus)
qed simp

lemma sanitize_surfaces_saved:
  assumes "tabs \<noteq> []" "length tabs \<le> 64"
  shows "sanitize_surfaces (pane_surfaces (tabs, active)) = pane_surfaces (tabs, active)"
  using assms drop_extra_focus_saved [of active 0 tabs] by (cases tabs) (simp_all add: sanitize_surfaces_def Let_def MAX_PANE_SURFACES_def)

abbreviation savable_pane :: "('h, 'i) PaneSurface list \<times> nat \<Rightarrow> bool" where
  "savable_pane p \<equiv> 1 \<le> length (fst p) \<and> length (fst p) \<le> 64"

lemma wf_children_count: "\<forall>c\<in>set cs. wf_layout (lc_node c) \<Longrightarrow> length cs \<le> length (child_leaves cs)"
proof (induction cs)
  case (Cons c cs)
  then show ?case using wf_layout_leaves [of "lc_node c"] by (cases "collect_leaves (lc_node c)") auto
qed simp

lemma rebuild_saved:
  assumes "2 \<le> length cs" "\<forall>c\<in>set cs. 1 / 100 \<le> lc_ratio c" "sum_list (map lc_ratio cs) = 1"
  shows "rebuild_split exact d None (Some (map lc_ratio cs)) (map f cs) =
    Some (Some (SplitNode d None (Some (map lc_ratio cs)) (map f cs)))"
proof -
  obtain a b bs where cs: "cs = a # b # bs" using assms(1) by (cases cs rule: remdups_adj.cases) auto
  have "sanitize_ratios exact (map lc_ratio cs) (length (map f cs)) = Some (map lc_ratio cs)"
    using sanitize_saved [of cs] assms cs by simp
  then show ?thesis unfolding rebuild_split_def Let_def option.case by (simp add: cs)
qed

lemma sanitize_saved_layout:
  assumes "wf_layout t" "ratios_ok t" "ratios_at_least (1 / 100) t" "list_all (\<lambda>p. savable_pane (read p)) (collect_leaves t)"
    "length (collect_leaves t) \<le> budget" "length (collect_leaves t) \<le> 32"
  shows "sanitize_layout_node exact budget (serialize_without_scrollback (\<lambda>r. r) read t) =
    Some (Some (serialize_without_scrollback (\<lambda>r. r) read t), budget - length (collect_leaves t))"
  using assms
proof (induction t arbitrary: budget rule: at_rest.induct)
  case (1 pane)
  obtain tabs active where "read pane = (tabs, active)" by (cases "read pane")
  with 1 show ?case by (cases tabs) (auto simp: sanitize_surfaces_saved simp del: pane_surfaces.simps)
next
  case (2 d cs drag sz)
  let ?f = "\<lambda>c. serialize_without_scrollback (\<lambda>r. r) read (lc_node c)"
  have wf: "\<forall>c\<in>set cs. wf_layout (lc_node c)" using 2(2) by simp
  have loop: "sanitize_children exact slots b (map ?f vs) = Some (map ?f vs, b - length (child_leaves vs))"
    if "set vs \<subseteq> set cs" "length vs \<le> slots" "length (child_leaves vs) \<le> b" "length (child_leaves vs) \<le> 32" for vs slots b
    using that
  proof (induction vs arbitrary: slots b)
    case (Cons v vs)
    have v: "v \<in> set cs" using Cons.prems by simp
    then have "sanitize_layout_node exact b (?f v) = Some (Some (?f v), b - length (collect_leaves (lc_node v)))"
      using 2(2-5) Cons.prems by (intro 2(1)) (auto simp: list_all_iff)
    moreover have "collect_leaves (lc_node v) \<noteq> []" using v wf wf_layout_leaves by blast
    ultimately show ?case using Cons.prems Cons.IH [of "slots - 1" "b - length (collect_leaves (lc_node v))"]
      by (cases slots; cases "collect_leaves (lc_node v)") auto
  qed simp
  have "sanitize_children exact MAX_SPLIT_CHILDREN budget (map ?f cs) = Some (map ?f cs, budget - length (child_leaves cs))"
    using 2(6,7) wf_children_count [OF wf] by (intro loop) (simp_all add: MAX_SPLIT_CHILDREN_def)
  moreover have "rebuild_split exact d' None (Some (map lc_ratio cs)) (map ?f cs) =
      Some (Some (SplitNode d' None (Some (map lc_ratio cs)) (map ?f cs)))" for d'
    by (rule rebuild_saved) (use 2(2-4) in \<open>auto simp: list_all_iff\<close>)
  ultimately show ?case by (cases d) simp_all
qed



end
