(* ===== verification/Spec2Isabelle.thy ===== *)
theory Spec2Isabelle
  imports Diff_Revert Block_Tracker Output_Tail Write_Approvals Git_Engine Agent_Activity Layout_Drag Layout_Navigation Layout_Store
begin

text \<open>
  Paneflow is a terminal multiplexer for coding agents. A host process owns the terminal sessions and keeps the tail
  of their output; a core worker serves windows and relays what agents report of themselves; the application lays
  sessions out in panes, shows changed lines beside the code and asks git for the state of a repository. This
  development models the parts of it that carry its own logic and proves them correct.

  \<^bold>\<open>Conventions.\<close> A computation that may panic is a value of \<open>'a option\<close> and \<open>None\<close> is the panic; \<open>runs m Q\<close> says that
  \<open>m\<close> returns and its value satisfies \<open>Q\<close>, so the theorems stated with it exclude panics (\<open>Prelude\<close>). Loops are recursive
  functions, total by a measure; there is no fuel in the model. Errors are values of sum or option types. Machine
  integers keep their width where it matters: \<open>u32_add\<close> and \<open>u64_add\<close> panic on overflow, \<open>as_u32\<close> wraps, hashes and
  bytes are words. Records carry the fields of the structs, with a prefix for each struct.

  \<^bold>\<open>Text comparison\<close>, \<open>src/crates/paneflow-textdiff/src\<close>.
  \<^item> \<open>Diff_Range\<close>, \<open>Text\<close>, \<open>Iterable\<close> (\<open>iterable.rs\<close>, \<open>text.rs\<close>): ranges, the specification \<open>valid_diff\<close> of a diff,
    character classes, equality under a policy, the two change builders (instances of the locale \<open>pair_builder\<close>) and the
    call of the diff engine. The engine is the package imara-diff and an argument; \<open>engine_ok\<close> is what its documentation
    promises and the only hypothesis on it, for inputs under its limit of tokens.
  \<^item> \<open>Chunk_Optimizer\<close> (\<open>chunk_optimizer.rs\<close>): moving block boundaries, proved once in the locale \<open>boundary_shift\<close>, which
    stands for the trait of that name.
  \<^item> \<open>By_Line\<close> (\<open>by_line.rs\<close>, \<open>compare_lines\<close> in \<open>lib.rs\<close>): the line comparison. It never panics, its result is a valid and
    tight diff under the policy and patches the first text into the second; the alignment of its second step is optimal.
  \<^item> \<open>Word_Chunks\<close>, \<open>Word_Delimiters\<close> (\<open>by_word.rs\<close>, \<open>compare_punctuation\<close> in \<open>by_char.rs\<close>): the words and line breaks of a
    text, the second instance of \<open>boundary_shift\<close> on them, and the matcher of the punctuation between matched words.
  \<^item> \<open>Diff_Split\<close>, \<open>Word_Blocks\<close> (\<open>splitter.rs\<close>, the sub-iterables of \<open>by_word.rs\<close>): cutting a word diff at starts of lines into
    blocks; a cut lies on the path of the diff, so every block gets the diff of its own words.
  \<^item> \<open>By_Word\<close> (\<open>by_word.rs\<close>): the corrections for whitespace and the comparison of two texts by words. \<open>loose_path\<close> is a diff up
    to bytes a policy ignores; the blocks tile both texts and their fragments form such a diff.
  \<^item> \<open>Line_Fragments\<close> (\<open>manager.rs\<close>, \<open>compare_lines_inner_report\<close> and \<open>compare_lines_inner\<close> in \<open>lib.rs\<close>): the comparison of two texts by lines
    refined by words, and the squashing of adjoining fragments. It never panics; its fragments carry the offsets of their
    lines and their pieces patch the first text into the second, up to line breaks under the default policy (the last
    line of a text has none) and up to whitespace under the others. Lines, words and punctuation are three instances of
    the engine, hence three arguments; the letters, \<open>char::is_alphabetic\<close>, are an argument too.
  \<^item> \<open>Block_Tracker\<close> (\<open>tracker.rs\<close>): the tracker of changed blocks under edits and refreshes. After any session a refresh
    gives a valid diff.

  \<^bold>\<open>Diff view\<close>, \<open>src/src-app/src/diff\<close>.
  \<^item> \<open>Fragment_Lines\<close>: what the view relies on. The lines of the fragments are the ranges \<open>compare_lines\<close> returns.
  \<^item> \<open>Diff_Hunks\<close> (\<open>engine.rs\<close>): the hunks of two texts, the marked runs of each row and the counts of added and removed lines.
    \<open>hunk_path\<close> says that the rows between hunks are paired one to one and equal under the policy; the runs mark exactly
    the bytes of a row that the pieces of the fragments cover.
  \<^item> \<open>Diff_Align\<close> (\<open>align.rs\<close>): the cells of the side-by-side view; every line of either text has one, in order.
  \<^item> \<open>Diff_Rows\<close> (\<open>rows.rs\<close>): the rows of both views, with folds and a cap. The windows that are built for a long file give the
    rows of the full alignment; with the folds opened, every line is shown; no view exceeds the cap. A colour is an opaque value.
  \<^item> \<open>Diff_Revert\<close> (\<open>revert.rs\<close> in \<open>src/src-app/src/app/diff_dock\<close>, \<open>normalize_git_text\<close> in \<open>git.rs\<close>): the hunk a row offers, and the text that
    replaces the file. Reverting a hunk changes its rows only, and reverting all of them restores the base when both texts
    end with a line break; without one the code joins two lines, which the last theorem of the theory shows.

  \<^bold>\<open>Host\<close>, \<open>src/crates/paneflow-host/src\<close>.
  \<^item> \<open>Output_Tail\<close> (\<open>tail.rs\<close>, \<open>stream.rs\<close>): the bounded tail and the stream on top of it, both refining the history of
    all bytes through the locale \<open>byte_log\<close>; a follower reads without gaps, and a wait ends.
  \<^item> \<open>Write_Approvals\<close> (\<open>agent_write.rs\<close>): which agent may write into which session. Nothing is admitted before a human
    allowed it, refusals are told once, the rate is limited, relayed text carries no control sequences.

  \<^bold>\<open>Git\<close>, \<open>src/crates/paneflow-git/src\<close>. \<open>Git_Engine\<close> (\<open>engine.rs\<close>): which engine answers a call, when a directory is
  pinned to the command line, and what the counters count. Answers and files read are arguments.

  \<^bold>\<open>Agents\<close>. \<open>Agent_Activity\<close> (\<open>ai_hook.rs\<close> and \<open>agent.rs\<close> in \<open>src/crates/paneflow-ipc-client/src\<close>, \<open>agent.rs\<close> in
  \<open>src/crates/paneflow-host/src\<close>, \<open>activity.rs\<close> in \<open>src/crates/paneflow-serve/src\<close>): events from the wire, the states they lead to, and the
  summary of a session as a function of the events accepted. JSON values and UUIDs are parameters, the records \<open>json\<close>
  and \<open>uuid\<close>.

  \<^bold>\<open>Layout\<close>, \<open>src/src-app/src/layout\<close>.
  \<^item> \<open>Layout_Tree\<close> (\<open>tree.rs\<close>, \<open>mutations.rs\<close>, \<open>close.rs\<close>, \<open>queries.rs\<close>, \<open>presets.rs\<close>): the tree of panes and every operation
    on it, over an arbitrary floating-point arithmetic, the record \<open>arith\<close>. \<open>layout_reach\<close> is reachability by the
    operations; reachable trees are well formed for every arithmetic, and their ratios sound in exact arithmetic.
  \<^item> \<open>Layout_Drag\<close> (\<open>render.rs\<close>): the drag of a divider as a sequence of mouse events.
  \<^item> \<open>Layout_Navigation\<close> (\<open>navigation.rs\<close>): the rectangles of the panes and the nearest one in a direction.
  \<^item> \<open>Layout_Store\<close> (\<open>serde.rs\<close>, \<open>src/crates/paneflow-config/src/schema/layout.rs\<close>): validation of a layout that was read, saving
    and restoring; a saved layout comes back as it was.

  \<^bold>\<open>How the parts meet.\<close> \<open>By_Line\<close> uses both change builders and the optimizer; \<open>By_Word\<close> uses the optimizer on words, the
  matcher and the splitter; \<open>Line_Fragments\<close> composes \<open>By_Line\<close> and \<open>By_Word\<close>; \<open>Block_Tracker\<close> calls \<open>compare_lines\<close>;
  the hunks of the diff view are built from the fragments of \<open>Line_Fragments\<close> and its rows from the hunks;
  the stream keeps its bytes in the tail; the activity of an agent is driven by the events that pass \<open>from_params\<close>;
  dragging, navigation and the saved form work on the same tree and rely on its invariants.

  \<^bold>\<open>Not modelled.\<close> Rendering and input of the application and of the terminal (\<open>src/src-app\<close> outside the layout and the diff view,
  and the heights, colours and highlighting of the latter): elements for a window system. The bindings to the terminal
  emulator: generated. The servers, process and pseudo-terminal handling of host and worker, the control protocol and its clients: input and output around the state modelled here.
  Reading of configuration and session files, installers, telemetry and the git queries themselves: calls into the
  operating system or packages. Functions compiled for tests only, such as the comparison by code points in \<open>by_char.rs\<close>.
  The bus that broadcasts agent events: channels between threads.
\<close>

end
